(* ===== verification/Veloco_Prelude.thy ===== *)
theory Veloco_Prelude
  imports Main "HOL-Library.Word" "HOL-Library.Multiset"
begin

text \<open>
  Shared vocabulary of the development: the machine types of the C code, the status
  codes of \<^verbatim>\<open>include/veloco/common.h\<close>, and the generic facts about machine words,
  lists and singly linked chains that the component theories rest on.
\<close>

unbundle bit_operations_syntax

section \<open>Machine types\<close>

type_synonym usize = "64 word"
type_synonym u64 = "64 word"

abbreviation SIZE_MAX :: usize where
  "SIZE_MAX \<equiv> - 1"

abbreviation UINT64_MAX :: u64 where
  "UINT64_MAX \<equiv> - 1"

text \<open>The status codes every fallible operation of the library returns.\<close>

datatype vl_status =
    VL_OK
  | VL_ERROR_INVALID_ARGUMENT
  | VL_ERROR_OUT_OF_MEMORY
  | VL_ERROR_SYSTEM
  | VL_ERROR_UNSUPPORTED
  | VL_ERROR_INVALID_STATE
  | VL_ERROR_WOULD_BLOCK
  | VL_ERROR_CLOSED
  | VL_ERROR_CANCELLED

section \<open>Proof automation collections\<close>

named_theorems rt_simps \<open>projections of the runtime operations\<close>
named_theorems rt_intros \<open>preservation rules of the runtime invariant\<close>

section \<open>Machine words\<close>

lemma usize_unat_max [simp]: "unat (- 1 :: usize) = 18446744073709551615"
  by (simp add: unsigned_minus_1_eq_mask mask_eq_exp_minus_1)

lemma usize_lt: "unat (w :: usize) < 2 ^ 64"
  using unsigned_less [of w] by simp

lemma usize_unat_add: "unat (a :: usize) + unat b < 2 ^ 64 \<Longrightarrow> unat (a + b) = unat a + unat b"
  by (simp add: unat_add_lem [THEN iffD1])

lemma usize_unat_Suc: "unat (a :: usize) < 2 ^ 64 - 1 \<Longrightarrow> unat (a + 1) = Suc (unat a)"
  using usize_unat_add [of a 1] by simp

lemma usize_unat_sub: "b \<le> a \<Longrightarrow> unat ((a :: usize) - b) = unat a - unat b"
  by (rule unat_sub)

lemma usize_unat_pred: "(a :: usize) \<noteq> 0 \<Longrightarrow> unat (a - 1) = unat a - 1"
  by (rule unat_minus_one)

lemma usize_le_iff: "(a :: usize) \<le> b \<longleftrightarrow> unat a \<le> unat b"
  by (rule word_le_nat_alt)

lemma usize_less_iff: "(a :: usize) < b \<longleftrightarrow> unat a < unat b"
  by (rule word_less_nat_alt)

lemma usize_eq_iff: "(a :: usize) = b \<longleftrightarrow> unat a = unat b"
  by (simp add: word_unat_eq_iff)

lemma usize_unat_pos: "(a :: usize) \<noteq> 0 \<longleftrightarrow> 0 < unat a"
  by (simp add: unat_gt_0)

lemmas usize_nat_conv = usize_le_iff usize_less_iff usize_eq_iff

lemma usize_uint_of_int: "0 \<le> i \<Longrightarrow> i < 2 ^ 64 \<Longrightarrow> uint (of_int i :: usize) = i"
  by (simp add: unsigned_of_int take_bit_int_eq_self)

lemma usize_uint_lt: "uint (c :: usize) < 2 ^ 64"
  using unsigned_less [of c] by simp

lemma usize_uint_max_sub: "uint (SIZE_MAX - c :: usize) = 2 ^ 64 - 1 - uint c"
  using usize_uint_lt [of c]
  by (simp add: uint_sub_if' word_le_def unsigned_minus_1_eq_mask mask_eq_exp_minus_1)

text \<open>The fast modulus of the ring indices: masking by a power of two minus one.\<close>

lemma usize_and_mask:
  assumes "k < 64"
  shows "unat ((w :: usize) AND (2 ^ k - 1)) = unat w mod 2 ^ k"
proof -
  have "w AND (2 ^ k - 1) = take_bit k w"
    by (simp add: take_bit_eq_mask mask_eq_exp_minus_1)
  then show ?thesis
    by (simp only: unsigned_take_bit_eq) (simp add: take_bit_eq_mod)
qed

text \<open>The bit trick for powers of two means what it says.\<close>

lemma nat_and_pred_zero:
  fixes n :: nat
  assumes "n \<noteq> 0" "n AND (n - 1) = 0"
  shows "\<exists>k. n = 2 ^ k"
  using assms
proof (induction n rule: less_induct)
  case (less n)
  show ?case
  proof (cases "even n")
    case True
    then obtain m where m: "n = 2 * m" by (elim evenE)
    with less.prems have "0 < m" by simp
    have "n - 1 = 2 * (m - 1) + 1" using m \<open>0 < m\<close> by simp
    then have "n AND (n - 1) = 2 * (m AND (m - 1))"
      using m by (subst and_nat_rec) simp
    with less.prems have "m AND (m - 1) = 0" by simp
    with less.IH [of m] m \<open>0 < m\<close> obtain k where "m = 2 ^ k" by auto
    then have "n = 2 ^ Suc k" using m by simp
    then show ?thesis by blast
  next
    case False
    then obtain m where m: "n = 2 * m + 1" by (elim oddE)
    then have "n AND (n - 1) = 2 * m"
      by (subst and_nat_rec) simp
    with less.prems m have "n = 2 ^ 0" by simp
    then show ?thesis by blast
  qed
qed

lemma usize_pow2_unat: "k < 64 \<Longrightarrow> unat (2 ^ k :: usize) = 2 ^ k"
  using unat_of_nat [of "2 ^ k", where 'a = 64] power_strict_increasing [of k 64 "2 :: nat"]
  by simp

lemma usize_and_pred_zero:
  assumes "(w :: usize) \<noteq> 0" "w AND (w - 1) = 0"
  shows "\<exists>k < 64. w = 2 ^ k"
proof -
  have "unat (w AND (w - 1)) = unat w AND (unat w - 1)"
    by (simp only: unsigned_and_eq usize_unat_pred [OF assms(1)])
  with assms have "unat w \<noteq> 0" "unat w AND (unat w - 1) = 0"
    by (simp_all add: unat_eq_zero)
  then obtain k where k: "unat w = 2 ^ k"
    using nat_and_pred_zero by blast
  have "(2::nat) ^ k < 2 ^ 64" using usize_lt [of w] k by simp
  then have "k < 64" by (rule power_less_imp_less_exp [rotated]) simp
  then have "unat w = unat (2 ^ k :: usize)" using k by (simp add: usize_pow2_unat)
  then have "w = 2 ^ k" by (simp only: usize_eq_iff)
  with \<open>k < 64\<close> show ?thesis by blast
qed

section \<open>Ring indices\<close>

lemma ring_index_distinct:
  fixes i b n :: nat
  assumes "i < b" "b < i + n"
  shows "i mod n \<noteq> b mod n"
proof
  assume "i mod n = b mod n"
  then have "n dvd b - i"
    using assms(1) by (metis mod_eq_dvd_iff_nat less_imp_le)
  moreover have "0 < b - i" "b - i < n" using assms by simp_all
  ultimately show False by (simp add: nat_dvd_not_less)
qed

end
