(* ===== verification/Run_Queue.thy ===== *)
theory Run_Queue
  imports Veloco_Prelude
begin

text \<open>
  The P-local work-stealing deque of \<^verbatim>\<open>src/runtime/run_queue.c\<close>, one definition per
  function.  The queue is the C struct: \<open>rq_slots\<close> is \<open>None\<close> for the NULL array and
  otherwise the array of slots, a slot being \<open>None\<close> for the NULL pointer.  Every guard
  \<^verbatim>\<open>queue == NULL\<close> of the source takes the same early return as \<^verbatim>\<open>queue->slots == NULL\<close>,
  so a queue without slots stands for both.  The operations here run without
  interference; the theory \<open>Chase_Lev\<close> splits them at their atomic accesses and
  interleaves an owner with any number of thieves.
\<close>

section \<open>The queue and its operations\<close>

record 'a vl_run_queue =
  rq_top :: usize
  rq_bottom :: usize
  rq_slots :: "'a option list option"
  rq_capacity :: usize
  rq_mask :: usize

definition vl_run_queue_zero :: "'a vl_run_queue" where
  "vl_run_queue_zero =
     \<lparr>rq_top = 0, rq_bottom = 0, rq_slots = None, rq_capacity = 0, rq_mask = 0\<rparr>"

definition vl_is_power_of_two :: "usize \<Rightarrow> bool" where
  "vl_is_power_of_two v \<longleftrightarrow> v \<noteq> 0 \<and> v AND (v - 1) = 0"

text \<open>\<open>calloc_ok\<close> says whether the allocation of the slot array succeeds.\<close>

definition vl_run_queue_init ::
  "bool \<Rightarrow> 'a vl_run_queue \<Rightarrow> usize \<Rightarrow> vl_status \<times> 'a vl_run_queue" where
  "vl_run_queue_init calloc_ok q capacity =
     (if rq_slots q \<noteq> None \<or> capacity < 2 \<or> \<not> vl_is_power_of_two capacity
         \<or> capacity > SIZE_MAX div 8
      then (VL_ERROR_INVALID_ARGUMENT, q)
      else if \<not> calloc_ok then (VL_ERROR_OUT_OF_MEMORY, q)
      else (VL_OK, q\<lparr>rq_slots := Some (replicate (unat capacity) None),
                     rq_capacity := capacity, rq_mask := capacity - 1,
                     rq_top := 0, rq_bottom := 0\<rparr>))"

definition vl_run_queue_destroy :: "'a vl_run_queue \<Rightarrow> 'a vl_run_queue" where
  "vl_run_queue_destroy q = vl_run_queue_zero"

definition vl_run_queue_owner_push ::
  "'a vl_run_queue \<Rightarrow> 'a option \<Rightarrow> vl_status \<times> 'a vl_run_queue" where
  "vl_run_queue_owner_push q item =
     (case (rq_slots q, item) of
        (Some slots, Some x) \<Rightarrow>
          (let bottom = rq_bottom q; top = rq_top q in
           if bottom - top \<ge> rq_capacity q then (VL_ERROR_WOULD_BLOCK, q)
           else (VL_OK, q\<lparr>rq_slots := Some (slots[unat (bottom AND rq_mask q) := Some x]),
                          rq_bottom := bottom + 1\<rparr>))
      | _ \<Rightarrow> (VL_ERROR_INVALID_ARGUMENT, q))"

definition vl_run_queue_owner_pop :: "'a vl_run_queue \<Rightarrow> 'a option \<times> 'a vl_run_queue" where
  "vl_run_queue_owner_pop q =
     (case rq_slots q of
        None \<Rightarrow> (None, q)
      | Some slots \<Rightarrow>
          (if rq_bottom q = 0 then (None, q)
           else
             let bottom = rq_bottom q - 1; q1 = q\<lparr>rq_bottom := bottom\<rparr>; top = rq_top q1 in
             if top > bottom then (None, q1\<lparr>rq_bottom := top\<rparr>)
             else
               let item = slots ! unat (bottom AND rq_mask q) in
               if top = bottom
               then (item, q1\<lparr>rq_top := top + 1, rq_bottom := top + 1\<rparr>)
               else (item, q1)))"

definition vl_run_queue_steal :: "'a vl_run_queue \<Rightarrow> 'a option \<times> 'a vl_run_queue" where
  "vl_run_queue_steal q =
     (case rq_slots q of
        None \<Rightarrow> (None, q)
      | Some slots \<Rightarrow>
          (let top = rq_top q; bottom = rq_bottom q in
           if top \<ge> bottom then (None, q)
           else (slots ! unat (top AND rq_mask q), q\<lparr>rq_top := top + 1\<rparr>)))"

text \<open>The batch loop: \<open>maximum\<close> bounds the number of stolen items.\<close>

fun vl_run_queue_steal_batch :: "'a vl_run_queue \<Rightarrow> nat \<Rightarrow> 'a list \<times> 'a vl_run_queue" where
  "vl_run_queue_steal_batch q 0 = ([], q)"
| "vl_run_queue_steal_batch q (Suc maximum) =
     (case vl_run_queue_steal q of
        (None, q') \<Rightarrow> ([], q')
      | (Some x, q') \<Rightarrow>
          (case vl_run_queue_steal_batch q' maximum of (xs, q'') \<Rightarrow> (x # xs, q'')))"

definition vl_run_queue_length :: "'a vl_run_queue \<Rightarrow> usize" where
  "vl_run_queue_length q =
     (case rq_slots q of
        None \<Rightarrow> 0
      | Some _ \<Rightarrow> if rq_bottom q > rq_top q then rq_bottom q - rq_top q else 0)"

section \<open>Abstraction to a sequence\<close>

text \<open>
  \<open>rq_shape\<close> is what \<^verbatim>\<open>vl_run_queue_init\<close> sets up: a power-of-two slot array with its mask.
  \<open>rq_holds q xs\<close> says that the live window \<open>top ..< bottom\<close> of the ring spells \<open>xs\<close>, the
  oldest item first.
\<close>

definition rq_cap :: "'a vl_run_queue \<Rightarrow> nat" where
  "rq_cap q = unat (rq_capacity q)"

definition rq_shape :: "'a vl_run_queue \<Rightarrow> bool" where
  "rq_shape q \<longleftrightarrow>
     (\<exists>k slots. 1 \<le> k \<and> k \<le> 60 \<and> rq_capacity q = 2 ^ k \<and> rq_mask q = 2 ^ k - 1
        \<and> rq_slots q = Some slots \<and> length slots = 2 ^ k)"

definition rq_slot :: "'a vl_run_queue \<Rightarrow> nat \<Rightarrow> 'a option" where
  "rq_slot q i = the (rq_slots q) ! (i mod rq_cap q)"

definition rq_holds :: "'a vl_run_queue \<Rightarrow> 'a list \<Rightarrow> bool" where
  "rq_holds q xs \<longleftrightarrow> rq_shape q \<and> unat (rq_bottom q) = unat (rq_top q) + length xs
     \<and> length xs \<le> rq_cap q \<and> (\<forall>i < length xs. rq_slot q (unat (rq_top q) + i) = Some (xs ! i))"

lemma rq_shape_cap:
  assumes "rq_shape q"
  shows "2 \<le> rq_cap q" "rq_cap q \<le> 2 ^ 60"
proof -
  obtain k where k: "1 \<le> k" "k \<le> 60" "rq_capacity q = 2 ^ k"
    using assms by (auto simp: rq_shape_def)
  then have "rq_cap q = 2 ^ k" by (simp add: rq_cap_def usize_pow2_unat)
  moreover have "(2::nat) ^ 1 \<le> 2 ^ k" using k(1) by (rule power_increasing) simp
  moreover have "(2::nat) ^ k \<le> 2 ^ 60" using k(2) by (rule power_increasing) simp
  ultimately show "2 \<le> rq_cap q" "rq_cap q \<le> 2 ^ 60" by simp_all
qed

lemma rq_shape_index:
  assumes "rq_shape q"
  shows "unat (w AND rq_mask q) = unat w mod rq_cap q"
proof -
  obtain k where k: "k \<le> 60" "rq_capacity q = 2 ^ k" "rq_mask q = 2 ^ k - 1"
    using assms by (auto simp: rq_shape_def)
  then show ?thesis by (simp add: rq_cap_def usize_and_mask usize_pow2_unat)
qed

lemma rq_shape_slots:
  assumes "rq_shape q"
  obtains slots where "rq_slots q = Some slots" "length slots = rq_cap q"
  using assms by (auto simp: rq_shape_def rq_cap_def usize_pow2_unat)

lemma rq_shape_update [simp]:
  "rq_shape (q\<lparr>rq_bottom := b\<rparr>) = rq_shape q" "rq_shape (q\<lparr>rq_top := t\<rparr>) = rq_shape q"
  "rq_cap (q\<lparr>rq_bottom := b\<rparr>) = rq_cap q" "rq_cap (q\<lparr>rq_top := t\<rparr>) = rq_cap q"
  "rq_cap (q\<lparr>rq_slots := s\<rparr>) = rq_cap q"
  "rq_slot (q\<lparr>rq_bottom := b\<rparr>) i = rq_slot q i" "rq_slot (q\<lparr>rq_top := t\<rparr>) i = rq_slot q i"
  by (simp_all add: rq_shape_def rq_cap_def rq_slot_def)

lemma rq_shape_store [simp]:
  assumes "rq_slots q = Some slots"
  shows "rq_shape (q\<lparr>rq_slots := Some (slots[j := v])\<rparr>) = rq_shape q"
  using assms by (simp add: rq_shape_def)

text \<open>Storing at a fresh ring position leaves the rest of the window alone.\<close>

lemma rq_slot_store:
  assumes "rq_shape q" "rq_slots q = Some slots"
  shows "rq_slot (q\<lparr>rq_slots := Some (slots[unat w mod rq_cap q := v])\<rparr>) (unat w) = v"
    and "i < unat w \<Longrightarrow> unat w < i + rq_cap q \<Longrightarrow>
         rq_slot (q\<lparr>rq_slots := Some (slots[unat w mod rq_cap q := v])\<rparr>) i = rq_slot q i"
proof -
  from assms have len: "length slots = rq_cap q" by (auto elim: rq_shape_slots)
  have pos: "0 < rq_cap q" using rq_shape_cap [OF assms(1)] by simp
  show "rq_slot (q\<lparr>rq_slots := Some (slots[unat w mod rq_cap q := v])\<rparr>) (unat w) = v"
    using len pos by (simp add: rq_slot_def)
  show "rq_slot (q\<lparr>rq_slots := Some (slots[unat w mod rq_cap q := v])\<rparr>) i = rq_slot q i"
    if "i < unat w" "unat w < i + rq_cap q"
    using assms(2) ring_index_distinct [OF that] by (simp add: rq_slot_def)
qed

section \<open>Functional behaviour\<close>

lemma rq_init_ok:
  assumes "rq_slots q = None" "2 \<le> capacity" "vl_is_power_of_two capacity"
    "capacity \<le> SIZE_MAX div 8"
  shows "\<exists>q'. vl_run_queue_init True q capacity = (VL_OK, q') \<and> rq_holds q' []
          \<and> rq_cap q' = unat capacity"
proof -
  obtain k where k: "k < 64" "capacity = 2 ^ k"
    using assms(3) usize_and_pred_zero by (auto simp: vl_is_power_of_two_def)
  have "unat capacity \<le> (2 ^ 64 - 1) div 8"
    using assms(4) by (simp add: usize_le_iff unat_div)
  then have "(2::nat) ^ k < 2 ^ 61" using k by (simp add: usize_pow2_unat)
  then have "k < 61" by (rule power_less_imp_less_exp [rotated]) simp
  moreover have "2 \<le> (2::nat) ^ k" using assms(2) k by (simp add: usize_le_iff usize_pow2_unat)
  then have "1 \<le> k" by (cases k) simp_all
  ultimately show ?thesis
    using assms k
    by (auto simp: vl_run_queue_init_def rq_holds_def rq_shape_def rq_cap_def usize_pow2_unat
        not_less intro!: exI [of _ k])
qed

lemma rq_push_ok:
  assumes "rq_holds q xs" "length xs < rq_cap q" "unat (rq_bottom q) < 2 ^ 64 - 1"
  shows "\<exists>q'. vl_run_queue_owner_push q (Some x) = (VL_OK, q') \<and> rq_holds q' (xs @ [x])"
proof -
  from assms(1) have shape: "rq_shape q" and bot: "unat (rq_bottom q) = unat (rq_top q) + length xs"
    by (simp_all add: rq_holds_def)
  obtain slots where slots: "rq_slots q = Some slots" using shape by (rule rq_shape_slots)
  have "rq_top q \<le> rq_bottom q" using bot by (simp add: usize_le_iff)
  then have diff: "\<not> rq_bottom q - rq_top q \<ge> rq_capacity q"
    using bot assms(2) by (simp add: usize_le_iff usize_unat_sub rq_cap_def)
  let ?q = "q\<lparr>rq_slots := Some (slots[unat (rq_bottom q) mod rq_cap q := Some x]), rq_bottom := rq_bottom q + 1\<rparr>"
  have old: "rq_slot ?q (unat (rq_top q) + i) = Some (xs ! i)" if "i < length xs" for i
    using that assms(1,2) bot rq_slot_store(2) [OF shape slots, of "unat (rq_top q) + i" "rq_bottom q"]
    by (simp add: rq_holds_def)
  have new: "rq_slot ?q (unat (rq_top q) + length xs) = Some x"
    using rq_slot_store(1) [OF shape slots, of "rq_bottom q"] bot by simp
  have "rq_holds ?q (xs @ [x])"
    using shape slots bot assms(2,3) old new
    by (auto simp: rq_holds_def usize_unat_Suc nth_append less_Suc_eq)
  with diff slots show ?thesis
    by (simp add: vl_run_queue_owner_push_def Let_def rq_shape_index [OF shape])
qed

lemma rq_push_full:
  assumes "rq_holds q xs" "length xs = rq_cap q"
  shows "vl_run_queue_owner_push q (Some x) = (VL_ERROR_WOULD_BLOCK, q)"
proof -
  from assms(1) have shape: "rq_shape q" and bot: "unat (rq_bottom q) = unat (rq_top q) + length xs"
    by (simp_all add: rq_holds_def)
  obtain slots where slots: "rq_slots q = Some slots" using shape by (rule rq_shape_slots)
  have "rq_top q \<le> rq_bottom q" using bot by (simp add: usize_le_iff)
  then have "rq_bottom q - rq_top q \<ge> rq_capacity q"
    using bot assms(2) by (simp add: usize_le_iff usize_unat_sub rq_cap_def)
  with slots show ?thesis by (simp add: vl_run_queue_owner_push_def Let_def)
qed

lemma rq_holds_bottom_le:
  assumes "rq_holds q xs"
  shows "unat (rq_top q) + length xs < 2 ^ 64"
  using assms usize_lt [of "rq_bottom q"] by (simp add: rq_holds_def)

lemma rq_pop_empty:
  assumes "rq_holds q []"
  shows "vl_run_queue_owner_pop q = (None, q)"
proof -
  have shape: "rq_shape q" and eq: "rq_bottom q = rq_top q"
    using assms by (simp_all add: rq_holds_def usize_eq_iff)
  obtain slots where "rq_slots q = Some slots" using shape by (rule rq_shape_slots)
  moreover have "rq_top q > rq_bottom q - 1" if "rq_bottom q \<noteq> 0"
    using that eq by (simp add: usize_less_iff usize_unat_pred unat_gt_0)
  ultimately show ?thesis
    using eq by (cases q) (auto simp: vl_run_queue_owner_pop_def Let_def)
qed

lemma rq_pop_snoc:
  assumes "rq_holds q (xs @ [x])"
  shows "\<exists>q'. vl_run_queue_owner_pop q = (Some x, q') \<and> rq_holds q' xs"
proof -
  from assms have shape: "rq_shape q"
    and bot: "unat (rq_bottom q) = unat (rq_top q) + Suc (length xs)"
    and len: "Suc (length xs) \<le> rq_cap q"
    and live: "\<And>i. i < Suc (length xs) \<Longrightarrow> rq_slot q (unat (rq_top q) + i) = Some ((xs @ [x]) ! i)"
    by (simp_all add: rq_holds_def)
  obtain slots where slots: "rq_slots q = Some slots" using shape by (rule rq_shape_slots)
  have nz: "rq_bottom q \<noteq> 0" using bot by auto
  have pred: "unat (rq_bottom q - 1) = unat (rq_top q) + length xs"
    using nz bot by (simp add: usize_unat_pred)
  have item: "slots ! unat ((rq_bottom q - 1) AND rq_mask q) = Some x"
    using live [of "length xs"] slots pred by (simp add: rq_shape_index [OF shape] rq_slot_def)
  have live': "rq_slot q (unat (rq_top q) + i) = Some (xs ! i)" if "i < length xs" for i
    using live [of i] that by (simp add: nth_append)
  have le: "\<not> rq_top q > rq_bottom q - 1" using pred by (simp add: usize_less_iff)
  show ?thesis
  proof (cases "xs = []")
    case True
    then have eq: "rq_top q = rq_bottom q - 1" using pred by (simp add: usize_eq_iff)
    then have "vl_run_queue_owner_pop q
        = (Some x, q\<lparr>rq_bottom := rq_bottom q, rq_top := rq_bottom q\<rparr>)"
      using slots nz item by (simp add: vl_run_queue_owner_pop_def Let_def)
    moreover have "rq_holds (q\<lparr>rq_bottom := rq_bottom q, rq_top := rq_bottom q\<rparr>) xs"
      using True shape by (simp add: rq_holds_def)
    ultimately show ?thesis by blast
  next
    case False
    then have "rq_top q \<noteq> rq_bottom q - 1" using pred by (simp add: usize_eq_iff)
    then have "vl_run_queue_owner_pop q = (Some x, q\<lparr>rq_bottom := rq_bottom q - 1\<rparr>)"
      using slots nz item le by (simp add: vl_run_queue_owner_pop_def Let_def)
    moreover have "rq_holds (q\<lparr>rq_bottom := rq_bottom q - 1\<rparr>) xs"
      using shape pred len live' by (simp add: rq_holds_def)
    ultimately show ?thesis by blast
  qed
qed

lemma rq_steal_empty:
  assumes "rq_holds q []"
  shows "vl_run_queue_steal q = (None, q)"
proof -
  have shape: "rq_shape q" and eq: "rq_bottom q = rq_top q"
    using assms by (simp_all add: rq_holds_def usize_eq_iff)
  obtain slots where "rq_slots q = Some slots" using shape by (rule rq_shape_slots)
  with eq show ?thesis by (simp add: vl_run_queue_steal_def Let_def)
qed

lemma rq_steal_cons:
  assumes "rq_holds q (x # xs)"
  shows "\<exists>q'. vl_run_queue_steal q = (Some x, q') \<and> rq_holds q' xs"
proof -
  from assms have shape: "rq_shape q"
    and bot: "unat (rq_bottom q) = Suc (unat (rq_top q) + length xs)"
    and len: "Suc (length xs) \<le> rq_cap q"
    and live: "\<And>i. i < Suc (length xs) \<Longrightarrow> rq_slot q (unat (rq_top q) + i) = Some ((x # xs) ! i)"
    by (simp_all add: rq_holds_def)
  obtain slots where slots: "rq_slots q = Some slots" using shape by (rule rq_shape_slots)
  have lt: "\<not> rq_top q \<ge> rq_bottom q" using bot by (simp add: usize_le_iff)
  have up: "unat (rq_top q + 1) = Suc (unat (rq_top q))"
    using rq_holds_bottom_le [OF assms] by (simp add: usize_unat_Suc)
  have item: "slots ! unat (rq_top q AND rq_mask q) = Some x"
    using live [of 0] slots by (simp add: rq_shape_index [OF shape] rq_slot_def)
  have live': "rq_slot q (Suc (unat (rq_top q) + i)) = Some (xs ! i)" if "i < length xs" for i
    using live [of "Suc i"] that by simp
  have "rq_holds (q\<lparr>rq_top := rq_top q + 1\<rparr>) xs"
    using shape bot len up live' by (simp add: rq_holds_def)
  with slots lt item show ?thesis by (simp add: vl_run_queue_steal_def Let_def)
qed

lemma rq_length_holds:
  assumes "rq_holds q xs"
  shows "unat (vl_run_queue_length q) = length xs"
proof -
  have bot: "unat (rq_bottom q) = unat (rq_top q) + length xs" and "rq_shape q"
    using assms by (simp_all add: rq_holds_def)
  then obtain slots where "rq_slots q = Some slots" by (elim rq_shape_slots)
  moreover have "unat (rq_bottom q - rq_top q) = length xs"
    using bot by (simp add: usize_unat_sub usize_le_iff)
  moreover have "rq_top q < rq_bottom q \<longleftrightarrow> xs \<noteq> []"
    using bot by (simp add: usize_less_iff)
  ultimately show ?thesis by (cases "xs = []") (simp_all add: vl_run_queue_length_def)
qed

lemma rq_steal_batch_holds:
  assumes "rq_holds q xs"
  shows "\<exists>q'. vl_run_queue_steal_batch q n = (take n xs, q') \<and> rq_holds q' (drop n xs)"
  using assms
proof (induction n arbitrary: q xs)
  case 0
  then show ?case by simp
next
  case (Suc n)
  show ?case
  proof (cases xs)
    case Nil
    with Suc.prems show ?thesis by (simp add: rq_steal_empty)
  next
    case (Cons x ys)
    obtain q1 where q1: "vl_run_queue_steal q = (Some x, q1)" "rq_holds q1 ys"
      using rq_steal_cons [OF Suc.prems [unfolded Cons]] by blast
    obtain q2 where "vl_run_queue_steal_batch q1 n = (take n ys, q2)" "rq_holds q2 (drop n ys)"
      using Suc.IH [OF q1(2)] by blast
    with q1(1) Cons show ?thesis by simp
  qed
qed

section \<open>The deque interface\<close>

text \<open>
  What the scheduler relies on: the owner works at one end, thieves at the other, and
  the queue refuses only when it is full.  \<open>room\<close> is the side condition that the
  bottom counter has not reached its last value.
\<close>

locale work_deque =
  fixes push :: "'q \<Rightarrow> 'a option \<Rightarrow> vl_status \<times> 'q"
    and pop :: "'q \<Rightarrow> 'a option \<times> 'q"
    and steal :: "'q \<Rightarrow> 'a option \<times> 'q"
    and holds :: "'q \<Rightarrow> 'a list \<Rightarrow> bool"
    and cap :: "'q \<Rightarrow> nat"
    and room :: "'q \<Rightarrow> bool"
  assumes push_ok: "holds q xs \<Longrightarrow> length xs < cap q \<Longrightarrow> room q \<Longrightarrow>
      \<exists>q'. push q (Some x) = (VL_OK, q') \<and> holds q' (xs @ [x])"
    and push_full: "holds q xs \<Longrightarrow> \<not> length xs < cap q \<Longrightarrow> push q (Some x) = (VL_ERROR_WOULD_BLOCK, q)"
    and pop_empty: "holds q [] \<Longrightarrow> pop q = (None, q)"
    and pop_snoc: "holds q (xs @ [x]) \<Longrightarrow> \<exists>q'. pop q = (Some x, q') \<and> holds q' xs"
    and steal_empty: "holds q [] \<Longrightarrow> steal q = (None, q)"
    and steal_cons: "holds q (x # xs) \<Longrightarrow> \<exists>q'. steal q = (Some x, q') \<and> holds q' xs"
begin

lemma push_cases:
  assumes "holds q xs" "room q"
  obtains q' where "push q (Some x) = (VL_OK, q')" "holds q' (xs @ [x])"
  | "push q (Some x) = (VL_ERROR_WOULD_BLOCK, q)"
  using push_ok [OF assms(1) _ assms(2)] push_full [OF assms(1)] by blast

lemma pop_cases:
  assumes "holds q xs"
  obtains "xs = []" "pop q = (None, q)"
  | ys x q' where "xs = ys @ [x]" "pop q = (Some x, q')" "holds q' ys"
  using assms pop_empty pop_snoc by (cases xs rule: rev_cases) blast+

lemma steal_cases:
  assumes "holds q xs"
  obtains "xs = []" "steal q = (None, q)"
  | x ys q' where "xs = x # ys" "steal q = (Some x, q')" "holds q' ys"
  using assms steal_empty steal_cons by (cases xs) blast+

lemma push_pop:
  assumes "holds q xs" "length xs < cap q" "room q"
  shows "\<exists>q' q''. push q (Some x) = (VL_OK, q') \<and> pop q' = (Some x, q'') \<and> holds q'' xs"
  using push_ok [OF assms] pop_snoc by blast

lemma push_steal:
  assumes "holds q (y # xs)" "Suc (length xs) < cap q" "room q"
  shows "\<exists>q' q''. push q (Some x) = (VL_OK, q') \<and> steal q' = (Some y, q'') \<and> holds q'' (xs @ [x])"
proof -
  obtain q' where "push q (Some x) = (VL_OK, q')" "holds q' (y # xs @ [x])"
    using push_ok [OF assms(1) _ assms(3), of x] assms(2) by auto
  then show ?thesis using steal_cons by blast
qed

end

definition rq_room :: "'a vl_run_queue \<Rightarrow> bool" where
  "rq_room q \<longleftrightarrow> unat (rq_bottom q) < 2 ^ 64 - 1"

interpretation rq: work_deque vl_run_queue_owner_push vl_run_queue_owner_pop vl_run_queue_steal
  rq_holds rq_cap rq_room
proof
  fix q :: "'a vl_run_queue" and xs and x
  show "\<exists>q'. vl_run_queue_owner_push q (Some x) = (VL_OK, q') \<and> rq_holds q' (xs @ [x])"
    if "rq_holds q xs" "length xs < rq_cap q" "rq_room q"
    using that(1,2) that(3) [unfolded rq_room_def] by (rule rq_push_ok)
  show "vl_run_queue_owner_push q (Some x) = (VL_ERROR_WOULD_BLOCK, q)"
    if "rq_holds q xs" "\<not> length xs < rq_cap q"
    using that(1) by (rule rq_push_full) (use that in \<open>simp add: rq_holds_def\<close>)
qed (fact rq_pop_empty rq_pop_snoc rq_steal_empty rq_steal_cons)+

end
