(* ===== verification/Chase_Lev.thy ===== *)
theory Chase_Lev
  imports Run_Queue
begin

text \<open>
  The run queue under concurrency.  \<^verbatim>\<open>vl_run_queue_owner_push\<close>, \<^verbatim>\<open>vl_run_queue_owner_pop\<close>
  and \<^verbatim>\<open>vl_run_queue_steal\<close> are cut at their atomic accesses: every rule of \<open>dq_step\<close>
  performs one load, store or compare-and-exchange of \<^verbatim>\<open>src/runtime/run_queue.c\<close>, and the
  owner interleaves with any number of thieves, numbered by \<open>nat\<close>.  The accesses are
  sequentially consistent; the weaker orders and fences of the source are not modelled.
  A program counter holds the values the C locals have at that point.  \<open>ds_pushed\<close> and
  \<open>ds_taken\<close> record the items whose push succeeded and the items that were handed out.
\<close>

section \<open>Program counters and the shared state\<close>

datatype 'a owner_pc =
    OIdle
  | OPush1 'a usize                 \<comment> \<open>item, loaded bottom\<close>
  | OPush2 'a usize usize           \<comment> \<open>item, bottom, loaded top\<close>
  | OPush3 'a usize                 \<comment> \<open>slot stored\<close>
  | OPop1 usize                     \<comment> \<open>decremented bottom, not yet stored\<close>
  | OPop2 usize                     \<comment> \<open>decremented bottom stored\<close>
  | OPop3 usize usize               \<comment> \<open>top loaded\<close>
  | OPop4 usize usize "'a option"   \<comment> \<open>slot loaded\<close>
  | OPop5 usize                     \<comment> \<open>exchange done, bottom to be reset\<close>

datatype 'a thief_pc =
    TIdle
  | TSteal1 usize                   \<comment> \<open>loaded top\<close>
  | TSteal2 usize                   \<comment> \<open>loaded bottom, top below it\<close>
  | TSteal3 usize "'a option"       \<comment> \<open>slot loaded\<close>

record 'a deque_sys =
  ds_q :: "'a vl_run_queue"
  ds_owner :: "'a owner_pc"
  ds_thief :: "nat \<Rightarrow> 'a thief_pc"
  ds_pushed :: "'a list"
  ds_taken :: "'a list"

text \<open>Item hand-over: a NULL item is not handed out.\<close>

definition take_item :: "'a option \<Rightarrow> 'a deque_sys \<Rightarrow> 'a deque_sys" where
  "take_item it s = s\<lparr>ds_taken := (case it of None \<Rightarrow> [] | Some x \<Rightarrow> [x]) @ ds_taken s\<rparr>"

abbreviation ds_top :: "'a deque_sys \<Rightarrow> usize" where
  "ds_top s \<equiv> rq_top (ds_q s)"

abbreviation ds_bottom :: "'a deque_sys \<Rightarrow> usize" where
  "ds_bottom s \<equiv> rq_bottom (ds_q s)"

definition load_slot :: "'a vl_run_queue \<Rightarrow> usize \<Rightarrow> 'a option" where
  "load_slot q i = the (rq_slots q) ! unat (i AND rq_mask q)"

definition store_slot :: "'a vl_run_queue \<Rightarrow> usize \<Rightarrow> 'a \<Rightarrow> 'a vl_run_queue" where
  "store_slot q i x =
     q\<lparr>rq_slots := map_option (\<lambda>sl. sl[unat (i AND rq_mask q) := Some x]) (rq_slots q)\<rparr>"

section \<open>The atomic steps\<close>

inductive owner_push_step :: "'a deque_sys \<Rightarrow> 'a deque_sys \<Rightarrow> bool" where
  push_load_bottom: "ds_owner s = OIdle \<Longrightarrow>
     owner_push_step s (s\<lparr>ds_owner := OPush1 x (ds_bottom s)\<rparr>)"
| push_load_top: "ds_owner s = OPush1 x b \<Longrightarrow>
     owner_push_step s (s\<lparr>ds_owner := OPush2 x b (ds_top s)\<rparr>)"
| push_full: "ds_owner s = OPush2 x b t \<Longrightarrow> b - t \<ge> rq_capacity (ds_q s) \<Longrightarrow>
     owner_push_step s (s\<lparr>ds_owner := OIdle\<rparr>)"
| push_store_slot: "ds_owner s = OPush2 x b t \<Longrightarrow> \<not> b - t \<ge> rq_capacity (ds_q s) \<Longrightarrow>
     owner_push_step s (s\<lparr>ds_q := store_slot (ds_q s) b x, ds_owner := OPush3 x b\<rparr>)"
| push_store_bottom: "ds_owner s = OPush3 x b \<Longrightarrow>
     owner_push_step s (s\<lparr>ds_q := (ds_q s)\<lparr>rq_bottom := b + 1\<rparr>, ds_owner := OIdle,
                          ds_pushed := x # ds_pushed s\<rparr>)"

inductive owner_pop_step :: "'a deque_sys \<Rightarrow> 'a deque_sys \<Rightarrow> bool" where
  pop_zero: "ds_owner s = OIdle \<Longrightarrow> ds_bottom s = 0 \<Longrightarrow> owner_pop_step s s"
| pop_load_bottom: "ds_owner s = OIdle \<Longrightarrow> ds_bottom s \<noteq> 0 \<Longrightarrow>
     owner_pop_step s (s\<lparr>ds_owner := OPop1 (ds_bottom s - 1)\<rparr>)"
| pop_store_bottom: "ds_owner s = OPop1 b \<Longrightarrow>
     owner_pop_step s (s\<lparr>ds_q := (ds_q s)\<lparr>rq_bottom := b\<rparr>, ds_owner := OPop2 b\<rparr>)"
| pop_load_top: "ds_owner s = OPop2 b \<Longrightarrow>
     owner_pop_step s (s\<lparr>ds_owner := OPop3 b (ds_top s)\<rparr>)"
| pop_empty: "ds_owner s = OPop3 b t \<Longrightarrow> t > b \<Longrightarrow>
     owner_pop_step s (s\<lparr>ds_q := (ds_q s)\<lparr>rq_bottom := t\<rparr>, ds_owner := OIdle\<rparr>)"
| pop_load_slot: "ds_owner s = OPop3 b t \<Longrightarrow> \<not> t > b \<Longrightarrow>
     owner_pop_step s (s\<lparr>ds_owner := OPop4 b t (load_slot (ds_q s) b)\<rparr>)"
| pop_return: "ds_owner s = OPop4 b t it \<Longrightarrow> t \<noteq> b \<Longrightarrow>
     owner_pop_step s (take_item it (s\<lparr>ds_owner := OIdle\<rparr>))"
| pop_cas_win: "ds_owner s = OPop4 b t it \<Longrightarrow> t = b \<Longrightarrow> ds_top s = t \<Longrightarrow>
     owner_pop_step s (take_item it (s\<lparr>ds_q := (ds_q s)\<lparr>rq_top := t + 1\<rparr>, ds_owner := OPop5 t\<rparr>))"
| pop_cas_lose: "ds_owner s = OPop4 b t it \<Longrightarrow> t = b \<Longrightarrow> ds_top s \<noteq> t \<Longrightarrow>
     owner_pop_step s (s\<lparr>ds_owner := OPop5 t\<rparr>)"
| pop_reset_bottom: "ds_owner s = OPop5 t \<Longrightarrow>
     owner_pop_step s (s\<lparr>ds_q := (ds_q s)\<lparr>rq_bottom := t + 1\<rparr>, ds_owner := OIdle\<rparr>)"

inductive thief_step :: "nat \<Rightarrow> 'a deque_sys \<Rightarrow> 'a deque_sys \<Rightarrow> bool" where
  steal_load_top: "ds_thief s i = TIdle \<Longrightarrow>
     thief_step i s (s\<lparr>ds_thief := (ds_thief s)(i := TSteal1 (ds_top s))\<rparr>)"
| steal_empty: "ds_thief s i = TSteal1 t \<Longrightarrow> t \<ge> ds_bottom s \<Longrightarrow>
     thief_step i s (s\<lparr>ds_thief := (ds_thief s)(i := TIdle)\<rparr>)"
| steal_load_bottom: "ds_thief s i = TSteal1 t \<Longrightarrow> \<not> t \<ge> ds_bottom s \<Longrightarrow>
     thief_step i s (s\<lparr>ds_thief := (ds_thief s)(i := TSteal2 t)\<rparr>)"
| steal_load_slot: "ds_thief s i = TSteal2 t \<Longrightarrow>
     thief_step i s (s\<lparr>ds_thief := (ds_thief s)(i := TSteal3 t (load_slot (ds_q s) t))\<rparr>)"
| steal_cas_win: "ds_thief s i = TSteal3 t it \<Longrightarrow> ds_top s = t \<Longrightarrow>
     thief_step i s (take_item it (s\<lparr>ds_q := (ds_q s)\<lparr>rq_top := t + 1\<rparr>,
                                    ds_thief := (ds_thief s)(i := TIdle)\<rparr>))"
| steal_cas_lose: "ds_thief s i = TSteal3 t it \<Longrightarrow> ds_top s \<noteq> t \<Longrightarrow>
     thief_step i s (s\<lparr>ds_thief := (ds_thief s)(i := TIdle)\<rparr>)"

inductive dq_step :: "'a deque_sys \<Rightarrow> 'a deque_sys \<Rightarrow> bool" where
  dq_push: "owner_push_step s s' \<Longrightarrow> dq_step s s'"
| dq_pop: "owner_pop_step s s' \<Longrightarrow> dq_step s s'"
| dq_steal: "thief_step i s s' \<Longrightarrow> dq_step s s'"

definition dq_start :: "'a vl_run_queue \<Rightarrow> 'a deque_sys" where
  "dq_start q = \<lparr>ds_q = q, ds_owner = OIdle, ds_thief = (\<lambda>_. TIdle), ds_pushed = [], ds_taken = []\<rparr>"

text \<open>Runs start from a queue that \<^verbatim>\<open>vl_run_queue_init\<close> has set up.\<close>

inductive dq_reach :: "usize \<Rightarrow> 'a deque_sys \<Rightarrow> bool" for capacity where
  dq_init: "vl_run_queue_init True vl_run_queue_zero capacity = (VL_OK, q) \<Longrightarrow>
     dq_reach capacity (dq_start q)"
| dq_next: "dq_reach capacity s \<Longrightarrow> dq_step s s' \<Longrightarrow> dq_reach capacity s'"

inductive_cases owner_push_stepE: "owner_push_step s s'"
inductive_cases owner_pop_stepE: "owner_pop_step s s'"
inductive_cases thief_stepE: "thief_step i s s'"

section \<open>The invariant\<close>

text \<open>
  \<open>dq_end\<close> is the logical end of the queue: while the owner has taken back the bottom
  speculatively, the item it aims at still belongs to the queue.  \<open>dq_limit\<close> is the end
  as far as thieves are concerned: once the owner has seen a smaller top, its item is out
  of their reach.
\<close>

definition dq_end :: "'a deque_sys \<Rightarrow> nat" where
  "dq_end s = (case ds_owner s of
      OPop2 b \<Rightarrow> unat b + 1
    | OPop3 b t \<Rightarrow> unat b + 1
    | OPop4 b t it \<Rightarrow> unat b + 1
    | OPop5 t \<Rightarrow> unat t + 1
    | _ \<Rightarrow> unat (ds_bottom s))"

definition dq_limit :: "'a deque_sys \<Rightarrow> nat" where
  "dq_limit s = (case ds_owner s of
      OPop3 b t \<Rightarrow> if t < b then unat b else unat b + 1
    | OPop4 b t it \<Rightarrow> if t < b then unat b else unat b + 1
    | _ \<Rightarrow> dq_end s)"

definition owner_ok :: "'a vl_run_queue \<Rightarrow> 'a list \<Rightarrow> 'a owner_pc \<Rightarrow> bool" where
  "owner_ok q xs pc = (case pc of
      OIdle \<Rightarrow> True
    | OPush1 x b \<Rightarrow> b = rq_bottom q
    | OPush2 x b t \<Rightarrow> b = rq_bottom q \<and> unat t \<le> unat (rq_top q)
    | OPush3 x b \<Rightarrow> b = rq_bottom q \<and> rq_slot q (unat b) = Some x \<and> length xs < rq_cap q
    | OPop1 b \<Rightarrow> unat (rq_bottom q) = unat b + 1
    | OPop2 b \<Rightarrow> rq_bottom q = b
    | OPop3 b t \<Rightarrow> rq_bottom q = b \<and> unat t \<le> unat (rq_top q)
         \<and> (t < b \<longrightarrow> unat (rq_top q) \<le> unat b) \<and> (b < t \<longrightarrow> unat t = unat b + 1)
    | OPop4 b t it \<Rightarrow> rq_bottom q = b \<and> t \<le> b \<and> unat t \<le> unat (rq_top q)
         \<and> (t < b \<longrightarrow> unat (rq_top q) \<le> unat b)
         \<and> (unat (rq_top q) \<le> unat b \<longrightarrow> it = Some (last xs))
    | OPop5 t \<Rightarrow> rq_bottom q = t \<and> unat (rq_top q) = unat t + 1)"

definition thief_ok :: "nat \<Rightarrow> nat \<Rightarrow> 'a list \<Rightarrow> 'a thief_pc \<Rightarrow> bool" where
  "thief_ok tp limit xs pc = (case pc of
      TIdle \<Rightarrow> True
    | TSteal1 t \<Rightarrow> unat t \<le> tp
    | TSteal2 t \<Rightarrow> unat t \<le> tp \<and> (unat t = tp \<longrightarrow> tp < limit)
    | TSteal3 t it \<Rightarrow> unat t \<le> tp \<and> (unat t = tp \<longrightarrow> tp < limit \<and> it = Some (hd xs)))"

definition dq_core :: "'a deque_sys \<Rightarrow> 'a list \<Rightarrow> bool" where
  "dq_core s xs \<longleftrightarrow> rq_shape (ds_q s) \<and> unat (ds_top s) + length xs = dq_end s
     \<and> length xs \<le> rq_cap (ds_q s)
     \<and> (\<forall>i < length xs. rq_slot (ds_q s) (unat (ds_top s) + i) = Some (xs ! i))
     \<and> mset (ds_pushed s) = mset (ds_taken s) + mset xs \<and> dq_end s \<le> length (ds_pushed s)"

definition dq_inv :: "'a deque_sys \<Rightarrow> 'a list \<Rightarrow> bool" where
  "dq_inv s xs \<longleftrightarrow> dq_core s xs \<and> owner_ok (ds_q s) xs (ds_owner s)
     \<and> (\<forall>i. thief_ok (unat (ds_top s)) (dq_limit s) xs (ds_thief s i))"

lemmas dq_pc_defs = dq_end_def dq_limit_def owner_ok_def

lemma thief_ok_advance: "thief_ok tp limit xs pc \<Longrightarrow> thief_ok (Suc tp) limit' xs' pc"
  by (auto simp: thief_ok_def split: thief_pc.splits)

lemma thief_ok_mono:
  "thief_ok tp limit xs pc \<Longrightarrow> (tp < limit \<Longrightarrow> tp < limit' \<and> hd xs' = hd xs) \<Longrightarrow>
   thief_ok tp limit' xs' pc"
  by (auto simp: thief_ok_def split: thief_pc.splits)

lemma load_slot_eq: "rq_shape q \<Longrightarrow> load_slot q i = rq_slot q (unat i)"
  by (simp add: load_slot_def rq_slot_def rq_shape_index)

lemma store_slot_simps [simp]:
  "rq_top (store_slot q i x) = rq_top q" "rq_bottom (store_slot q i x) = rq_bottom q"
  "rq_cap (store_slot q i x) = rq_cap q" "rq_shape (store_slot q i x) = rq_shape q"
  by (auto simp: store_slot_def rq_cap_def rq_shape_def)

lemma store_slot_slot:
  assumes "rq_shape q"
  shows "rq_slot (store_slot q w x) (unat w) = Some x"
    and "i < unat w \<Longrightarrow> unat w < i + rq_cap q \<Longrightarrow> rq_slot (store_slot q w x) i = rq_slot q i"
proof -
  obtain slots where slots: "rq_slots q = Some slots" using assms by (rule rq_shape_slots)
  then have eq: "store_slot q w x = q\<lparr>rq_slots := Some (slots[unat w mod rq_cap q := Some x])\<rparr>"
    by (simp add: store_slot_def rq_shape_index [OF assms])
  show "rq_slot (store_slot q w x) (unat w) = Some x"
    unfolding eq by (rule rq_slot_store(1) [OF assms slots])
  show "rq_slot (store_slot q w x) i = rq_slot q i" if "i < unat w" "unat w < i + rq_cap q"
    unfolding eq using that by (rule rq_slot_store(2) [OF assms slots])
qed

lemma take_item_simps [simp]:
  "ds_q (take_item it s) = ds_q s" "ds_owner (take_item it s) = ds_owner s"
  "ds_thief (take_item it s) = ds_thief s" "ds_pushed (take_item it s) = ds_pushed s"
  "ds_taken (take_item (Some x) s) = x # ds_taken s"
  "dq_end (take_item it s) = dq_end s" "dq_limit (take_item it s) = dq_limit s"
  by (simp_all add: take_item_def dq_end_def dq_limit_def split: owner_pc.splits)

lemma dq_limit_le: "dq_limit s \<le> dq_end s"
  by (simp add: dq_limit_def dq_end_def split: owner_pc.splits)

section \<open>Every step keeps the invariant\<close>

lemma owner_push_step_inv:
  assumes "owner_push_step s s'" "dq_inv s xs" "length (ds_pushed s') < 2 ^ 64"
  shows "\<exists>ys. dq_inv s' ys"
  using assms(1)
proof (cases rule: owner_push_step.cases)
  case (push_load_bottom x)
  with assms(2) have "dq_inv s' xs"
    by (simp add: dq_inv_def dq_core_def dq_pc_defs)
  then show ?thesis ..
next
  case (push_load_top x b)
  with assms(2) have "dq_inv s' xs"
    by (simp add: dq_inv_def dq_core_def dq_pc_defs)
  then show ?thesis ..
next
  case (push_full x b t)
  with assms(2) have "dq_inv s' xs"
    by (simp add: dq_inv_def dq_core_def dq_pc_defs)
  then show ?thesis ..
next
  case (push_store_slot x b t)
  have core: "dq_core s xs" and b: "b = ds_bottom s" and t: "unat t \<le> unat (ds_top s)"
    and fin: "unat (ds_top s) + length xs = unat b"
    using assms(2) push_store_slot(2) by (simp_all add: dq_inv_def dq_core_def dq_pc_defs)
  have shape: "rq_shape (ds_q s)" using core by (simp add: dq_core_def)
  have "t \<le> b" using t fin by (simp add: usize_le_iff)
  then have room: "unat b - unat t < rq_cap (ds_q s)"
    using push_store_slot(3) by (simp add: usize_le_iff usize_unat_sub rq_cap_def)
  have "rq_slot (store_slot (ds_q s) b x) (unat (ds_top s) + i) = Some (xs ! i)" if "i < length xs" for i
    using that core room t fin store_slot_slot(2) [OF shape, of "unat (ds_top s) + i" b]
    by (simp add: dq_core_def)
  then have "dq_inv s' xs"
    using assms(2) push_store_slot room t fin store_slot_slot(1) [OF shape, of b]
    by (simp add: dq_inv_def dq_core_def dq_pc_defs)
  then show ?thesis ..
next
  case (push_store_bottom x b)
  have fin: "unat (ds_top s) + length xs = unat b" and "unat b \<le> length (ds_pushed s)"
    using assms(2) push_store_bottom(2) by (simp_all add: dq_inv_def dq_core_def dq_pc_defs)
  then have up: "unat (b + 1) = Suc (unat b)"
    using assms(3) push_store_bottom(1) by (simp add: usize_unat_Suc)
  have "rq_slot (ds_q s) (unat b) = Some x"
    using assms(2) push_store_bottom(2) unfolding dq_inv_def owner_ok_def by auto
  then have "rq_slot (ds_q s) (unat (ds_top s) + i) = Some ((xs @ [x]) ! i)" if "i < Suc (length xs)" for i
    using that assms(2) fin
    by (cases "i = length xs") (simp_all add: dq_inv_def dq_core_def nth_append)
  then have core: "dq_core s' (xs @ [x])"
    using assms(2) push_store_bottom fin up
    by (simp add: dq_inv_def dq_core_def dq_pc_defs)
  have ok: "thief_ok (unat (ds_top s)) (unat b) xs (ds_thief s i)" for i
    using assms(2) push_store_bottom(2) by (simp add: dq_inv_def dq_pc_defs)
  have "hd (xs @ [x]) = hd xs" if "unat (ds_top s) < unat b" using that fin by (cases xs) simp_all
  then have "thief_ok (unat (ds_top s')) (dq_limit s') (xs @ [x]) (ds_thief s' i)" for i
    using thief_ok_mono [OF ok, of "Suc (unat b)" "xs @ [x]" i] push_store_bottom(1) up
    by (simp add: dq_pc_defs del: hd_append2)
  with core have "dq_inv s' (xs @ [x])"
    using push_store_bottom by (simp add: dq_inv_def owner_ok_def)
  then show ?thesis ..
qed

lemma owner_pop_step_inv:
  assumes "owner_pop_step s s'" "dq_inv s xs" "length (ds_pushed s') < 2 ^ 64"
  shows "\<exists>ys. dq_inv s' ys"
  using assms(1)
proof (cases rule: owner_pop_step.cases)
  case pop_zero
  with assms(2) show ?thesis by blast
next
  case pop_load_bottom
  with assms(2) have "dq_inv s' xs"
    by (simp add: dq_inv_def dq_core_def dq_pc_defs usize_unat_pred unat_gt_0)
  then show ?thesis ..
next
  case (pop_store_bottom b)
  then have "unat (ds_bottom s) = Suc (unat b)"
    using assms(2) by (simp add: dq_inv_def owner_ok_def)
  with pop_store_bottom have "dq_inv s' xs"
    using assms(2) by (simp add: dq_inv_def dq_core_def dq_pc_defs)
  then show ?thesis ..
next
  case (pop_load_top b)
  then have ok: "thief_ok (unat (ds_top s)) (Suc (unat b)) xs (ds_thief s i)" for i
    using assms(2) by (simp add: dq_inv_def dq_pc_defs)
  have "thief_ok (unat (ds_top s')) (dq_limit s') xs (ds_thief s' i)" for i
    using thief_ok_mono [OF ok, of "dq_limit s'" xs i] pop_load_top
    by (simp add: dq_pc_defs usize_less_iff split: if_splits)
  then have "dq_inv s' xs"
    using assms(2) pop_load_top by (simp add: dq_inv_def dq_core_def dq_pc_defs usize_less_iff)
  then show ?thesis ..
next
  case (pop_empty b t)
  then have "unat t = Suc (unat b)" "\<not> t < b"
    using assms(2) by (simp_all add: dq_inv_def owner_ok_def)
  with pop_empty have "dq_inv s' xs"
    using assms(2) by (simp add: dq_inv_def dq_core_def dq_pc_defs)
  then show ?thesis ..
next
  case (pop_load_slot b t)
  have shape: "rq_shape (ds_q s)" and fin: "unat (ds_top s) + length xs = unat b + 1"
    and live: "\<forall>i < length xs. rq_slot (ds_q s) (unat (ds_top s) + i) = Some (xs ! i)"
    using assms(2) pop_load_slot by (simp_all add: dq_inv_def dq_core_def dq_pc_defs)
  have "load_slot (ds_q s) b = Some (last xs)" if "unat (ds_top s) \<le> unat b"
  proof -
    have "xs \<noteq> []" and "unat (ds_top s) + (length xs - 1) = unat b" using fin that by auto
    then show ?thesis
      using live [rule_format, of "length xs - 1"] by (simp add: load_slot_eq [OF shape] last_conv_nth)
  qed
  then have "dq_inv s' xs"
    using assms(2) pop_load_slot by (simp add: dq_inv_def dq_core_def dq_pc_defs)
  then show ?thesis ..
next
  case (pop_return b t it)
  have ok: "unat (ds_top s) \<le> unat b" "it = Some (last xs)" "t < b"
    and fin: "unat (ds_top s) + length xs = unat b + 1"
    using assms(2) pop_return(2,3) by (simp_all add: dq_inv_def dq_core_def dq_pc_defs order_less_le)
  then obtain ys x where xs: "xs = ys @ [x]" by (cases xs rule: rev_cases) auto
  have tok: "thief_ok (unat (ds_top s)) (unat b) xs (ds_thief s i)" for i
    using assms(2) pop_return(2) ok by (simp add: dq_inv_def dq_pc_defs)
  have "thief_ok (unat (ds_top s')) (dq_limit s') ys (ds_thief s' i)" for i
  proof -
    have "unat (ds_bottom s) = unat b" using assms(2) pop_return(2) by (simp add: dq_inv_def owner_ok_def)
    moreover have "ys \<noteq> []" if "unat (ds_top s) < unat b" using that fin xs by auto
    ultimately show ?thesis
      using thief_ok_mono [OF tok, of "unat b" ys i] pop_return(1) xs by (simp add: dq_pc_defs)
  qed
  moreover have "rq_slot (ds_q s) (unat (ds_top s) + i) = Some (ys ! i)" if "i < length ys" for i
    using that assms(2) xs by (simp add: dq_inv_def dq_core_def nth_append less_Suc_eq)
  ultimately have "dq_inv s' ys"
    using assms(2) pop_return ok fin xs
    by (simp add: dq_inv_def dq_core_def dq_pc_defs)
  then show ?thesis ..
next
  case (pop_cas_win b t it)
  have fin: "unat (ds_top s) + length xs = unat b + 1" "unat b < length (ds_pushed s)"
    and it: "it = Some (last xs)"
    using assms(2) pop_cas_win(2-4) by (simp_all add: dq_inv_def dq_core_def dq_pc_defs)
  then have len: "length xs = 1" using pop_cas_win by simp
  then obtain x where xs: "xs = [x]" by (cases xs) auto
  have up: "unat (t + 1) = Suc (unat t)"
    using fin pop_cas_win assms(3) by (simp add: usize_unat_Suc)
  have "thief_ok (unat (ds_top s')) (dq_limit s') [] (ds_thief s' i)" for i
    using assms(2) pop_cas_win up
    by (auto simp: dq_inv_def intro: thief_ok_advance)
  moreover have "mset (ds_pushed s) = add_mset x (mset (ds_taken s))"
    using assms(2) xs by (simp add: dq_inv_def dq_core_def)
  ultimately have "dq_inv s' []"
    using assms(2) pop_cas_win up fin it xs
    by (simp add: dq_inv_def dq_core_def dq_pc_defs)
  then show ?thesis ..
next
  case (pop_cas_lose b t it)
  have "unat (ds_top s) \<noteq> unat t" using pop_cas_lose(4) by (simp add: usize_eq_iff)
  moreover have "unat t \<le> unat (ds_top s)" "unat (ds_top s) + length xs = unat b + 1"
    using assms(2) pop_cas_lose(2) by (simp_all add: dq_inv_def dq_core_def dq_pc_defs)
  ultimately have "unat (ds_top s) = Suc (unat t)" using pop_cas_lose(3) by simp
  moreover from this have "xs = []"
    using \<open>unat (ds_top s) + length xs = unat b + 1\<close> pop_cas_lose(3) by simp
  then have "dq_inv s []" using assms(2) by simp
  ultimately have "dq_inv s' []"
    using pop_cas_lose by (simp add: dq_inv_def dq_core_def dq_pc_defs)
  then show ?thesis ..
next
  case (pop_reset_bottom t)
  have fin: "unat (ds_top s) + length xs = unat t + 1" "unat t < length (ds_pushed s)"
    using assms(2) pop_reset_bottom(2) by (auto simp: dq_inv_def dq_core_def dq_pc_defs)
  have up: "unat (t + 1) = Suc (unat t)"
    using fin pop_reset_bottom assms(3) by (simp add: usize_unat_Suc)
  then have "dq_inv s' xs"
    using assms(2) pop_reset_bottom by (auto simp: dq_inv_def dq_core_def dq_pc_defs)
  then show ?thesis ..
qed

lemma thief_step_inv:
  assumes "thief_step i s s'" "dq_inv s xs" "length (ds_pushed s') < 2 ^ 64"
  shows "\<exists>ys. dq_inv s' ys"
proof -
  have inv: "dq_core s xs" "owner_ok (ds_q s) xs (ds_owner s)"
    "\<And>j. thief_ok (unat (ds_top s)) (dq_limit s) xs (ds_thief s j)"
    using assms(2) by (simp_all add: dq_inv_def)
  have move: "dq_inv (s\<lparr>ds_thief := (ds_thief s)(i := pc)\<rparr>) xs"
    if "thief_ok (unat (ds_top s)) (dq_limit s) xs pc" for pc
  proof -
    have "dq_end (s\<lparr>ds_thief := (ds_thief s)(i := pc)\<rparr>) = dq_end s"
      "dq_limit (s\<lparr>ds_thief := (ds_thief s)(i := pc)\<rparr>) = dq_limit s"
      by (simp_all add: dq_end_def dq_limit_def split: owner_pc.split)
    then show ?thesis using inv that by (simp add: dq_inv_def dq_core_def)
  qed
  show ?thesis
    using assms(1)
  proof (cases rule: thief_step.cases)
    case steal_load_top
    then show ?thesis using move [of "TSteal1 (ds_top s)"] by (auto simp: thief_ok_def)
  next
    case (steal_empty t)
    then show ?thesis using move [of TIdle] by (auto simp: thief_ok_def)
  next
    case (steal_load_bottom t)
    have "unat (ds_top s) < dq_limit s" if "unat t = unat (ds_top s)"
    proof -
      have "unat (ds_top s) < unat (ds_bottom s)"
        using steal_load_bottom(3) that by (simp add: usize_le_iff)
      then show ?thesis using inv(1,2) by (cases "ds_owner s") (simp_all add: dq_core_def dq_pc_defs)
    qed
    then show ?thesis
      using steal_load_bottom inv(3) [of i] move [of "TSteal2 t"] by (auto simp: thief_ok_def)
  next
    case (steal_load_slot t)
    have "load_slot (ds_q s) t = Some (hd xs)" if "unat t = unat (ds_top s)"
    proof -
      have "unat (ds_top s) < dq_end s"
        using inv(3) [of i] steal_load_slot that dq_limit_le [of s] by (simp add: thief_ok_def)
      then have "0 < length xs" using inv(1) by (auto simp: dq_core_def)
      moreover have "rq_shape (ds_q s)" using inv(1) by (simp add: dq_core_def)
      moreover have "rq_slot (ds_q s) (unat (ds_top s) + 0) = Some (xs ! 0)"
        using inv(1) \<open>0 < length xs\<close> unfolding dq_core_def by blast
      ultimately show ?thesis using that by (simp add: load_slot_eq hd_conv_nth)
    qed
    then show ?thesis
      using steal_load_slot inv(3) [of i] move [of "TSteal3 t (load_slot (ds_q s) t)"]
      by (auto simp: thief_ok_def)
  next
    case (steal_cas_lose t it)
    then show ?thesis using move [of TIdle] by (auto simp: thief_ok_def)
  next
    case (steal_cas_win t it)
    have lim: "unat (ds_top s) < dq_limit s" and it: "it = Some (hd xs)"
      using inv(3) [of i] steal_cas_win(2,3) by (simp_all add: thief_ok_def)
    have "dq_end s \<le> length (ds_pushed s)" using inv(1) by (simp add: dq_core_def)
    then have up: "unat (t + 1) = Suc (unat (ds_top s))"
      using lim dq_limit_le [of s] assms(3) steal_cas_win(1,3) by (simp add: usize_unat_Suc)
    obtain x ys where xs: "xs = x # ys"
      using inv(1) lim dq_limit_le [of s] by (cases xs) (simp_all add: dq_core_def)
    have live: "rq_slot (ds_q s) (Suc (unat (ds_top s) + k)) = Some (ys ! k)" if "k < length ys" for k
    proof -
      have "rq_slot (ds_q s) (unat (ds_top s) + Suc k) = Some (xs ! Suc k)"
        using that inv(1) xs unfolding dq_core_def by (metis Suc_less_eq length_Cons)
      then show ?thesis using xs by simp
    qed
    have ends: "dq_end s' = dq_end s" "dq_limit s' = dq_limit s"
      using steal_cas_win(1) by (simp_all add: dq_end_def dq_limit_def split: owner_pc.splits)
    have "dq_core s' ys"
      using inv(1) steal_cas_win(1) xs it up live ends by (simp add: dq_core_def)
    moreover have "owner_ok (ds_q s') ys (ds_owner s')"
      using inv(1,2) steal_cas_win(1) xs up lim
      by (auto simp: dq_core_def dq_pc_defs usize_less_iff split: owner_pc.splits if_splits)
    moreover have "thief_ok (unat (ds_top s')) (dq_limit s') ys (ds_thief s' j)" for j
      using thief_ok_advance [OF inv(3) [of j], of "dq_limit s'" ys] steal_cas_win(1) up
      by (simp add: thief_ok_def)
    ultimately have "dq_inv s' ys" by (simp add: dq_inv_def)
    then show ?thesis ..
  qed
qed

lemma dq_step_pushed: "dq_step s s' \<Longrightarrow> length (ds_pushed s) \<le> length (ds_pushed s')"
  by (induction rule: dq_step.induct)
     (auto elim!: owner_push_stepE owner_pop_stepE thief_stepE)

lemma dq_step_inv:
  assumes "dq_step s s'" "dq_inv s xs" "length (ds_pushed s') < 2 ^ 64"
  shows "\<exists>ys. dq_inv s' ys"
  using assms(1)
proof (cases rule: dq_step.cases)
  case dq_push
  then show ?thesis using assms(2,3) by (rule owner_push_step_inv)
next
  case dq_pop
  then show ?thesis using assms(2,3) by (rule owner_pop_step_inv)
next
  case (dq_steal i)
  then show ?thesis using assms(2,3) by (rule thief_step_inv)
qed

lemma dq_start_inv:
  assumes "vl_run_queue_init True vl_run_queue_zero capacity = (VL_OK, q)"
  shows "dq_inv (dq_start (q :: 'a vl_run_queue)) []" "rq_capacity q = capacity"
proof -
  have pre: "\<not> capacity < 2" "vl_is_power_of_two capacity" "\<not> capacity > SIZE_MAX div 8"
    using assms by (auto simp: vl_run_queue_init_def split: if_splits)
  then have "rq_holds q []" "rq_top q = 0"
    using rq_init_ok [of "vl_run_queue_zero :: 'a vl_run_queue" capacity] assms
    by (auto simp: vl_run_queue_init_def vl_run_queue_zero_def not_less split: if_splits)
  then show "dq_inv (dq_start q) []"
    by (simp add: rq_holds_def dq_start_def dq_inv_def dq_core_def dq_pc_defs thief_ok_def)
  show "rq_capacity q = capacity"
    using assms pre by (auto simp: vl_run_queue_init_def vl_run_queue_zero_def)
qed

lemma dq_step_capacity: "dq_step s s' \<Longrightarrow> rq_capacity (ds_q s') = rq_capacity (ds_q s)"
  by (induction rule: dq_step.induct)
     (auto elim!: owner_push_stepE owner_pop_stepE thief_stepE simp: store_slot_def)

lemma dq_reach_capacity: "dq_reach capacity s \<Longrightarrow> rq_capacity (ds_q s) = capacity"
  by (induction rule: dq_reach.induct) (auto simp: dq_start_inv(2) dq_start_def dq_step_capacity)

lemma dq_reach_inv:
  assumes "dq_reach capacity s" "length (ds_pushed s) < 2 ^ 64"
  shows "\<exists>xs. dq_inv s xs"
  using assms
proof (induction rule: dq_reach.induct)
  case (dq_init q)
  then show ?case using dq_start_inv(1) by blast
next
  case (dq_next s s')
  moreover have "length (ds_pushed s) < 2 ^ 64"
    using dq_step_pushed [OF dq_next(2)] dq_next(4) by simp
  ultimately show ?case using dq_step_inv by blast
qed

section \<open>Undisturbed runs compute the sequential operations\<close>

lemma ds_owner_idle: "ds_owner s = OIdle \<Longrightarrow> s\<lparr>ds_q := r, ds_owner := OIdle\<rparr> = s\<lparr>ds_q := r\<rparr>"
  "ds_owner s = OIdle \<Longrightarrow> s\<lparr>ds_owner := OIdle\<rparr> = s"
  by simp_all

lemma push_solo:
  assumes "ds_owner s = OIdle" "rq_slots (ds_q s) = Some slots"
    "vl_run_queue_owner_push (ds_q s) (Some x) = (st, q')"
  shows "owner_push_step\<^sup>*\<^sup>* s
           (s\<lparr>ds_q := q', ds_pushed := (if st = VL_OK then x # ds_pushed s else ds_pushed s)\<rparr>)"
proof -
  let ?b = "ds_bottom s" and ?t = "ds_top s"
  let ?s1 = "s\<lparr>ds_owner := OPush1 x ?b\<rparr>" and ?s2 = "s\<lparr>ds_owner := OPush2 x ?b ?t\<rparr>"
  let ?s3 = "s\<lparr>ds_q := store_slot (ds_q s) ?b x, ds_owner := OPush3 x ?b\<rparr>"
  have "owner_push_step s ?s1" using assms(1) by (rule push_load_bottom)
  moreover have "owner_push_step ?s1 ?s2" using push_load_top [of ?s1 x ?b] by simp
  ultimately have pre: "owner_push_step\<^sup>*\<^sup>* s ?s2"
    by (meson converse_rtranclp_into_rtranclp r_into_rtranclp)
  show ?thesis
  proof (cases "?b - ?t \<ge> rq_capacity (ds_q s)")
    case True
    then have "st = VL_ERROR_WOULD_BLOCK" "q' = ds_q s"
      using assms(2,3) by (simp_all add: vl_run_queue_owner_push_def Let_def)
    moreover have "owner_push_step ?s2 s"
      using push_full [of ?s2 x ?b ?t] True ds_owner_idle(2) [OF assms(1)] by simp
    ultimately show ?thesis using pre by (simp add: rtranclp.rtrancl_into_rtrancl)
  next
    case False
    then have "st = VL_OK" "q' = (store_slot (ds_q s) ?b x)\<lparr>rq_bottom := ?b + 1\<rparr>"
      using assms(2,3) by (auto simp: vl_run_queue_owner_push_def Let_def store_slot_def)
    moreover have "owner_push_step ?s2 ?s3"
      using push_store_slot [of ?s2 x ?b ?t] False by simp
    moreover have "owner_push_step ?s3 (s\<lparr>ds_q := (store_slot (ds_q s) ?b x)\<lparr>rq_bottom := ?b + 1\<rparr>,
        ds_pushed := x # ds_pushed s\<rparr>)"
      using push_store_bottom [of ?s3 x ?b] assms(1) by (cases s) simp
    ultimately show ?thesis using pre by (simp add: rtranclp.rtrancl_into_rtrancl)
  qed
qed

lemma pop_solo:
  assumes "ds_owner s = OIdle" "rq_slots (ds_q s) = Some slots"
    "vl_run_queue_owner_pop (ds_q s) = (it, q')"
  shows "owner_pop_step\<^sup>*\<^sup>* s (take_item it (s\<lparr>ds_q := q'\<rparr>))"
proof (cases "ds_bottom s = 0")
  case True
  then have "it = None" "q' = ds_q s"
    using assms(2,3) by (simp_all add: vl_run_queue_owner_pop_def)
  then show ?thesis by (simp add: take_item_def)
next
  case False
  define b where "b = ds_bottom s - 1"
  define t where "t = ds_top s"
  let ?s1 = "s\<lparr>ds_owner := OPop1 b\<rparr>" and ?q = "(ds_q s)\<lparr>rq_bottom := b\<rparr>"
  let ?s2 = "s\<lparr>ds_q := ?q, ds_owner := OPop2 b\<rparr>" and ?s3 = "s\<lparr>ds_q := ?q, ds_owner := OPop3 b t\<rparr>"
  let ?s4 = "s\<lparr>ds_q := ?q, ds_owner := OPop4 b t (load_slot ?q b)\<rparr>"
  have "owner_pop_step s ?s1" using pop_load_bottom [OF assms(1) False] by (simp add: b_def)
  moreover have "owner_pop_step ?s1 ?s2" using pop_store_bottom [of ?s1 b] by simp
  moreover have "owner_pop_step ?s2 ?s3" using pop_load_top [of ?s2 b] by (simp add: t_def)
  ultimately have pre: "owner_pop_step\<^sup>*\<^sup>* s ?s3"
    by (meson converse_rtranclp_into_rtranclp r_into_rtranclp)
  have pop: "(it, q') = (if t > b then (None, ?q\<lparr>rq_bottom := t\<rparr>)
      else if t = b then (load_slot ?q b, ?q\<lparr>rq_top := t + 1, rq_bottom := t + 1\<rparr>)
      else (load_slot ?q b, ?q))"
    using assms(2,3) False
    by (auto simp: vl_run_queue_owner_pop_def Let_def load_slot_def b_def t_def split: if_splits)
  note idle = ds_owner_idle(1) [OF assms(1)]
  show ?thesis
  proof (cases "t > b")
    case True
    then have "owner_pop_step ?s3 (take_item it (s\<lparr>ds_q := q'\<rparr>))"
      using pop_empty [of ?s3 b t] pop idle by (simp add: take_item_def)
    with pre show ?thesis by (rule rtranclp.rtrancl_into_rtrancl)
  next
    case False
    then have "owner_pop_step ?s3 ?s4" using pop_load_slot [of ?s3 b t] by simp
    with pre have pre4: "owner_pop_step\<^sup>*\<^sup>* s ?s4" by (rule rtranclp.rtrancl_into_rtrancl)
    show ?thesis
    proof (cases "t = b")
      case True
      let ?s5 = "take_item it (s\<lparr>ds_q := ?q\<lparr>rq_top := t + 1\<rparr>, ds_owner := OPop5 t\<rparr>)"
      have "owner_pop_step ?s4 ?s5"
        using pop_cas_win [of ?s4 b t] True False pop by (simp add: t_def)
      moreover have "owner_pop_step ?s5 (take_item it (s\<lparr>ds_q := q'\<rparr>))"
        using pop_reset_bottom [of ?s5 t] True False pop assms(1) by (cases s) (simp add: take_item_def)
      ultimately show ?thesis using pre4 by (meson rtranclp.rtrancl_into_rtrancl)
    next
      case neq: False
      then have "owner_pop_step ?s4 (take_item it (s\<lparr>ds_q := q'\<rparr>))"
        using pop_return [of ?s4 b t] False pop idle by simp
      with pre4 show ?thesis by (rule rtranclp.rtrancl_into_rtrancl)
    qed
  qed
qed

lemma steal_solo:
  assumes "ds_thief s i = TIdle" "rq_slots (ds_q s) = Some slots"
    "vl_run_queue_steal (ds_q s) = (it, q')"
  shows "(thief_step i)\<^sup>*\<^sup>* s (take_item it (s\<lparr>ds_q := q'\<rparr>))"
proof -
  let ?t = "ds_top s" and ?at = "\<lambda>pc. s\<lparr>ds_thief := (ds_thief s)(i := pc)\<rparr>"
  have idle: "(ds_thief s)(i := TIdle) = ds_thief s" using assms(1) by auto
  have pre: "thief_step i s (?at (TSteal1 ?t))" using assms(1) by (rule steal_load_top)
  show ?thesis
  proof (cases "?t \<ge> ds_bottom s")
    case True
    then have "it = None" "q' = ds_q s"
      using assms(2,3) by (simp_all add: vl_run_queue_steal_def Let_def)
    then show ?thesis by (simp add: take_item_def)
  next
    case False
    then have out: "it = load_slot (ds_q s) ?t" "q' = (ds_q s)\<lparr>rq_top := ?t + 1\<rparr>"
      using assms(2,3) by (simp_all add: vl_run_queue_steal_def Let_def load_slot_def)
    have "thief_step i (?at (TSteal1 ?t)) (?at (TSteal2 ?t))"
      using steal_load_bottom [of "?at (TSteal1 ?t)" i ?t] False by simp
    moreover have "thief_step i (?at (TSteal2 ?t)) (?at (TSteal3 ?t it))"
      using steal_load_slot [of "?at (TSteal2 ?t)" i ?t] out by simp
    moreover have "thief_step i (?at (TSteal3 ?t it)) (take_item it (s\<lparr>ds_q := q'\<rparr>))"
      using steal_cas_win [of "?at (TSteal3 ?t it)" i ?t it] out idle
      by (cases s) (simp add: take_item_def)
    ultimately show ?thesis using pre by (meson converse_rtranclp_into_rtranclp r_into_rtranclp)
  qed
qed

section \<open>A concrete run\<close>

lemma dq_reach_steps:
  assumes "dq_step\<^sup>*\<^sup>* s s'" "dq_reach capacity s"
  shows "dq_reach capacity s'"
  using assms by (induction rule: rtranclp.induct) (auto intro: dq_next)

text \<open>An item pushed by the owner and then stolen by thief 0.\<close>

definition dq_q0 :: "nat vl_run_queue" where
  "dq_q0 = snd (vl_run_queue_init True vl_run_queue_zero 2)"

lemma dq_q0_init: "vl_run_queue_init True vl_run_queue_zero 2 = (VL_OK, dq_q0)"
  by (simp add: dq_q0_def vl_run_queue_init_def vl_run_queue_zero_def vl_is_power_of_two_def)

lemma dq_run: "\<exists>s. dq_reach 2 s \<and> ds_pushed s = [7 :: nat] \<and> ds_taken s = [7] \<and> ds_owner s = OIdle"
proof -
  obtain q1 where q1: "vl_run_queue_owner_push dq_q0 (Some 7) = (VL_OK, q1)"
      "vl_run_queue_steal q1 = (Some 7, snd (vl_run_queue_steal q1))" "rq_slots q1 \<noteq> None"
    by (simp add: dq_q0_def vl_run_queue_init_def vl_run_queue_zero_def vl_is_power_of_two_def
        vl_run_queue_owner_push_def vl_run_queue_steal_def)
  let ?s0 = "dq_start dq_q0" and ?s1 = "(dq_start dq_q0)\<lparr>ds_q := q1, ds_pushed := [7]\<rparr>"
  have "owner_push_step\<^sup>*\<^sup>* ?s0 ?s1"
    using push_solo [of ?s0 _ 7 VL_OK q1] q1(1)
    by (simp add: dq_start_def dq_q0_def vl_run_queue_init_def vl_run_queue_zero_def
        vl_is_power_of_two_def)
  then have s1: "dq_step\<^sup>*\<^sup>* ?s0 ?s1" by (rule mono_rtranclp [rule_format, rotated]) (rule dq_push)
  let ?s2 = "take_item (Some 7) (?s1\<lparr>ds_q := snd (vl_run_queue_steal q1)\<rparr>)"
  have "(thief_step 0)\<^sup>*\<^sup>* ?s1 ?s2"
    using steal_solo [of ?s1 0 _ "Some 7" "snd (vl_run_queue_steal q1)"] q1(2,3)
    by (auto simp: dq_start_def)
  then have s2: "dq_step\<^sup>*\<^sup>* ?s1 ?s2" by (rule mono_rtranclp [rule_format, rotated]) (rule dq_steal)
  have "dq_reach 2 ?s2"
    using dq_reach_steps [OF s2] dq_reach_steps [OF s1] dq_init [OF dq_q0_init] by blast
  then show ?thesis by (rule exI [of _ ?s2, OF conjI]) (simp add: dq_start_def)
qed

section \<open>Properties\<close>

text \<open>C1: Under every interleaving of the owner's pushes and pops with any number of thieves,
  as long as fewer than 2\<open>^\<close>64 items were pushed, no item is lost and none is handed out
  twice: what was pushed is what was handed out together with what is still in the queue,
  which never exceeds the capacity; and whenever the owner is between operations the ring
  holds exactly those remaining items.\<close>

theorem chase_lev_exactly_once:
  assumes "dq_reach capacity s" "length (ds_pushed s) < 2 ^ 64"
  shows "\<exists>xs. mset (ds_pushed s) = mset (ds_taken s) + mset xs \<and> length xs \<le> unat capacity
           \<and> (ds_owner s = OIdle \<longrightarrow> rq_holds (ds_q s) xs)"
proof -
  obtain xs where "dq_inv s xs" using dq_reach_inv [OF assms] by blast
  then show ?thesis
    using dq_reach_capacity [OF assms(1)]
    by (intro exI [of _ xs]) (simp add: dq_inv_def dq_core_def rq_holds_def rq_cap_def dq_end_def)
qed

theorem chase_lev_exactly_once_witness:
  "\<exists>s. dq_reach 2 s \<and> ds_pushed s = [7 :: nat] \<and> ds_taken s = [7]
     \<and> (\<exists>xs. mset (ds_pushed s) = mset (ds_taken s) + mset xs \<and> length xs \<le> unat (2 :: usize)
           \<and> (ds_owner s = OIdle \<longrightarrow> rq_holds (ds_q s) xs))"
proof -
  obtain s where s: "dq_reach 2 s" "ds_pushed s = [7 :: nat]" "ds_taken s = [7]"
    using dq_run by blast
  then show ?thesis using chase_lev_exactly_once [OF s(1)] by auto
qed

end
