(* ===== verification/Timer_Heap.thy ===== *)
theory Timer_Heap
  imports Veloco_Prelude
begin

text \<open>
  The binary heap of timer nodes, \<^verbatim>\<open>src/time/timer_heap.c\<close>.  A \<^verbatim>\<open>vl_timer_node_t *\<close> is a
  node id; the nodes themselves live in a store \<open>ns\<close> that the heaps of all processors
  share, because a node records its own position in \<open>heap_index\<close> and the operations
  update it.  \<open>th_items\<close> is the array of node pointers, \<open>[]\<close> for NULL.  Deadlines are
  64-bit words; lengths and indices are natural numbers, and the one place where a
  \<^verbatim>\<open>size_t\<close> could wrap, the doubling of the capacity, wraps in the model too (lemma
  \<open>th_index_fits\<close>: no index computation of the sift loops can).
\<close>

section \<open>Nodes, heaps and operations\<close>

type_synonym nid = nat

record vl_timer_node =
  deadline_ns :: u64
  heap_index :: nat
  active :: bool
  owner :: "nat option"

record vl_timer_heap =
  th_items :: "nid list"
  th_length :: nat
  th_capacity :: nat

type_synonym node_store = "nid \<Rightarrow> vl_timer_node"

definition vl_timer_heap_zero :: vl_timer_heap where
  "vl_timer_heap_zero = \<lparr>th_items = [], th_length = 0, th_capacity = 0\<rparr>"

definition set_heap_index :: "node_store \<Rightarrow> nid \<Rightarrow> nat \<Rightarrow> node_store" where
  "set_heap_index ns n i = ns(n := (ns n)\<lparr>heap_index := i\<rparr>)"

definition set_active :: "node_store \<Rightarrow> nid \<Rightarrow> bool \<Rightarrow> node_store" where
  "set_active ns n b = ns(n := (ns n)\<lparr>active := b\<rparr>)"

definition th_key :: "vl_timer_heap \<Rightarrow> node_store \<Rightarrow> nat \<Rightarrow> u64" where
  "th_key h ns i = deadline_ns (ns (th_items h ! i))"

definition vl_timer_heap_swap ::
  "vl_timer_heap \<Rightarrow> node_store \<Rightarrow> nat \<Rightarrow> nat \<Rightarrow> vl_timer_heap \<times> node_store" where
  "vl_timer_heap_swap h ns left right =
     (let node = th_items h ! left;
          items = (th_items h)[left := th_items h ! right, right := node];
          ns1 = set_heap_index ns (items ! left) left;
          ns2 = set_heap_index ns1 (items ! right) right
      in (h\<lparr>th_items := items\<rparr>, ns2))"

function vl_timer_heap_up ::
  "vl_timer_heap \<Rightarrow> node_store \<Rightarrow> nat \<Rightarrow> vl_timer_heap \<times> node_store" where
  "vl_timer_heap_up h ns index =
     (if index = 0 then (h, ns)
      else
        let parent = (index - 1) div 2 in
        if th_key h ns parent \<le> th_key h ns index then (h, ns)
        else (case vl_timer_heap_swap h ns parent index of
                (h', ns') \<Rightarrow> vl_timer_heap_up h' ns' parent))"
  by pat_completeness auto
termination by (relation "measure (\<lambda>(h, ns, index). index)") auto

definition th_smallest :: "vl_timer_heap \<Rightarrow> node_store \<Rightarrow> nat \<Rightarrow> nat" where
  "th_smallest h ns index =
     (let left = index * 2 + 1; right = left + 1; smallest = index;
          smallest = (if left < th_length h \<and> th_key h ns left < th_key h ns smallest
                      then left else smallest)
      in if right < th_length h \<and> th_key h ns right < th_key h ns smallest
         then right else smallest)"

lemma th_smallest_bound:
  "th_smallest h ns index \<noteq> index \<Longrightarrow>
   index < th_smallest h ns index \<and> th_smallest h ns index < th_length h"
  by (auto simp: th_smallest_def Let_def split: if_splits)

lemma th_length_swap [simp]: "th_length (fst (vl_timer_heap_swap h ns l r)) = th_length h"
  by (simp add: vl_timer_heap_swap_def Let_def)

function vl_timer_heap_down ::
  "vl_timer_heap \<Rightarrow> node_store \<Rightarrow> nat \<Rightarrow> vl_timer_heap \<times> node_store" where
  "vl_timer_heap_down h ns index =
     (let smallest = th_smallest h ns index in
      if smallest = index then (h, ns)
      else (case vl_timer_heap_swap h ns index smallest of
              (h', ns') \<Rightarrow> vl_timer_heap_down h' ns' smallest))"
  by pat_completeness auto
termination
proof (relation "measure (\<lambda>(h, ns, index). th_length h - index)", goal_cases)
  case (2 h ns index smallest h' ns')
  then have "th_length h' = th_length h" by (metis fst_conv th_length_swap)
  with th_smallest_bound [of h ns index] 2 show ?case by auto
qed simp

declare vl_timer_heap_up.simps [simp del] vl_timer_heap_down.simps [simp del]

definition vl_timer_heap_init :: "vl_timer_heap \<Rightarrow> vl_status" where
  "vl_timer_heap_init h = (if th_items h \<noteq> [] then VL_ERROR_INVALID_ARGUMENT else VL_OK)"

definition vl_timer_heap_destroy :: "vl_timer_heap \<Rightarrow> vl_timer_heap" where
  "vl_timer_heap_destroy h = h\<lparr>th_items := [], th_length := 0, th_capacity := 0\<rparr>"

text \<open>
  \<open>realloc\<close> is \<open>None\<close> when \<^verbatim>\<open>realloc\<close> fails; otherwise the old pointers are kept and the
  new, indeterminate part of the array holds the given value.
\<close>

definition th_next_capacity :: "nat \<Rightarrow> nat" where
  "th_next_capacity capacity = (if capacity = 0 then 16 else capacity * 2 mod 2 ^ 64)"

definition th_grow :: "vl_timer_heap \<Rightarrow> nat \<Rightarrow> nid \<Rightarrow> vl_timer_heap" where
  "th_grow h capacity fill =
     h\<lparr>th_items := th_items h @ replicate (capacity - length (th_items h)) fill,
       th_capacity := capacity\<rparr>"

definition th_append :: "vl_timer_heap \<Rightarrow> node_store \<Rightarrow> nid \<Rightarrow> vl_timer_heap \<times> node_store" where
  "th_append h ns node =
     (let ns1 = set_heap_index (set_active ns node True) node (th_length h);
          h1 = h\<lparr>th_items := (th_items h)[th_length h := node], th_length := th_length h + 1\<rparr>
      in vl_timer_heap_up h1 ns1 (heap_index (ns1 node)))"

definition vl_timer_heap_push ::
  "nid option \<Rightarrow> vl_timer_heap \<Rightarrow> node_store \<Rightarrow> nid \<Rightarrow> vl_status \<times> vl_timer_heap \<times> node_store" where
  "vl_timer_heap_push realloc h ns node =
     (if active (ns node) then (VL_ERROR_INVALID_ARGUMENT, h, ns)
      else if th_length h = th_capacity h then
        let capacity = th_next_capacity (th_capacity h) in
        if capacity < th_capacity h \<or> capacity > (2 ^ 64 - 1) div 8
        then (VL_ERROR_OUT_OF_MEMORY, h, ns)
        else (case realloc of
                None \<Rightarrow> (VL_ERROR_OUT_OF_MEMORY, h, ns)
              | Some fill \<Rightarrow> (VL_OK, th_append (th_grow h capacity fill) ns node))
      else (VL_OK, th_append h ns node))"

definition vl_timer_heap_peek :: "vl_timer_heap \<Rightarrow> nid option" where
  "vl_timer_heap_peek h = (if th_length h \<noteq> 0 then Some (th_items h ! 0) else None)"

definition vl_timer_heap_pop ::
  "vl_timer_heap \<Rightarrow> node_store \<Rightarrow> nid option \<times> vl_timer_heap \<times> node_store" where
  "vl_timer_heap_pop h ns =
     (if th_length h = 0 then (None, h, ns)
      else
        let node = th_items h ! 0;
            ns1 = set_active ns node False;
            h1 = h\<lparr>th_length := th_length h - 1\<rparr>
        in if th_length h1 \<noteq> 0 then
             let h2 = h1\<lparr>th_items := (th_items h1)[0 := th_items h1 ! th_length h1]\<rparr>;
                 ns2 = set_heap_index ns1 (th_items h2 ! 0) 0
             in (Some node, vl_timer_heap_down h2 ns2 0)
           else (Some node, h1, ns1))"

definition vl_timer_heap_remove ::
  "vl_timer_heap \<Rightarrow> node_store \<Rightarrow> nid \<Rightarrow> vl_timer_heap \<times> node_store" where
  "vl_timer_heap_remove h ns node =
     (if \<not> active (ns node) \<or> heap_index (ns node) \<ge> th_length h then (h, ns)
      else
        let index = heap_index (ns node);
            ns1 = set_active ns node False;
            h1 = h\<lparr>th_length := th_length h - 1\<rparr>
        in if index \<noteq> th_length h1 then
             let h2 = h1\<lparr>th_items := (th_items h1)[index := th_items h1 ! th_length h1]\<rparr>;
                 ns2 = set_heap_index ns1 (th_items h2 ! index) index
             in if index \<noteq> 0 \<and> th_key h2 ns2 index < th_key h2 ns2 ((index - 1) div 2)
                then vl_timer_heap_up h2 ns2 index
                else vl_timer_heap_down h2 ns2 index
           else (h1, ns1))"

section \<open>Heap order on a key function\<close>

text \<open>
  The order arguments need only the keys: \<open>K i\<close> is the deadline at position \<open>i\<close> and \<open>m\<close> the
  length.  \<open>up_ord\<close> and \<open>down_ord\<close> are the order with one position out of place, as the
  sift loops meet it.
\<close>

definition par :: "nat \<Rightarrow> nat" where
  "par i = (i - 1) div 2"

definition key_ord :: "(nat \<Rightarrow> u64) \<Rightarrow> nat \<Rightarrow> bool" where
  "key_ord K m \<longleftrightarrow> (\<forall>j. 0 < j \<and> j < m \<longrightarrow> K (par j) \<le> K j)"

definition up_ord :: "(nat \<Rightarrow> u64) \<Rightarrow> nat \<Rightarrow> nat \<Rightarrow> bool" where
  "up_ord K m i \<longleftrightarrow> (\<forall>j. 0 < j \<and> j < m \<and> j \<noteq> i \<longrightarrow> K (par j) \<le> K j)
     \<and> (\<forall>j. 0 < i \<and> 0 < j \<and> j < m \<and> par j = i \<longrightarrow> K (par i) \<le> K j)"

definition down_ord :: "(nat \<Rightarrow> u64) \<Rightarrow> nat \<Rightarrow> nat \<Rightarrow> bool" where
  "down_ord K m i \<longleftrightarrow> (\<forall>j. 0 < j \<and> j < m \<and> par j \<noteq> i \<longrightarrow> K (par j) \<le> K j)
     \<and> (\<forall>j. 0 < i \<and> 0 < j \<and> j < m \<and> par j = i \<longrightarrow> K (par i) \<le> K j)"

abbreviation exchange :: "(nat \<Rightarrow> u64) \<Rightarrow> nat \<Rightarrow> nat \<Rightarrow> nat \<Rightarrow> u64" where
  "exchange K a b \<equiv> K(a := K b, b := K a)"

lemma par_less [simp]: "0 < i \<Longrightarrow> par i < i"
  by (simp add: par_def)

lemma par_child: "par j = i \<Longrightarrow> 0 < j \<Longrightarrow> j = i * 2 + 1 \<or> j = i * 2 + 1 + 1"
  by (simp add: par_def) presburger

lemma key_ord_root:
  assumes "key_ord K m" "i < m"
  shows "K 0 \<le> K i"
  using assms(2)
proof (induction i rule: less_induct)
  case (less i)
  show ?case
  proof (cases "i = 0")
    case False
    then have "K (par i) \<le> K i" "par i < i" using assms(1) less.prems by (simp_all add: key_ord_def)
    with less show ?thesis by (meson less_trans order_trans)
  qed simp
qed

lemma up_ord_exchange:
  assumes "up_ord K m i" "0 < i" "i < m" "\<not> K (par i) \<le> K i"
  shows "up_ord (exchange K (par i) i) m (par i)"
proof -
  have ord: "K (par j) \<le> K j" if "0 < j" "j < m" "j \<noteq> i" for j
    using assms(1) that by (simp add: up_ord_def)
  have kids: "K (par i) \<le> K j" if "0 < j" "j < m" "par j = i" for j
    using assms(1,2) that by (simp add: up_ord_def)
  have lt: "par i < i" "K i < K (par i)" using assms by auto
  have one: "exchange K (par i) i (par j) \<le> exchange K (par i) i j"
    if "0 < j" "j < m" "j \<noteq> par i" for j
    using that lt ord [of j] kids [of j] par_less [of j] by (auto intro: order_trans [of _ "K (par i)"])
  have two: "exchange K (par i) i (par (par i)) \<le> exchange K (par i) i j"
    if "0 < par i" "0 < j" "j < m" "par j = par i" for j
    using that lt ord [of "par i"] ord [of j] par_less [of j] par_less [of "par i"] assms(3)
    by (auto intro: order_trans [of _ "K (par i)"])
  show ?thesis using one two by (simp add: up_ord_def)
qed

lemma down_ord_exchange:
  assumes "down_ord K m i" "0 < s" "s < m" "par s = i" "K s < K i"
    "\<And>j. 0 < j \<Longrightarrow> j < m \<Longrightarrow> par j = i \<Longrightarrow> K s \<le> K j"
  shows "down_ord (exchange K i s) m s"
proof -
  have ord: "K (par j) \<le> K j" if "0 < j" "j < m" "par j \<noteq> i" for j
    using assms(1) that by (simp add: down_ord_def)
  have kids: "K (par i) \<le> K j" if "0 < i" "0 < j" "j < m" "par j = i" for j
    using assms(1) that by (simp add: down_ord_def)
  have lt: "i < s" using assms(2,4) par_less by blast
  have one: "exchange K i s (par j) \<le> exchange K i s j"
    if "0 < j" "j < m" "par j \<noteq> s" for j
    using that lt assms ord [of j] kids [of s] par_less [of j] by auto
  have two: "exchange K i s (par s) \<le> exchange K i s j" if "0 < j" "j < m" "par j = s" for j
    using that lt assms(4) ord [of j] par_less [of j] by auto
  show ?thesis using one two by (simp add: down_ord_def)
qed

section \<open>The heap invariant\<close>

definition th_live :: "vl_timer_heap \<Rightarrow> nid list" where
  "th_live h = take (th_length h) (th_items h)"

text \<open>\<open>th_wf\<close>: the array has its capacity, and every live node knows its position.\<close>

definition th_wf :: "vl_timer_heap \<Rightarrow> node_store \<Rightarrow> bool" where
  "th_wf h ns \<longleftrightarrow> length (th_items h) = th_capacity h \<and> th_length h \<le> th_capacity h
     \<and> th_capacity h \<le> (2 ^ 64 - 1) div 8
     \<and> (\<forall>i < th_length h. heap_index (ns (th_items h ! i)) = i)"

definition th_inv :: "vl_timer_heap \<Rightarrow> node_store \<Rightarrow> bool" where
  "th_inv h ns \<longleftrightarrow> th_wf h ns \<and> key_ord (th_key h ns) (th_length h)
     \<and> (\<forall>n \<in> set (th_live h). active (ns n))"

text \<open>\<open>th_moves\<close>: only positions change, and only those of live nodes.\<close>

definition th_moves ::
  "vl_timer_heap \<Rightarrow> node_store \<Rightarrow> vl_timer_heap \<Rightarrow> node_store \<Rightarrow> bool" where
  "th_moves h ns h' ns' \<longleftrightarrow> th_length h' = th_length h \<and> th_capacity h' = th_capacity h
     \<and> mset (th_live h') = mset (th_live h)
     \<and> (\<forall>n. ns' n = (ns n)\<lparr>heap_index := heap_index (ns' n)\<rparr>)
     \<and> (\<forall>n. n \<notin> set (th_live h) \<longrightarrow> ns' n = ns n)"

lemma th_wf_len: "th_wf h ns \<Longrightarrow> th_length h \<le> length (th_items h)"
  by (simp add: th_wf_def)

lemma th_index_fits: "th_wf h ns \<Longrightarrow> i < th_length h \<Longrightarrow> i * 2 + 2 < 2 ^ 64"
  by (simp add: th_wf_def)

lemma th_live_length [simp]: "th_wf h ns \<Longrightarrow> length (th_live h) = th_length h"
  by (simp add: th_live_def th_wf_def)

lemma th_live_nth: "i < th_length h \<Longrightarrow> th_live h ! i = th_items h ! i"
  by (simp add: th_live_def)

lemma th_live_mem: "th_wf h ns \<Longrightarrow> i < th_length h \<Longrightarrow> th_items h ! i \<in> set (th_live h)"
  by (metis nth_mem th_live_length th_live_nth)

lemma th_liveE:
  assumes "n \<in> set (th_live h)" "th_wf h ns"
  obtains "heap_index (ns n) < th_length h" "th_items h ! heap_index (ns n) = n"
  using assms by (auto simp: in_set_conv_nth th_live_def th_wf_def)

lemma th_live_distinct: "th_wf h ns \<Longrightarrow> distinct (th_live h)"
  by (simp add: distinct_conv_nth th_live_nth) (metis th_wf_def)

lemma th_moves_refl [simp]: "th_moves h ns h ns"
  by (simp add: th_moves_def)

lemma th_moves_trans:
  assumes "th_moves h ns h' ns'" "th_moves h' ns' h'' ns''"
  shows "th_moves h ns h'' ns''"
proof -
  have "set (th_live h') = set (th_live h)"
    using assms(1) by (metis th_moves_def set_mset_mset)
  moreover have "ns'' n = (ns n)\<lparr>heap_index := heap_index (ns'' n)\<rparr>" for n
    using assms unfolding th_moves_def
    by (metis vl_timer_node.simps(1) vl_timer_node.surjective vl_timer_node.update_convs(2))
  ultimately show ?thesis using assms by (simp add: th_moves_def)
qed

lemma set_heap_index_simps [simp]:
  "deadline_ns (set_heap_index ns n i m) = deadline_ns (ns m)"
  "active (set_heap_index ns n i m) = active (ns m)"
  "owner (set_heap_index ns n i m) = owner (ns m)"
  "heap_index (set_heap_index ns n i m) = (if m = n then i else heap_index (ns m))"
  by (simp_all add: set_heap_index_def)

lemma set_active_simps [simp]:
  "deadline_ns (set_active ns n b m) = deadline_ns (ns m)"
  "heap_index (set_active ns n b m) = heap_index (ns m)"
  "owner (set_active ns n b m) = owner (ns m)"
  "active (set_active ns n b m) = (if m = n then b else active (ns m))"
  by (simp_all add: set_active_def)

lemma mset_take_swap:
  assumes "i < m" "j < m" "m \<le> length xs"
  shows "mset (take m (xs[i := xs ! j, j := xs ! i])) = mset (take m xs)"
proof -
  have "take m (xs[i := xs ! j, j := xs ! i]) = (take m xs)[i := take m xs ! j, j := take m xs ! i]"
    using assms by (simp add: take_update_swap)
  then show ?thesis using assms mset_swap [of j "take m xs" i] by simp
qed

lemma th_swap:
  assumes "th_wf h ns" "l < th_length h" "r < th_length h" "l \<noteq> r"
    "vl_timer_heap_swap h ns l r = (h', ns')"
  shows "th_wf h' ns'" "th_moves h ns h' ns'" "th_key h' ns' = exchange (th_key h ns) l r"
proof -
  let ?x = "th_items h ! l" and ?y = "th_items h ! r"
  have len: "l < length (th_items h)" "r < length (th_items h)"
    using assms(1-3) th_wf_len [OF assms(1)] by simp_all
  have idx: "heap_index (ns (th_items h ! i)) = i" if "i < th_length h" for i
    using assms(1) that by (simp add: th_wf_def)
  have inj: "th_items h ! i = th_items h ! j \<longleftrightarrow> i = j" if "i < th_length h" "j < th_length h" for i j
    using that by (metis idx)
  have h': "h' = h\<lparr>th_items := (th_items h)[l := ?y, r := ?x]\<rparr>"
    and ns': "ns' = set_heap_index (set_heap_index ns ?y l) ?x r"
    using assms(4,5) len by (auto simp: vl_timer_heap_swap_def Let_def)
  show "th_wf h' ns'"
    using assms(1-4) len idx inj by (simp add: th_wf_def h' ns' nth_list_update) blast
  show "th_key h' ns' = exchange (th_key h ns) l r"
    using len assms(4) by (auto simp: fun_eq_iff th_key_def h' ns' nth_list_update)
  have "mset (th_live h') = mset (th_live h)"
    using assms(2,3) th_wf_len [OF assms(1)] by (simp add: th_live_def h' mset_take_swap)
  moreover have "ns' n = ns n" if "n \<notin> set (th_live h)" for n
  proof -
    have "n \<noteq> ?x" "n \<noteq> ?y" using that assms(1-3) th_live_mem by auto
    then show ?thesis by (simp add: ns' set_heap_index_def)
  qed
  ultimately show "th_moves h ns h' ns'" by (simp add: th_moves_def h') (simp add: ns' set_heap_index_def)
qed

lemma th_up_stop:
  "index = 0 \<or> th_key h ns (par index) \<le> th_key h ns index \<Longrightarrow> vl_timer_heap_up h ns index = (h, ns)"
  by (subst vl_timer_heap_up.simps) (auto simp: par_def)

lemma th_up_go:
  "\<not> (index = 0 \<or> th_key h ns (par index) \<le> th_key h ns index) \<Longrightarrow>
   vl_timer_heap_swap h ns (par index) index = (h1, ns1) \<Longrightarrow>
   vl_timer_heap_up h ns index = vl_timer_heap_up h1 ns1 (par index)"
  by (subst vl_timer_heap_up.simps) (auto simp: par_def)

lemma th_down_stop:
  "th_smallest h ns index = index \<Longrightarrow> vl_timer_heap_down h ns index = (h, ns)"
  by (subst vl_timer_heap_down.simps) simp

lemma th_down_go:
  "th_smallest h ns index \<noteq> index \<Longrightarrow>
   vl_timer_heap_swap h ns index (th_smallest h ns index) = (h1, ns1) \<Longrightarrow>
   vl_timer_heap_down h ns index = vl_timer_heap_down h1 ns1 (th_smallest h ns index)"
  by (subst vl_timer_heap_down.simps) (simp add: Let_def)

lemma th_up:
  assumes "th_wf h ns" "index < th_length h" "up_ord (th_key h ns) (th_length h) index"
    "vl_timer_heap_up h ns index = (h', ns')"
  shows "th_wf h' ns' \<and> th_moves h ns h' ns' \<and> key_ord (th_key h' ns') (th_length h')"
  using assms
proof (induction h ns index rule: vl_timer_heap_up.induct)
  case (1 h ns index)
  show ?case
  proof (cases "index = 0 \<or> th_key h ns (par index) \<le> th_key h ns index")
    case True
    then have "h' = h" "ns' = ns"
      using "1.prems"(4) by (simp_all add: th_up_stop)
    moreover have "key_ord (th_key h ns) (th_length h)"
      using "1.prems"(3) True unfolding key_ord_def up_ord_def by (metis neq0_conv)
    ultimately show ?thesis using "1.prems"(1) by simp
  next
    case False
    obtain h1 ns1 where sw: "vl_timer_heap_swap h ns (par index) index = (h1, ns1)"
      by (cases "vl_timer_heap_swap h ns (par index) index")
    have "par index < index" using False by simp
    then have p: "par index < index" "par index < th_length h" using "1.prems"(2) by linarith+
    note s = th_swap [OF "1.prems"(1) p(2) "1.prems"(2) _ sw]
    have len: "th_length h1 = th_length h" using s(2) p(1) by (simp add: th_moves_def)
    have "up_ord (th_key h1 ns1) (th_length h1) (par index)"
      using up_ord_exchange [OF "1.prems"(3)] False "1.prems"(2) s(3) p(1) len by simp
    moreover have "vl_timer_heap_up h1 ns1 (par index) = (h', ns')"
      using "1.prems"(4) th_up_go [OF False sw] by simp
    ultimately have "th_wf h' ns' \<and> th_moves h1 ns1 h' ns' \<and> key_ord (th_key h' ns') (th_length h')"
      using "1.IH" [of "par index" h1 ns1] False sw s(1) p len by (simp add: par_def)
    then show ?thesis using th_moves_trans [OF s(2)] p(1) by simp
  qed
qed

lemma th_smallest_child:
  assumes "th_smallest h ns i \<noteq> i"
  shows "par (th_smallest h ns i) = i" "th_key h ns (th_smallest h ns i) < th_key h ns i"
  using assms by (auto simp: th_smallest_def Let_def par_def split: if_splits)

lemma th_smallest_min:
  assumes "0 < j" "j < th_length h" "par j = i"
  shows "th_key h ns (th_smallest h ns i) \<le> th_key h ns j"
  using par_child [OF assms(3,1)] assms(2) by (auto simp: th_smallest_def Let_def split: if_splits)

lemma th_down:
  assumes "th_wf h ns" "index < th_length h" "down_ord (th_key h ns) (th_length h) index"
    "vl_timer_heap_down h ns index = (h', ns')"
  shows "th_wf h' ns' \<and> th_moves h ns h' ns' \<and> key_ord (th_key h' ns') (th_length h')"
  using assms
proof (induction h ns index rule: vl_timer_heap_down.induct)
  case (1 h ns index)
  let ?s = "th_smallest h ns index"
  show ?case
  proof (cases "?s = index")
    case True
    then have "h' = h" "ns' = ns"
      using "1.prems"(4) by (simp_all add: th_down_stop)
    moreover have "key_ord (th_key h ns) (th_length h)"
      using "1.prems"(3) True th_smallest_min [of _ h index ns] unfolding key_ord_def down_ord_def
      by metis
    ultimately show ?thesis using "1.prems"(1) by simp
  next
    case False
    obtain h1 ns1 where sw: "vl_timer_heap_swap h ns index ?s = (h1, ns1)"
      by (cases "vl_timer_heap_swap h ns index ?s")
    have b: "index < ?s" "?s < th_length h" using th_smallest_bound [OF False] by simp_all
    note s = th_swap [OF "1.prems"(1,2) b(2) _ sw]
    have len: "th_length h1 = th_length h" using s(2) b(1) by (simp add: th_moves_def)
    have "down_ord (th_key h1 ns1) (th_length h1) ?s"
      using down_ord_exchange [OF "1.prems"(3) _ b(2) th_smallest_child [OF False]]
        th_smallest_min [of _ h index ns] s(3) b(1) len by simp
    moreover have "vl_timer_heap_down h1 ns1 ?s = (h', ns')"
      using "1.prems"(4) th_down_go [OF False sw] by simp
    ultimately have "th_wf h' ns' \<and> th_moves h1 ns1 h' ns' \<and> key_ord (th_key h' ns') (th_length h')"
      using "1.IH" [of ?s h1 ns1] False sw s(1) b len by simp
    then show ?thesis using th_moves_trans [OF s(2)] b(1) by simp
  qed
qed

section \<open>Functional behaviour\<close>

text \<open>What an operation leaves alone: deadlines, owners and all nodes outside a given set.\<close>

definition ns_frame :: "nid set \<Rightarrow> node_store \<Rightarrow> node_store \<Rightarrow> bool" where
  "ns_frame S ns ns' \<longleftrightarrow> (\<forall>n. deadline_ns (ns' n) = deadline_ns (ns n) \<and> owner (ns' n) = owner (ns n))
     \<and> (\<forall>n. n \<notin> S \<longrightarrow> ns' n = ns n)"

lemma th_moves_nodes:
  assumes "th_moves h ns h' ns'"
  shows "deadline_ns (ns' n) = deadline_ns (ns n)" "active (ns' n) = active (ns n)"
    "owner (ns' n) = owner (ns n)" "n \<notin> set (th_live h) \<Longrightarrow> ns' n = ns n"
    "mset (th_live h') = mset (th_live h)" "set (th_live h') = set (th_live h)"
  using assms unfolding th_moves_def
  by (metis vl_timer_node.select_convs vl_timer_node.surjective vl_timer_node.update_convs(2)
      set_mset_mset)+

lemma key_ord_cong: "(\<And>i. i < m \<Longrightarrow> K i = K' i) \<Longrightarrow> key_ord K m = key_ord K' m"
  unfolding key_ord_def by (metis less_trans par_less)

lemma key_ord_append: "key_ord K m \<Longrightarrow> up_ord K (Suc m) m"
  unfolding key_ord_def up_ord_def by (metis less_Suc_eq less_asym par_less)

text \<open>Storing a node behind the live part and sifting it up.\<close>

lemma th_place:
  assumes inv: "th_inv h ns" and room: "th_length h < th_capacity h" and new: "\<not> active (ns node)"
    and app: "th_append h ns node = (h', ns')"
  shows "th_inv h' ns'" "mset (th_live h') = add_mset node (mset (th_live h))"
    "ns_frame (insert node (set (th_live h))) ns ns'"
    "active (ns' n) \<longleftrightarrow> n = node \<or> active (ns n)"
proof -
  define h1 where h1: "h1 = h\<lparr>th_items := (th_items h)[th_length h := node], th_length := th_length h + 1\<rparr>"
  define ns1 where ns1: "ns1 = set_heap_index (set_active ns node True) node (th_length h)"
  have up: "vl_timer_heap_up h1 ns1 (th_length h) = (h', ns')"
    using app by (simp add: th_append_def Let_def h1 ns1)
  have wf: "th_wf h ns" and ord: "key_ord (th_key h ns) (th_length h)"
    and act: "\<And>n. n \<in> set (th_live h) \<Longrightarrow> active (ns n)"
    using inv by (simp_all add: th_inv_def)
  have len: "length (th_items h) = th_capacity h" using wf by (simp add: th_wf_def)
  have old: "th_items h ! i \<noteq> node" if "i < th_length h" for i
    using act [OF th_live_mem [OF wf that]] new by auto
  have wf1: "th_wf h1 ns1"
    using wf room old by (auto simp: th_wf_def h1 ns1 nth_list_update less_Suc_eq)
  have "th_key h ns i = th_key h1 ns1 i" if "i < th_length h" for i
    using that by (simp add: th_key_def h1 ns1)
  then have "key_ord (th_key h1 ns1) (th_length h)" using ord key_ord_cong by metis
  then have "up_ord (th_key h1 ns1) (th_length h1) (th_length h)" by (simp add: key_ord_append h1)
  then have res: "th_wf h' ns' \<and> th_moves h1 ns1 h' ns' \<and> key_ord (th_key h' ns') (th_length h')"
    using th_up [OF wf1 _ _ up] by (simp add: h1)
  note mv = th_moves_nodes [OF res [THEN conjunct2, THEN conjunct1]]
  have live: "th_live h1 = th_live h @ [node]"
    using room len by (simp add: th_live_def h1 take_Suc_conv_app_nth)
  show "mset (th_live h') = add_mset node (mset (th_live h))" using mv(5) live by simp
  show "active (ns' n) \<longleftrightarrow> n = node \<or> active (ns n)" for n using mv(2) by (simp add: ns1)
  then show "th_inv h' ns'" using res mv(6) act live by (auto simp: th_inv_def)
  show "ns_frame (insert node (set (th_live h))) ns ns'"
    using mv(1,3,4) live by (auto simp: ns_frame_def ns1 set_heap_index_def set_active_def)
qed

text \<open>Filling the hole at \<open>index\<close> with the last node.\<close>

lemma key_ord_fill:
  assumes "key_ord K (Suc m)" "index < m"
  shows "index = 0 \<or> \<not> K m < K (par index) \<Longrightarrow> down_ord (K(index := K m)) m index"
    and "index \<noteq> 0 \<Longrightarrow> K m < K (par index) \<Longrightarrow> up_ord (K(index := K m)) m index"
proof -
  have ord: "K (par j) \<le> K j" if "0 < j" "j \<le> m" for j using assms(1) that by (simp add: key_ord_def)
  have kids: "K (par index) \<le> K j" if "0 < index" "0 < j" "j \<le> m" "par j = index" for j
    using ord [of j] ord [of index] that assms(2) by (metis less_imp_le order_trans)
  have two: "(K(index := K m)) (par index) \<le> (K(index := K m)) j"
    if "0 < index" "0 < j" "j < m" "par j = index" for j
  proof -
    have "par index \<noteq> index" "j \<noteq> index"
      using par_less [OF that(1)] par_less [OF that(2)] that(4) by linarith+
    then show ?thesis using kids [of j] that by simp
  qed
  show "down_ord (K(index := K m)) m index" if c: "index = 0 \<or> \<not> K m < K (par index)"
  proof -
    have "(K(index := K m)) (par j) \<le> (K(index := K m)) j" if "0 < j" "j < m" "par j \<noteq> index" for j
      using ord [of j] that c by (cases "j = index") auto
    with two show ?thesis by (simp add: down_ord_def)
  qed
  show "up_ord (K(index := K m)) m index" if c: "index \<noteq> 0" "K m < K (par index)"
  proof -
    have "(K(index := K m)) (par j) \<le> (K(index := K m)) j" if "0 < j" "j < m" "j \<noteq> index" for j
      using ord [of j] kids [of j] that c by (cases "par j = index") auto
    with two show ?thesis by (simp add: up_ord_def)
  qed
qed

lemma mset_take_fill:
  assumes "Suc m \<le> length xs" "i < m"
  shows "mset (take m (xs[i := xs ! m])) = mset (take (Suc m) xs) - {#xs ! i#}"
proof -
  have "take m (xs[i := xs ! m]) = (take m xs)[i := xs ! m]" by (simp add: take_update_swap)
  then have "mset (take m (xs[i := xs ! m])) = add_mset (xs ! m) (mset (take m xs) - {#xs ! i#})"
    using assms by (simp add: mset_update)
  moreover have "xs ! i \<in># mset (take m xs)" using nth_mem [of i "take m xs"] assms by simp
  ultimately show ?thesis using assms by (simp add: take_Suc_conv_app_nth)
qed

lemma th_fill:
  assumes inv: "th_inv h ns" and len: "th_length h = Suc m" and idx: "index < m"
    and node: "node = th_items h ! index"
    and h2: "h2 = h\<lparr>th_length := m, th_items := (th_items h)[index := th_items h ! m]\<rparr>"
    and ns2: "ns2 = set_heap_index (set_active ns node False) (th_items h ! m) index"
  shows "th_wf h2 ns2" "mset (th_live h2) = mset (th_live h) - {#node#}"
    "th_key h2 ns2 = (th_key h ns)(index := th_key h ns m)"
proof -
  have wf: "th_wf h ns" using inv by (simp add: th_inv_def)
  then have cap: "Suc m \<le> length (th_items h)" using len by (simp add: th_wf_def)
  have pos: "heap_index (ns (th_items h ! i)) = i" if "i < Suc m" for i
    using wf that len by (simp add: th_wf_def)
  have "th_items h ! i \<noteq> th_items h ! m" if "i < m" for i
    using that pos [of i] pos [of m] by (metis lessI less_SucI less_irrefl)
  then show "th_wf h2 ns2"
    using wf len idx pos by (auto simp: th_wf_def h2 ns2 nth_list_update)
  show "mset (th_live h2) = mset (th_live h) - {#node#}"
    using mset_take_fill [OF cap idx] by (simp add: th_live_def h2 len node)
  show "th_key h2 ns2 = (th_key h ns)(index := th_key h ns m)"
    using cap idx by (auto simp: fun_eq_iff th_key_def h2 ns2 nth_list_update)
qed

text \<open>Taking a node out of the heap, by either route.\<close>

definition th_taken ::
  "vl_timer_heap \<Rightarrow> node_store \<Rightarrow> nid \<Rightarrow> vl_timer_heap \<Rightarrow> node_store \<Rightarrow> bool" where
  "th_taken h ns node h' ns' \<longleftrightarrow> th_inv h' ns' \<and> mset (th_live h') = mset (th_live h) - {#node#}
     \<and> ns_frame (set (th_live h)) ns ns' \<and> (\<forall>n. active (ns' n) \<longleftrightarrow> n \<noteq> node \<and> active (ns n))"

lemma th_takenI:
  assumes inv: "th_inv h ns" and node: "node \<in> set (th_live h)"
    and wf: "th_wf h' ns'" and ord: "key_ord (th_key h' ns') (th_length h')"
    and live: "mset (th_live h') = mset (th_live h) - {#node#}"
    and fr: "ns_frame (set (th_live h)) ns ns'"
    and act: "\<And>n. active (ns' n) \<longleftrightarrow> n \<noteq> node \<and> active (ns n)"
  shows "th_taken h ns node h' ns'"
proof -
  have "distinct (th_live h)" using inv th_live_distinct by (auto simp: th_inv_def)
  then have "count (mset (th_live h)) node \<le> 1" by (simp add: distinct_count_atmost_1)
  then have "node \<notin># mset (th_live h')" using live by (simp add: count_eq_zero_iff [symmetric])
  moreover have "set (th_live h') \<subseteq> set (th_live h)"
    using live by (metis in_diffD set_mset_mset subsetI)
  ultimately have "active (ns' n)" if "n \<in> set (th_live h')" for n
    using that act inv by (auto simp: th_inv_def)
  then show ?thesis using assms by (simp add: th_taken_def th_inv_def)
qed

lemma th_last:
  assumes "th_inv h ns" "th_length h = Suc m" "node = th_items h ! m"
  shows "th_taken h ns node (h\<lparr>th_length := m\<rparr>) (set_active ns node False)"
proof (rule th_takenI [OF assms(1)])
  have wf: "th_wf h ns" and ord: "key_ord (th_key h ns) (Suc m)"
    using assms by (simp_all add: th_inv_def)
  have cap: "Suc m \<le> length (th_items h)" using wf assms(2) by (simp add: th_wf_def)
  show node: "node \<in> set (th_live h)" using th_live_mem [OF wf] assms(2,3) by simp
  show "th_wf (h\<lparr>th_length := m\<rparr>) (set_active ns node False)"
    using wf assms(2) by (simp add: th_wf_def)
  have "th_key (h\<lparr>th_length := m\<rparr>) (set_active ns node False) = th_key h ns"
    by (simp add: fun_eq_iff th_key_def)
  then show "key_ord (th_key (h\<lparr>th_length := m\<rparr>) (set_active ns node False)) (th_length (h\<lparr>th_length := m\<rparr>))"
    using ord by (simp add: key_ord_def)
  show "mset (th_live (h\<lparr>th_length := m\<rparr>)) = mset (th_live h) - {#node#}"
    using cap assms(2,3) by (simp add: th_live_def take_Suc_conv_app_nth)
  show "ns_frame (set (th_live h)) ns (set_active ns node False)"
    using node by (auto simp: ns_frame_def set_active_def)
qed simp

lemma th_fill_taken:
  assumes inv: "th_inv h ns" and len: "th_length h = Suc m" and idx: "index < m"
    and node: "node = th_items h ! index"
    and h2: "h2 = h\<lparr>th_length := m, th_items := (th_items h)[index := th_items h ! m]\<rparr>"
    and ns2: "ns2 = set_heap_index (set_active ns node False) (th_items h ! m) index"
    and res: "th_wf h' ns' \<and> th_moves h2 ns2 h' ns' \<and> key_ord (th_key h' ns') (th_length h')"
  shows "th_taken h ns node h' ns'"
proof (rule th_takenI [OF inv])
  have wf: "th_wf h ns" using inv by (simp add: th_inv_def)
  note fill = th_fill [OF inv len idx node h2 ns2]
  note mv = th_moves_nodes [OF res [THEN conjunct2, THEN conjunct1]]
  show mem: "node \<in> set (th_live h)" using th_live_mem [OF wf] len idx node by simp
  show "mset (th_live h') = mset (th_live h) - {#node#}" using mv(5) fill(2) by simp
  show "active (ns' n) \<longleftrightarrow> n \<noteq> node \<and> active (ns n)" for n using mv(2) by (simp add: ns2)
  have "set (th_live h2) \<subseteq> set (th_live h)"
    using fill(2) by (metis in_diffD set_mset_mset subsetI)
  moreover have "ns2 n = ns n" if "n \<notin> set (th_live h)" for n
    using that mem th_live_mem [OF wf, of m] len by (auto simp: ns2 set_heap_index_def set_active_def)
  ultimately have "ns' n = ns n" if "n \<notin> set (th_live h)" for n using that mv(4) by (metis subsetD)
  then show "ns_frame (set (th_live h)) ns ns'"
    using mv(1,3) by (simp add: ns_frame_def ns2)
qed (use res in auto)

lemma th_grow_inv:
  assumes "th_inv h ns" "capacity = th_next_capacity (th_capacity h)"
    "\<not> capacity < th_capacity h" "\<not> capacity > (2 ^ 64 - 1) div 8"
  shows "th_inv (th_grow h capacity fill) ns" "th_live (th_grow h capacity fill) = th_live h"
    "th_length (th_grow h capacity fill) = th_length h" "th_length h < capacity"
proof -
  have len: "length (th_items h) = th_capacity h" "th_length h \<le> th_capacity h"
    "th_capacity h \<le> (2 ^ 64 - 1) div 8"
    using assms(1) by (simp_all add: th_inv_def th_wf_def)
  show grow: "th_length h < capacity" using len assms(2) by (simp add: th_next_capacity_def)
  show live: "th_live (th_grow h capacity fill) = th_live h"
    and same: "th_length (th_grow h capacity fill) = th_length h"
    using len by (simp_all add: th_live_def th_grow_def)
  have nth: "th_items (th_grow h capacity fill) ! i = th_items h ! i" if "i < th_length h" for i
    using that len by (simp add: th_grow_def nth_append)
  have "key_ord (th_key (th_grow h capacity fill) ns) (th_length h)"
    using assms(1) nth key_ord_cong [of "th_length h" "th_key h ns" "th_key (th_grow h capacity fill) ns"]
    by (simp add: th_inv_def th_key_def)
  moreover have "length (th_items (th_grow h capacity fill)) = capacity"
      "th_capacity (th_grow h capacity fill) = capacity"
    using assms(3) len by (simp_all add: th_grow_def)
  ultimately show "th_inv (th_grow h capacity fill) ns"
    using assms(1,4) grow nth live same by (simp add: th_inv_def th_wf_def)
qed

lemma heap_push:
  assumes inv: "th_inv h ns" and new: "\<not> active (ns node)"
    and push: "vl_timer_heap_push realloc h ns node = (st, h', ns')"
  shows "st = VL_OK \<Longrightarrow> th_inv h' ns' \<and> mset (th_live h') = add_mset node (mset (th_live h))
           \<and> ns_frame (insert node (set (th_live h))) ns ns'
           \<and> (\<forall>n. active (ns' n) \<longleftrightarrow> n = node \<or> active (ns n))"
    and "st \<noteq> VL_OK \<Longrightarrow> st = VL_ERROR_OUT_OF_MEMORY \<and> h' = h \<and> ns' = ns \<and> th_length h = th_capacity h"
proof -
  let ?c = "th_next_capacity (th_capacity h)"
  show "th_inv h' ns' \<and> mset (th_live h') = add_mset node (mset (th_live h))
           \<and> ns_frame (insert node (set (th_live h))) ns ns'
           \<and> (\<forall>n. active (ns' n) \<longleftrightarrow> n = node \<or> active (ns n))" if ok: "st = VL_OK"
  proof (cases "th_length h = th_capacity h")
    case False
    moreover have "th_length h \<le> th_capacity h" using inv by (simp add: th_inv_def th_wf_def)
    moreover have "th_append h ns node = (h', ns')"
      using push new False by (simp add: vl_timer_heap_push_def)
    ultimately show ?thesis using th_place [OF inv _ new] by simp
  next
    case True
    then obtain fill where cap: "\<not> ?c < th_capacity h" "\<not> ?c > (2 ^ 64 - 1) div 8"
      and app: "th_append (th_grow h ?c fill) ns node = (h', ns')"
      using push ok new by (auto simp: vl_timer_heap_push_def Let_def split: if_splits option.splits)
    note g = th_grow_inv [OF inv refl cap]
    have "th_length (th_grow h ?c fill) < th_capacity (th_grow h ?c fill)"
      using g(3,4) by (simp add: th_grow_def)
    then show ?thesis using th_place [OF g(1) _ new app] g(2) [of fill] by simp
  qed
  show "st = VL_ERROR_OUT_OF_MEMORY \<and> h' = h \<and> ns' = ns \<and> th_length h = th_capacity h" if "st \<noteq> VL_OK"
    using push new that
    by (auto simp: vl_timer_heap_push_def Let_def split: if_splits option.splits)
qed

lemma heap_pop_none: "th_length h = 0 \<Longrightarrow> vl_timer_heap_pop h ns = (None, h, ns)"
  by (simp add: vl_timer_heap_pop_def)

lemma heap_pop:
  assumes inv: "th_inv h ns" and pop: "vl_timer_heap_pop h ns = (Some node, h', ns')"
  shows "th_taken h ns node h' ns'" "node \<in> set (th_live h)"
    "n \<in> set (th_live h) \<Longrightarrow> deadline_ns (ns node) \<le> deadline_ns (ns n)"
proof -
  obtain m where m: "th_length h = Suc m" using pop by (cases "th_length h") (simp_all add: heap_pop_none)
  have wf: "th_wf h ns" and ord: "key_ord (th_key h ns) (Suc m)" using inv m by (simp_all add: th_inv_def)
  have node: "node = th_items h ! 0"
    using pop m by (simp add: vl_timer_heap_pop_def Let_def split: if_splits)
  show "node \<in> set (th_live h)" using th_live_mem [OF wf] m node by simp
  show "deadline_ns (ns node) \<le> deadline_ns (ns n)" if mem: "n \<in> set (th_live h)"
    using th_liveE [OF mem wf] key_ord_root [OF ord] m node by (metis th_key_def)
  show "th_taken h ns node h' ns'"
  proof (cases "m = 0")
    case True
    then show ?thesis
      using th_last [OF inv m, of node] node pop m by (simp add: vl_timer_heap_pop_def Let_def)
  next
    case False
    let ?h2 = "h\<lparr>th_length := m, th_items := (th_items h)[0 := th_items h ! m]\<rparr>"
    let ?ns2 = "set_heap_index (set_active ns node False) (th_items h ! m) 0"
    note fill = th_fill [OF inv m _ node refl refl]
    have "th_items h \<noteq> []" using wf m by (auto simp: th_wf_def)
    then have down: "vl_timer_heap_down ?h2 ?ns2 0 = (h', ns')"
      using pop m False node by (simp add: vl_timer_heap_pop_def Let_def)
    have "down_ord (th_key ?h2 ?ns2) (th_length ?h2) 0"
      using key_ord_fill(1) [OF ord, of 0] fill(3) False by simp
    then show ?thesis
      using th_fill_taken [OF inv m _ node refl refl th_down [OF fill(1) _ _ down]] False by simp
  qed
qed

lemma heap_remove:
  assumes inv: "th_inv h ns" and mem: "node \<in> set (th_live h)"
    and rem: "vl_timer_heap_remove h ns node = (h', ns')"
  shows "th_taken h ns node h' ns'"
proof -
  have wf: "th_wf h ns" and act: "active (ns node)" using inv mem by (simp_all add: th_inv_def)
  obtain i where at: "heap_index (ns node) = i" and i: "i < th_length h" and node: "node = th_items h ! i"
    using mem wf by (metis th_liveE)
  from i obtain m where m: "th_length h = Suc m" by (cases "th_length h") simp_all
  have ord: "key_ord (th_key h ns) (Suc m)" using inv m by (simp add: th_inv_def)
  show ?thesis
  proof (cases "i = m")
    case True
    then show ?thesis
      using th_last [OF inv m, of node] node rem m act at by (simp add: vl_timer_heap_remove_def Let_def)
  next
    case False
    with i m have lt: "i < m" by simp
    let ?h2 = "h\<lparr>th_length := m, th_items := (th_items h)[i := th_items h ! m]\<rparr>"
    let ?ns2 = "set_heap_index (set_active ns node False) (th_items h ! m) i"
    note fill = th_fill [OF inv m lt node refl refl]
    have "i < length (th_items h)" using i wf by (simp add: th_wf_def)
    then have run: "(if i \<noteq> 0 \<and> th_key ?h2 ?ns2 i < th_key ?h2 ?ns2 (par i)
        then vl_timer_heap_up ?h2 ?ns2 i else vl_timer_heap_down ?h2 ?ns2 i) = (h', ns')"
      using rem m lt act at by (simp add: vl_timer_heap_remove_def Let_def par_def cong: if_cong)
    have keys: "th_key ?h2 ?ns2 i = th_key h ns m" "i \<noteq> 0 \<Longrightarrow> th_key ?h2 ?ns2 (par i) = th_key h ns (par i)"
      using fill(3) par_less [of i, THEN less_imp_neq] by simp_all
    have "th_wf h' ns' \<and> th_moves ?h2 ?ns2 h' ns' \<and> key_ord (th_key h' ns') (th_length h')"
    proof (cases "i \<noteq> 0 \<and> th_key h ns m < th_key h ns (par i)")
      case True
      then have "vl_timer_heap_up ?h2 ?ns2 i = (h', ns')" using run keys by simp
      from th_up [OF fill(1) _ _ this] key_ord_fill(2) [OF ord lt] True fill(3) lt
      show ?thesis by simp
    next
      case False
      then have "vl_timer_heap_down ?h2 ?ns2 i = (h', ns')" using run keys by (simp split: if_splits)
      from th_down [OF fill(1) _ _ this] key_ord_fill(1) [OF ord lt] False fill(3) lt
      show ?thesis by simp
    qed
    then show ?thesis by (rule th_fill_taken [OF inv m lt node refl refl])
  qed
qed

section \<open>The timer queue interface\<close>

text \<open>
  What the expiry loop relies on: the head is a node with the least deadline, and
  taking it leaves the rest.  \<open>drain\<close> is the loop shape \<open>while (peek <= now) pop\<close>; \<open>size\<close>
  many rounds always suffice for it.
\<close>

locale timer_queue =
  fixes peek :: "'q \<Rightarrow> nid option"
    and pop :: "'q \<Rightarrow> nid option \<times> 'q"
    and inv :: "'q \<Rightarrow> bool"
    and nodes :: "'q \<Rightarrow> nid multiset"
    and key :: "'q \<Rightarrow> nid \<Rightarrow> u64"
  assumes peek_none: "inv q \<Longrightarrow> peek q = None \<Longrightarrow> nodes q = {#}"
    and peek_some: "inv q \<Longrightarrow> peek q = Some n \<Longrightarrow> n \<in># nodes q \<and> (\<forall>m \<in># nodes q. key q n \<le> key q m)"
    and pop_peek: "inv q \<Longrightarrow> peek q = Some n \<Longrightarrow>
      \<exists>q'. pop q = (Some n, q') \<and> inv q' \<and> nodes q' = nodes q - {#n#} \<and> key q' = key q"
begin

fun drain :: "nat \<Rightarrow> u64 \<Rightarrow> 'q \<Rightarrow> nid list \<times> 'q" where
  "drain 0 now q = ([], q)"
| "drain (Suc k) now q =
     (case peek q of
        None \<Rightarrow> ([], q)
      | Some n \<Rightarrow>
          if key q n \<le> now then (case drain k now (snd (pop q)) of (ns, q') \<Rightarrow> (n # ns, q'))
          else ([], q))"

lemma drain_spec:
  assumes "inv q" "size (nodes q) \<le> k" "drain k now q = (ns, q')"
  shows "inv q' \<and> key q' = key q \<and> mset ns = filter_mset (\<lambda>n. key q n \<le> now) (nodes q)
    \<and> nodes q' = filter_mset (\<lambda>n. \<not> key q n \<le> now) (nodes q) \<and> sorted (map (key q) ns)"
  using assms
proof (induction k now q arbitrary: ns rule: drain.induct)
  case (1 now q)
  then show ?case by simp
next
  case (2 k now q)
  show ?case
  proof (cases "peek q")
    case None
    then show ?thesis using "2.prems" peek_none by auto
  next
    case (Some n)
    note hd = peek_some [OF "2.prems"(1) Some]
    show ?thesis
    proof (cases "key q n \<le> now")
      case False
      then have out: "ns = []" "q' = q" using "2.prems"(3) Some by simp_all
      have "\<not> key q m \<le> now" if "m \<in># nodes q" for m using hd that False by force
      then have "filter_mset (\<lambda>n. key q n \<le> now) (nodes q) = {#}"
        "filter_mset (\<lambda>n. \<not> key q n \<le> now) (nodes q) = nodes q"
        by (auto intro!: multiset_eqI simp: count_eq_zero_iff)
      then show ?thesis using out "2.prems"(1) by simp
    next
      case True
      obtain q1 where q1: "pop q = (Some n, q1)" "inv q1" "nodes q1 = nodes q - {#n#}" "key q1 = key q"
        using pop_peek [OF "2.prems"(1) Some] by blast
      obtain ms where ms: "drain k now q1 = (ms, q')" "ns = n # ms"
        using "2.prems"(3) Some True q1(1) by (auto split: prod.splits)
      have "size (nodes q1) \<le> k" using "2.prems"(2) q1(3) hd by (simp add: size_Diff_singleton)
      with "2.IH" [OF Some True, of ms] q1 ms
      have ih: "inv q' \<and> key q' = key q \<and> mset ms = filter_mset (\<lambda>n. key q n \<le> now) (nodes q - {#n#})
        \<and> nodes q' = filter_mset (\<lambda>n. \<not> key q n \<le> now) (nodes q - {#n#}) \<and> sorted (map (key q) ms)"
        by simp
      obtain N where N: "nodes q = add_mset n N" using hd by (metis mset_add)
      have "key q n \<le> key q m" if "m \<in> set ms" for m
      proof -
        have "m \<in># nodes q" using that ih by (metis filter_mset_eq_conv in_diffD mset_subset_eqD set_mset_mset multiset_filter_subset)
        then show ?thesis using hd by blast
      qed
      then show ?thesis using ih ms(2) N True by simp
    qed
  qed
qed

end

lemma th_inv_peek:
  assumes "th_inv h ns" "vl_timer_heap_peek h = Some n"
  shows "\<exists>h' ns'. vl_timer_heap_pop h ns = (Some n, h', ns')"
  using assms(2)
  by (cases "vl_timer_heap_pop h ns")
     (auto simp: vl_timer_heap_peek_def vl_timer_heap_pop_def Let_def split: if_splits)

interpretation tq: timer_queue
  "\<lambda>(h, ns). vl_timer_heap_peek h" "\<lambda>(h, ns). vl_timer_heap_pop h ns"
  "\<lambda>(h, ns). th_inv h ns" "\<lambda>(h, ns). mset (th_live h)" "\<lambda>(h, ns) n. deadline_ns (ns n)"
proof (unfold_locales, goal_cases)
  case (1 q)
  then show ?case by (auto simp: vl_timer_heap_peek_def th_live_def split: if_splits)
next
  case (2 q n)
  then obtain h ns where q: "q = (h, ns)" "th_inv h ns" "vl_timer_heap_peek h = Some n" by (cases q) auto
  then obtain h' ns' where "vl_timer_heap_pop h ns = (Some n, h', ns')" using th_inv_peek by blast
  then show ?case using heap_pop(2,3) [OF q(2)] q(1) by auto
next
  case (3 q n)
  then obtain h ns where q: "q = (h, ns)" "th_inv h ns" "vl_timer_heap_peek h = Some n" by (cases q) auto
  then obtain h' ns' where pop: "vl_timer_heap_pop h ns = (Some n, h', ns')" using th_inv_peek by blast
  then show ?case
    using heap_pop(1) [OF q(2) pop] q(1) by (auto simp: th_taken_def ns_frame_def fun_eq_iff)
qed

section \<open>Properties\<close>

text \<open>A heap of three nodes with deadlines 10, 30 and 20, for the examples below.\<close>

definition demo_nodes :: node_store where
  "demo_nodes n = \<lparr>deadline_ns = (if n = 5 then 10 else if n = 6 then 30 else 20),
     heap_index = (if n = 5 then 0 else if n = 6 then 1 else 2),
     active = (n = 5 \<or> n = 6 \<or> n = 7), owner = Some n\<rparr>"

definition demo_heap :: vl_timer_heap where
  "demo_heap = \<lparr>th_items = [5, 6, 7] @ replicate 13 0, th_length = 3, th_capacity = 16\<rparr>"

lemma demo_heap_inv: "th_inv demo_heap demo_nodes"
proof -
  have "j = 1 \<or> j = 2" if "0 < j" "j < 3" for j :: nat using that by auto
  then have "key_ord (th_key demo_heap demo_nodes) 3"
    by (auto simp: key_ord_def par_def th_key_def demo_heap_def demo_nodes_def)
  moreover have "heap_index (demo_nodes (th_items demo_heap ! i)) = i" if "i < 3" for i
  proof -
    have "i = 0 \<or> i = 1 \<or> i = 2" using that by auto
    then show ?thesis by (auto simp: demo_heap_def demo_nodes_def)
  qed
  ultimately show ?thesis
    by (simp add: th_inv_def th_wf_def th_live_def) (simp add: demo_heap_def demo_nodes_def)
qed

text \<open>C9: Pushing an inactive timer node either succeeds, and then the heap invariant holds,
  the node is added, marked active, and deadlines, owners and foreign nodes are untouched; or the
  array is full and cannot grow, and then the call reports out of memory and changes nothing.\<close>

theorem timer_heap_push_correct:
  assumes "th_inv h ns" "\<not> active (ns node)" "vl_timer_heap_push realloc h ns node = (st, h', ns')"
  shows "(st = VL_OK \<and> th_inv h' ns' \<and> mset (th_live h') = add_mset node (mset (th_live h))
            \<and> ns_frame (insert node (set (th_live h))) ns ns'
            \<and> (\<forall>n. active (ns' n) \<longleftrightarrow> n = node \<or> active (ns n)))
       \<or> (st = VL_ERROR_OUT_OF_MEMORY \<and> h' = h \<and> ns' = ns \<and> th_length h = th_capacity h)"
  using heap_push [OF assms] by blast

theorem timer_heap_push_correct_witness:
  "th_inv demo_heap demo_nodes \<and> \<not> active (demo_nodes 9)
   \<and> (case vl_timer_heap_push None demo_heap demo_nodes 9 of (st, h', ns') \<Rightarrow>
        st = VL_OK \<and> th_inv h' ns' \<and> mset (th_live h') = {#5, 6, 7, 9#})"
proof -
  obtain h' ns' where push: "vl_timer_heap_push None demo_heap demo_nodes 9 = (VL_OK, h', ns')"
    by (cases "th_append demo_heap demo_nodes 9")
       (simp add: vl_timer_heap_push_def demo_heap_def demo_nodes_def)
  have off: "\<not> active (demo_nodes 9)" by (simp add: demo_nodes_def)
  have "mset (th_live demo_heap) = {#5, 6, 7#}" by (simp add: th_live_def demo_heap_def)
  then show ?thesis
    using timer_heap_push_correct [OF demo_heap_inv off push] demo_heap_inv off push
    by (simp add: add_mset_commute)
qed

text \<open>C10: Popping a non-empty timer heap returns a node with the least deadline, takes exactly
  that node out, marks only it inactive and re-establishes the heap invariant.\<close>

theorem timer_heap_pop_correct:
  assumes "th_inv h ns" "th_length h \<noteq> 0"
  shows "\<exists>node h' ns'. vl_timer_heap_pop h ns = (Some node, h', ns') \<and> vl_timer_heap_peek h = Some node
     \<and> node \<in> set (th_live h) \<and> (\<forall>n \<in> set (th_live h). deadline_ns (ns node) \<le> deadline_ns (ns n))
     \<and> th_taken h ns node h' ns'"
proof -
  have peek: "vl_timer_heap_peek h = Some (th_items h ! 0)"
    using assms(2) by (simp add: vl_timer_heap_peek_def)
  then obtain h' ns' where pop: "vl_timer_heap_pop h ns = (Some (th_items h ! 0), h', ns')"
    using th_inv_peek [OF assms(1)] by blast
  then show ?thesis using heap_pop [OF assms(1) pop] peek by blast
qed

theorem timer_heap_pop_correct_witness:
  "th_length demo_heap \<noteq> 0 \<and> fst (vl_timer_heap_pop demo_heap demo_nodes) = Some 5
   \<and> (\<exists>h' ns'. th_taken demo_heap demo_nodes 5 h' ns')"
proof -
  have ne: "th_length demo_heap \<noteq> 0" and hd: "vl_timer_heap_peek demo_heap = Some 5"
    by (simp_all add: demo_heap_def vl_timer_heap_peek_def)
  show ?thesis using timer_heap_pop_correct [OF demo_heap_inv ne] ne hd by auto
qed

text \<open>C11: Removing a node that is in the heap takes exactly that node out, wherever it stands,
  and re-establishes the heap invariant; removing an inactive node changes nothing.\<close>

theorem timer_heap_remove_correct:
  assumes "th_inv h ns"
  shows "(node \<in> set (th_live h) \<longrightarrow> (case vl_timer_heap_remove h ns node of (h', ns') \<Rightarrow> th_taken h ns node h' ns'))
    \<and> (\<not> active (ns node) \<longrightarrow> vl_timer_heap_remove h ns node = (h, ns))"
  using heap_remove [OF assms] by (auto simp: vl_timer_heap_remove_def split: prod.split)

theorem timer_heap_remove_correct_witness:
  "6 \<in> set (th_live demo_heap)
   \<and> (case vl_timer_heap_remove demo_heap demo_nodes 6 of (h', ns') \<Rightarrow> th_taken demo_heap demo_nodes 6 h' ns')"
  using timer_heap_remove_correct [OF demo_heap_inv, of 6] by (simp add: th_live_def demo_heap_def)

end
