(* ===== verification/Intrusive_Queue.thy ===== *)
theory Intrusive_Queue
  imports Veloco_Prelude
begin

text \<open>
  First-in first-out queues threaded through the objects they hold.  The runtime has
  two: the runnable queue, linked by \<^verbatim>\<open>queue_next\<close>, and the wait queues of joins and of
  the synchronization objects, linked by \<^verbatim>\<open>waiter_next\<close>.  \<open>fifo_rep\<close> relates the links
  and the head and tail pointers to the sequence they spell; the locale \<open>intrusive_fifo\<close>
  is what the clients of such a queue rely on.
\<close>

section \<open>Links and sequences\<close>

fun first_of :: "'a list \<Rightarrow> 'a option" where
  "first_of [] = None"
| "first_of (x # xs) = Some x"

definition last_of :: "'a list \<Rightarrow> 'a option" where
  "last_of xs = (if xs = [] then None else Some (last xs))"

fun links :: "('a \<Rightarrow> 'a option) \<Rightarrow> 'a list \<Rightarrow> bool" where
  "links nx [] = True"
| "links nx (x # xs) = (nx x = first_of xs \<and> links nx xs)"

definition fifo_rep :: "('a \<Rightarrow> 'a option) \<Rightarrow> 'a option \<Rightarrow> 'a option \<Rightarrow> 'a list \<Rightarrow> bool" where
  "fifo_rep nx head tail xs \<longleftrightarrow>
     distinct xs \<and> head = first_of xs \<and> tail = last_of xs \<and> links nx xs"

lemma links_cong: "(\<And>x. x \<in> set xs \<Longrightarrow> nx x = nx' x) \<Longrightarrow> links nx xs = links nx' xs"
  by (induction xs) auto

lemma first_of_append [simp]: "first_of (xs @ ys) = (if xs = [] then first_of ys else first_of xs)"
  by (cases xs) auto

lemma first_of_None [simp]: "first_of xs = None \<longleftrightarrow> xs = []"
  by (cases xs) auto

lemma last_of_simps [simp]:
  "last_of [] = None" "last_of (xs @ [x]) = Some x" "last_of xs = None \<longleftrightarrow> xs = []"
  "last_of (x # y # ys) = last_of (y # ys)" "last_of [x] = Some x"
  by (auto simp: last_of_def)

lemma links_append:
  assumes "distinct (xs @ [x])" "links nx xs" "xs \<noteq> []"
  shows "links ((nx(x := None))(last xs := Some x)) (xs @ [x])"
  using assms
proof (induction xs)
  case (Cons y ys)
  show ?case
  proof (cases "ys = []")
    case True
    with Cons.prems show ?thesis by auto
  next
    case ne: False
    have rest: "links ((nx(x := None))(last ys := Some x)) (ys @ [x])"
      by (rule Cons.IH) (use Cons.prems ne in simp_all)
    have "y \<noteq> last ys" "y \<noteq> x" using Cons.prems(1) last_in_set [OF ne] by auto
    then have "((nx(x := None))(last ys := Some x)) y = first_of (ys @ [x])"
      using Cons.prems(2) ne by simp
    then show ?thesis using rest ne by (simp del: fun_upd_apply)
  qed
qed simp

text \<open>The two pointer updates of every push, and of every pop.\<close>

lemma fifo_rep_push:
  assumes "fifo_rep nx head tail xs" "x \<notin> set xs"
  shows "fifo_rep (case tail of None \<Rightarrow> nx(x := None) | Some y \<Rightarrow> (nx(x := None))(y := Some x))
           (if tail = None then Some x else head) (Some x) (xs @ [x])"
  using assms links_append [of xs x nx]
  by (cases "xs = []") (auto simp: fifo_rep_def last_of_def)

lemma fifo_rep_pop:
  assumes "fifo_rep nx head tail (x # xs)"
  shows "head = Some x" "nx x = first_of xs"
    "fifo_rep (nx(x := None)) (nx x) (if nx x = None then None else tail) xs"
proof -
  show "head = Some x" and nx: "nx x = first_of xs" using assms by (simp_all add: fifo_rep_def)
  have "links (nx(x := None)) xs"
    using assms by (subst links_cong [of xs _ nx]) (auto simp: fifo_rep_def)
  then show "fifo_rep (nx(x := None)) (nx x) (if nx x = None then None else tail) xs"
    using assms nx by (cases xs) (simp_all add: fifo_rep_def)
qed

lemma fifo_rep_nil: "fifo_rep nx head tail [] \<longleftrightarrow> head = None \<and> tail = None"
  by (simp add: fifo_rep_def)

lemma fifo_rep_cong:
  assumes "\<And>x. x \<in> set xs \<Longrightarrow> nx' x = nx x"
  shows "fifo_rep nx' head tail xs = fifo_rep nx head tail xs"
  using links_cong [of xs nx' nx] assms by (simp add: fifo_rep_def)

lemma fifo_rep_unique:
  assumes "fifo_rep nx head tail xs" "fifo_rep nx head tail ys"
  shows "xs = ys"
proof -
  have "xs = ys" if "links nx xs" "links nx ys" "first_of xs = first_of ys" for xs ys
    using that
  proof (induction xs arbitrary: ys)
    case Nil
    then show ?case by (metis first_of_None)
  next
    case (Cons x xs)
    then obtain zs where "ys = x # zs" by (cases ys) auto
    with Cons show ?case by auto
  qed
  then show ?thesis using assms by (simp add: fifo_rep_def)
qed

section \<open>The queue interface\<close>

locale intrusive_fifo =
  fixes push :: "'s \<Rightarrow> 'q \<Rightarrow> 'a \<Rightarrow> 's \<times> 'q"
    and pop :: "'s \<Rightarrow> 'q \<Rightarrow> 'a option \<times> 's \<times> 'q"
    and rep :: "'s \<Rightarrow> 'q \<Rightarrow> 'a list \<Rightarrow> bool"
  assumes rep_push: "rep s q xs \<Longrightarrow> x \<notin> set xs \<Longrightarrow> push s q x = (s', q') \<Longrightarrow> rep s' q' (xs @ [x])"
    and rep_pop_nil: "rep s q [] \<Longrightarrow> pop s q = (None, s, q)"
    and rep_pop_cons: "rep s q (x # xs) \<Longrightarrow> \<exists>s' q'. pop s q = (Some x, s', q') \<and> rep s' q' xs"
    and rep_distinct: "rep s q xs \<Longrightarrow> distinct xs"
begin

lemma pop_cases:
  assumes "rep s q xs"
  obtains "xs = []" "pop s q = (None, s, q)"
  | x ys s' q' where "xs = x # ys" "pop s q = (Some x, s', q')" "rep s' q' ys" "x \<notin> set ys"
proof (cases xs)
  case Nil
  then show ?thesis using assms rep_pop_nil that(1) by simp
next
  case (Cons x ys)
  then show ?thesis using assms rep_pop_cons rep_distinct [OF assms] that(2) by fastforce
qed

text \<open>A rotation: the head goes to the back.\<close>

lemma pop_push:
  assumes "rep s q (x # xs)"
  shows "\<exists>s' q' s'' q''. pop s q = (Some x, s', q') \<and> push s' q' x = (s'', q'') \<and> rep s'' q'' (xs @ [x])"
proof -
  obtain s' q' where pop: "pop s q = (Some x, s', q')" "rep s' q' xs"
    using rep_pop_cons [OF assms] by blast
  moreover have "x \<notin> set xs" using rep_distinct [OF assms] by simp
  moreover obtain s'' q'' where "push s' q' x = (s'', q'')" by (cases "push s' q' x")
  ultimately show ?thesis using rep_push by blast
qed

end

end
