(* ===== verification/Runtime_Core.thy ===== *)
theory Runtime_Core
  imports Intrusive_Queue Run_Queue Timer_Heap
begin

text \<open>
  The runtime object, its tasks and processors, and the operations on them that run
  under the runtime mutex: \<^verbatim>\<open>src/runtime/runtime_internal.h\<close>, \<^verbatim>\<open>scheduler.c\<close>, \<^verbatim>\<open>context.c\<close> and
  \<^verbatim>\<open>task.c\<close>.  One runtime is modelled.  Task pointers are task ids into the store
  \<open>rt_tasks\<close> and processor pointers are indices into \<open>rt_ps\<close>; a NULL pointer is \<open>None\<close>.
  The back pointers \<^verbatim>\<open>runtime\<close> and \<^verbatim>\<open>id\<close>, the task's function and argument, the thread and fiber
  scheduler handles and the fields \<^verbatim>\<open>timer_node\<close> and \<^verbatim>\<open>timer_p\<close> of a task, which no code reads,
  are left out.
  A handle whose \<^verbatim>\<open>impl\<close> is NULL, or which is itself NULL, is \<open>None\<close>.  The chain of
  \<^verbatim>\<open>all_next\<close>, which only ever grows at its head, is the list \<open>rt_all_tasks\<close>.  A critical
  section is one function on the runtime.  The thread-local processor of the calling
  thread is an argument of type \<open>tls\<close>, and so is every answer of the C library
  (allocation, clock, thread creation).  An operation that parks the calling task
  answers \<open>Park\<close>: what it returns is computed when the task is resumed.  Statistics
  counters are 64-bit words and wrap; the counters that describe the runtime (live
  tasks, workers, timers, waiters) are natural numbers.
\<close>

section \<open>Tasks\<close>

type_synonym tid = nat
type_synonym pid = nat

datatype vl_task_state_t =
    VL_TASK_NEW
  | VL_TASK_RUNNABLE
  | VL_TASK_RUNNING
  | VL_TASK_WAITING
  | VL_TASK_SLEEPING
  | VL_TASK_DONE
  | VL_TASK_CANCELLED

record vl_task =
  t_fiber :: "nat option"
  t_state :: vl_task_state_t
  t_queued :: bool
  t_queue_next :: "tid option"
  t_waiters_head :: "tid option"
  t_waiters_tail :: "tid option"
  t_waiter_next :: "tid option"
  t_waiting_on :: "tid option"
  t_wait_value :: "nat option"
  t_wait_output :: "nat option"
  t_wait_result :: vl_status
  t_timer_result :: vl_status
  t_last_p :: "pid option"
  t_executing :: bool
  t_wake_pending :: bool
  t_waiting_for_io :: bool

type_synonym task_store = "tid \<Rightarrow> vl_task"

text \<open>A task as \<^verbatim>\<open>calloc\<close> leaves it (state 0 is NEW and status 0 is OK).\<close>

definition vl_task_zero :: vl_task where
  "vl_task_zero =
     \<lparr>t_fiber = None, t_state = VL_TASK_NEW, t_queued = False, t_queue_next = None,
      t_waiters_head = None, t_waiters_tail = None, t_waiter_next = None, t_waiting_on = None,
      t_wait_value = None, t_wait_output = None, t_wait_result = VL_OK, t_timer_result = VL_OK,
      t_last_p = None, t_executing = False, t_wake_pending = False, t_waiting_for_io = False\<rparr>"

definition upd :: "(vl_task \<Rightarrow> vl_task) \<Rightarrow> tid \<Rightarrow> task_store \<Rightarrow> task_store" where
  "upd f t ts = ts(t := f (ts t))"

section \<open>The runnable queue\<close>

record vl_task_queue =
  tq_head :: "tid option"
  tq_tail :: "tid option"
  tq_length :: nat

definition vl_task_queue_push ::
  "task_store \<Rightarrow> vl_task_queue \<Rightarrow> tid \<Rightarrow> task_store \<times> vl_task_queue" where
  "vl_task_queue_push ts q task =
     (let ts1 = upd (\<lambda>t. t\<lparr>t_queue_next := None\<rparr>) task ts;
          (ts2, q2) = (case tq_tail q of
                         None \<Rightarrow> (ts1, q\<lparr>tq_head := Some task\<rparr>)
                       | Some prev \<Rightarrow> (upd (\<lambda>t. t\<lparr>t_queue_next := Some task\<rparr>) prev ts1, q))
      in (ts2, q2\<lparr>tq_tail := Some task, tq_length := tq_length q2 + 1\<rparr>))"

definition vl_task_queue_pop ::
  "task_store \<Rightarrow> vl_task_queue \<Rightarrow> tid option \<times> task_store \<times> vl_task_queue" where
  "vl_task_queue_pop ts q =
     (case tq_head q of
        None \<Rightarrow> (None, ts, q)
      | Some task \<Rightarrow>
          (let q1 = q\<lparr>tq_head := t_queue_next (ts task)\<rparr>;
               q2 = (if tq_head q1 = None then q1\<lparr>tq_tail := None\<rparr> else q1)
           in (Some task, upd (\<lambda>t. t\<lparr>t_queue_next := None\<rparr>) task ts,
               q2\<lparr>tq_length := tq_length q2 - 1\<rparr>)))"

section \<open>Processors and the runtime object\<close>

record vl_runtime_stats =
  st_spawned :: usize
  st_completed :: usize
  st_cancelled :: usize
  st_runnable :: usize
  st_worker_count :: usize
  st_steals :: usize
  st_parks :: usize
  st_task_switches :: usize

record vl_runtime_p_stats =
  ps_executed :: usize
  ps_local_pushes :: usize
  ps_global_pulls :: usize
  ps_steal_attempts :: usize
  ps_steals :: usize
  ps_parks :: usize

text \<open>\<open>p_event\<close> says whether the counter behind \<^verbatim>\<open>event_fd\<close> is non-zero.\<close>

record vl_p =
  p_runnable :: "tid vl_run_queue"
  p_event :: bool
  p_idle :: bool
  p_current :: "tid option"
  p_stats :: vl_runtime_p_stats
  p_timers :: vl_timer_heap
  p_thread_started :: bool
  p_init_status :: vl_status

text \<open>
  A \<^verbatim>\<open>vl_timer_impl_t\<close> has its node embedded: timer \<open>i\<close> owns node \<open>i\<close> of \<open>rt_nodes\<close>.
  \<open>rt_out\<close> is the memory behind the \<^verbatim>\<open>void **\<close> arguments of channel receives.
\<close>

record vl_timer_impl =
  ti_task :: "tid option"
  ti_p :: "pid option"

record vl_runtime_impl =
  rt_tasks :: task_store
  rt_global_runnable :: vl_task_queue
  rt_all_tasks :: "tid list"
  rt_ps :: "pid \<Rightarrow> vl_p"
  rt_worker_count :: nat
  rt_live_tasks :: nat
  rt_active_workers :: nat
  rt_idle_workers :: nat
  rt_timer_count :: nat
  rt_io_driver :: "nat option"
  rt_io_waiting :: nat
  rt_running :: bool
  rt_run_status :: vl_status
  rt_shutdown_requested :: bool
  rt_stop_workers :: bool
  rt_stats :: vl_runtime_stats
  rt_nodes :: node_store
  rt_timers :: "nat \<Rightarrow> vl_timer_impl"
  rt_out :: "nat \<Rightarrow> nat option"
  rt_workers_ready :: nat
  rt_task_stack_size :: usize

text \<open>The processor of the calling thread: none, one of this runtime's, or one of another's.\<close>

datatype tls = TlsNull | TlsP pid | TlsForeign

text \<open>A call either returns or parks the calling task.\<close>

datatype 'a outcome = Ret 'a | Park

definition upd_task :: "(vl_task \<Rightarrow> vl_task) \<Rightarrow> tid \<Rightarrow> vl_runtime_impl \<Rightarrow> vl_runtime_impl" where
  "upd_task f t rt = rt\<lparr>rt_tasks := upd f t (rt_tasks rt)\<rparr>"

definition upd_p :: "(vl_p \<Rightarrow> vl_p) \<Rightarrow> pid \<Rightarrow> vl_runtime_impl \<Rightarrow> vl_runtime_impl" where
  "upd_p f p rt = rt\<lparr>rt_ps := (rt_ps rt)(p := f (rt_ps rt p))\<rparr>"

definition upd_stats :: "(vl_runtime_stats \<Rightarrow> vl_runtime_stats) \<Rightarrow> vl_runtime_impl \<Rightarrow> vl_runtime_impl" where
  "upd_stats f rt = rt\<lparr>rt_stats := f (rt_stats rt)\<rparr>"

definition upd_p_stats ::
  "(vl_runtime_p_stats \<Rightarrow> vl_runtime_p_stats) \<Rightarrow> pid \<Rightarrow> vl_runtime_impl \<Rightarrow> vl_runtime_impl" where
  "upd_p_stats f p rt = upd_p (\<lambda>P. P\<lparr>p_stats := f (p_stats P)\<rparr>) p rt"

definition set_state :: "vl_task_state_t \<Rightarrow> tid \<Rightarrow> vl_runtime_impl \<Rightarrow> vl_runtime_impl" where
  "set_state st t rt = upd_task (\<lambda>tk. tk\<lparr>t_state := st\<rparr>) t rt"

text \<open>The counter updates that occur in several operations.\<close>

definition count_switch :: "vl_runtime_impl \<Rightarrow> vl_runtime_impl" where
  "count_switch rt = upd_stats (\<lambda>s. s\<lparr>st_task_switches := st_task_switches s + 1\<rparr>) rt"

definition count_cancelled :: "vl_runtime_impl \<Rightarrow> vl_runtime_impl" where
  "count_cancelled rt = upd_stats (\<lambda>s. s\<lparr>st_cancelled := st_cancelled s + 1\<rparr>) rt"

definition count_park :: "pid \<Rightarrow> vl_runtime_impl \<Rightarrow> vl_runtime_impl" where
  "count_park p rt =
     upd_p_stats (\<lambda>s. s\<lparr>ps_parks := ps_parks s + 1\<rparr>) p
       (upd_stats (\<lambda>s. s\<lparr>st_parks := st_parks s + 1\<rparr>) rt)"

definition drop_live :: "vl_runtime_impl \<Rightarrow> vl_runtime_impl" where
  "drop_live rt = (if rt_live_tasks rt \<noteq> 0 then rt\<lparr>rt_live_tasks := rt_live_tasks rt - 1\<rparr> else rt)"

abbreviation task_state :: "vl_runtime_impl \<Rightarrow> tid \<Rightarrow> vl_task_state_t" where
  "task_state rt t \<equiv> t_state (rt_tasks rt t)"

section \<open>Scheduling operations\<close>

definition vl_runtime_wake_workers :: "vl_runtime_impl \<Rightarrow> vl_runtime_impl" where
  "vl_runtime_wake_workers rt =
     rt\<lparr>rt_ps := (\<lambda>p. if p < rt_worker_count rt then (rt_ps rt p)\<lparr>p_event := True\<rparr> else rt_ps rt p)\<rparr>"

definition vl_task_mark_queued :: "tid \<Rightarrow> vl_runtime_impl \<Rightarrow> bool \<times> vl_runtime_impl" where
  "vl_task_mark_queued t rt =
     (if t_queued (rt_tasks rt t) then (False, rt)
      else (True, upd_task (\<lambda>tk. tk\<lparr>t_queued := True\<rparr>) t rt))"

definition global_push :: "tid \<Rightarrow> vl_runtime_impl \<Rightarrow> vl_runtime_impl" where
  "global_push t rt =
     (case vl_task_queue_push (rt_tasks rt) (rt_global_runnable rt) t of
        (ts, q) \<Rightarrow> rt\<lparr>rt_tasks := ts, rt_global_runnable := q\<rparr>)"

definition global_pop :: "vl_runtime_impl \<Rightarrow> tid option \<times> vl_runtime_impl" where
  "global_pop rt =
     (case vl_task_queue_pop (rt_tasks rt) (rt_global_runnable rt) of
        (t, ts, q) \<Rightarrow> (t, rt\<lparr>rt_tasks := ts, rt_global_runnable := q\<rparr>))"

text \<open>A push by the owner of the processor onto its run queue.\<close>

definition local_push :: "pid \<Rightarrow> tid \<Rightarrow> vl_runtime_impl \<Rightarrow> vl_status \<times> vl_runtime_impl" where
  "local_push p t rt =
     (case vl_run_queue_owner_push (p_runnable (rt_ps rt p)) (Some t) of
        (st, q) \<Rightarrow> (st, upd_p (\<lambda>P. P\<lparr>p_runnable := q\<rparr>) p rt))"

definition count_local_push :: "pid \<Rightarrow> vl_runtime_impl \<Rightarrow> vl_runtime_impl" where
  "count_local_push p rt = upd_p_stats (\<lambda>s. s\<lparr>ps_local_pushes := ps_local_pushes s + 1\<rparr>) p rt"

definition vl_task_enqueue_global_locked :: "tid \<Rightarrow> vl_runtime_impl \<Rightarrow> vl_runtime_impl" where
  "vl_task_enqueue_global_locked t rt =
     (if task_state rt t \<noteq> VL_TASK_RUNNABLE then rt
      else (case vl_task_mark_queued t rt of
              (False, rt1) \<Rightarrow> rt1
            | (True, rt1) \<Rightarrow> global_push t rt1))"

definition vl_task_enqueue_local_locked :: "pid \<Rightarrow> tid \<Rightarrow> vl_runtime_impl \<Rightarrow> vl_runtime_impl" where
  "vl_task_enqueue_local_locked p t rt =
     (if task_state rt t \<noteq> VL_TASK_RUNNABLE then rt
      else (case vl_task_mark_queued t rt of
              (False, rt1) \<Rightarrow> rt1
            | (True, rt1) \<Rightarrow>
                if rt_worker_count rt1 = 1 \<or> t_fiber (rt_tasks rt1 t) \<noteq> None then global_push t rt1
                else (case local_push p t rt1 of
                        (st, rt2) \<Rightarrow>
                          if st = VL_OK then count_local_push p rt2 else global_push t rt2)))"

definition vl_task_wake_locked :: "tid \<Rightarrow> vl_runtime_impl \<Rightarrow> vl_runtime_impl" where
  "vl_task_wake_locked t rt =
     (if task_state rt t \<noteq> VL_TASK_WAITING \<and> task_state rt t \<noteq> VL_TASK_SLEEPING then rt
      else if t_executing (rt_tasks rt t) then upd_task (\<lambda>tk. tk\<lparr>t_wake_pending := True\<rparr>) t rt
      else vl_task_enqueue_global_locked t (set_state VL_TASK_RUNNABLE t rt))"

definition vl_task_is_terminal :: "vl_runtime_impl \<Rightarrow> tid option \<Rightarrow> bool" where
  "vl_task_is_terminal rt task =
     (let state = (case task of Some t \<Rightarrow> task_state rt t | None \<Rightarrow> VL_TASK_CANCELLED)
      in state = VL_TASK_DONE \<or> state = VL_TASK_CANCELLED)"

text \<open>One round of the cancellation loop, and the loop over all tasks.\<close>

definition cancel_one :: "tid \<Rightarrow> vl_runtime_impl \<Rightarrow> vl_runtime_impl" where
  "cancel_one t rt =
     (if \<not> vl_task_is_terminal rt (Some t) \<and> \<not> t_executing (rt_tasks rt t) then
        let rt1 = set_state VL_TASK_CANCELLED t rt;
            rt2 = (if t_waiting_for_io (rt_tasks rt1 t) \<and> rt_io_waiting rt1 \<noteq> 0
                   then upd_task (\<lambda>tk. tk\<lparr>t_waiting_for_io := False\<rparr>) t
                          (rt1\<lparr>rt_io_waiting := rt_io_waiting rt1 - 1\<rparr>)
                   else rt1)
        in count_cancelled (drop_live rt2)
      else rt)"

definition vl_task_cancel_all :: "vl_runtime_impl \<Rightarrow> vl_runtime_impl" where
  "vl_task_cancel_all rt = fold cancel_one (rt_all_tasks rt) rt"

definition vl_runtime_runnable_count :: "vl_runtime_impl \<Rightarrow> usize" where
  "vl_runtime_runnable_count rt =
     foldl (\<lambda>count p. count + vl_run_queue_length (p_runnable (rt_ps rt p)))
       (of_nat (tq_length (rt_global_runnable rt))) [0..<rt_worker_count rt]"

definition vl_runtime_stats_zero :: vl_runtime_stats where
  "vl_runtime_stats_zero =
     \<lparr>st_spawned = 0, st_completed = 0, st_cancelled = 0, st_runnable = 0, st_worker_count = 0,
      st_steals = 0, st_parks = 0, st_task_switches = 0\<rparr>"

definition vl_runtime_get_stats :: "vl_runtime_impl option \<Rightarrow> vl_runtime_stats" where
  "vl_runtime_get_stats runtime =
     (case runtime of
        None \<Rightarrow> vl_runtime_stats_zero
      | Some impl \<Rightarrow> (rt_stats impl)\<lparr>st_runnable := vl_runtime_runnable_count impl\<rparr>)"

definition vl_runtime_worker_count :: "vl_runtime_impl option \<Rightarrow> nat" where
  "vl_runtime_worker_count runtime =
     (case runtime of Some impl \<Rightarrow> rt_worker_count impl | None \<Rightarrow> 0)"

definition vl_runtime_get_p_stats ::
  "vl_runtime_impl option \<Rightarrow> nat \<Rightarrow> vl_status \<times> vl_runtime_p_stats option" where
  "vl_runtime_get_p_stats runtime p_index =
     (case runtime of
        None \<Rightarrow> (VL_ERROR_INVALID_ARGUMENT, None)
      | Some impl \<Rightarrow>
          if p_index \<ge> rt_worker_count impl then (VL_ERROR_INVALID_ARGUMENT, None)
          else (VL_OK, Some (p_stats (rt_ps impl p_index))))"

definition vl_runtime_request_shutdown ::
  "vl_runtime_impl option \<Rightarrow> vl_runtime_impl option" where
  "vl_runtime_request_shutdown runtime =
     map_option (\<lambda>impl. vl_runtime_wake_workers
       (impl\<lparr>rt_shutdown_requested := True, rt_running := False\<rparr>)) runtime"

section \<open>The calling context\<close>

text \<open>
  \<open>vl_context_set_current\<close> answers the new thread-local processor together with the
  index the allocator is bound to.
\<close>

definition vl_context_set_current ::
  "pid option \<Rightarrow> tid option \<Rightarrow> vl_runtime_impl \<Rightarrow> tls \<times> nat \<times> vl_runtime_impl" where
  "vl_context_set_current p task rt =
     (case p of
        None \<Rightarrow> (TlsNull, 0, rt)
      | Some i \<Rightarrow> (TlsP i, i, upd_p (\<lambda>P. P\<lparr>p_current := task\<rparr>) i rt))"

text \<open>Whether \<^verbatim>\<open>vl_current_runtime\<close> answers the modelled runtime.\<close>

definition vl_current_runtime_is :: "tls \<Rightarrow> bool" where
  "vl_current_runtime_is tls = (case tls of TlsP p \<Rightarrow> True | _ \<Rightarrow> False)"

definition vl_task_current :: "tls \<Rightarrow> vl_runtime_impl \<Rightarrow> tid option" where
  "vl_task_current tls rt = (case tls of TlsP p \<Rightarrow> p_current (rt_ps rt p) | _ \<Rightarrow> None)"

text \<open>
  The common preamble of the parking calls, \<^verbatim>\<open>vl_timer_current\<close> and \<^verbatim>\<open>vl_sync_current\<close>: the
  caller must be a task of this runtime, running on one of its processors.
\<close>

definition caller_of :: "tls \<Rightarrow> vl_runtime_impl \<Rightarrow> (pid \<times> tid) option" where
  "caller_of tls rt =
     (case tls of
        TlsP p \<Rightarrow> (case p_current (rt_ps rt p) of Some t \<Rightarrow> Some (p, t) | None \<Rightarrow> None)
      | _ \<Rightarrow> None)"

definition vl_task_prepare_park ::
  "tls \<Rightarrow> vl_task_state_t \<Rightarrow> vl_runtime_impl \<Rightarrow> vl_status \<times> vl_runtime_impl" where
  "vl_task_prepare_park tls state rt =
     (case caller_of tls rt of
        None \<Rightarrow> (VL_ERROR_INVALID_STATE, rt)
      | Some (p, t) \<Rightarrow>
          if state \<noteq> VL_TASK_WAITING \<and> state \<noteq> VL_TASK_SLEEPING then (VL_ERROR_INVALID_STATE, rt)
          else if task_state rt t \<noteq> VL_TASK_RUNNING \<or> \<not> t_executing (rt_tasks rt t)
          then (VL_ERROR_INVALID_STATE, rt)
          else (VL_OK, count_park p (set_state state t rt)))"

section \<open>Task operations\<close>

text \<open>
  \<open>is_owner\<close>: the caller is the thread that initialised the runtime.  \<open>fresh\<close> is the new task's
  address, \<open>None\<close> when \<^verbatim>\<open>calloc\<close> fails.  \<open>fn_ok\<close>: the task function is not NULL.
\<close>

definition vl_spawn ::
  "bool \<Rightarrow> tls \<Rightarrow> tid option \<Rightarrow> bool \<Rightarrow> vl_runtime_impl option \<Rightarrow> tid option \<times> vl_runtime_impl option" where
  "vl_spawn is_owner tls fresh fn_ok runtime =
     (case runtime of
        None \<Rightarrow> (None, runtime)
      | Some impl \<Rightarrow>
          if \<not> fn_ok then (None, runtime)
          else if \<not> is_owner \<and> \<not> vl_current_runtime_is tls then (None, runtime)
          else (case fresh of
                  None \<Rightarrow> (None, runtime)
                | Some t \<Rightarrow>
                    if rt_shutdown_requested impl then (None, runtime)
                    else
                      let rt1 = impl\<lparr>rt_tasks := (rt_tasks impl)(t := vl_task_zero),
                                     rt_all_tasks := t # rt_all_tasks impl\<rparr>;
                          rt2 = vl_task_enqueue_global_locked t (set_state VL_TASK_RUNNABLE t rt1);
                          rt3 = upd_stats (\<lambda>s. s\<lparr>st_spawned := st_spawned s + 1\<rparr>)
                                  (rt2\<lparr>rt_live_tasks := rt_live_tasks rt2 + 1\<rparr>)
                      in (Some t, Some (vl_runtime_wake_workers rt3))))"

definition vl_yield :: "tls \<Rightarrow> vl_runtime_impl \<Rightarrow> unit outcome \<times> vl_runtime_impl" where
  "vl_yield tls rt =
     (case caller_of tls rt of
        None \<Rightarrow> (Ret (), rt)
      | Some (p, t) \<Rightarrow>
          if task_state rt t \<noteq> VL_TASK_RUNNING \<or> \<not> t_executing (rt_tasks rt t) then (Ret (), rt)
          else (Park, count_switch (set_state VL_TASK_RUNNABLE t rt)))"

text \<open>The part of \<^verbatim>\<open>vl_join\<close> under the lock, for the caller \<open>current\<close> on \<open>p\<close>.\<close>

definition join_enqueue :: "tid \<Rightarrow> tid \<Rightarrow> task_store \<Rightarrow> task_store" where
  "join_enqueue current task ts =
     (let ts1 = upd (\<lambda>t. t\<lparr>t_waiting_on := Some task, t_waiter_next := None\<rparr>) current ts;
          ts2 = (case t_waiters_tail (ts1 task) of
                   None \<Rightarrow> upd (\<lambda>t. t\<lparr>t_waiters_head := Some current\<rparr>) task ts1
                 | Some prev \<Rightarrow> upd (\<lambda>t. t\<lparr>t_waiter_next := Some current\<rparr>) prev ts1)
      in upd (\<lambda>t. t\<lparr>t_waiters_tail := Some current\<rparr>) task ts2)"

definition vl_join_locked ::
  "pid \<Rightarrow> tid \<Rightarrow> tid \<Rightarrow> vl_runtime_impl \<Rightarrow> vl_status outcome \<times> vl_runtime_impl" where
  "vl_join_locked p current task rt =
     (if task_state rt task = VL_TASK_DONE then (Ret VL_OK, rt)
      else if task_state rt task = VL_TASK_CANCELLED \<or> task_state rt current \<noteq> VL_TASK_RUNNING
      then (Ret VL_ERROR_INVALID_STATE, rt)
      else
        let rt1 = set_state VL_TASK_WAITING current rt;
            rt2 = rt1\<lparr>rt_tasks := join_enqueue current task (rt_tasks rt1)\<rparr>
        in (Park, count_switch (count_park p rt2)))"

definition vl_join :: "tls \<Rightarrow> tid option \<Rightarrow> vl_runtime_impl \<Rightarrow> vl_status outcome \<times> vl_runtime_impl" where
  "vl_join tls task rt =
     (case task of
        None \<Rightarrow> (Ret VL_ERROR_INVALID_ARGUMENT, rt)
      | Some t \<Rightarrow>
          if task_state rt t = VL_TASK_DONE then (Ret VL_OK, rt)
          else (case caller_of tls rt of
                  None \<Rightarrow> (Ret VL_ERROR_INVALID_STATE, rt)
                | Some (p, current) \<Rightarrow>
                    if current = t then (Ret VL_ERROR_INVALID_STATE, rt)
                    else vl_join_locked p current t rt))"

text \<open>What \<^verbatim>\<open>vl_join\<close> returns when the parked caller is resumed.\<close>

definition vl_join_resume :: "tid \<Rightarrow> vl_runtime_impl \<Rightarrow> vl_status" where
  "vl_join_resume task rt =
     (if task_state rt task = VL_TASK_DONE then VL_OK else VL_ERROR_INVALID_STATE)"

definition vl_task_state :: "tid option \<Rightarrow> vl_runtime_impl \<Rightarrow> vl_task_state_t" where
  "vl_task_state task rt =
     (case task of Some t \<Rightarrow> task_state rt t | None \<Rightarrow> VL_TASK_CANCELLED)"

text \<open>
  The loop over the joiners.  Its fuel is the number of tasks of the runtime, which
  bounds the length of the chain.
\<close>

fun wake_joiners :: "nat \<Rightarrow> tid option \<Rightarrow> vl_runtime_impl \<Rightarrow> vl_runtime_impl" where
  "wake_joiners fuel None rt = rt"
| "wake_joiners 0 (Some waiter) rt = rt"
| "wake_joiners (Suc fuel) (Some waiter) rt =
     (let next = t_waiter_next (rt_tasks rt waiter);
          rt1 = upd_task (\<lambda>t. t\<lparr>t_waiter_next := None, t_waiting_on := None\<rparr>) waiter rt
      in wake_joiners fuel next (vl_task_wake_locked waiter rt1))"

definition vl_task_complete_locked :: "tid \<Rightarrow> vl_runtime_impl \<Rightarrow> vl_runtime_impl" where
  "vl_task_complete_locked task rt =
     (let waiter = t_waiters_head (rt_tasks rt task);
          rt1 = upd_task (\<lambda>t. t\<lparr>t_waiters_head := None, t_waiters_tail := None\<rparr>) task rt;
          rt2 = wake_joiners (length (rt_all_tasks rt)) waiter rt1
      in upd_stats (\<lambda>s. s\<lparr>st_completed := st_completed s + 1\<rparr>) (drop_live rt2))"

definition vl_task_can_park_for_io ::
  "tls \<Rightarrow> tid option \<Rightarrow> nat option \<Rightarrow> vl_runtime_impl \<Rightarrow> vl_status" where
  "vl_task_can_park_for_io tls task io rt =
     (case (tls, task, io) of
        (TlsP p, Some t, Some i) \<Rightarrow>
          if p \<noteq> 0 \<or> p_current (rt_ps rt p) \<noteq> Some t \<or> task_state rt t \<noteq> VL_TASK_RUNNING
             \<or> t_waiting_for_io (rt_tasks rt t)
          then VL_ERROR_INVALID_STATE
          else if rt_io_waiting rt \<noteq> 0 \<and> rt_io_driver rt \<noteq> Some i then VL_ERROR_INVALID_STATE
          else VL_OK
      | _ \<Rightarrow> VL_ERROR_INVALID_STATE)"

definition vl_task_park_for_io ::
  "tls \<Rightarrow> tid option \<Rightarrow> nat option \<Rightarrow> vl_runtime_impl \<Rightarrow> vl_status outcome \<times> vl_runtime_impl" where
  "vl_task_park_for_io tls task io rt =
     (if vl_task_can_park_for_io tls task io rt \<noteq> VL_OK then (Ret VL_ERROR_INVALID_STATE, rt)
      else (case (tls, task) of
              (TlsP p, Some t) \<Rightarrow>
                (let rt1 = upd_task (\<lambda>tk. tk\<lparr>t_waiting_for_io := True, t_state := VL_TASK_WAITING\<rparr>) t
                             (rt\<lparr>rt_io_driver := io\<rparr>);
                     rt2 = rt1\<lparr>rt_io_waiting := rt_io_waiting rt1 + 1\<rparr>
                 in (Park, count_switch (count_park p rt2)))
            | _ \<Rightarrow> (Ret VL_ERROR_INVALID_STATE, rt)))"

definition vl_task_park_for_io_resume :: "tid \<Rightarrow> vl_runtime_impl \<Rightarrow> vl_status" where
  "vl_task_park_for_io_resume task rt =
     (if task_state rt task = VL_TASK_RUNNING then VL_OK else VL_ERROR_INVALID_STATE)"

definition vl_task_complete_io ::
  "tid option \<Rightarrow> bool \<Rightarrow> vl_runtime_impl \<Rightarrow> vl_status \<times> vl_runtime_impl" where
  "vl_task_complete_io task completion_ok rt =
     (case task of
        None \<Rightarrow> (VL_ERROR_INVALID_STATE, rt)
      | Some t \<Rightarrow>
          if \<not> completion_ok then (VL_ERROR_INVALID_STATE, rt)
          else if task_state rt t \<noteq> VL_TASK_WAITING \<or> \<not> t_waiting_for_io (rt_tasks rt t)
                  \<or> rt_io_waiting rt = 0
          then (VL_ERROR_INVALID_STATE, rt)
          else
            let rt1 = upd_task (\<lambda>tk. tk\<lparr>t_waiting_for_io := False\<rparr>) t
                        (rt\<lparr>rt_io_waiting := rt_io_waiting rt - 1\<rparr>);
                rt2 = (if rt_io_waiting rt1 = 0 then rt1\<lparr>rt_io_driver := None\<rparr> else rt1)
            in (VL_OK, vl_runtime_wake_workers (vl_task_wake_locked t rt2)))"

section \<open>The runnable queue is a queue\<close>

definition tq_rep :: "task_store \<Rightarrow> vl_task_queue \<Rightarrow> tid list \<Rightarrow> bool" where
  "tq_rep ts q xs \<longleftrightarrow>
     fifo_rep (\<lambda>t. t_queue_next (ts t)) (tq_head q) (tq_tail q) xs \<and> tq_length q = length xs"

lemma upd_apply: "upd f t ts x = (if x = t then f (ts t) else ts x)"
  by (simp add: upd_def)

lemma upd_queue_next [simp]:
  "(\<lambda>x. t_queue_next (upd (\<lambda>tk. tk\<lparr>t_queue_next := v\<rparr>) t ts x)) = (\<lambda>x. t_queue_next (ts x))(t := v)"
  by (simp add: fun_eq_iff upd_apply)

lemma tq_push_rep:
  assumes "tq_rep ts q xs" "x \<notin> set xs" "vl_task_queue_push ts q x = (ts', q')"
  shows "tq_rep ts' q' (xs @ [x])"
  using fifo_rep_push [of "\<lambda>t. t_queue_next (ts t)" "tq_head q" "tq_tail q" xs x] assms
  by (auto simp: tq_rep_def vl_task_queue_push_def Let_def split: option.splits)

lemma tq_pop_nil: "tq_rep ts q [] \<Longrightarrow> vl_task_queue_pop ts q = (None, ts, q)"
  by (simp add: tq_rep_def fifo_rep_nil vl_task_queue_pop_def)

lemma tq_pop_cons:
  assumes "tq_rep ts q (x # xs)"
  shows "\<exists>ts' q'. vl_task_queue_pop ts q = (Some x, ts', q') \<and> tq_rep ts' q' xs"
  using fifo_rep_pop [of "\<lambda>t. t_queue_next (ts t)" "tq_head q" "tq_tail q" x xs] assms
  by (auto simp: tq_rep_def vl_task_queue_pop_def Let_def split: option.splits)

interpretation gq: intrusive_fifo vl_task_queue_push vl_task_queue_pop tq_rep
proof
  show "distinct xs" if "tq_rep s q xs" for s q xs using that by (simp add: tq_rep_def fifo_rep_def)
qed (use tq_push_rep tq_pop_nil tq_pop_cons in auto)

section \<open>What the scheduling operations leave alone\<close>

text \<open>
  \<open>tk_frame\<close>: at most the scheduling fields of a task (state, queued flag, queue link, pending
  wake-up) differ.  \<open>rt_frame\<close>: at most those fields of tasks and the runnable queue do.
\<close>

definition tk_frame :: "vl_task \<Rightarrow> vl_task \<Rightarrow> bool" where
  "tk_frame a b \<longleftrightarrow> t_fiber b = t_fiber a \<and> t_waiters_head b = t_waiters_head a \<and>
    t_waiters_tail b = t_waiters_tail a \<and> t_waiter_next b = t_waiter_next a \<and>
    t_waiting_on b = t_waiting_on a \<and> t_wait_value b = t_wait_value a \<and>
    t_wait_output b = t_wait_output a \<and> t_wait_result b = t_wait_result a \<and>
    t_timer_result b = t_timer_result a \<and> t_last_p b = t_last_p a \<and>
    t_executing b = t_executing a \<and> t_waiting_for_io b = t_waiting_for_io a"

definition rt_frame :: "vl_runtime_impl \<Rightarrow> vl_runtime_impl \<Rightarrow> bool" where
  "rt_frame a b \<longleftrightarrow> (\<exists>ts q. b = a\<lparr>rt_tasks := ts, rt_global_runnable := q\<rparr>
     \<and> (\<forall>t. tk_frame (rt_tasks a t) (ts t)))"

lemma tk_frame_refl [simp]: "tk_frame a a"
  by (simp add: tk_frame_def)

lemma tk_frame_trans: "tk_frame a b \<Longrightarrow> tk_frame b c \<Longrightarrow> tk_frame a c"
  by (simp add: tk_frame_def)

lemma rt_frame_refl [simp]: "rt_frame a a"
  unfolding rt_frame_def by (rule exI [of _ "rt_tasks a"], rule exI [of _ "rt_global_runnable a"]) simp

lemma rt_frame_trans:
  assumes "rt_frame a b" "rt_frame b c"
  shows "rt_frame a c"
proof -
  obtain ts q where b: "b = a\<lparr>rt_tasks := ts, rt_global_runnable := q\<rparr>" "\<And>t. tk_frame (rt_tasks a t) (ts t)"
    using assms(1) by (auto simp: rt_frame_def)
  obtain ts' q' where c: "c = b\<lparr>rt_tasks := ts', rt_global_runnable := q'\<rparr>" "\<And>t. tk_frame (rt_tasks b t) (ts' t)"
    using assms(2) by (auto simp: rt_frame_def)
  have "tk_frame (rt_tasks a t) (ts' t)" for t using tk_frame_trans [OF b(2) [of t], of "ts' t"] b(1) c(2) [of t] by simp
  then show ?thesis using b(1) c(1) by (auto simp: rt_frame_def)
qed

lemma rt_frame_fields:
  assumes "rt_frame a b"
  shows "rt_all_tasks b = rt_all_tasks a" "rt_ps b = rt_ps a" "rt_worker_count b = rt_worker_count a"
    "rt_live_tasks b = rt_live_tasks a" "rt_active_workers b = rt_active_workers a"
    "rt_idle_workers b = rt_idle_workers a" "rt_timer_count b = rt_timer_count a"
    "rt_io_driver b = rt_io_driver a" "rt_io_waiting b = rt_io_waiting a"
    "rt_running b = rt_running a" "rt_run_status b = rt_run_status a"
    "rt_shutdown_requested b = rt_shutdown_requested a" "rt_stop_workers b = rt_stop_workers a"
    "rt_stats b = rt_stats a" "rt_nodes b = rt_nodes a" "rt_timers b = rt_timers a" "rt_out b = rt_out a"
    "tk_frame (rt_tasks a t) (rt_tasks b t)"
  using assms by (auto simp: rt_frame_def)

lemma rt_frame_tasks:
  "(\<And>t. tk_frame (rt_tasks a t) (rt_tasks b t)) \<Longrightarrow>
   b = a\<lparr>rt_tasks := rt_tasks b, rt_global_runnable := rt_global_runnable b\<rparr> \<Longrightarrow> rt_frame a b"
  unfolding rt_frame_def by blast

lemma frame_upd_task: "(\<And>tk. tk_frame tk (f tk)) \<Longrightarrow> rt_frame rt (upd_task f t rt)"
  by (rule rt_frame_tasks) (simp_all add: upd_task_def upd_apply)

lemma frame_global_push: "rt_frame rt (global_push t rt)"
  by (rule rt_frame_tasks)
     (auto simp: global_push_def vl_task_queue_push_def Let_def upd_apply tk_frame_def
       split: option.split prod.split)

lemma frame_global_pop: "rt_frame rt (snd (global_pop rt))"
  by (rule rt_frame_tasks)
     (auto simp: global_pop_def vl_task_queue_pop_def Let_def upd_apply tk_frame_def
       split: option.split prod.split)

lemma frame_set_state: "rt_frame rt (set_state st t rt)"
  unfolding set_state_def by (rule frame_upd_task) (simp add: tk_frame_def)

lemma frame_enqueue_global: "rt_frame rt (vl_task_enqueue_global_locked t rt)"
proof -
  have "rt_frame rt (upd_task (\<lambda>tk. tk\<lparr>t_queued := True\<rparr>) t rt)"
    by (rule frame_upd_task) (simp add: tk_frame_def)
  then show ?thesis
    using rt_frame_trans frame_global_push
    by (auto simp: vl_task_enqueue_global_locked_def vl_task_mark_queued_def)
qed

lemma frame_wake: "rt_frame rt (vl_task_wake_locked t rt)"
proof -
  have "rt_frame rt (upd_task (\<lambda>tk. tk\<lparr>t_wake_pending := True\<rparr>) t rt)"
    by (rule frame_upd_task) (simp add: tk_frame_def)
  moreover have "rt_frame rt (vl_task_enqueue_global_locked t (set_state VL_TASK_RUNNABLE t rt))"
    using rt_frame_trans [OF frame_set_state frame_enqueue_global] .
  ultimately show ?thesis by (simp add: vl_task_wake_locked_def)
qed

lemmas wake_rt [rt_simps] = rt_frame_fields(1-17) [OF frame_wake]
lemma tk_frame_fields:
  assumes "tk_frame a b"
  shows "t_fiber b = t_fiber a" "t_waiters_head b = t_waiters_head a" "t_waiters_tail b = t_waiters_tail a"
    "t_waiter_next b = t_waiter_next a" "t_waiting_on b = t_waiting_on a" "t_wait_value b = t_wait_value a"
    "t_wait_output b = t_wait_output a" "t_wait_result b = t_wait_result a"
    "t_timer_result b = t_timer_result a" "t_last_p b = t_last_p a" "t_executing b = t_executing a"
    "t_waiting_for_io b = t_waiting_for_io a"
  using assms by (simp_all add: tk_frame_def)

lemmas wake_tk [rt_simps] = tk_frame_fields [OF rt_frame_fields(18) [OF frame_wake]]

section \<open>Projections of the bookkeeping updates\<close>

lemma upd_p_sel [simp]:
  "rt_tasks (upd_p f p rt) = rt_tasks rt" "rt_global_runnable (upd_p f p rt) = rt_global_runnable rt"
  "rt_all_tasks (upd_p f p rt) = rt_all_tasks rt" "rt_worker_count (upd_p f p rt) = rt_worker_count rt"
  "rt_live_tasks (upd_p f p rt) = rt_live_tasks rt"
  "rt_active_workers (upd_p f p rt) = rt_active_workers rt"
  "rt_idle_workers (upd_p f p rt) = rt_idle_workers rt"
  "rt_timer_count (upd_p f p rt) = rt_timer_count rt" "rt_io_driver (upd_p f p rt) = rt_io_driver rt"
  "rt_io_waiting (upd_p f p rt) = rt_io_waiting rt" "rt_running (upd_p f p rt) = rt_running rt"
  "rt_run_status (upd_p f p rt) = rt_run_status rt"
  "rt_shutdown_requested (upd_p f p rt) = rt_shutdown_requested rt"
  "rt_stop_workers (upd_p f p rt) = rt_stop_workers rt" "rt_stats (upd_p f p rt) = rt_stats rt"
  "rt_nodes (upd_p f p rt) = rt_nodes rt" "rt_timers (upd_p f p rt) = rt_timers rt"
  "rt_out (upd_p f p rt) = rt_out rt"
  by (simp_all add: upd_p_def)

lemma upd_p_ps [simp]: "rt_ps (upd_p f p rt) x = (if x = p then f (rt_ps rt p) else rt_ps rt x)"
  by (simp add: upd_p_def)

lemma upd_stats_sel [simp]:
  "rt_tasks (upd_stats f rt) = rt_tasks rt"
  "rt_global_runnable (upd_stats f rt) = rt_global_runnable rt"
  "rt_all_tasks (upd_stats f rt) = rt_all_tasks rt" "rt_ps (upd_stats f rt) = rt_ps rt"
  "rt_worker_count (upd_stats f rt) = rt_worker_count rt"
  "rt_live_tasks (upd_stats f rt) = rt_live_tasks rt"
  "rt_active_workers (upd_stats f rt) = rt_active_workers rt"
  "rt_idle_workers (upd_stats f rt) = rt_idle_workers rt"
  "rt_timer_count (upd_stats f rt) = rt_timer_count rt"
  "rt_io_driver (upd_stats f rt) = rt_io_driver rt" "rt_io_waiting (upd_stats f rt) = rt_io_waiting rt"
  "rt_running (upd_stats f rt) = rt_running rt" "rt_run_status (upd_stats f rt) = rt_run_status rt"
  "rt_shutdown_requested (upd_stats f rt) = rt_shutdown_requested rt"
  "rt_stop_workers (upd_stats f rt) = rt_stop_workers rt" "rt_nodes (upd_stats f rt) = rt_nodes rt"
  "rt_timers (upd_stats f rt) = rt_timers rt" "rt_out (upd_stats f rt) = rt_out rt"
  by (simp_all add: upd_stats_def)

lemma upd_p_stats_sel [simp]:
  "rt_tasks (upd_p_stats f p rt) = rt_tasks rt"
  "rt_global_runnable (upd_p_stats f p rt) = rt_global_runnable rt"
  "rt_all_tasks (upd_p_stats f p rt) = rt_all_tasks rt"
  "rt_worker_count (upd_p_stats f p rt) = rt_worker_count rt"
  "rt_live_tasks (upd_p_stats f p rt) = rt_live_tasks rt"
  "rt_active_workers (upd_p_stats f p rt) = rt_active_workers rt"
  "rt_idle_workers (upd_p_stats f p rt) = rt_idle_workers rt"
  "rt_timer_count (upd_p_stats f p rt) = rt_timer_count rt"
  "rt_io_driver (upd_p_stats f p rt) = rt_io_driver rt"
  "rt_io_waiting (upd_p_stats f p rt) = rt_io_waiting rt"
  "rt_running (upd_p_stats f p rt) = rt_running rt"
  "rt_run_status (upd_p_stats f p rt) = rt_run_status rt"
  "rt_shutdown_requested (upd_p_stats f p rt) = rt_shutdown_requested rt"
  "rt_stop_workers (upd_p_stats f p rt) = rt_stop_workers rt"
  "rt_stats (upd_p_stats f p rt) = rt_stats rt" "rt_nodes (upd_p_stats f p rt) = rt_nodes rt"
  "rt_timers (upd_p_stats f p rt) = rt_timers rt" "rt_out (upd_p_stats f p rt) = rt_out rt"
  by (simp_all add: upd_p_stats_def)

lemma count_switch_sel [simp]:
  "rt_tasks (count_switch rt) = rt_tasks rt"
  "rt_global_runnable (count_switch rt) = rt_global_runnable rt"
  "rt_all_tasks (count_switch rt) = rt_all_tasks rt" "rt_ps (count_switch rt) = rt_ps rt"
  "rt_worker_count (count_switch rt) = rt_worker_count rt"
  "rt_live_tasks (count_switch rt) = rt_live_tasks rt"
  "rt_active_workers (count_switch rt) = rt_active_workers rt"
  "rt_idle_workers (count_switch rt) = rt_idle_workers rt"
  "rt_timer_count (count_switch rt) = rt_timer_count rt"
  "rt_io_driver (count_switch rt) = rt_io_driver rt"
  "rt_io_waiting (count_switch rt) = rt_io_waiting rt" "rt_running (count_switch rt) = rt_running rt"
  "rt_run_status (count_switch rt) = rt_run_status rt"
  "rt_shutdown_requested (count_switch rt) = rt_shutdown_requested rt"
  "rt_stop_workers (count_switch rt) = rt_stop_workers rt" "rt_nodes (count_switch rt) = rt_nodes rt"
  "rt_timers (count_switch rt) = rt_timers rt" "rt_out (count_switch rt) = rt_out rt"
  by (simp_all add: count_switch_def)

lemma count_cancelled_sel [simp]:
  "rt_tasks (count_cancelled rt) = rt_tasks rt"
  "rt_global_runnable (count_cancelled rt) = rt_global_runnable rt"
  "rt_all_tasks (count_cancelled rt) = rt_all_tasks rt" "rt_ps (count_cancelled rt) = rt_ps rt"
  "rt_worker_count (count_cancelled rt) = rt_worker_count rt"
  "rt_live_tasks (count_cancelled rt) = rt_live_tasks rt"
  "rt_active_workers (count_cancelled rt) = rt_active_workers rt"
  "rt_idle_workers (count_cancelled rt) = rt_idle_workers rt"
  "rt_timer_count (count_cancelled rt) = rt_timer_count rt"
  "rt_io_driver (count_cancelled rt) = rt_io_driver rt"
  "rt_io_waiting (count_cancelled rt) = rt_io_waiting rt"
  "rt_running (count_cancelled rt) = rt_running rt"
  "rt_run_status (count_cancelled rt) = rt_run_status rt"
  "rt_shutdown_requested (count_cancelled rt) = rt_shutdown_requested rt"
  "rt_stop_workers (count_cancelled rt) = rt_stop_workers rt"
  "rt_nodes (count_cancelled rt) = rt_nodes rt" "rt_timers (count_cancelled rt) = rt_timers rt"
  "rt_out (count_cancelled rt) = rt_out rt"
  by (simp_all add: count_cancelled_def)

lemma count_park_sel [simp]:
  "rt_tasks (count_park p rt) = rt_tasks rt"
  "rt_global_runnable (count_park p rt) = rt_global_runnable rt"
  "rt_all_tasks (count_park p rt) = rt_all_tasks rt"
  "rt_worker_count (count_park p rt) = rt_worker_count rt"
  "rt_live_tasks (count_park p rt) = rt_live_tasks rt"
  "rt_active_workers (count_park p rt) = rt_active_workers rt"
  "rt_idle_workers (count_park p rt) = rt_idle_workers rt"
  "rt_timer_count (count_park p rt) = rt_timer_count rt"
  "rt_io_driver (count_park p rt) = rt_io_driver rt"
  "rt_io_waiting (count_park p rt) = rt_io_waiting rt" "rt_running (count_park p rt) = rt_running rt"
  "rt_run_status (count_park p rt) = rt_run_status rt"
  "rt_shutdown_requested (count_park p rt) = rt_shutdown_requested rt"
  "rt_stop_workers (count_park p rt) = rt_stop_workers rt" "rt_nodes (count_park p rt) = rt_nodes rt"
  "rt_timers (count_park p rt) = rt_timers rt" "rt_out (count_park p rt) = rt_out rt"
  by (simp_all add: count_park_def)

lemma count_local_push_sel [simp]:
  "rt_tasks (count_local_push p rt) = rt_tasks rt"
  "rt_global_runnable (count_local_push p rt) = rt_global_runnable rt"
  "rt_all_tasks (count_local_push p rt) = rt_all_tasks rt"
  "rt_worker_count (count_local_push p rt) = rt_worker_count rt"
  "rt_live_tasks (count_local_push p rt) = rt_live_tasks rt"
  "rt_active_workers (count_local_push p rt) = rt_active_workers rt"
  "rt_idle_workers (count_local_push p rt) = rt_idle_workers rt"
  "rt_timer_count (count_local_push p rt) = rt_timer_count rt"
  "rt_io_driver (count_local_push p rt) = rt_io_driver rt"
  "rt_io_waiting (count_local_push p rt) = rt_io_waiting rt"
  "rt_running (count_local_push p rt) = rt_running rt"
  "rt_run_status (count_local_push p rt) = rt_run_status rt"
  "rt_shutdown_requested (count_local_push p rt) = rt_shutdown_requested rt"
  "rt_stop_workers (count_local_push p rt) = rt_stop_workers rt"
  "rt_stats (count_local_push p rt) = rt_stats rt" "rt_nodes (count_local_push p rt) = rt_nodes rt"
  "rt_timers (count_local_push p rt) = rt_timers rt" "rt_out (count_local_push p rt) = rt_out rt"
  by (simp_all add: count_local_push_def)

lemma drop_live_sel [simp]:
  "rt_tasks (drop_live rt) = rt_tasks rt" "rt_global_runnable (drop_live rt) = rt_global_runnable rt"
  "rt_all_tasks (drop_live rt) = rt_all_tasks rt" "rt_ps (drop_live rt) = rt_ps rt"
  "rt_worker_count (drop_live rt) = rt_worker_count rt"
  "rt_active_workers (drop_live rt) = rt_active_workers rt"
  "rt_idle_workers (drop_live rt) = rt_idle_workers rt"
  "rt_timer_count (drop_live rt) = rt_timer_count rt" "rt_io_driver (drop_live rt) = rt_io_driver rt"
  "rt_io_waiting (drop_live rt) = rt_io_waiting rt" "rt_running (drop_live rt) = rt_running rt"
  "rt_run_status (drop_live rt) = rt_run_status rt"
  "rt_shutdown_requested (drop_live rt) = rt_shutdown_requested rt"
  "rt_stop_workers (drop_live rt) = rt_stop_workers rt" "rt_stats (drop_live rt) = rt_stats rt"
  "rt_nodes (drop_live rt) = rt_nodes rt" "rt_timers (drop_live rt) = rt_timers rt"
  "rt_out (drop_live rt) = rt_out rt"
  by (simp_all add: drop_live_def)

lemma wake_workers_sel [simp]:
  "rt_tasks (vl_runtime_wake_workers rt) = rt_tasks rt"
  "rt_global_runnable (vl_runtime_wake_workers rt) = rt_global_runnable rt"
  "rt_all_tasks (vl_runtime_wake_workers rt) = rt_all_tasks rt"
  "rt_worker_count (vl_runtime_wake_workers rt) = rt_worker_count rt"
  "rt_live_tasks (vl_runtime_wake_workers rt) = rt_live_tasks rt"
  "rt_active_workers (vl_runtime_wake_workers rt) = rt_active_workers rt"
  "rt_idle_workers (vl_runtime_wake_workers rt) = rt_idle_workers rt"
  "rt_timer_count (vl_runtime_wake_workers rt) = rt_timer_count rt"
  "rt_io_driver (vl_runtime_wake_workers rt) = rt_io_driver rt"
  "rt_io_waiting (vl_runtime_wake_workers rt) = rt_io_waiting rt"
  "rt_running (vl_runtime_wake_workers rt) = rt_running rt"
  "rt_run_status (vl_runtime_wake_workers rt) = rt_run_status rt"
  "rt_shutdown_requested (vl_runtime_wake_workers rt) = rt_shutdown_requested rt"
  "rt_stop_workers (vl_runtime_wake_workers rt) = rt_stop_workers rt"
  "rt_stats (vl_runtime_wake_workers rt) = rt_stats rt"
  "rt_nodes (vl_runtime_wake_workers rt) = rt_nodes rt"
  "rt_timers (vl_runtime_wake_workers rt) = rt_timers rt"
  "rt_out (vl_runtime_wake_workers rt) = rt_out rt"
  by (simp_all add: vl_runtime_wake_workers_def)

text \<open>The counters of a processor are no part of its scheduling state.\<close>

lemma p_counters [simp]:
  "p_runnable (rt_ps (upd_p_stats f p rt) x) = p_runnable (rt_ps rt x)" "p_idle (rt_ps (upd_p_stats f p rt) x) = p_idle (rt_ps rt x)"
  "p_current (rt_ps (upd_p_stats f p rt) x) = p_current (rt_ps rt x)" "p_timers (rt_ps (upd_p_stats f p rt) x) = p_timers (rt_ps rt x)"
  "p_runnable (rt_ps (count_park p rt) x) = p_runnable (rt_ps rt x)" "p_idle (rt_ps (count_park p rt) x) = p_idle (rt_ps rt x)"
  "p_current (rt_ps (count_park p rt) x) = p_current (rt_ps rt x)" "p_timers (rt_ps (count_park p rt) x) = p_timers (rt_ps rt x)"
  "p_runnable (rt_ps (count_local_push p rt) x) = p_runnable (rt_ps rt x)" "p_idle (rt_ps (count_local_push p rt) x) = p_idle (rt_ps rt x)"
  "p_current (rt_ps (count_local_push p rt) x) = p_current (rt_ps rt x)" "p_timers (rt_ps (count_local_push p rt) x) = p_timers (rt_ps rt x)"
  "p_runnable (rt_ps (vl_runtime_wake_workers rt) x) = p_runnable (rt_ps rt x)" "p_idle (rt_ps (vl_runtime_wake_workers rt) x) = p_idle (rt_ps rt x)"
  "p_current (rt_ps (vl_runtime_wake_workers rt) x) = p_current (rt_ps rt x)" "p_timers (rt_ps (vl_runtime_wake_workers rt) x) = p_timers (rt_ps rt x)"
  by (simp_all add: upd_p_stats_def count_park_def count_local_push_def vl_runtime_wake_workers_def)

section \<open>What the scheduling operations do\<close>

abbreviation gl_rep :: "vl_runtime_impl \<Rightarrow> tid list \<Rightarrow> bool" where
  "gl_rep rt gl \<equiv> tq_rep (rt_tasks rt) (rt_global_runnable rt) gl"

lemma upd_task_sel [simp]:
  "rt_tasks (upd_task f t rt) x = (if x = t then f (rt_tasks rt t) else rt_tasks rt x)"
  "rt_global_runnable (upd_task f t rt) = rt_global_runnable rt"
  "rt_all_tasks (upd_task f t rt) = rt_all_tasks rt" "rt_ps (upd_task f t rt) = rt_ps rt"
  "rt_worker_count (upd_task f t rt) = rt_worker_count rt"
  "rt_live_tasks (upd_task f t rt) = rt_live_tasks rt"
  "rt_active_workers (upd_task f t rt) = rt_active_workers rt"
  "rt_idle_workers (upd_task f t rt) = rt_idle_workers rt"
  "rt_timer_count (upd_task f t rt) = rt_timer_count rt"
  "rt_io_driver (upd_task f t rt) = rt_io_driver rt" "rt_io_waiting (upd_task f t rt) = rt_io_waiting rt"
  "rt_running (upd_task f t rt) = rt_running rt" "rt_run_status (upd_task f t rt) = rt_run_status rt"
  "rt_shutdown_requested (upd_task f t rt) = rt_shutdown_requested rt"
  "rt_stop_workers (upd_task f t rt) = rt_stop_workers rt" "rt_stats (upd_task f t rt) = rt_stats rt"
  "rt_nodes (upd_task f t rt) = rt_nodes rt" "rt_timers (upd_task f t rt) = rt_timers rt"
  "rt_out (upd_task f t rt) = rt_out rt"
  by (simp_all add: upd_task_def upd_apply)

lemma set_state_task [simp]:
  "rt_tasks (set_state st t rt) x = (if x = t then (rt_tasks rt t)\<lparr>t_state := st\<rparr> else rt_tasks rt x)"
  "rt_global_runnable (set_state st t rt) = rt_global_runnable rt"
  by (simp_all add: set_state_def)

lemmas set_state_rt [simp] = rt_frame_fields(1-17) [OF frame_set_state]

lemma tq_rep_cong:
  "(\<And>x. x \<in> set gl \<Longrightarrow> t_queue_next (ts' x) = t_queue_next (ts x)) \<Longrightarrow> tq_rep ts' q gl = tq_rep ts q gl"
  by (simp add: tq_rep_def cong: fifo_rep_cong)

lemma global_push_task [simp]:
  "t_state (rt_tasks (global_push t rt) x) = t_state (rt_tasks rt x)"
  "t_queued (rt_tasks (global_push t rt) x) = t_queued (rt_tasks rt x)"
  "t_wake_pending (rt_tasks (global_push t rt) x) = t_wake_pending (rt_tasks rt x)"
  by (auto simp: global_push_def vl_task_queue_push_def Let_def upd_apply split: option.split prod.split)

lemma global_pop_task [simp]:
  "t_state (rt_tasks (snd (global_pop rt)) x) = t_state (rt_tasks rt x)"
  "t_queued (rt_tasks (snd (global_pop rt)) x) = t_queued (rt_tasks rt x)"
  "t_wake_pending (rt_tasks (snd (global_pop rt)) x) = t_wake_pending (rt_tasks rt x)"
  by (auto simp: global_pop_def vl_task_queue_pop_def Let_def upd_apply split: option.split prod.split)

lemmas global_push_frame [simp] = rt_frame_fields(1-17) [OF frame_global_push]
  tk_frame_fields [OF rt_frame_fields(18) [OF frame_global_push]]

lemmas global_pop_frame [simp] = rt_frame_fields(1-17) [OF frame_global_pop]
  tk_frame_fields [OF rt_frame_fields(18) [OF frame_global_pop]]

lemma global_push_rep: "gl_rep rt gl \<Longrightarrow> t \<notin> set gl \<Longrightarrow> gl_rep (global_push t rt) (gl @ [t])"
  using tq_push_rep [of "rt_tasks rt" "rt_global_runnable rt" gl t]
  by (simp add: global_push_def split: prod.split)

lemma global_pop_rep:
  assumes "gl_rep rt gl"
  shows "gl = [] \<Longrightarrow> global_pop rt = (None, rt)"
    and "gl = x # xs \<Longrightarrow> \<exists>rt'. global_pop rt = (Some x, rt') \<and> gl_rep rt' xs"
  using assms tq_pop_nil [of "rt_tasks rt" "rt_global_runnable rt"]
    tq_pop_cons [of "rt_tasks rt" "rt_global_runnable rt" x xs]
  by (auto simp: global_pop_def)

text \<open>Enqueueing appends a runnable task that is not queued yet, and does nothing otherwise.\<close>

lemma enqueue_global_off:
  "task_state rt t \<noteq> VL_TASK_RUNNABLE \<or> t_queued (rt_tasks rt t) \<Longrightarrow> vl_task_enqueue_global_locked t rt = rt"
  by (auto simp: vl_task_enqueue_global_locked_def vl_task_mark_queued_def)

lemma enqueue_global_on:
  assumes "task_state rt t = VL_TASK_RUNNABLE" "\<not> t_queued (rt_tasks rt t)" "gl_rep rt gl" "t \<notin> set gl"
  shows "gl_rep (vl_task_enqueue_global_locked t rt) (gl @ [t])"
    "t_queued (rt_tasks (vl_task_enqueue_global_locked t rt) x) = (x = t \<or> t_queued (rt_tasks rt x))"
proof -
  have "gl_rep (upd_task (\<lambda>tk. tk\<lparr>t_queued := True\<rparr>) t rt) gl"
    using assms(3) tq_rep_cong [of gl "rt_tasks (upd_task (\<lambda>tk. tk\<lparr>t_queued := True\<rparr>) t rt)" "rt_tasks rt"]
    by simp
  then show "gl_rep (vl_task_enqueue_global_locked t rt) (gl @ [t])"
    using assms global_push_rep by (simp add: vl_task_enqueue_global_locked_def vl_task_mark_queued_def)
  show "t_queued (rt_tasks (vl_task_enqueue_global_locked t rt) x) = (x = t \<or> t_queued (rt_tasks rt x))"
    using assms by (simp add: vl_task_enqueue_global_locked_def vl_task_mark_queued_def)
qed

lemma enqueue_global_state [simp]:
  "t_state (rt_tasks (vl_task_enqueue_global_locked t rt) x) = t_state (rt_tasks rt x)"
  "t_wake_pending (rt_tasks (vl_task_enqueue_global_locked t rt) x) = t_wake_pending (rt_tasks rt x)"
  by (auto simp: vl_task_enqueue_global_locked_def vl_task_mark_queued_def)

text \<open>Waking: nothing for a task that is not parked, a pending mark for one that still runs, and
  otherwise the task is made runnable and queued.\<close>

abbreviation parked :: "vl_runtime_impl \<Rightarrow> tid \<Rightarrow> bool" where
  "parked rt t \<equiv> task_state rt t = VL_TASK_WAITING \<or> task_state rt t = VL_TASK_SLEEPING"

lemma wake_state:
  "task_state (vl_task_wake_locked t rt) x =
     (if x = t \<and> parked rt t \<and> \<not> t_executing (rt_tasks rt t) then VL_TASK_RUNNABLE else task_state rt x)"
  by (auto simp: vl_task_wake_locked_def)

lemma wake_pending:
  "t_wake_pending (rt_tasks (vl_task_wake_locked t rt) x) =
     (t_wake_pending (rt_tasks rt x) \<or> (x = t \<and> parked rt t \<and> t_executing (rt_tasks rt t)))"
  by (auto simp: vl_task_wake_locked_def)

lemma wake_off: "\<not> parked rt t \<Longrightarrow> vl_task_wake_locked t rt = rt"
  by (simp add: vl_task_wake_locked_def)

lemma wake_on:
  assumes "parked rt t" "\<not> t_executing (rt_tasks rt t)" "\<not> t_queued (rt_tasks rt t)"
    "gl_rep rt gl" "t \<notin> set gl"
  shows "gl_rep (vl_task_wake_locked t rt) (gl @ [t])"
    "t_queued (rt_tasks (vl_task_wake_locked t rt) x) = (x = t \<or> t_queued (rt_tasks rt x))"
proof -
  have eq: "vl_task_wake_locked t rt = vl_task_enqueue_global_locked t (set_state VL_TASK_RUNNABLE t rt)"
    using assms(1,2) by (auto simp: vl_task_wake_locked_def)
  have "gl_rep (set_state VL_TASK_RUNNABLE t rt) gl"
    using assms(4) tq_rep_cong [of gl "rt_tasks (set_state VL_TASK_RUNNABLE t rt)" "rt_tasks rt"] by simp
  then show "gl_rep (vl_task_wake_locked t rt) (gl @ [t])"
    "t_queued (rt_tasks (vl_task_wake_locked t rt) x) = (x = t \<or> t_queued (rt_tasks rt x))"
    using enqueue_global_on [of "set_state VL_TASK_RUNNABLE t rt" t gl] assms by (simp_all add: eq)
qed

text \<open>
  \<open>released rt t\<close>: the task \<open>t\<close> is on its way to run again; it is runnable and
  marked queued, or, if it has not left its processor yet, its wake-up is pending.
\<close>

definition released :: "vl_runtime_impl \<Rightarrow> tid \<Rightarrow> bool" where
  "released rt t \<longleftrightarrow>
     (if t_executing (rt_tasks rt t) then t_wake_pending (rt_tasks rt t)
      else task_state rt t = VL_TASK_RUNNABLE \<and> t_queued (rt_tasks rt t))"

lemma enqueue_marks: "task_state rt t = VL_TASK_RUNNABLE \<Longrightarrow>
    t_queued (rt_tasks (vl_task_enqueue_global_locked t rt) t)"
  by (auto simp: vl_task_enqueue_global_locked_def vl_task_mark_queued_def)

lemma wake_queued_mono:
  "t_queued (rt_tasks rt x) \<Longrightarrow> t_queued (rt_tasks (vl_task_wake_locked t rt) x)"
  by (auto simp: vl_task_wake_locked_def vl_task_enqueue_global_locked_def vl_task_mark_queued_def)

lemma wake_released: "parked rt t \<Longrightarrow> released (vl_task_wake_locked t rt) t"
  by (auto simp: released_def rt_simps wake_state wake_pending)
     (auto simp: vl_task_wake_locked_def enqueue_marks)

lemma wake_released_other: "released rt x \<Longrightarrow> released (vl_task_wake_locked t rt) x"
  by (auto simp: released_def rt_simps wake_state wake_pending wake_queued_mono)

text \<open>
  The joiners of a task.  The fuel of \<open>wake_joiners\<close> is enough: it wakes the whole chain, so that completing a
  task releases every task that is parked in a join on it.
\<close>

abbreviation waiter_links :: "vl_runtime_impl \<Rightarrow> tid \<Rightarrow> tid option" where
  "waiter_links rt \<equiv> \<lambda>x. t_waiter_next (rt_tasks rt x)"

definition wake_joiner :: "tid \<Rightarrow> vl_runtime_impl \<Rightarrow> vl_runtime_impl" where
  "wake_joiner w rt = vl_task_wake_locked w (upd_task (\<lambda>t. t\<lparr>t_waiter_next := None, t_waiting_on := None\<rparr>) w rt)"

lemma wake_joiners_chain:
  assumes "links (waiter_links rt) ws" "distinct ws" "length ws \<le> fuel"
  shows "wake_joiners fuel (first_of ws) rt = fold wake_joiner ws rt"
  using assms
proof (induction ws arbitrary: fuel rt)
  case (Cons w ws)
  then obtain n where n: "fuel = Suc n" "length ws \<le> n" by (cases fuel) auto
  have "links (waiter_links (wake_joiner w rt)) ws = links (waiter_links rt) ws"
    by (rule links_cong) (use Cons.prems(2) in \<open>auto simp: wake_joiner_def rt_simps\<close>)
  then have "wake_joiners n (first_of ws) (wake_joiner w rt) = fold wake_joiner ws (wake_joiner w rt)"
    using Cons.IH [of "wake_joiner w rt" n] Cons.prems n(2) by simp
  then show ?case using Cons.prems(1) n(1) by (simp add: Let_def wake_joiner_def [symmetric])
qed simp

lemma wake_joiner_released:
  "parked rt w \<Longrightarrow> released (wake_joiner w rt) w" "released rt x \<Longrightarrow> released (wake_joiner w rt) x"
  "x \<noteq> w \<Longrightarrow> parked (wake_joiner w rt) x = parked rt x"
proof -
  let ?rt = "upd_task (\<lambda>t. t\<lparr>t_waiter_next := None, t_waiting_on := None\<rparr>) w rt"
  show "parked rt w \<Longrightarrow> released (wake_joiner w rt) w" using wake_released [of ?rt w] by (simp add: wake_joiner_def)
  have "released rt x \<Longrightarrow> released ?rt x" by (auto simp: released_def)
  then show "released rt x \<Longrightarrow> released (wake_joiner w rt) x" using wake_released_other by (simp add: wake_joiner_def)
  show "x \<noteq> w \<Longrightarrow> parked (wake_joiner w rt) x = parked rt x" by (simp add: wake_joiner_def wake_state)
qed

lemma wake_chain_released:
  assumes "distinct ws" "\<And>w. w \<in> set ws \<Longrightarrow> parked rt w \<or> released rt w" "x \<in> set ws"
  shows "released (fold wake_joiner ws rt) x"
  using assms
proof (induction ws arbitrary: rt)
  case (Cons w ws)
  have keep: "released (fold wake_joiner us r) y" if "released r y" for us r y
    using that by (induction us arbitrary: r) (auto intro: wake_joiner_released(2))
  show ?case
  proof (cases "x = w")
    case True
    then show ?thesis using Cons.prems(2) [of w] keep wake_joiner_released(1,2) by auto
  next
    case False
    have "parked (wake_joiner w rt) u \<or> released (wake_joiner w rt) u" if "u \<in> set ws" for u
      using that Cons.prems(1) Cons.prems(2) [of u] wake_joiner_released(2,3) by (metis distinct.simps(2) list.set_intros(2))
    then show ?thesis using Cons.IH [of "wake_joiner w rt"] Cons.prems False by simp
  qed
qed simp

lemma complete_releases_joiners:
  assumes rep: "fifo_rep (waiter_links rt) (t_waiters_head (rt_tasks rt t)) tail ws" and sub: "set ws \<subseteq> set (rt_all_tasks rt)"
    and w: "\<And>w. w \<in> set ws \<Longrightarrow> parked rt w" "x \<in> set ws"
  shows "released (vl_task_complete_locked t rt) x"
proof -
  let ?rt = "upd_task (\<lambda>t. t\<lparr>t_waiters_head := None, t_waiters_tail := None\<rparr>) t rt"
  have r: "distinct ws" "t_waiters_head (rt_tasks rt t) = first_of ws" "links (waiter_links rt) ws" using rep by (simp_all add: fifo_rep_def)
  have "length ws \<le> length (rt_all_tasks rt)"
    using card_mono [OF finite_set sub] card_length [of "rt_all_tasks rt"] distinct_card [OF r(1)] by simp
  moreover have "links (waiter_links ?rt) ws" using r(3) links_cong [of ws "waiter_links rt" "waiter_links ?rt"] by auto
  ultimately have eq: "wake_joiners (length (rt_all_tasks rt)) (first_of ws) ?rt = fold wake_joiner ws ?rt"
    using wake_joiners_chain r(1) by simp
  have "parked ?rt u" if "u \<in> set ws" for u using w(1) [OF that] by auto
  then have "released (fold wake_joiner ws ?rt) x" using wake_chain_released [OF r(1) _ w(2)] by blast
  then show ?thesis using eq r(2) by (simp add: vl_task_complete_locked_def Let_def released_def)
qed

section \<open>A small runtime\<close>

text \<open>
  The zeroed runtime object, and a runtime with two tasks, both on their processors: task 1 runs
  on processor 0 and task 2 on processor 1.  The examples of the later theories use it.
\<close>

definition vl_p_zero :: vl_p where
  "vl_p_zero =
     \<lparr>p_runnable = vl_run_queue_zero, p_event = False, p_idle = False, p_current = None,
      p_stats = \<lparr>ps_executed = 0, ps_local_pushes = 0, ps_global_pulls = 0, ps_steal_attempts = 0,
                 ps_steals = 0, ps_parks = 0\<rparr>,
      p_timers = vl_timer_heap_zero, p_thread_started = False, p_init_status = VL_OK\<rparr>"

definition vl_runtime_zero :: vl_runtime_impl where
  "vl_runtime_zero =
     \<lparr>rt_tasks = (\<lambda>_. vl_task_zero), rt_global_runnable = \<lparr>tq_head = None, tq_tail = None, tq_length = 0\<rparr>,
      rt_all_tasks = [], rt_ps = (\<lambda>_. vl_p_zero), rt_worker_count = 0, rt_live_tasks = 0,
      rt_active_workers = 0, rt_idle_workers = 0, rt_timer_count = 0, rt_io_driver = None,
      rt_io_waiting = 0, rt_running = False, rt_run_status = VL_OK, rt_shutdown_requested = False,
      rt_stop_workers = False, rt_stats = vl_runtime_stats_zero,
      rt_nodes = (\<lambda>_. \<lparr>deadline_ns = 0, heap_index = 0, active = False, owner = None\<rparr>),
      rt_timers = (\<lambda>_. \<lparr>ti_task = None, ti_p = None\<rparr>), rt_out = (\<lambda>_. None),
      rt_workers_ready = 0, rt_task_stack_size = 0\<rparr>"

definition demo_task :: vl_task where
  "demo_task = vl_task_zero\<lparr>t_state := VL_TASK_RUNNING, t_executing := True\<rparr>"

definition demo_rt :: vl_runtime_impl where
  "demo_rt = vl_runtime_zero\<lparr>
     rt_tasks := (\<lambda>t. if t = 1 \<or> t = 2 then demo_task else vl_task_zero),
     rt_all_tasks := [2, 1], rt_worker_count := 2, rt_live_tasks := 2, rt_active_workers := 2,
     rt_running := True,
     rt_ps := (\<lambda>p. vl_p_zero\<lparr>p_current := (if p = 0 then Some 1 else if p = 1 then Some 2 else None)\<rparr>)\<rparr>"

lemmas demo_defs = demo_rt_def demo_task_def vl_runtime_zero_def vl_task_zero_def vl_p_zero_def

end
