(* ===== verification/Sync_Base.thy ===== *)
theory Sync_Base
  imports Runtime_Core
begin

text \<open>
  The common part of the synchronization objects, \<^verbatim>\<open>src/sync/sync_internal.h\<close>: the wait queue
  linked by \<^verbatim>\<open>waiter_next\<close>, parking the calling task, and releasing a waiter.  The lemmas give
  the objects one vocabulary: \<open>sync_waiters rt q ws\<close> says that the queue holds exactly the
  tasks \<open>ws\<close>, in order, all of them parked.
\<close>

section \<open>The wait queue\<close>

record vl_sync_wait_queue =
  sw_head :: "tid option"
  sw_tail :: "tid option"
  sw_length :: nat

definition vl_sync_wait_queue_zero :: vl_sync_wait_queue where
  "vl_sync_wait_queue_zero = \<lparr>sw_head = None, sw_tail = None, sw_length = 0\<rparr>"

definition vl_sync_wait_push ::
  "vl_runtime_impl \<Rightarrow> vl_sync_wait_queue \<Rightarrow> tid \<Rightarrow> vl_runtime_impl \<times> vl_sync_wait_queue" where
  "vl_sync_wait_push rt q task =
     (let rt1 = upd_task (\<lambda>t. t\<lparr>t_waiter_next := None\<rparr>) task rt;
          (rt2, q2) = (case sw_tail q of
                         None \<Rightarrow> (rt1, q\<lparr>sw_head := Some task\<rparr>)
                       | Some prev \<Rightarrow> (upd_task (\<lambda>t. t\<lparr>t_waiter_next := Some task\<rparr>) prev rt1, q))
      in (rt2, q2\<lparr>sw_tail := Some task, sw_length := sw_length q2 + 1\<rparr>))"

definition vl_sync_wait_pop ::
  "vl_runtime_impl \<Rightarrow> vl_sync_wait_queue \<Rightarrow> tid option \<times> vl_runtime_impl \<times> vl_sync_wait_queue" where
  "vl_sync_wait_pop rt q =
     (case sw_head q of
        None \<Rightarrow> (None, rt, q)
      | Some task \<Rightarrow>
          (let q1 = q\<lparr>sw_head := t_waiter_next (rt_tasks rt task)\<rparr>;
               q2 = (if sw_head q1 = None then q1\<lparr>sw_tail := None\<rparr> else q1)
           in (Some task, upd_task (\<lambda>t. t\<lparr>t_waiter_next := None\<rparr>) task rt,
               q2\<lparr>sw_length := sw_length q2 - 1\<rparr>)))"

section \<open>Parking and releasing\<close>

definition vl_sync_current :: "tls \<Rightarrow> vl_runtime_impl \<Rightarrow> (pid \<times> tid) option" where
  "vl_sync_current tls rt = caller_of tls rt"

definition vl_sync_park_locked :: "pid \<Rightarrow> tid \<Rightarrow> vl_runtime_impl \<Rightarrow> vl_status \<times> vl_runtime_impl" where
  "vl_sync_park_locked p task rt =
     (if task_state rt task \<noteq> VL_TASK_RUNNING \<or> \<not> t_executing (rt_tasks rt task)
      then (VL_ERROR_INVALID_STATE, rt)
      else (VL_OK, count_park p (upd_task (\<lambda>t. t\<lparr>t_state := VL_TASK_WAITING, t_wait_result := VL_OK\<rparr>) task rt)))"

text \<open>What a parked call returns once its task runs again.\<close>

definition vl_sync_resume_result :: "tid \<Rightarrow> vl_runtime_impl \<Rightarrow> vl_status" where
  "vl_sync_resume_result task rt = t_wait_result (rt_tasks rt task)"

text \<open>Releasing a waiter: its wait fields are set by \<open>f\<close>, then it is woken.\<close>

definition finish_wait :: "(vl_task \<Rightarrow> vl_task) \<Rightarrow> tid \<Rightarrow> vl_runtime_impl \<Rightarrow> vl_runtime_impl" where
  "finish_wait f task rt = vl_task_wake_locked task (upd_task f task rt)"

text \<open>The loops that release every waiter; the fuel is the length of the queue.\<close>

fun sync_drain ::
  "(vl_task \<Rightarrow> vl_task) \<Rightarrow> nat \<Rightarrow> vl_runtime_impl \<Rightarrow> vl_sync_wait_queue \<Rightarrow>
   bool \<times> vl_runtime_impl \<times> vl_sync_wait_queue" where
  "sync_drain f 0 rt q = (False, rt, q)"
| "sync_drain f (Suc fuel) rt q =
     (case vl_sync_wait_pop rt q of
        (None, rt1, q1) \<Rightarrow> (False, rt1, q1)
      | (Some waiter, rt1, q1) \<Rightarrow> (True, snd (sync_drain f fuel (finish_wait f waiter rt1) q1)))"

section \<open>The wait queue is a queue\<close>

definition sw_rep :: "vl_runtime_impl \<Rightarrow> vl_sync_wait_queue \<Rightarrow> tid list \<Rightarrow> bool" where
  "sw_rep rt q ws \<longleftrightarrow>
     fifo_rep (\<lambda>t. t_waiter_next (rt_tasks rt t)) (sw_head q) (sw_tail q) ws \<and> sw_length q = length ws"

lemma upd_waiter_next [simp]:
  "(\<lambda>x. t_waiter_next (rt_tasks (upd_task (\<lambda>tk. tk\<lparr>t_waiter_next := v\<rparr>) t rt) x)) =
   (\<lambda>x. t_waiter_next (rt_tasks rt x))(t := v)"
  by (simp add: fun_eq_iff)

lemma sw_push_rep:
  assumes "sw_rep rt q xs" "x \<notin> set xs" "vl_sync_wait_push rt q x = (rt', q')"
  shows "sw_rep rt' q' (xs @ [x])"
  using fifo_rep_push [of "\<lambda>t. t_waiter_next (rt_tasks rt t)" "sw_head q" "sw_tail q" xs x] assms
  by (auto simp: sw_rep_def vl_sync_wait_push_def Let_def simp del: upd_task_sel split: option.splits)

lemma sw_pop_nil: "sw_rep rt q [] \<Longrightarrow> vl_sync_wait_pop rt q = (None, rt, q)"
  by (simp add: sw_rep_def fifo_rep_nil vl_sync_wait_pop_def)

lemma sw_pop_cons:
  assumes "sw_rep rt q (x # xs)"
  shows "\<exists>rt' q'. vl_sync_wait_pop rt q = (Some x, rt', q') \<and> sw_rep rt' q' xs"
  using fifo_rep_pop [of "\<lambda>t. t_waiter_next (rt_tasks rt t)" "sw_head q" "sw_tail q" x xs] assms
  by (auto simp: sw_rep_def vl_sync_wait_pop_def Let_def simp del: upd_task_sel split: option.splits)

interpretation sw: intrusive_fifo vl_sync_wait_push vl_sync_wait_pop sw_rep
proof
  show "distinct xs" if "sw_rep s q xs" for s q xs using that by (simp add: sw_rep_def fifo_rep_def)
qed (use sw_push_rep sw_pop_nil sw_pop_cons in auto)

lemma sw_rep_cong:
  "(\<And>t. t \<in> set ws \<Longrightarrow> t_waiter_next (rt_tasks rt' t) = t_waiter_next (rt_tasks rt t)) \<Longrightarrow>
   sw_rep rt' q ws = sw_rep rt q ws"
  by (simp add: sw_rep_def cong: fifo_rep_cong)

section \<open>Frames\<close>

text \<open>\<open>wl_frame\<close>: only wait links of tasks differ.\<close>

definition wl_frame :: "vl_runtime_impl \<Rightarrow> vl_runtime_impl \<Rightarrow> bool" where
  "wl_frame a b \<longleftrightarrow>
     (\<exists>nx. b = a\<lparr>rt_tasks := (\<lambda>t. (rt_tasks a t)\<lparr>t_waiter_next := nx t\<rparr>)\<rparr>)"

lemma wl_frame_refl: "wl_frame a a"
  unfolding wl_frame_def by (rule exI [of _ "\<lambda>t. t_waiter_next (rt_tasks a t)"]) simp

lemma wl_frame_trans: "wl_frame a b \<Longrightarrow> wl_frame b c \<Longrightarrow> wl_frame a c"
  by (auto simp: wl_frame_def)

lemma wl_frame_upd: "wl_frame rt (upd_task (\<lambda>t. t\<lparr>t_waiter_next := v\<rparr>) x rt)"
  unfolding wl_frame_def
  by (rule exI [of _ "(\<lambda>t. t_waiter_next (rt_tasks rt t))(x := v)"])
     (simp add: upd_task_def upd_def fun_upd_def, simp add: fun_eq_iff cong: if_cong)

lemma wl_frame_push: "vl_sync_wait_push rt q t = (rt', q') \<Longrightarrow> wl_frame rt rt'"
  using wl_frame_trans [OF wl_frame_upd wl_frame_upd] wl_frame_upd
  by (auto simp: vl_sync_wait_push_def Let_def split: option.splits)

lemma wl_frame_pop: "vl_sync_wait_pop rt q = (w, rt', q') \<Longrightarrow> wl_frame rt rt'"
  using wl_frame_upd wl_frame_refl by (auto simp: vl_sync_wait_pop_def Let_def split: option.splits)

lemma wl_frame_task:
  assumes "wl_frame a b"
  shows "t_state (rt_tasks b t) = t_state (rt_tasks a t)" "t_queued (rt_tasks b t) = t_queued (rt_tasks a t)"
    "t_queue_next (rt_tasks b t) = t_queue_next (rt_tasks a t)"
    "t_wait_value (rt_tasks b t) = t_wait_value (rt_tasks a t)"
    "t_wait_output (rt_tasks b t) = t_wait_output (rt_tasks a t)"
    "t_wait_result (rt_tasks b t) = t_wait_result (rt_tasks a t)"
    "t_executing (rt_tasks b t) = t_executing (rt_tasks a t)"
    "t_wake_pending (rt_tasks b t) = t_wake_pending (rt_tasks a t)"
    "rt_out b = rt_out a" "rt_global_runnable b = rt_global_runnable a" "rt_ps b = rt_ps a"
    "rt_all_tasks b = rt_all_tasks a" "rt_worker_count b = rt_worker_count a"
  using assms by (auto simp: wl_frame_def)

text \<open>\<open>wait_upd f\<close>: the task update \<open>f\<close> touches only the wait fields.\<close>

definition wait_upd :: "(vl_task \<Rightarrow> vl_task) \<Rightarrow> bool" where
  "wait_upd f \<longleftrightarrow> (\<forall>tk. \<exists>v out r. f tk = tk\<lparr>t_wait_value := v, t_wait_output := out, t_wait_result := r\<rparr>)"

lemma wait_upd_fields:
  assumes "wait_upd f"
  shows "t_state (f tk) = t_state tk" "t_queued (f tk) = t_queued tk" "t_queue_next (f tk) = t_queue_next tk"
    "t_waiter_next (f tk) = t_waiter_next tk" "t_executing (f tk) = t_executing tk"
    "t_wake_pending (f tk) = t_wake_pending tk" "t_fiber (f tk) = t_fiber tk" "t_last_p (f tk) = t_last_p tk"
proof -
  obtain v out r where "f tk = tk\<lparr>t_wait_value := v, t_wait_output := out, t_wait_result := r\<rparr>"
    using assms unfolding wait_upd_def by blast
  then show "t_state (f tk) = t_state tk" "t_queued (f tk) = t_queued tk"
    "t_queue_next (f tk) = t_queue_next tk" "t_waiter_next (f tk) = t_waiter_next tk"
    "t_executing (f tk) = t_executing tk" "t_wake_pending (f tk) = t_wake_pending tk"
    "t_fiber (f tk) = t_fiber tk" "t_last_p (f tk) = t_last_p tk" by simp_all
qed

lemma wait_updI [intro]:
  "wait_upd (\<lambda>tk. tk\<lparr>t_wait_result := r\<rparr>)"
  "wait_upd (\<lambda>tk. tk\<lparr>t_wait_value := None, t_wait_result := r\<rparr>)"
  "wait_upd (\<lambda>tk. tk\<lparr>t_wait_output := None, t_wait_result := r\<rparr>)"
proof -
  have "\<exists>v out r'. tk\<lparr>t_wait_result := r\<rparr> = tk\<lparr>t_wait_value := v, t_wait_output := out, t_wait_result := r'\<rparr>"
    "\<exists>v out r'. tk\<lparr>t_wait_value := None, t_wait_result := r\<rparr> =
       tk\<lparr>t_wait_value := v, t_wait_output := out, t_wait_result := r'\<rparr>"
    "\<exists>v out r'. tk\<lparr>t_wait_output := None, t_wait_result := r\<rparr> =
       tk\<lparr>t_wait_value := v, t_wait_output := out, t_wait_result := r'\<rparr>" for tk
    by (cases tk; simp)+
  then show "wait_upd (\<lambda>tk. tk\<lparr>t_wait_result := r\<rparr>)"
    "wait_upd (\<lambda>tk. tk\<lparr>t_wait_value := None, t_wait_result := r\<rparr>)"
    "wait_upd (\<lambda>tk. tk\<lparr>t_wait_output := None, t_wait_result := r\<rparr>)"
    unfolding wait_upd_def by blast+
qed

lemma finish_wait_other:
  assumes "wait_upd f" "x \<noteq> t"
  shows "t_state (rt_tasks (finish_wait f t rt) x) = t_state (rt_tasks rt x)"
    "t_wait_result (rt_tasks (finish_wait f t rt) x) = t_wait_result (rt_tasks rt x)"
    "t_wait_value (rt_tasks (finish_wait f t rt) x) = t_wait_value (rt_tasks rt x)"
    "t_wait_output (rt_tasks (finish_wait f t rt) x) = t_wait_output (rt_tasks rt x)"
  using assms by (simp_all add: finish_wait_def rt_simps wake_state)

lemma finish_wait_same:
  assumes "wait_upd f"
  shows "t_waiter_next (rt_tasks (finish_wait f t rt) x) = t_waiter_next (rt_tasks rt x)"
    "t_executing (rt_tasks (finish_wait f t rt) x) = t_executing (rt_tasks rt x)"
    "t_wait_result (rt_tasks (finish_wait f t rt) t) = t_wait_result (f (rt_tasks rt t))"
    "t_wait_value (rt_tasks (finish_wait f t rt) t) = t_wait_value (f (rt_tasks rt t))"
    "t_wait_output (rt_tasks (finish_wait f t rt) t) = t_wait_output (f (rt_tasks rt t))"
    "rt_out (finish_wait f t rt) = rt_out rt" "rt_all_tasks (finish_wait f t rt) = rt_all_tasks rt"
    "rt_ps (finish_wait f t rt) = rt_ps rt" "rt_worker_count (finish_wait f t rt) = rt_worker_count rt"
  using assms by (simp_all add: finish_wait_def rt_simps wait_upd_fields)

lemma finish_wait_released:
  assumes "wait_upd f"
  shows "parked rt t \<Longrightarrow> released (finish_wait f t rt) t"
    and "released rt x \<Longrightarrow> released (finish_wait f t rt) x"
proof -
  show "released (finish_wait f t rt) t" if "parked rt t"
    unfolding finish_wait_def by (rule wake_released) (use that assms in \<open>simp add: wait_upd_fields\<close>)
  show "released (finish_wait f t rt) x" if "released rt x"
    unfolding finish_wait_def
    by (rule wake_released_other) (use that assms in \<open>auto simp: released_def wait_upd_fields\<close>)
qed

section \<open>Waiters\<close>

definition sync_waiters :: "vl_runtime_impl \<Rightarrow> vl_sync_wait_queue \<Rightarrow> tid list \<Rightarrow> bool" where
  "sync_waiters rt q ws \<longleftrightarrow> sw_rep rt q ws \<and> (\<forall>t \<in> set ws. task_state rt t = VL_TASK_WAITING)"

lemma sync_waiters_length: "sync_waiters rt q ws \<Longrightarrow> sw_length q = length ws"
  by (simp add: sync_waiters_def sw_rep_def)

lemma sync_waiters_distinct: "sync_waiters rt q ws \<Longrightarrow> distinct ws"
  by (auto simp: sync_waiters_def intro: sw.rep_distinct)

lemma sync_waiters_zero: "sync_waiters rt vl_sync_wait_queue_zero []"
  by (simp add: sync_waiters_def sw_rep_def fifo_rep_nil vl_sync_wait_queue_zero_def)

lemma sync_waiters_cong:
  assumes "\<And>t. t \<in> set ws \<Longrightarrow> t_waiter_next (rt_tasks rt' t) = t_waiter_next (rt_tasks rt t)"
    "\<And>t. t \<in> set ws \<Longrightarrow> task_state rt' t = task_state rt t"
  shows "sync_waiters rt' q ws = sync_waiters rt q ws"
  using sw_rep_cong [of ws rt' rt q] assms by (auto simp: sync_waiters_def)

lemma sync_waiters_push:
  assumes "sync_waiters rt q ws" "t \<notin> set ws" "task_state rt t = VL_TASK_WAITING"
    "vl_sync_wait_push rt q t = (rt', q')"
  shows "sync_waiters rt' q' (ws @ [t])" "wl_frame rt rt'"
  using assms sw.rep_push [OF _ assms(2,4)] wl_frame_task(1) [OF wl_frame_push [OF assms(4)]]
    wl_frame_push [OF assms(4)]
  by (auto simp: sync_waiters_def)

lemma sync_waiters_pop:
  assumes "sync_waiters rt q ws"
  obtains "ws = []" "vl_sync_wait_pop rt q = (None, rt, q)"
  | w ws' rt' q' where "ws = w # ws'" "vl_sync_wait_pop rt q = (Some w, rt', q')"
      "sync_waiters rt' q' ws'" "w \<notin> set ws'" "task_state rt' w = VL_TASK_WAITING" "wl_frame rt rt'"
proof -
  have rep: "sw_rep rt q ws" using assms by (simp add: sync_waiters_def)
  show ?thesis
  proof (cases rule: sw.pop_cases [OF rep])
    case 1
    then show ?thesis by (rule that(1))
  next
    case (2 w ws' rt' q')
    note fr = wl_frame_pop [OF 2(2)]
    show ?thesis
      by (rule that(2) [OF 2(1,2) _ 2(4) _ fr])
         (use 2(1,3) assms wl_frame_task(1) [OF fr] in \<open>simp_all add: sync_waiters_def\<close>)
  qed
qed

lemma sync_waiters_finish:
  assumes "wait_upd f" "sync_waiters rt q ws" "t \<notin> set ws"
  shows "sync_waiters (finish_wait f t rt) q ws"
proof -
  have "task_state (finish_wait f t rt) x = task_state rt x" if "x \<in> set ws" for x
    using that assms(3) by (intro finish_wait_other(1) [OF assms(1)]) auto
  then have "sync_waiters (finish_wait f t rt) q ws = sync_waiters rt q ws"
    by (intro sync_waiters_cong) (simp_all add: finish_wait_same [OF assms(1)])
  then show ?thesis using assms(2) by simp
qed

text \<open>The drain loop releases every waiter and empties the queue.\<close>

lemma sync_drain_spec:
  assumes f: "wait_upd f" "\<And>tk. t_wait_result (f tk) = r"
    and ws: "sync_waiters rt q ws" and run: "sync_drain f (length ws) rt q = (wake, rt', q')"
  shows "(wake \<longleftrightarrow> ws \<noteq> []) \<and> sync_waiters rt' q' []
    \<and> (\<forall>t. released rt t \<longrightarrow> released rt' t)
    \<and> (\<forall>t \<in> set ws. released rt' t \<and> t_wait_result (rt_tasks rt' t) = r)
    \<and> (\<forall>t. t \<notin> set ws \<longrightarrow> task_state rt' t = task_state rt t
         \<and> t_waiter_next (rt_tasks rt' t) = t_waiter_next (rt_tasks rt t)
         \<and> t_wait_result (rt_tasks rt' t) = t_wait_result (rt_tasks rt t))
    \<and> rt_out rt' = rt_out rt \<and> rt_all_tasks rt' = rt_all_tasks rt"
  using ws run
proof (induction ws arbitrary: rt q wake)
  case Nil
  then show ?case by simp
next
  case (Cons w ws)
  obtain rt1 q1 where pop: "vl_sync_wait_pop rt q = (Some w, rt1, q1)" "sync_waiters rt1 q1 ws"
      "w \<notin> set ws" "task_state rt1 w = VL_TASK_WAITING" "wl_frame rt rt1"
    using Cons.prems(1) by (cases rule: sync_waiters_pop) auto
  have nx: "t_waiter_next (rt_tasks rt1 t) = t_waiter_next (rt_tasks rt t)" if "t \<noteq> w" for t
    using pop(1) that by (auto simp: vl_sync_wait_pop_def Let_def split: option.splits)
  let ?rt2 = "finish_wait f w rt1"
  obtain b where rec: "sync_drain f (length ws) ?rt2 q1 = (b, rt', q')" and wake: "wake"
    using Cons.prems(2) pop(1) by (cases "sync_drain f (length ws) ?rt2 q1") auto
  note ih = Cons.IH [OF sync_waiters_finish [OF f(1) pop(2,3)] rec]
  note fr = wl_frame_task [OF pop(5)]
  have rel: "released ?rt2 t" if "released rt t" for t
    using that fr by (intro finish_wait_released(2) [OF f(1)]) (simp add: released_def)
  have w: "released ?rt2 w" "t_wait_result (rt_tasks ?rt2 w) = r"
    using finish_wait_released(1) [OF f(1)] pop(4) finish_wait_same(3) [OF f(1)] f(2) by auto
  have other: "task_state rt' t = task_state rt t \<and> t_waiter_next (rt_tasks rt' t) = t_waiter_next (rt_tasks rt t)
      \<and> t_wait_result (rt_tasks rt' t) = t_wait_result (rt_tasks rt t)" if "t \<notin> set (w # ws)" for t
    using that ih fr nx [of t] finish_wait_other(1,2) [OF f(1), of t w rt1] finish_wait_same(1) [OF f(1), of w rt1 t]
    by simp
  have "released rt' w" "t_wait_result (rt_tasks rt' w) = r" using ih w pop(3) by blast+
  then show ?case
    using ih rel other wake fr finish_wait_same(6,7) [OF f(1), of w rt1] by simp
qed

text \<open>Parking the caller and joining the queue.\<close>

lemma current_caller: "vl_sync_current tls rt = Some (p, t) \<Longrightarrow> vl_task_current tls rt = Some t"
  by (auto simp: vl_sync_current_def caller_of_def vl_task_current_def split: tls.splits option.splits)

lemma sync_park_ok:
  assumes "vl_sync_park_locked p t rt = (VL_OK, rt')"
  shows "task_state rt t = VL_TASK_RUNNING" "t_executing (rt_tasks rt t)"
    "task_state rt' x = (if x = t then VL_TASK_WAITING else task_state rt x)"
    "t_waiter_next (rt_tasks rt' x) = t_waiter_next (rt_tasks rt x)"
  using assms by (auto simp: vl_sync_park_locked_def split: if_splits)

lemma sync_block:
  assumes "sync_waiters rt q ws" "vl_sync_park_locked p t rt = (VL_OK, rt1)"
    "vl_sync_wait_push rt1 q t = (rt2, q')"
  shows "sync_waiters rt2 q' (ws @ [t])" "task_state rt2 t = VL_TASK_WAITING"
proof -
  note pk = sync_park_ok [OF assms(2)]
  have "t \<notin> set ws" using assms(1) pk(1) by (auto simp: sync_waiters_def)
  moreover have "sync_waiters rt1 q ws"
    using assms(1) pk calculation by (subst sync_waiters_cong [of ws rt1 rt]) auto
  ultimately show "sync_waiters rt2 q' (ws @ [t])"
    using sync_waiters_push(1) [OF _ _ _ assms(3)] pk(3) by simp
  then show "task_state rt2 t = VL_TASK_WAITING" by (simp add: sync_waiters_def)
qed

end
