(* ===== verification/Semaphore.thy ===== *)
theory Semaphore
  imports Sync_Base
begin

text \<open>
  The counting semaphore, \<^verbatim>\<open>src/sync/semaphore.c\<close>.  \<open>None\<close> is the handle whose \<^verbatim>\<open>impl\<close> is NULL.
  The run relation \<open>sem_step\<close> interleaves the two operations with arbitrary other activity
  of the runtime and counts, as ghosts, the permits granted and the posts accepted.
\<close>

section \<open>Operations\<close>

record vl_semaphore_impl =
  sem_permits :: usize
  sem_waiters :: vl_sync_wait_queue

definition vl_semaphore_init ::
  "bool \<Rightarrow> vl_runtime_impl option \<Rightarrow> vl_semaphore_impl option \<Rightarrow> usize \<Rightarrow>
   vl_status \<times> vl_semaphore_impl option" where
  "vl_semaphore_init calloc_ok runtime semaphore permits =
     (if semaphore \<noteq> None \<or> runtime = None then (VL_ERROR_INVALID_ARGUMENT, semaphore)
      else if \<not> calloc_ok then (VL_ERROR_OUT_OF_MEMORY, semaphore)
      else (VL_OK, Some \<lparr>sem_permits = permits, sem_waiters = vl_sync_wait_queue_zero\<rparr>))"

definition vl_semaphore_wait ::
  "tls \<Rightarrow> vl_semaphore_impl option \<Rightarrow> vl_runtime_impl \<Rightarrow>
   vl_status outcome \<times> vl_semaphore_impl option \<times> vl_runtime_impl" where
  "vl_semaphore_wait tls semaphore rt =
     (case (semaphore, vl_sync_current tls rt) of
        (Some impl, Some (p, task)) \<Rightarrow>
          if sem_permits impl \<noteq> 0
          then (Ret VL_OK, Some (impl\<lparr>sem_permits := sem_permits impl - 1\<rparr>), rt)
          else (case vl_sync_park_locked p task rt of
                  (st, rt1) \<Rightarrow>
                    if st \<noteq> VL_OK then (Ret VL_ERROR_INVALID_STATE, semaphore, rt1)
                    else (case vl_sync_wait_push rt1 (sem_waiters impl) task of
                            (rt2, q) \<Rightarrow> (Park, Some (impl\<lparr>sem_waiters := q\<rparr>), rt2)))
      | _ \<Rightarrow> (Ret VL_ERROR_INVALID_STATE, semaphore, rt))"

definition vl_semaphore_post ::
  "vl_semaphore_impl option \<Rightarrow> vl_runtime_impl \<Rightarrow>
   vl_status \<times> vl_semaphore_impl option \<times> vl_runtime_impl" where
  "vl_semaphore_post semaphore rt =
     (case semaphore of
        None \<Rightarrow> (VL_ERROR_INVALID_ARGUMENT, semaphore, rt)
      | Some impl \<Rightarrow>
          (case vl_sync_wait_pop rt (sem_waiters impl) of
             (Some waiter, rt1, q) \<Rightarrow>
               (VL_OK, Some (impl\<lparr>sem_waiters := q\<rparr>),
                vl_runtime_wake_workers (finish_wait (\<lambda>t. t\<lparr>t_wait_result := VL_OK\<rparr>) waiter rt1))
           | (None, rt1, q) \<Rightarrow>
               if sem_permits impl = SIZE_MAX then (VL_ERROR_INVALID_STATE, semaphore, rt1)
               else (VL_OK, Some (impl\<lparr>sem_permits := sem_permits impl + 1\<rparr>), rt1)))"

definition vl_semaphore_destroy ::
  "vl_semaphore_impl option \<Rightarrow> vl_status \<times> vl_semaphore_impl option" where
  "vl_semaphore_destroy semaphore =
     (case semaphore of
        None \<Rightarrow> (VL_ERROR_INVALID_ARGUMENT, semaphore)
      | Some impl \<Rightarrow>
          if sw_length (sem_waiters impl) \<noteq> 0 then (VL_ERROR_INVALID_STATE, semaphore)
          else (VL_OK, None))"

section \<open>Invariant and runs\<close>

text \<open>Nobody waits while a permit is free.\<close>

definition sem_inv :: "vl_runtime_impl \<Rightarrow> vl_semaphore_impl \<Rightarrow> tid list \<Rightarrow> bool" where
  "sem_inv rt sem ws \<longleftrightarrow> sync_waiters rt (sem_waiters sem) ws \<and> (ws \<noteq> [] \<longrightarrow> sem_permits sem = 0)"

record sem_sys =
  ss_sem :: vl_semaphore_impl
  ss_rt :: vl_runtime_impl
  ss_granted :: nat
  ss_posted :: nat

text \<open>
  \<open>other\<close>: between two operations the runtime may change in any way that leaves the tasks
  parked here where they are.
\<close>

inductive sem_step :: "sem_sys \<Rightarrow> sem_sys \<Rightarrow> bool" where
  acquire: "vl_semaphore_wait tls (Some (ss_sem s)) (ss_rt s) = (Ret VL_OK, Some sem', rt') \<Longrightarrow>
    sem_step s (s\<lparr>ss_sem := sem', ss_rt := rt', ss_granted := ss_granted s + 1\<rparr>)"
| block: "vl_semaphore_wait tls (Some (ss_sem s)) (ss_rt s) = (Park, Some sem', rt') \<Longrightarrow>
    sem_step s (s\<lparr>ss_sem := sem', ss_rt := rt'\<rparr>)"
| hand_over: "vl_semaphore_post (Some (ss_sem s)) (ss_rt s) = (VL_OK, Some sem', rt') \<Longrightarrow>
    sw_head (sem_waiters (ss_sem s)) \<noteq> None \<Longrightarrow>
    sem_step s (s\<lparr>ss_sem := sem', ss_rt := rt', ss_granted := ss_granted s + 1, ss_posted := ss_posted s + 1\<rparr>)"
| deposit: "vl_semaphore_post (Some (ss_sem s)) (ss_rt s) = (VL_OK, Some sem', rt') \<Longrightarrow>
    sw_head (sem_waiters (ss_sem s)) = None \<Longrightarrow>
    sem_step s (s\<lparr>ss_sem := sem', ss_rt := rt', ss_posted := ss_posted s + 1\<rparr>)"
| other: "(\<And>ws. sync_waiters (ss_rt s) (sem_waiters (ss_sem s)) ws \<Longrightarrow>
           sync_waiters rt' (sem_waiters (ss_sem s)) ws) \<Longrightarrow>
    sem_step s (s\<lparr>ss_rt := rt'\<rparr>)"

definition sem_start :: "usize \<Rightarrow> vl_runtime_impl \<Rightarrow> sem_sys" where
  "sem_start permits rt =
     \<lparr>ss_sem = \<lparr>sem_permits = permits, sem_waiters = vl_sync_wait_queue_zero\<rparr>,
      ss_rt = rt, ss_granted = 0, ss_posted = 0\<rparr>"

section \<open>Behaviour of the operations\<close>

lemma sem_wait_ok:
  assumes "sem_inv rt sem ws" "vl_semaphore_wait tls (Some sem) rt = (Ret VL_OK, Some sem', rt')"
  shows "rt' = rt" "ws = []" "sem_inv rt' sem' []" "unat (sem_permits sem) = Suc (unat (sem_permits sem'))"
proof -
  have nz: "sem_permits sem \<noteq> 0" and out: "sem' = sem\<lparr>sem_permits := sem_permits sem - 1\<rparr>" "rt' = rt"
    using assms(2) by (auto simp: vl_semaphore_wait_def split: option.splits prod.splits if_splits)
  then show "rt' = rt" "ws = []" "sem_inv rt' sem' []"
    using assms(1) by (auto simp: sem_inv_def)
  show "unat (sem_permits sem) = Suc (unat (sem_permits sem'))"
    using nz by (simp add: out usize_unat_pred usize_unat_pos)
qed

lemma sem_wait_park:
  assumes "sem_inv rt sem ws" "vl_semaphore_wait tls (Some sem) rt = (Park, Some sem', rt')"
  shows "\<exists>t. sem_inv rt' sem' (ws @ [t]) \<and> sem_permits sem' = 0 \<and> sem_permits sem = 0
    \<and> vl_task_current tls rt = Some t \<and> task_state rt' t = VL_TASK_WAITING"
proof -
  obtain p t where cur: "vl_sync_current tls rt = Some (p, t)" and zero: "sem_permits sem = 0"
    using assms(2) by (auto simp: vl_semaphore_wait_def split: option.splits if_splits)
  obtain st rt1 where pk: "vl_sync_park_locked p t rt = (st, rt1)" by (cases "vl_sync_park_locked p t rt")
  have st: "st = VL_OK" using assms(2) cur zero pk by (auto simp: vl_semaphore_wait_def split: if_splits)
  obtain q where push: "vl_sync_wait_push rt1 (sem_waiters sem) t = (rt', q)"
    and sem': "sem' = sem\<lparr>sem_waiters := q\<rparr>"
    using assms(2) cur zero pk st by (auto simp: vl_semaphore_wait_def split: prod.splits)
  have "vl_task_current tls rt = Some t"
    using cur by (rule current_caller)
  then show ?thesis
    using sync_block [OF _ pk [unfolded st] push] assms(1) zero sem' by (auto simp: sem_inv_def)
qed

lemma sem_post_ok:
  assumes "sem_inv rt sem ws" "vl_semaphore_post (Some sem) rt = (VL_OK, Some sem', rt')"
  shows "ws = w # ws' \<Longrightarrow> sem_inv rt' sem' ws' \<and> sem_permits sem' = sem_permits sem
            \<and> released rt' w \<and> vl_sync_resume_result w rt' = VL_OK"
    and "ws = [] \<Longrightarrow> sem_inv rt' sem' [] \<and> unat (sem_permits sem') = Suc (unat (sem_permits sem))"
    and "sw_head (sem_waiters sem) = first_of ws"
proof -
  let ?f = "\<lambda>t. t\<lparr>t_wait_result := VL_OK\<rparr>"
  have wq: "sync_waiters rt (sem_waiters sem) ws" using assms(1) by (simp add: sem_inv_def)
  show "sw_head (sem_waiters sem) = first_of ws"
    using wq by (simp add: sync_waiters_def sw_rep_def fifo_rep_def)
  show "sem_inv rt' sem' ws' \<and> sem_permits sem' = sem_permits sem \<and> released rt' w
      \<and> vl_sync_resume_result w rt' = VL_OK" if "ws = w # ws'"
    using wq
  proof (cases rule: sync_waiters_pop)
    case 1
    with that show ?thesis by simp
  next
    case (2 w1 ws1 rt1 q1)
    have eq: "w1 = w" "ws1 = ws'" using 2(1) that by simp_all
    have out: "sem' = sem\<lparr>sem_waiters := q1\<rparr>" "rt' = vl_runtime_wake_workers (finish_wait ?f w rt1)"
      using assms(2) 2(2) by (simp_all add: vl_semaphore_post_def eq)
    have "sync_waiters (finish_wait ?f w rt1) q1 ws'"
      using sync_waiters_finish [OF wait_updI(1), of rt1 q1 ws' w] 2 eq by simp
    moreover have "released (finish_wait ?f w rt1) w"
      using finish_wait_released(1) [OF wait_updI(1)] 2(5) eq by simp
    moreover have "t_wait_result (rt_tasks (finish_wait ?f w rt1) w) = VL_OK"
      using finish_wait_same(3) [OF wait_updI(1)] by simp
    ultimately show ?thesis
      using assms(1) that
      by (simp add: sem_inv_def out released_def vl_sync_resume_result_def sync_waiters_def sw_rep_def)
  qed
  show "sem_inv rt' sem' [] \<and> unat (sem_permits sem') = Suc (unat (sem_permits sem))" if "ws = []"
  proof -
    have pop: "vl_sync_wait_pop rt (sem_waiters sem) = (None, rt, sem_waiters sem)"
      using wq that by (cases rule: sync_waiters_pop) simp_all
    then have nm: "sem_permits sem \<noteq> SIZE_MAX" and out: "sem' = sem\<lparr>sem_permits := sem_permits sem + 1\<rparr>" "rt' = rt"
      using assms(2) by (auto simp: vl_semaphore_post_def split: if_splits)
    have "unat (sem_permits sem) < 2 ^ 64 - 1"
      using nm usize_lt [of "sem_permits sem"] by (simp add: usize_eq_iff)
    then show ?thesis using wq that by (simp add: out sem_inv_def usize_unat_Suc)
  qed
qed

section \<open>Properties\<close>

lemma sem_step_inv:
  assumes "sem_step s s'" "sem_inv (ss_rt s) (ss_sem s) ws"
    "unat (sem_permits (ss_sem s)) + ss_granted s = n + ss_posted s"
  shows "\<exists>ws'. sem_inv (ss_rt s') (ss_sem s') ws'
    \<and> unat (sem_permits (ss_sem s')) + ss_granted s' = n + ss_posted s'"
  using assms(1)
proof (cases rule: sem_step.cases)
  case (acquire tls sem' rt')
  then show ?thesis using sem_wait_ok [OF assms(2) acquire(2)] assms(3) by auto
next
  case (block tls sem' rt')
  then show ?thesis using sem_wait_park [OF assms(2) block(2)] assms(3) by auto
next
  case (hand_over sem' rt')
  then obtain w ws' where "ws = w # ws'" using sem_post_ok(3) [OF assms(2) hand_over(2)] by (cases ws) auto
  then show ?thesis using sem_post_ok(1) [OF assms(2) hand_over(2)] assms(3) hand_over(1) by auto
next
  case (deposit sem' rt')
  then have "ws = []" using sem_post_ok(3) [OF assms(2) deposit(2)] by simp
  then show ?thesis using sem_post_ok(2) [OF assms(2) deposit(2)] assms(3) deposit(1) by auto
next
  case (other rt')
  then show ?thesis using assms(2,3) by (auto simp: sem_inv_def)
qed

text \<open>C7: In every run of a semaphore created with \<open>permits\<close> permits, with any other activity of the
  runtime in between, free permits plus granted waits equal the initial permits plus the accepted
  posts, so a permit is never lost, duplicated or wrapped; and a task only waits while no permit is free.\<close>

theorem semaphore_conservation:
  assumes "sem_step\<^sup>*\<^sup>* (sem_start permits rt) s"
  shows "unat (sem_permits (ss_sem s)) + ss_granted s = unat permits + ss_posted s
    \<and> (\<exists>ws. sync_waiters (ss_rt s) (sem_waiters (ss_sem s)) ws \<and> (ws \<noteq> [] \<longrightarrow> sem_permits (ss_sem s) = 0))"
proof -
  have "\<exists>ws. sem_inv (ss_rt s) (ss_sem s) ws
      \<and> unat (sem_permits (ss_sem s)) + ss_granted s = unat permits + ss_posted s"
    using assms
  proof (induction rule: rtranclp_induct)
    case base
    show ?case by (auto simp: sem_start_def sem_inv_def intro: sync_waiters_zero)
  next
    case (step y z)
    then show ?case using sem_step_inv by blast
  qed
  then show ?thesis by (auto simp: sem_inv_def)
qed

theorem semaphore_conservation_witness:
  "\<exists>s. sem_step\<^sup>*\<^sup>* (sem_start 0 demo_rt) s \<and> ss_granted s = 1 \<and> ss_posted s = 1
     \<and> unat (sem_permits (ss_sem s)) + ss_granted s = unat (0 :: usize) + ss_posted s"
proof -
  let ?s0 = "sem_start 0 demo_rt"
  obtain sem1 rt1 where w: "vl_semaphore_wait (TlsP 0) (Some (ss_sem ?s0)) (ss_rt ?s0) = (Park, Some sem1, rt1)"
      "sw_head (sem_waiters sem1) = Some 1"
    by (simp add: sem_start_def vl_semaphore_wait_def vl_sync_current_def caller_of_def
        vl_sync_park_locked_def vl_sync_wait_push_def vl_sync_wait_queue_zero_def demo_defs)
  let ?s1 = "?s0\<lparr>ss_sem := sem1, ss_rt := rt1\<rparr>"
  obtain sem2 rt2 where p: "vl_semaphore_post (Some (ss_sem ?s1)) (ss_rt ?s1) = (VL_OK, Some sem2, rt2)"
    using w(2) by (simp add: vl_semaphore_post_def vl_sync_wait_pop_def Let_def)
  let ?s2 = "?s1\<lparr>ss_sem := sem2, ss_rt := rt2, ss_granted := ss_granted ?s1 + 1, ss_posted := ss_posted ?s1 + 1\<rparr>"
  have "sem_step ?s0 ?s1" by (rule block [OF w(1)])
  moreover have "sem_step ?s1 ?s2" by (rule hand_over [OF p]) (simp add: w(2))
  ultimately have run: "sem_step\<^sup>*\<^sup>* ?s0 ?s2" by (meson converse_rtranclp_into_rtranclp r_into_rtranclp)
  show ?thesis
    using run semaphore_conservation [OF run] by (intro exI [of _ ?s2]) (simp add: sem_start_def)
qed

end
