(* ===== verification/Task_Mutex.thy ===== *)
theory Task_Mutex
  imports Sync_Base
begin

text \<open>
  The task mutex, \<^verbatim>\<open>src/sync/task_mutex.c\<close>: ownership is handed directly to the longest waiting
  task.  The run relation \<open>mx_step\<close> keeps as a ghost the list of tasks that hold the lock,
  judged by what the calls answered: a task is added when its lock call returns OK or when
  the lock is handed to it while it waits, and dropped when its unlock call returns OK.
\<close>

section \<open>Operations\<close>

record vl_task_mutex_impl =
  mx_owner :: "tid option"
  mx_waiters :: vl_sync_wait_queue

definition vl_task_mutex_init ::
  "bool \<Rightarrow> vl_runtime_impl option \<Rightarrow> vl_task_mutex_impl option \<Rightarrow>
   vl_status \<times> vl_task_mutex_impl option" where
  "vl_task_mutex_init calloc_ok runtime mutex =
     (if mutex \<noteq> None \<or> runtime = None then (VL_ERROR_INVALID_ARGUMENT, mutex)
      else if \<not> calloc_ok then (VL_ERROR_OUT_OF_MEMORY, mutex)
      else (VL_OK, Some \<lparr>mx_owner = None, mx_waiters = vl_sync_wait_queue_zero\<rparr>))"

definition vl_task_mutex_lock ::
  "tls \<Rightarrow> vl_task_mutex_impl option \<Rightarrow> vl_runtime_impl \<Rightarrow>
   vl_status outcome \<times> vl_task_mutex_impl option \<times> vl_runtime_impl" where
  "vl_task_mutex_lock tls mutex rt =
     (case (mutex, vl_sync_current tls rt) of
        (Some impl, Some (p, task)) \<Rightarrow>
          if mx_owner impl = None then (Ret VL_OK, Some (impl\<lparr>mx_owner := Some task\<rparr>), rt)
          else if mx_owner impl = Some task then (Ret VL_ERROR_INVALID_STATE, mutex, rt)
          else (case vl_sync_park_locked p task rt of
                  (st, rt1) \<Rightarrow>
                    if st \<noteq> VL_OK then (Ret VL_ERROR_INVALID_STATE, mutex, rt1)
                    else (case vl_sync_wait_push rt1 (mx_waiters impl) task of
                            (rt2, q) \<Rightarrow> (Park, Some (impl\<lparr>mx_waiters := q\<rparr>), rt2)))
      | _ \<Rightarrow> (Ret VL_ERROR_INVALID_STATE, mutex, rt))"

definition vl_task_mutex_unlock ::
  "tls \<Rightarrow> vl_task_mutex_impl option \<Rightarrow> vl_runtime_impl \<Rightarrow>
   vl_status \<times> vl_task_mutex_impl option \<times> vl_runtime_impl" where
  "vl_task_mutex_unlock tls mutex rt =
     (case (mutex, vl_sync_current tls rt) of
        (Some impl, Some (p, task)) \<Rightarrow>
          if mx_owner impl \<noteq> Some task then (VL_ERROR_INVALID_STATE, mutex, rt)
          else (case vl_sync_wait_pop rt (mx_waiters impl) of
                  (nxt, rt1, q) \<Rightarrow>
                    (let impl' = impl\<lparr>mx_waiters := q, mx_owner := nxt\<rparr> in
                     case nxt of
                       Some t \<Rightarrow> (VL_OK, Some impl',
                         vl_runtime_wake_workers (finish_wait (\<lambda>t. t\<lparr>t_wait_result := VL_OK\<rparr>) t rt1))
                     | None \<Rightarrow> (VL_OK, Some impl', rt1)))
      | _ \<Rightarrow> (VL_ERROR_INVALID_STATE, mutex, rt))"

definition vl_task_mutex_destroy ::
  "vl_task_mutex_impl option \<Rightarrow> vl_status \<times> vl_task_mutex_impl option" where
  "vl_task_mutex_destroy mutex =
     (case mutex of
        None \<Rightarrow> (VL_ERROR_INVALID_ARGUMENT, mutex)
      | Some impl \<Rightarrow>
          if mx_owner impl \<noteq> None \<or> sw_length (mx_waiters impl) \<noteq> 0 then (VL_ERROR_INVALID_STATE, mutex)
          else (VL_OK, None))"

section \<open>Invariant and runs\<close>

text \<open>A task only waits while the mutex is owned, and the owner does not wait.\<close>

definition mx_inv :: "vl_runtime_impl \<Rightarrow> vl_task_mutex_impl \<Rightarrow> tid list \<Rightarrow> bool" where
  "mx_inv rt m ws \<longleftrightarrow> sync_waiters rt (mx_waiters m) ws \<and> (mx_owner m = None \<longrightarrow> ws = [])"

record mx_sys =
  ms_mutex :: vl_task_mutex_impl
  ms_rt :: vl_runtime_impl
  ms_holders :: "tid list"

inductive mx_step :: "mx_sys \<Rightarrow> mx_sys \<Rightarrow> bool" where
  lock: "vl_task_mutex_lock tls (Some (ms_mutex s)) (ms_rt s) = (Ret VL_OK, Some m', rt') \<Longrightarrow>
    vl_task_current tls (ms_rt s) = Some t \<Longrightarrow>
    mx_step s (s\<lparr>ms_mutex := m', ms_rt := rt', ms_holders := t # ms_holders s\<rparr>)"
| block: "vl_task_mutex_lock tls (Some (ms_mutex s)) (ms_rt s) = (Park, Some m', rt') \<Longrightarrow>
    mx_step s (s\<lparr>ms_mutex := m', ms_rt := rt'\<rparr>)"
| unlock: "vl_task_mutex_unlock tls (Some (ms_mutex s)) (ms_rt s) = (VL_OK, Some m', rt') \<Longrightarrow>
    vl_task_current tls (ms_rt s) = Some t \<Longrightarrow>
    sw_head (mx_waiters (ms_mutex s)) = None \<Longrightarrow>
    mx_step s (s\<lparr>ms_mutex := m', ms_rt := rt', ms_holders := remove1 t (ms_holders s)\<rparr>)"
| hand_over: "vl_task_mutex_unlock tls (Some (ms_mutex s)) (ms_rt s) = (VL_OK, Some m', rt') \<Longrightarrow>
    vl_task_current tls (ms_rt s) = Some t \<Longrightarrow>
    sw_head (mx_waiters (ms_mutex s)) = Some w \<Longrightarrow>
    mx_step s (s\<lparr>ms_mutex := m', ms_rt := rt', ms_holders := w # remove1 t (ms_holders s)\<rparr>)"
| other: "(\<And>ws. sync_waiters (ms_rt s) (mx_waiters (ms_mutex s)) ws \<Longrightarrow>
           sync_waiters rt' (mx_waiters (ms_mutex s)) ws) \<Longrightarrow>
    mx_step s (s\<lparr>ms_rt := rt'\<rparr>)"

definition mx_start :: "vl_runtime_impl \<Rightarrow> mx_sys" where
  "mx_start rt = \<lparr>ms_mutex = \<lparr>mx_owner = None, mx_waiters = vl_sync_wait_queue_zero\<rparr>,
     ms_rt = rt, ms_holders = []\<rparr>"

section \<open>Behaviour of the operations\<close>

lemma mx_lock_ok:
  assumes "mx_inv rt m ws" "vl_task_mutex_lock tls (Some m) rt = (Ret VL_OK, Some m', rt')"
    "vl_task_current tls rt = Some t"
  shows "mx_owner m = None" "mx_owner m' = Some t" "rt' = rt" "mx_inv rt' m' ws"
proof -
  obtain p where cur: "vl_sync_current tls rt = Some (p, t)" and free: "mx_owner m = None"
    using assms(2,3) current_caller
    by (fastforce simp: vl_task_mutex_lock_def split: option.splits prod.splits if_splits)
  then show "mx_owner m = None" "mx_owner m' = Some t" "rt' = rt" "mx_inv rt' m' ws"
    using assms(1,2) by (auto simp: vl_task_mutex_lock_def mx_inv_def)
qed

lemma mx_lock_park:
  assumes "mx_inv rt m ws" "vl_task_mutex_lock tls (Some m) rt = (Park, Some m', rt')"
  shows "\<exists>t. vl_task_current tls rt = Some t \<and> mx_inv rt' m' (ws @ [t])
     \<and> mx_owner m' = mx_owner m \<and> mx_owner m \<noteq> Some t"
proof -
  obtain p t where cur: "vl_sync_current tls rt = Some (p, t)"
    and owned: "mx_owner m \<noteq> None" "mx_owner m \<noteq> Some t"
    using assms(2) by (auto simp: vl_task_mutex_lock_def split: option.splits if_splits)
  obtain st rt1 where pk: "vl_sync_park_locked p t rt = (st, rt1)" by (cases "vl_sync_park_locked p t rt")
  have st: "st = VL_OK" using assms(2) cur owned pk by (auto simp: vl_task_mutex_lock_def split: if_splits)
  obtain q where push: "vl_sync_wait_push rt1 (mx_waiters m) t = (rt', q)"
    and m': "m' = m\<lparr>mx_waiters := q\<rparr>"
    using assms(2) cur owned pk st by (auto simp: vl_task_mutex_lock_def split: prod.splits if_splits)
  show ?thesis
    using sync_block [OF _ pk [unfolded st] push] assms(1) owned m' current_caller [OF cur]
    by (auto simp: mx_inv_def)
qed

lemma mx_unlock_ok:
  assumes "mx_inv rt m ws" "vl_task_mutex_unlock tls (Some m) rt = (VL_OK, Some m', rt')"
  shows "vl_task_current tls rt = mx_owner m" "mx_owner m \<noteq> None" "sw_head (mx_waiters m) = first_of ws"
    "mx_owner m' = first_of ws" "mx_inv rt' m' (tl ws)"
    "ws = w # ws' \<Longrightarrow> released rt' w \<and> vl_sync_resume_result w rt' = VL_OK"
proof -
  let ?f = "\<lambda>t. t\<lparr>t_wait_result := VL_OK\<rparr>"
  obtain p t where cur: "vl_sync_current tls rt = Some (p, t)" and own: "mx_owner m = Some t"
    using assms(2) by (auto simp: vl_task_mutex_unlock_def split: option.splits if_splits)
  have wq: "sync_waiters rt (mx_waiters m) ws" using assms(1) by (simp add: mx_inv_def)
  show "vl_task_current tls rt = mx_owner m" "mx_owner m \<noteq> None" using own current_caller [OF cur] by simp_all
  show "sw_head (mx_waiters m) = first_of ws"
    using wq by (simp add: sync_waiters_def sw_rep_def fifo_rep_def)
  have "mx_owner m' = first_of ws \<and> mx_inv rt' m' (tl ws) \<and>
      (\<forall>w ws'. ws = w # ws' \<longrightarrow> released rt' w \<and> vl_sync_resume_result w rt' = VL_OK)"
    using wq
  proof (cases rule: sync_waiters_pop)
    case 1
    then show ?thesis using assms(2) cur own wq by (auto simp: vl_task_mutex_unlock_def mx_inv_def)
  next
    case (2 w1 ws1 rt1 q1)
    have out: "m' = m\<lparr>mx_waiters := q1, mx_owner := Some w1\<rparr>"
      "rt' = vl_runtime_wake_workers (finish_wait ?f w1 rt1)"
      using assms(2) cur own 2(2) by (simp_all add: vl_task_mutex_unlock_def Let_def)
    have "sync_waiters (finish_wait ?f w1 rt1) q1 ws1"
      using sync_waiters_finish [OF wait_updI(1)] 2 by simp
    moreover have "released (finish_wait ?f w1 rt1) w1"
      using finish_wait_released(1) [OF wait_updI(1)] 2(5) by simp
    moreover have "t_wait_result (rt_tasks (finish_wait ?f w1 rt1) w1) = VL_OK"
      using finish_wait_same(3) [OF wait_updI(1)] by simp
    ultimately show ?thesis
      by (simp add: 2(1) mx_inv_def out released_def vl_sync_resume_result_def sync_waiters_def sw_rep_def)
  qed
  then show "mx_owner m' = first_of ws" "mx_inv rt' m' (tl ws)"
    "ws = w # ws' \<Longrightarrow> released rt' w \<and> vl_sync_resume_result w rt' = VL_OK" by auto
qed

section \<open>Properties\<close>

lemma mx_step_inv:
  assumes "mx_step s s'" "mx_inv (ms_rt s) (ms_mutex s) ws"
    "ms_holders s = (case mx_owner (ms_mutex s) of None \<Rightarrow> [] | Some t \<Rightarrow> [t])"
  shows "(\<exists>ws'. mx_inv (ms_rt s') (ms_mutex s') ws')
    \<and> ms_holders s' = (case mx_owner (ms_mutex s') of None \<Rightarrow> [] | Some t \<Rightarrow> [t])"
  using assms(1)
proof (cases rule: mx_step.cases)
  case (lock tls m' rt' t)
  then show ?thesis using mx_lock_ok [OF assms(2) lock(2,3)] assms(3) by auto
next
  case (block tls m' rt')
  then show ?thesis using mx_lock_park [OF assms(2) block(2)] assms(3) by auto
next
  case (unlock tls m' rt' t)
  then show ?thesis using mx_unlock_ok(1-5) [OF assms(2) unlock(2)] assms(3) by auto
next
  case (hand_over tls m' rt' t w)
  then show ?thesis using mx_unlock_ok(1-5) [OF assms(2) hand_over(2)] assms(3) by auto
next
  case (other rt')
  then have "mx_inv rt' (ms_mutex s) ws" using assms(2) by (simp add: mx_inv_def)
  then show ?thesis using assms(3) other(1) by auto
qed

text \<open>C6: Mutual exclusion.  In every run of a task mutex, whatever else the runtime does in between,
  the tasks that hold the lock according to the answers of the calls are exactly the recorded owner,
  so there is at most one; and no task waits for a free mutex.\<close>

theorem task_mutex_exclusion:
  assumes "mx_step\<^sup>*\<^sup>* (mx_start rt) s"
  shows "ms_holders s = (case mx_owner (ms_mutex s) of None \<Rightarrow> [] | Some t \<Rightarrow> [t])
    \<and> length (ms_holders s) \<le> 1
    \<and> (\<exists>ws. sync_waiters (ms_rt s) (mx_waiters (ms_mutex s)) ws \<and> (mx_owner (ms_mutex s) = None \<longrightarrow> ws = []))"
proof -
  have "(\<exists>ws. mx_inv (ms_rt s) (ms_mutex s) ws)
      \<and> ms_holders s = (case mx_owner (ms_mutex s) of None \<Rightarrow> [] | Some t \<Rightarrow> [t])"
    using assms
  proof (induction rule: rtranclp_induct)
    case base
    show ?case by (auto simp: mx_start_def mx_inv_def intro: sync_waiters_zero)
  next
    case (step y z)
    then show ?case using mx_step_inv by blast
  qed
  then show ?thesis by (auto simp: mx_inv_def split: option.splits)
qed

text \<open>Task 1 takes the lock, task 2 blocks on it, and task 1 hands it over.\<close>

lemma mx_demo_run:
  "\<exists>s. mx_step\<^sup>*\<^sup>* (mx_start demo_rt) s \<and> ms_holders s = [2]"
proof -
  let ?s0 = "mx_start demo_rt"
  obtain m1 where l: "vl_task_mutex_lock (TlsP 0) (Some (ms_mutex ?s0)) (ms_rt ?s0) = (Ret VL_OK, Some m1, demo_rt)"
      "m1 = \<lparr>mx_owner = Some 1, mx_waiters = vl_sync_wait_queue_zero\<rparr>"
      "vl_task_current (TlsP 0) demo_rt = Some 1"
    by (simp add: mx_start_def vl_task_mutex_lock_def vl_sync_current_def caller_of_def
        vl_task_current_def demo_defs)
  let ?s1 = "?s0\<lparr>ms_mutex := m1, ms_rt := demo_rt, ms_holders := [1]\<rparr>"
  have s1: "mx_step ?s0 ?s1" using lock [OF l(1)] l(3) by (simp add: mx_start_def)
  obtain m2 rt2 where b: "vl_task_mutex_lock (TlsP 1) (Some (ms_mutex ?s1)) (ms_rt ?s1) = (Park, Some m2, rt2)"
      "sw_head (mx_waiters m2) = Some 2" "mx_owner m2 = Some 1" "p_current (rt_ps rt2 0) = Some 1"
    by (simp add: l(2) mx_start_def vl_task_mutex_lock_def vl_sync_current_def caller_of_def
        vl_sync_park_locked_def vl_sync_wait_push_def vl_sync_wait_queue_zero_def demo_defs)
  let ?s2 = "?s1\<lparr>ms_mutex := m2, ms_rt := rt2\<rparr>"
  have s2: "mx_step ?s1 ?s2" by (rule block [OF b(1)])
  obtain m3 rt3 where u: "vl_task_mutex_unlock (TlsP 0) (Some (ms_mutex ?s2)) (ms_rt ?s2) = (VL_OK, Some m3, rt3)"
    using b by (simp add: vl_task_mutex_unlock_def vl_sync_current_def caller_of_def vl_sync_wait_pop_def Let_def)
  have "vl_task_current (TlsP 0) (ms_rt ?s2) = Some 1" using b(4) by (simp add: vl_task_current_def)
  then have "mx_step ?s2 (?s2\<lparr>ms_mutex := m3, ms_rt := rt3, ms_holders := [2]\<rparr>)"
    using hand_over [OF u, of 1 2] b(2) by simp
  with s1 s2 have "mx_step\<^sup>*\<^sup>* ?s0 (?s2\<lparr>ms_mutex := m3, ms_rt := rt3, ms_holders := [2]\<rparr>)"
    by (meson converse_rtranclp_into_rtranclp r_into_rtranclp)
  then show ?thesis by (intro exI conjI) (assumption, simp)
qed

theorem task_mutex_exclusion_witness:
  "\<exists>s. mx_step\<^sup>*\<^sup>* (mx_start demo_rt) s \<and> mx_owner (ms_mutex s) = Some 2 \<and> length (ms_holders s) \<le> 1"
proof -
  obtain s where s: "mx_step\<^sup>*\<^sup>* (mx_start demo_rt) s" "ms_holders s = [2]" using mx_demo_run by blast
  then show ?thesis using task_mutex_exclusion [OF s(1)] by (auto split: option.splits)
qed

end
