(* ===== verification/Wait_Group.thy ===== *)
theory Wait_Group
  imports Sync_Base
begin

text \<open>
  The wait group, \<^verbatim>\<open>src/sync/wait_group.c\<close>.  A \<^verbatim>\<open>ptrdiff_t\<close> is an integer in its 64-bit range;
  the magnitude of a negative delta is computed in 64-bit words exactly as in the source.
\<close>

section \<open>Operations\<close>

record vl_wait_group_impl =
  wg_count :: usize
  wg_waiters :: vl_sync_wait_queue

definition vl_wait_group_init ::
  "bool \<Rightarrow> vl_runtime_impl option \<Rightarrow> vl_wait_group_impl option \<Rightarrow>
   vl_status \<times> vl_wait_group_impl option" where
  "vl_wait_group_init calloc_ok runtime wgroup =
     (if wgroup \<noteq> None \<or> runtime = None then (VL_ERROR_INVALID_ARGUMENT, wgroup)
      else if \<not> calloc_ok then (VL_ERROR_OUT_OF_MEMORY, wgroup)
      else (VL_OK, Some \<lparr>wg_count = 0, wg_waiters = vl_sync_wait_queue_zero\<rparr>))"

definition wg_magnitude :: "int \<Rightarrow> usize" where
  "wg_magnitude delta = of_int (- (delta + 1)) + 1"

definition wg_refuses :: "vl_wait_group_impl \<Rightarrow> int \<Rightarrow> bool" where
  "wg_refuses impl delta \<longleftrightarrow>
     (delta < 0 \<and> wg_magnitude delta > wg_count impl)
     \<or> (delta > 0 \<and> of_int delta > SIZE_MAX - wg_count impl)
     \<or> (delta > 0 \<and> sw_length (wg_waiters impl) \<noteq> 0)"

definition vl_wait_group_add ::
  "vl_wait_group_impl option \<Rightarrow> int \<Rightarrow> vl_runtime_impl \<Rightarrow>
   vl_status \<times> vl_wait_group_impl option \<times> vl_runtime_impl" where
  "vl_wait_group_add wgroup delta rt =
     (case wgroup of
        None \<Rightarrow> (VL_ERROR_INVALID_ARGUMENT, wgroup, rt)
      | Some impl \<Rightarrow>
          if wg_refuses impl delta then (VL_ERROR_INVALID_STATE, wgroup, rt)
          else
            let count = (if delta < 0 then wg_count impl - wg_magnitude delta
                         else wg_count impl + of_int delta);
                impl1 = impl\<lparr>wg_count := count\<rparr>
            in if count = 0 then
                 (case sync_drain (\<lambda>t. t\<lparr>t_wait_result := VL_OK\<rparr>) (sw_length (wg_waiters impl1)) rt
                         (wg_waiters impl1) of
                    (wake, rt1, q) \<Rightarrow>
                      (VL_OK, Some (impl1\<lparr>wg_waiters := q\<rparr>),
                       if wake then vl_runtime_wake_workers rt1 else rt1))
               else (VL_OK, Some impl1, rt))"

definition vl_wait_group_done ::
  "vl_wait_group_impl option \<Rightarrow> vl_runtime_impl \<Rightarrow>
   vl_status \<times> vl_wait_group_impl option \<times> vl_runtime_impl" where
  "vl_wait_group_done wgroup rt = vl_wait_group_add wgroup (-1) rt"

definition vl_wait_group_wait ::
  "tls \<Rightarrow> vl_wait_group_impl option \<Rightarrow> vl_runtime_impl \<Rightarrow>
   vl_status outcome \<times> vl_wait_group_impl option \<times> vl_runtime_impl" where
  "vl_wait_group_wait tls wgroup rt =
     (case (wgroup, vl_sync_current tls rt) of
        (Some impl, Some (p, task)) \<Rightarrow>
          if wg_count impl = 0 then (Ret VL_OK, wgroup, rt)
          else (case vl_sync_park_locked p task rt of
                  (st, rt1) \<Rightarrow>
                    if st \<noteq> VL_OK then (Ret VL_ERROR_INVALID_STATE, wgroup, rt1)
                    else (case vl_sync_wait_push rt1 (wg_waiters impl) task of
                            (rt2, q) \<Rightarrow> (Park, Some (impl\<lparr>wg_waiters := q\<rparr>), rt2)))
      | _ \<Rightarrow> (Ret VL_ERROR_INVALID_STATE, wgroup, rt))"

definition vl_wait_group_destroy ::
  "vl_wait_group_impl option \<Rightarrow> vl_status \<times> vl_wait_group_impl option" where
  "vl_wait_group_destroy wgroup =
     (case wgroup of
        None \<Rightarrow> (VL_ERROR_INVALID_ARGUMENT, wgroup)
      | Some impl \<Rightarrow>
          if wg_count impl \<noteq> 0 \<or> sw_length (wg_waiters impl) \<noteq> 0 then (VL_ERROR_INVALID_STATE, wgroup)
          else (VL_OK, None))"

section \<open>Arithmetic of the counter\<close>

definition ptrdiff_range :: "int \<Rightarrow> bool" where
  "ptrdiff_range d \<longleftrightarrow> - (2 ^ 63) \<le> d \<and> d < 2 ^ 63"

text \<open>The magnitude is right for every negative value, the least one included.\<close>

lemma wg_magnitude:
  assumes "ptrdiff_range d" "d < 0"
  shows "uint (wg_magnitude d) = - d"
proof -
  have "wg_magnitude d = of_int (- d)" by (simp add: wg_magnitude_def)
  then show ?thesis using usize_uint_of_int [of "- d"] assms by (simp add: ptrdiff_range_def)
qed

section \<open>Behaviour of the operations\<close>

text \<open>Nobody waits on a group whose counter is zero.\<close>

definition wg_inv :: "vl_runtime_impl \<Rightarrow> vl_wait_group_impl \<Rightarrow> tid list \<Rightarrow> bool" where
  "wg_inv rt g ws \<longleftrightarrow> sync_waiters rt (wg_waiters g) ws \<and> (wg_count g = 0 \<longrightarrow> ws = [])"

definition wg_accepts :: "vl_wait_group_impl \<Rightarrow> int \<Rightarrow> tid list \<Rightarrow> bool" where
  "wg_accepts g delta ws \<longleftrightarrow> 0 \<le> uint (wg_count g) + delta
     \<and> uint (wg_count g) + delta \<le> 2 ^ 64 - 1 \<and> (0 < delta \<longrightarrow> ws = [])"

definition wg_new_count :: "vl_wait_group_impl \<Rightarrow> int \<Rightarrow> usize" where
  "wg_new_count g delta =
     (if delta < 0 then wg_count g - wg_magnitude delta else wg_count g + of_int delta)"

lemma wg_guard:
  assumes "ptrdiff_range delta" "sync_waiters rt (wg_waiters g) ws"
  shows "wg_refuses g delta \<longleftrightarrow> \<not> wg_accepts g delta ws"
proof -
  have c: "uint (wg_count g) < 2 ^ 64" by (rule usize_uint_lt)
  consider "delta < 0" | "delta = 0" | "delta > 0" by linarith
  then show ?thesis
  proof cases
    case 1
    have "wg_magnitude delta > wg_count g \<longleftrightarrow> uint (wg_count g) + delta < 0"
      using wg_magnitude [OF assms(1) 1] by (auto simp: word_less_def)
    then show ?thesis using 1 c by (auto simp: wg_accepts_def wg_refuses_def)
  next
    case 2
    then show ?thesis using c by (simp add: wg_accepts_def wg_refuses_def)
  next
    case 3
    have "uint (of_int delta :: usize) = delta"
      using usize_uint_of_int [of delta] assms(1) 3 by (simp add: ptrdiff_range_def)
    then have "of_int delta > SIZE_MAX - wg_count g \<longleftrightarrow> uint (wg_count g) + delta > 2 ^ 64 - 1"
      by (simp only: word_less_def usize_uint_max_sub) linarith
    then show ?thesis
      using 3 sync_waiters_length [OF assms(2)] by (auto simp: wg_accepts_def wg_refuses_def)
  qed
qed

lemma wg_new_count:
  assumes "ptrdiff_range delta" "wg_accepts g delta ws"
  shows "uint (wg_new_count g delta) = uint (wg_count g) + delta"
proof (cases "delta < 0")
  case True
  note mag = wg_magnitude [OF assms(1) True]
  then show ?thesis
    using True assms(2) by (simp add: wg_new_count_def uint_sub_if' word_le_def wg_accepts_def)
next
  case False
  have d: "uint (of_int delta :: usize) = delta"
    using usize_uint_of_int [of delta] assms(1) False by (simp add: ptrdiff_range_def)
  then show ?thesis
    using False assms(2) by (simp add: wg_new_count_def uint_add_lem [THEN iffD1] wg_accepts_def)
qed

lemma wg_add_eq:
  "vl_wait_group_add (Some g) delta rt =
     (if wg_refuses g delta then (VL_ERROR_INVALID_STATE, Some g, rt)
      else if wg_new_count g delta = 0 then
        (case sync_drain (\<lambda>t. t\<lparr>t_wait_result := VL_OK\<rparr>) (sw_length (wg_waiters g)) rt (wg_waiters g) of
           (wake, rt1, q) \<Rightarrow> (VL_OK, Some (g\<lparr>wg_count := 0, wg_waiters := q\<rparr>),
              if wake then vl_runtime_wake_workers rt1 else rt1))
      else (VL_OK, Some (g\<lparr>wg_count := wg_new_count g delta\<rparr>), rt))"
  by (simp add: vl_wait_group_add_def wg_new_count_def Let_def split: prod.split)

section \<open>Properties\<close>

text \<open>C8: Adding to a wait group is exact over the whole \<open>ptrdiff_t\<close> range: the call is accepted iff the
  counter stays between 0 and \<open>SIZE_MAX\<close> and a positive delta meets no waiters; a refused call changes
  nothing; an accepted one moves the counter by exactly \<open>delta\<close>, and exactly when the counter reaches
  zero it releases every waiter with result OK and leaves none behind.\<close>

theorem wait_group_add_exact:
  assumes "ptrdiff_range delta" "wg_inv rt g ws"
    "vl_wait_group_add (Some g) delta rt = (st, g', rt')"
  shows "(\<not> wg_accepts g delta ws \<longrightarrow> st = VL_ERROR_INVALID_STATE \<and> g' = Some g \<and> rt' = rt)
    \<and> (wg_accepts g delta ws \<longrightarrow> st = VL_OK \<and> (\<exists>g1. g' = Some g1
         \<and> uint (wg_count g1) = uint (wg_count g) + delta
         \<and> wg_inv rt' g1 (if wg_count g1 = 0 then [] else ws)
         \<and> (wg_count g1 = 0 \<longrightarrow> (\<forall>t \<in> set ws. released rt' t \<and> vl_sync_resume_result t rt' = VL_OK))))"
proof -
  have wq: "sync_waiters rt (wg_waiters g) ws" using assms(2) by (simp add: wg_inv_def)
  note guard = wg_guard [OF assms(1) wq]
  show ?thesis
  proof (cases "wg_accepts g delta ws")
    case False
    then show ?thesis using assms(3) guard by (simp add: wg_add_eq)
  next
    case True
    note cnt = wg_new_count [OF assms(1) True]
    show ?thesis
    proof (cases "wg_new_count g delta = 0")
      case False
      then show ?thesis using assms(3) guard True cnt wq by (auto simp: wg_add_eq wg_inv_def)
    next
      case zero: True
      obtain wake rt1 q where drain: "sync_drain (\<lambda>t. t\<lparr>t_wait_result := VL_OK\<rparr>) (length ws) rt (wg_waiters g)
          = (wake, rt1, q)" by (cases "sync_drain (\<lambda>t. t\<lparr>t_wait_result := VL_OK\<rparr>) (length ws) rt (wg_waiters g)")
      have out: "st = VL_OK" "g' = Some (g\<lparr>wg_count := 0, wg_waiters := q\<rparr>)"
        "rt' = (if wake then vl_runtime_wake_workers rt1 else rt1)"
        using assms(3) guard True zero drain sync_waiters_length [OF wq] by (simp_all add: wg_add_eq)
      have sp: "sync_waiters rt1 q [] \<and> (\<forall>t \<in> set ws. released rt1 t \<and> t_wait_result (rt_tasks rt1 t) = VL_OK)"
        using sync_drain_spec [OF wait_updI(1) _ wq drain] by simp
      then have "sync_waiters rt' q [] \<and> (\<forall>t \<in> set ws. released rt' t \<and> vl_sync_resume_result t rt' = VL_OK)"
        by (auto simp: out sync_waiters_def sw_rep_def released_def vl_sync_resume_result_def)
      then show ?thesis using True out cnt zero by (simp add: wg_inv_def)
    qed
  qed
qed

theorem wait_group_add_exact_witness:
  "ptrdiff_range (-3) \<and> (\<exists>g' rt'. vl_wait_group_add (Some \<lparr>wg_count = 5, wg_waiters = vl_sync_wait_queue_zero\<rparr>) (-3) demo_rt
      = (VL_OK, Some g', rt') \<and> wg_count g' = 2)"
proof -
  let ?g = "\<lparr>wg_count = 5, wg_waiters = vl_sync_wait_queue_zero\<rparr>"
  have range: "ptrdiff_range (-3)" by (simp add: ptrdiff_range_def)
  have inv: "wg_inv demo_rt ?g []" by (simp add: wg_inv_def sync_waiters_zero)
  obtain st g' rt' where run: "vl_wait_group_add (Some ?g) (-3) demo_rt = (st, g', rt')"
    by (cases "vl_wait_group_add (Some ?g) (-3) demo_rt") auto
  have acc: "wg_accepts ?g (-3) []" by (simp add: wg_accepts_def)
  obtain g1 where "st = VL_OK" "g' = Some g1" "uint (wg_count g1) = 2"
    using wait_group_add_exact [OF range inv run] acc by auto
  moreover have "wg_count g1 = 2" using \<open>uint (wg_count g1) = 2\<close> by (simp add: word_uint_eq_iff)
  ultimately show ?thesis using range run by simp
qed

end
