(* ===== verification/Channel.thy ===== *)
theory Channel
  imports Sync_Base
begin

text \<open>
  The channel, \<^verbatim>\<open>src/sync/channel.c\<close>: a ring buffer of \<open>capacity\<close> values with a queue of parked
  senders and one of parked receivers.  A \<^verbatim>\<open>void *\<close> value is a \<open>nat option\<close> (\<open>None\<close> for NULL) and
  a \<^verbatim>\<open>void **\<close> the address of a cell of \<open>rt_out\<close>.  Ring indices are natural numbers: the
  capacity is at most \<^verbatim>\<open>SIZE_MAX / sizeof(void *)\<close>, so \<open>head + length\<close> cannot wrap
  (\<open>ch_index_fits\<close>).  The sequence a channel stands for is \<open>ch_contents\<close>: the buffered
  values followed by those of the parked senders.
\<close>

section \<open>Operations\<close>

type_synonym ptr = "nat option"

record vl_channel_impl =
  ch_buffer :: "ptr list"
  ch_capacity :: nat
  ch_head :: nat
  ch_length :: nat
  ch_closed :: bool
  ch_senders :: vl_sync_wait_queue
  ch_receivers :: vl_sync_wait_queue

definition vl_channel_buffer_push :: "ptr \<Rightarrow> vl_channel_impl \<Rightarrow> vl_channel_impl" where
  "vl_channel_buffer_push v ch =
     (let tail = (ch_head ch + ch_length ch) mod ch_capacity ch
      in ch\<lparr>ch_buffer := (ch_buffer ch)[tail := v], ch_length := ch_length ch + 1\<rparr>)"

definition vl_channel_buffer_pop :: "vl_channel_impl \<Rightarrow> ptr \<times> vl_channel_impl" where
  "vl_channel_buffer_pop ch =
     (ch_buffer ch ! ch_head ch,
      ch\<lparr>ch_head := (ch_head ch + 1) mod ch_capacity ch, ch_length := ch_length ch - 1\<rparr>)"

text \<open>\<open>calloc_ok\<close> and \<open>buffer_ok\<close>: the two allocations succeed.\<close>

definition vl_channel_init ::
  "bool \<Rightarrow> bool \<Rightarrow> vl_runtime_impl option \<Rightarrow> vl_channel_impl option \<Rightarrow> nat \<Rightarrow>
   vl_status \<times> vl_channel_impl option" where
  "vl_channel_init calloc_ok buffer_ok runtime channel capacity =
     (if channel \<noteq> None \<or> runtime = None \<or> capacity > (2 ^ 64 - 1) div 8
      then (VL_ERROR_INVALID_ARGUMENT, channel)
      else if \<not> calloc_ok then (VL_ERROR_OUT_OF_MEMORY, channel)
      else if capacity \<noteq> 0 \<and> \<not> buffer_ok then (VL_ERROR_OUT_OF_MEMORY, channel)
      else (VL_OK, Some \<lparr>ch_buffer = replicate capacity None, ch_capacity = capacity, ch_head = 0,
                         ch_length = 0, ch_closed = False, ch_senders = vl_sync_wait_queue_zero,
                         ch_receivers = vl_sync_wait_queue_zero\<rparr>))"

text \<open>The store through a \<^verbatim>\<open>void **\<close>.\<close>

definition store_out :: "nat option \<Rightarrow> ptr \<Rightarrow> vl_runtime_impl \<Rightarrow> vl_runtime_impl" where
  "store_out cell v rt =
     (case cell of Some a \<Rightarrow> rt\<lparr>rt_out := (rt_out rt)(a := v)\<rparr> | None \<Rightarrow> rt)"

definition vl_channel_send ::
  "tls \<Rightarrow> vl_channel_impl option \<Rightarrow> ptr \<Rightarrow> vl_runtime_impl \<Rightarrow>
   vl_status outcome \<times> vl_channel_impl option \<times> vl_runtime_impl" where
  "vl_channel_send tls channel v rt =
     (case (channel, vl_sync_current tls rt) of
        (Some impl, Some (p, task)) \<Rightarrow>
          if ch_closed impl then (Ret VL_ERROR_CLOSED, channel, rt)
          else (case vl_sync_wait_pop rt (ch_receivers impl) of
                  (Some receiver, rt1, q) \<Rightarrow>
                    (let rt2 = store_out (t_wait_output (rt_tasks rt1 receiver)) v rt1;
                         rt3 = finish_wait (\<lambda>t. t\<lparr>t_wait_output := None, t_wait_result := VL_OK\<rparr>) receiver rt2
                     in (Ret VL_OK, Some (impl\<lparr>ch_receivers := q\<rparr>), vl_runtime_wake_workers rt3))
                | (None, rt1, q) \<Rightarrow>
                    if ch_length impl < ch_capacity impl
                    then (Ret VL_OK, Some (vl_channel_buffer_push v impl), rt1)
                    else (case vl_sync_park_locked p task rt1 of
                            (st, rt2) \<Rightarrow>
                              if st \<noteq> VL_OK then (Ret VL_ERROR_INVALID_STATE, channel, rt2)
                              else (case vl_sync_wait_push
                                           (upd_task (\<lambda>t. t\<lparr>t_wait_value := v\<rparr>) task rt2)
                                           (ch_senders impl) task of
                                      (rt3, q3) \<Rightarrow> (Park, Some (impl\<lparr>ch_senders := q3\<rparr>), rt3))))
      | _ \<Rightarrow> (Ret VL_ERROR_INVALID_STATE, channel, rt))"

definition vl_channel_receive ::
  "tls \<Rightarrow> vl_channel_impl option \<Rightarrow> nat option \<Rightarrow> vl_runtime_impl \<Rightarrow>
   vl_status outcome \<times> vl_channel_impl option \<times> vl_runtime_impl" where
  "vl_channel_receive tls channel out rt =
     (case (channel, out, vl_sync_current tls rt) of
        (Some impl, Some cell, Some (p, task)) \<Rightarrow>
          if ch_length impl \<noteq> 0 then
            (case vl_channel_buffer_pop impl of
               (v, impl1) \<Rightarrow>
                 (let rt1 = store_out out v rt in
                  case vl_sync_wait_pop rt1 (ch_senders impl1) of
                    (Some sender, rt2, q) \<Rightarrow>
                      (let impl2 = vl_channel_buffer_push (t_wait_value (rt_tasks rt2 sender))
                                     (impl1\<lparr>ch_senders := q\<rparr>);
                           rt3 = finish_wait (\<lambda>t. t\<lparr>t_wait_value := None, t_wait_result := VL_OK\<rparr>) sender rt2
                       in (Ret VL_OK, Some impl2, vl_runtime_wake_workers rt3))
                  | (None, rt2, q) \<Rightarrow> (Ret VL_OK, Some impl1, rt2)))
          else (case vl_sync_wait_pop rt (ch_senders impl) of
                  (Some sender, rt1, q) \<Rightarrow>
                    (let rt2 = store_out out (t_wait_value (rt_tasks rt1 sender)) rt1;
                         rt3 = finish_wait (\<lambda>t. t\<lparr>t_wait_value := None, t_wait_result := VL_OK\<rparr>) sender rt2
                     in (Ret VL_OK, Some (impl\<lparr>ch_senders := q\<rparr>), vl_runtime_wake_workers rt3))
                | (None, rt1, q) \<Rightarrow>
                    if ch_closed impl then (Ret VL_ERROR_CLOSED, channel, rt1)
                    else (case vl_sync_park_locked p task rt1 of
                            (st, rt2) \<Rightarrow>
                              if st \<noteq> VL_OK then (Ret VL_ERROR_INVALID_STATE, channel, rt2)
                              else (case vl_sync_wait_push
                                           (upd_task (\<lambda>t. t\<lparr>t_wait_output := out\<rparr>) task rt2)
                                           (ch_receivers impl) task of
                                      (rt3, q3) \<Rightarrow> (Park, Some (impl\<lparr>ch_receivers := q3\<rparr>), rt3))))
      | _ \<Rightarrow> (Ret VL_ERROR_INVALID_STATE, channel, rt))"

definition vl_channel_close ::
  "vl_channel_impl option \<Rightarrow> vl_runtime_impl \<Rightarrow> vl_status \<times> vl_channel_impl option \<times> vl_runtime_impl" where
  "vl_channel_close channel rt =
     (case channel of
        None \<Rightarrow> (VL_ERROR_INVALID_ARGUMENT, channel, rt)
      | Some impl \<Rightarrow>
          if ch_closed impl then (VL_ERROR_CLOSED, channel, rt)
          else (case sync_drain (\<lambda>t. t\<lparr>t_wait_value := None, t_wait_result := VL_ERROR_CLOSED\<rparr>)
                       (sw_length (ch_senders impl)) rt (ch_senders impl) of
                  (wake1, rt1, q1) \<Rightarrow>
                    (case sync_drain (\<lambda>t. t\<lparr>t_wait_output := None, t_wait_result := VL_ERROR_CLOSED\<rparr>)
                            (sw_length (ch_receivers impl)) rt1 (ch_receivers impl) of
                       (wake2, rt2, q2) \<Rightarrow>
                         (VL_OK, Some (impl\<lparr>ch_closed := True, ch_senders := q1, ch_receivers := q2\<rparr>),
                          if wake1 \<or> wake2 then vl_runtime_wake_workers rt2 else rt2))))"

definition vl_channel_destroy ::
  "vl_channel_impl option \<Rightarrow> vl_status \<times> vl_channel_impl option" where
  "vl_channel_destroy channel =
     (case channel of
        None \<Rightarrow> (VL_ERROR_INVALID_ARGUMENT, channel)
      | Some impl \<Rightarrow>
          if sw_length (ch_senders impl) \<noteq> 0 \<or> sw_length (ch_receivers impl) \<noteq> 0
          then (VL_ERROR_INVALID_STATE, channel)
          else (VL_OK, None))"

section \<open>The sequence a channel stands for\<close>

definition ch_items :: "vl_channel_impl \<Rightarrow> ptr list" where
  "ch_items ch = map (\<lambda>i. ch_buffer ch ! ((ch_head ch + i) mod ch_capacity ch)) [0..<ch_length ch]"

definition ch_ring :: "vl_channel_impl \<Rightarrow> bool" where
  "ch_ring ch \<longleftrightarrow> length (ch_buffer ch) = ch_capacity ch \<and> ch_capacity ch \<le> (2 ^ 64 - 1) div 8
     \<and> ch_length ch \<le> ch_capacity ch \<and> (ch_head ch < ch_capacity ch \<or> ch_head ch = 0)"

lemma ch_index_fits: "ch_ring ch \<Longrightarrow> ch_head ch + ch_length ch + 1 < 2 ^ 64"
  by (auto simp: ch_ring_def)

lemma ch_items_length [simp]: "length (ch_items ch) = ch_length ch"
  by (simp add: ch_items_def)

lemma ch_push:
  assumes "ch_ring ch" "ch_length ch < ch_capacity ch"
  shows "ch_ring (vl_channel_buffer_push v ch)" "ch_items (vl_channel_buffer_push v ch) = ch_items ch @ [v]"
proof -
  let ?n = "ch_capacity ch" and ?t = "(ch_head ch + ch_length ch) mod ch_capacity ch"
  have t: "?t < length (ch_buffer ch)" using assms by (simp add: ch_ring_def)
  show "ch_ring (vl_channel_buffer_push v ch)"
    using assms by (simp add: ch_ring_def vl_channel_buffer_push_def Let_def)
  have "(ch_head ch + i) mod ?n \<noteq> ?t" if "i < ch_length ch" for i
    using that assms by (intro ring_index_distinct) simp_all
  then show "ch_items (vl_channel_buffer_push v ch) = ch_items ch @ [v]"
    using t by (simp add: ch_items_def vl_channel_buffer_push_def Let_def)
      (metis atLeastLessThan_iff nth_list_update_neq)
qed

lemma ch_pop:
  assumes "ch_ring ch" "ch_length ch \<noteq> 0" "vl_channel_buffer_pop ch = (v, ch')"
  shows "ch_ring ch'" "ch_items ch = v # ch_items ch'" "ch_length ch' < ch_capacity ch'"
    "ch_capacity ch' = ch_capacity ch" "ch_senders ch' = ch_senders ch" "ch_receivers ch' = ch_receivers ch"
    "ch_closed ch' = ch_closed ch" "ch_length ch = Suc (ch_length ch')"
proof -
  obtain m where m: "ch_length ch = Suc m" using assms(2) by (cases "ch_length ch") auto
  have out: "v = ch_buffer ch ! ch_head ch"
    "ch' = ch\<lparr>ch_head := (ch_head ch + 1) mod ch_capacity ch, ch_length := m\<rparr>"
    using assms(3) m by (simp_all add: vl_channel_buffer_pop_def)
  have pos: "0 < ch_capacity ch" "ch_head ch < ch_capacity ch" using assms(1) m by (auto simp: ch_ring_def)
  show "ch_ring ch'" "ch_length ch' < ch_capacity ch'" "ch_capacity ch' = ch_capacity ch"
    "ch_senders ch' = ch_senders ch" "ch_receivers ch' = ch_receivers ch" "ch_closed ch' = ch_closed ch"
    "ch_length ch = Suc (ch_length ch')"
    using assms(1) m pos by (auto simp: ch_ring_def out)
  have "(((ch_head ch + 1) mod ch_capacity ch) + i) mod ch_capacity ch = (ch_head ch + Suc i) mod ch_capacity ch" for i
    by (simp add: mod_add_left_eq)
  then show "ch_items ch = v # ch_items ch'"
    using pos by (simp add: ch_items_def out m upt_conv_Cons map_Suc_upt [symmetric] del: upt_Suc)
qed

section \<open>Invariant\<close>

text \<open>
  Receivers wait only for an empty channel without senders, senders only for a full buffer,
  and nobody waits on a closed channel.
\<close>

definition ch_inv :: "vl_runtime_impl \<Rightarrow> vl_channel_impl \<Rightarrow> tid list \<Rightarrow> tid list \<Rightarrow> bool" where
  "ch_inv rt ch ss rs \<longleftrightarrow> ch_ring ch \<and> sync_waiters rt (ch_senders ch) ss \<and> sync_waiters rt (ch_receivers ch) rs
     \<and> (rs \<noteq> [] \<longrightarrow> ch_length ch = 0 \<and> ss = []) \<and> (ss \<noteq> [] \<longrightarrow> ch_length ch = ch_capacity ch)
     \<and> (ch_closed ch \<longrightarrow> ss = [] \<and> rs = [])
     \<and> (\<forall>r \<in> set rs. t_wait_output (rt_tasks rt r) \<noteq> None)"

definition ch_contents :: "vl_runtime_impl \<Rightarrow> vl_channel_impl \<Rightarrow> tid list \<Rightarrow> ptr list" where
  "ch_contents rt ch ss = ch_items ch @ map (\<lambda>t. t_wait_value (rt_tasks rt t)) ss"

lemma store_out_sel [simp]:
  "rt_tasks (store_out c v rt) = rt_tasks rt" "rt_ps (store_out c v rt) = rt_ps rt"
  "rt_all_tasks (store_out c v rt) = rt_all_tasks rt"
  "rt_out (store_out (Some a) v rt) = (rt_out rt)(a := v)"
  by (simp_all add: store_out_def split: option.split)

lemma sync_waiters_store [simp]: "sync_waiters (store_out c v rt) q ws = sync_waiters rt q ws"
  by (simp add: sync_waiters_def sw_rep_def)

lemma sync_waiters_wake_workers [simp]: "sync_waiters (vl_runtime_wake_workers rt) q ws = sync_waiters rt q ws"
  by (simp add: sync_waiters_def sw_rep_def)

lemma released_wake_workers [simp]: "released (vl_runtime_wake_workers rt) t = released rt t"
  by (simp add: released_def)

text \<open>Releasing the head of one queue, as both operations do.\<close>

lemma release_head:
  assumes "wait_upd f" "sync_waiters rt q (w # ws)" "vl_sync_wait_pop rt q = (r, rt1, q1)"
    "rt' = vl_runtime_wake_workers (finish_wait f w (store_out c v rt1))"
  shows "r = Some w" "sync_waiters rt' q1 ws" "released rt' w"
    "vl_sync_resume_result w rt' = t_wait_result (f (rt_tasks rt1 w))"
    "t_wait_value (rt_tasks rt1 t) = t_wait_value (rt_tasks rt t)"
    "t_wait_output (rt_tasks rt1 t) = t_wait_output (rt_tasks rt t)"
    "t \<noteq> w \<Longrightarrow> t_wait_value (rt_tasks rt' t) = t_wait_value (rt_tasks rt t)"
    "t \<noteq> w \<Longrightarrow> t_wait_output (rt_tasks rt' t) = t_wait_output (rt_tasks rt t)"
    "rt_out rt' = rt_out (store_out c v rt)" "w \<notin> set ws"
    "map (\<lambda>x. t_wait_value (rt_tasks rt' x)) ws = map (\<lambda>x. t_wait_value (rt_tasks rt x)) ws"
proof -
  obtain rt2 q2 where pop: "vl_sync_wait_pop rt q = (Some w, rt2, q2)" "sync_waiters rt2 q2 ws"
      "w \<notin> set ws" "task_state rt2 w = VL_TASK_WAITING" "wl_frame rt rt2"
    using assms(2) by (cases rule: sync_waiters_pop) auto
  have eq: "r = Some w" "rt2 = rt1" "q2 = q1" using pop(1) assms(3) by simp_all
  note fr = wl_frame_task [OF pop(5) [unfolded eq]]
  let ?rt = "store_out c v rt1"
  show "r = Some w" "w \<notin> set ws" by (fact eq(1), fact pop(3))
  show "t_wait_value (rt_tasks rt1 t) = t_wait_value (rt_tasks rt t)"
    "t_wait_output (rt_tasks rt1 t) = t_wait_output (rt_tasks rt t)" by (fact fr)+
  show "sync_waiters rt' q1 ws"
    using sync_waiters_finish [OF assms(1), of ?rt q1 ws w] pop eq by (simp add: assms(4))
  show "released rt' w"
    using finish_wait_released(1) [OF assms(1), of ?rt w] pop(4) eq by (simp add: assms(4))
  show "vl_sync_resume_result w rt' = t_wait_result (f (rt_tasks rt1 w))"
    using finish_wait_same(3) [OF assms(1), of w ?rt] by (simp add: assms(4) vl_sync_resume_result_def)
  show val: "t_wait_value (rt_tasks rt' t) = t_wait_value (rt_tasks rt t)"
    and "t_wait_output (rt_tasks rt' t) = t_wait_output (rt_tasks rt t)" if "t \<noteq> w" for t
    using finish_wait_other(3,4) [OF assms(1) that, of ?rt] fr by (simp_all add: assms(4))
  show "map (\<lambda>x. t_wait_value (rt_tasks rt' x)) ws = map (\<lambda>x. t_wait_value (rt_tasks rt x)) ws"
    using pop(3) by (intro map_cong refl val) auto
  show "rt_out rt' = rt_out (store_out c v rt)"
    using finish_wait_same(6) [OF assms(1), of w ?rt] fr(9) by (simp add: assms(4) store_out_def split: option.split)
qed

text \<open>Parking the caller on one of the queues, with a wait field recorded.\<close>

lemma park_on:
  assumes "sync_waiters rt q ws" "vl_sync_park_locked p t rt = (VL_OK, rt1)"
    "f = (\<lambda>tk. tk\<lparr>t_wait_value := v\<rparr>) \<or> f = (\<lambda>tk. tk\<lparr>t_wait_output := out\<rparr>)"
    "vl_sync_wait_push (upd_task f t rt1) q t = (rt2, q')"
  shows "sync_waiters rt2 q' (ws @ [t])" "t \<notin> set ws"
    "t_wait_value (rt_tasks rt2 x) = (if x = t then t_wait_value (f (rt_tasks rt t)) else t_wait_value (rt_tasks rt x))"
    "t_wait_output (rt_tasks rt2 x) = (if x = t then t_wait_output (f (rt_tasks rt t)) else t_wait_output (rt_tasks rt x))"
    "rt_out rt2 = rt_out rt"
proof -
  note pk = sync_park_ok [OF assms(2)]
  show nin: "t \<notin> set ws" using assms(1) pk(1) by (auto simp: sync_waiters_def)
  have rt1: "rt1 = count_park p (upd_task (\<lambda>t. t\<lparr>t_state := VL_TASK_WAITING, t_wait_result := VL_OK\<rparr>) t rt)"
    using assms(2) by (simp add: vl_sync_park_locked_def split: if_splits)
  have "sync_waiters (upd_task f t rt1) q ws"
    using assms(1) nin by (subst sync_waiters_cong [of ws _ rt]) (auto simp: rt1)
  moreover have "task_state (upd_task f t rt1) t = VL_TASK_WAITING" using assms(3) by (auto simp: rt1)
  ultimately show "sync_waiters rt2 q' (ws @ [t])" using sync_waiters_push(1) [OF _ nin _ assms(4)] by simp
  note fr = wl_frame_task [OF wl_frame_push [OF assms(4)]]
  show "rt_out rt2 = rt_out rt" using fr(9) by (simp add: rt1)
  show "t_wait_value (rt_tasks rt2 x) = (if x = t then t_wait_value (f (rt_tasks rt t)) else t_wait_value (rt_tasks rt x))"
    "t_wait_output (rt_tasks rt2 x) = (if x = t then t_wait_output (f (rt_tasks rt t)) else t_wait_output (rt_tasks rt x))"
    using fr(4,5) assms(3) by (auto simp: rt1)
qed

lemma sync_waiters_nil: "sync_waiters rt q [] \<longleftrightarrow> sync_waiters rt' q []"
  by (simp add: sync_waiters_def sw_rep_def fifo_rep_nil)

section \<open>Behaviour of the operations\<close>

lemma send_closed:
  assumes "ch_closed ch" "vl_sync_current tls rt = Some (p, t)"
  shows "vl_channel_send tls (Some ch) v rt = (Ret VL_ERROR_CLOSED, Some ch, rt)"
  using assms by (simp add: vl_channel_send_def)

lemma send_receiver:
  assumes inv: "ch_inv rt ch ss (r # rs)" and cur: "vl_sync_current tls rt = Some (p, t)"
    and send: "vl_channel_send tls (Some ch) v rt = (res, ch', rt')"
  shows "res = Ret VL_OK \<and> ch_contents rt ch ss = [] \<and> released rt' r \<and> vl_sync_resume_result r rt' = VL_OK
    \<and> (\<exists>cell. t_wait_output (rt_tasks rt r) = Some cell \<and> rt_out rt' = (rt_out rt)(cell := v))
    \<and> (\<exists>ch1. ch' = Some ch1 \<and> ch_inv rt' ch1 [] rs \<and> ch_contents rt' ch1 [] = [])"
proof -
  have facts: "ch_ring ch" "sync_waiters rt (ch_senders ch) ss" "sync_waiters rt (ch_receivers ch) (r # rs)"
    "ch_length ch = 0" "ss = []" "\<not> ch_closed ch" and outs: "\<And>x. x \<in> set (r # rs) \<Longrightarrow> t_wait_output (rt_tasks rt x) \<noteq> None"
    using inv by (auto simp: ch_inv_def)
  obtain w rt1 q where pop: "vl_sync_wait_pop rt (ch_receivers ch) = (w, rt1, q)"
    by (cases "vl_sync_wait_pop rt (ch_receivers ch)") auto
  let ?f = "\<lambda>t. t\<lparr>t_wait_output := None, t_wait_result := VL_OK\<rparr>" and ?c = "t_wait_output (rt_tasks rt1 r)"
  note rel = release_head [where c = ?c and v = v, OF wait_updI(3) [of VL_OK] facts(3) pop refl]
  have out: "res = Ret VL_OK" "ch' = Some (ch\<lparr>ch_receivers := q\<rparr>)"
    "rt' = vl_runtime_wake_workers (finish_wait ?f r (store_out ?c v rt1))"
    using send cur facts(6) pop rel(1) by (auto simp: vl_channel_send_def Let_def)
  obtain cell where cell: "t_wait_output (rt_tasks rt r) = Some cell" using outs [of r] by auto
  have "?c = Some cell" using rel(6) [of r] cell by simp
  moreover have "t_wait_output (rt_tasks rt' x) \<noteq> None" if "x \<in> set rs" for x
  proof -
    have "x \<noteq> r" using that rel(10) by auto
    then show ?thesis using rel(8) [of x] that outs [of x] by (simp add: out)
  qed
  moreover have "sync_waiters rt' (ch_senders ch) []" using facts(2,5) sync_waiters_nil by metis
  ultimately have "ch_inv rt' (ch\<lparr>ch_receivers := q\<rparr>) [] rs"
    using facts rel(2) by (auto simp: ch_inv_def ch_ring_def out)
  then show ?thesis
    using rel(3,4,9) facts cell \<open>?c = Some cell\<close>
    by (simp add: out ch_contents_def ch_items_def)
qed

lemma send_buffer:
  assumes inv: "ch_inv rt ch ss []" and cur: "vl_sync_current tls rt = Some (p, t)"
    and room: "\<not> ch_closed ch" "ch_length ch < ch_capacity ch"
    and send: "vl_channel_send tls (Some ch) v rt = (res, ch', rt')"
  shows "res = Ret VL_OK \<and> rt' = rt
    \<and> (\<exists>ch1. ch' = Some ch1 \<and> ch_inv rt ch1 [] [] \<and> ss = [] \<and> ch_contents rt ch1 [] = ch_contents rt ch ss @ [v])"
proof -
  have facts: "ch_ring ch" "sync_waiters rt (ch_receivers ch) []" "ss = []" "sync_waiters rt (ch_senders ch) []"
    using inv room by (auto simp: ch_inv_def)
  have "vl_sync_wait_pop rt (ch_receivers ch) = (None, rt, ch_receivers ch)"
    using facts(2) by (cases rule: sync_waiters_pop) simp_all
  then have out: "res = Ret VL_OK" "ch' = Some (vl_channel_buffer_push v ch)" "rt' = rt"
    using send cur room by (simp_all add: vl_channel_send_def)
  show ?thesis
    using ch_push [OF facts(1) room(2)] facts room(1)
    by (simp add: out ch_inv_def ch_contents_def vl_channel_buffer_push_def Let_def)
qed

lemma send_park:
  assumes inv: "ch_inv rt ch ss []" and cur: "vl_sync_current tls rt = Some (p, t)"
    and full: "\<not> ch_closed ch" "\<not> ch_length ch < ch_capacity ch"
    and ok: "vl_sync_park_locked p t rt = (VL_OK, rt1)"
    and send: "vl_channel_send tls (Some ch) v rt = (res, ch', rt')"
  shows "res = Park \<and> rt_out rt' = rt_out rt
    \<and> (\<exists>ch1. ch' = Some ch1 \<and> ch_inv rt' ch1 (ss @ [t]) [] \<and> ch_contents rt' ch1 (ss @ [t]) = ch_contents rt ch ss @ [v])"
proof -
  have facts: "ch_ring ch" "sync_waiters rt (ch_receivers ch) []" "sync_waiters rt (ch_senders ch) ss"
    using inv by (auto simp: ch_inv_def)
  have pop: "vl_sync_wait_pop rt (ch_receivers ch) = (None, rt, ch_receivers ch)"
    using facts(2) by (cases rule: sync_waiters_pop) simp_all
  obtain rt2 q where push: "vl_sync_wait_push (upd_task (\<lambda>t. t\<lparr>t_wait_value := v\<rparr>) t rt1) (ch_senders ch) t = (rt2, q)"
    by (cases "vl_sync_wait_push (upd_task (\<lambda>t. t\<lparr>t_wait_value := v\<rparr>) t rt1) (ch_senders ch) t")
  have out: "res = Park" "ch' = Some (ch\<lparr>ch_senders := q\<rparr>)" "rt' = rt2"
    using send cur full pop ok push by (simp_all add: vl_channel_send_def)
  note pk = park_on [OF facts(3) ok disjI1 [OF refl] push]
  have "map (\<lambda>x. t_wait_value (rt_tasks rt2 x)) ss = map (\<lambda>x. t_wait_value (rt_tasks rt x)) ss"
    using pk(2,3) by (auto intro!: map_cong)
  moreover have "sync_waiters rt2 (ch_receivers ch) []" using facts(2) sync_waiters_nil by metis
  ultimately show ?thesis
    using facts(1) full pk by (simp add: out ch_inv_def ch_contents_def ch_ring_def ch_items_def)
qed

lemma receive_buffer:
  assumes inv: "ch_inv rt ch ss rs" and cur: "vl_sync_current tls rt = Some (p, t)"
    and ne: "ch_length ch \<noteq> 0"
    and recv: "vl_channel_receive tls (Some ch) (Some cell) rt = (res, ch', rt')"
  shows "\<exists>v ch1. res = Ret VL_OK \<and> ch' = Some ch1 \<and> rt_out rt' = (rt_out rt)(cell := v) \<and> rs = []
    \<and> ch_inv rt' ch1 (tl ss) [] \<and> ch_contents rt ch ss = v # ch_contents rt' ch1 (tl ss)
    \<and> (\<forall>s ss'. ss = s # ss' \<longrightarrow> released rt' s \<and> vl_sync_resume_result s rt' = VL_OK)"
proof -
  have facts: "ch_ring ch" "rs = []" "sync_waiters rt (ch_receivers ch) []" "sync_waiters rt (ch_senders ch) ss"
    "ss \<noteq> [] \<Longrightarrow> ch_length ch = ch_capacity ch" "ch_closed ch \<Longrightarrow> ss = []"
    using inv ne by (auto simp: ch_inv_def)
  obtain v ch0 where bp: "vl_channel_buffer_pop ch = (v, ch0)" by (cases "vl_channel_buffer_pop ch")
  note pop = ch_pop [OF facts(1) ne bp]
  have st: "sync_waiters (store_out (Some cell) v rt) (ch_senders ch) ss" using facts(4) by simp
  show ?thesis
  proof (cases ss)
    case Nil
    have none: "vl_sync_wait_pop (store_out (Some cell) v rt) (ch_senders ch0) =
        (None, store_out (Some cell) v rt, ch_senders ch0)"
      using st Nil pop(5) by (cases rule: sync_waiters_pop) simp_all
    have out: "res = Ret VL_OK" "ch' = Some ch0" "rt' = store_out (Some cell) v rt"
      using recv cur ne bp none by (simp_all add: vl_channel_receive_def)
    then show ?thesis
      using pop facts Nil sync_waiters_nil by (auto simp: ch_inv_def ch_contents_def)
  next
    case (Cons s ss')
    obtain w rt1 q where wp: "vl_sync_wait_pop (store_out (Some cell) v rt) (ch_senders ch) = (w, rt1, q)"
      by (cases "vl_sync_wait_pop (store_out (Some cell) v rt) (ch_senders ch)") auto
    let ?f = "\<lambda>t. t\<lparr>t_wait_value := None, t_wait_result := VL_OK\<rparr>"
    note rel = release_head [where c = None and v = None, OF wait_updI(2) [of VL_OK] st [unfolded Cons] wp refl]
    let ?ch1 = "vl_channel_buffer_push (t_wait_value (rt_tasks rt1 s)) (ch0\<lparr>ch_senders := q\<rparr>)"
    have out: "res = Ret VL_OK" "ch' = Some ?ch1"
      "rt' = vl_runtime_wake_workers (finish_wait ?f s (store_out None None rt1))"
      using recv cur ne bp wp rel(1) pop(5) by (simp_all add: vl_channel_receive_def Let_def store_out_def)
    have ring: "ch_ring (ch0\<lparr>ch_senders := q\<rparr>)" "ch_length (ch0\<lparr>ch_senders := q\<rparr>) < ch_capacity (ch0\<lparr>ch_senders := q\<rparr>)"
      using pop(1,3) by (simp_all add: ch_ring_def)
    note push = ch_push [OF ring, of "t_wait_value (rt_tasks rt1 s)"]
    have "ch_items (ch0\<lparr>ch_senders := q\<rparr>) = ch_items ch0" by (simp add: ch_items_def)
    moreover have "map (\<lambda>x. t_wait_value (rt_tasks rt' x)) ss' = map (\<lambda>x. t_wait_value (rt_tasks rt x)) ss'"
      using rel(11) by (simp add: out)
    ultimately have "ch_contents rt ch ss = v # ch_contents rt' ?ch1 ss'"
      using push(2) pop(2) rel(5) [of s] Cons by (simp add: ch_contents_def)
    moreover have "ch_inv rt' ?ch1 ss' []"
      using push(1) rel(2) facts pop Cons sync_waiters_nil [of rt "ch_receivers ch" rt']
      by (auto simp: ch_inv_def out vl_channel_buffer_push_def Let_def)
    moreover have "rt_out rt' = (rt_out rt)(cell := v)" using rel(9) by (simp add: out store_out_def)
    ultimately show ?thesis
      using rel(3,4) Cons facts(2) out by simp
  qed
qed

lemma receive_sender:
  assumes inv: "ch_inv rt ch (s # ss) rs" and cur: "vl_sync_current tls rt = Some (p, t)"
    and empty: "ch_length ch = 0"
    and recv: "vl_channel_receive tls (Some ch) (Some cell) rt = (res, ch', rt')"
  shows "\<exists>v ch1. res = Ret VL_OK \<and> ch' = Some ch1 \<and> rt_out rt' = (rt_out rt)(cell := v) \<and> rs = []
    \<and> ch_inv rt' ch1 ss [] \<and> ch_contents rt ch (s # ss) = v # ch_contents rt' ch1 ss
    \<and> released rt' s \<and> vl_sync_resume_result s rt' = VL_OK"
proof -
  have facts: "ch_ring ch" "rs = []" "sync_waiters rt (ch_receivers ch) []" "sync_waiters rt (ch_senders ch) (s # ss)"
    "ch_length ch = ch_capacity ch" "\<not> ch_closed ch"
    using inv by (auto simp: ch_inv_def)
  obtain w rt1 q where wp: "vl_sync_wait_pop rt (ch_senders ch) = (w, rt1, q)"
    by (cases "vl_sync_wait_pop rt (ch_senders ch)") auto
  let ?f = "\<lambda>t. t\<lparr>t_wait_value := None, t_wait_result := VL_OK\<rparr>" and ?v = "t_wait_value (rt_tasks rt1 s)"
  note rel = release_head [where c = "Some cell" and v = ?v, OF wait_updI(2) [of VL_OK] facts(4) wp refl]
  have out: "res = Ret VL_OK" "ch' = Some (ch\<lparr>ch_senders := q\<rparr>)"
    "rt' = vl_runtime_wake_workers (finish_wait ?f s (store_out (Some cell) ?v rt1))"
    using recv cur empty wp rel(1) by (simp_all add: vl_channel_receive_def Let_def)
  have "map (\<lambda>x. t_wait_value (rt_tasks rt' x)) ss = map (\<lambda>x. t_wait_value (rt_tasks rt x)) ss"
    using rel(11) by (simp add: out)
  then have "ch_contents rt ch (s # ss) = ?v # ch_contents rt' (ch\<lparr>ch_senders := q\<rparr>) ss"
    using rel(5) [of s] empty by (simp add: ch_contents_def ch_items_def)
  moreover have "ch_inv rt' (ch\<lparr>ch_senders := q\<rparr>) ss []"
    using rel(2) facts sync_waiters_nil [of rt "ch_receivers ch" rt'] by (auto simp: ch_inv_def out ch_ring_def)
  moreover have "rt_out rt' = (rt_out rt)(cell := ?v)" using rel(9) by (simp add: out)
  ultimately show ?thesis using rel(3,4) facts(2) out by auto
qed

lemma receive_empty:
  assumes inv: "ch_inv rt ch [] rs" and cur: "vl_sync_current tls rt = Some (p, t)"
    and empty: "ch_length ch = 0"
    and recv: "vl_channel_receive tls (Some ch) (Some cell) rt = (res, ch', rt')"
  shows "ch_closed ch \<Longrightarrow> res = Ret VL_ERROR_CLOSED \<and> ch' = Some ch \<and> rt' = rt"
    and "\<not> ch_closed ch \<Longrightarrow> vl_sync_park_locked p t rt = (VL_OK, rt1) \<Longrightarrow>
      res = Park \<and> rt_out rt' = rt_out rt \<and> (\<exists>ch1. ch' = Some ch1 \<and> ch_inv rt' ch1 [] (rs @ [t])
        \<and> ch_contents rt' ch1 [] = [] \<and> t_wait_output (rt_tasks rt' t) = Some cell)"
proof -
  have facts: "ch_ring ch" "sync_waiters rt (ch_receivers ch) rs" "sync_waiters rt (ch_senders ch) []"
    and outs: "\<And>x. x \<in> set rs \<Longrightarrow> t_wait_output (rt_tasks rt x) \<noteq> None"
    using inv by (auto simp: ch_inv_def)
  have none: "vl_sync_wait_pop rt (ch_senders ch) = (None, rt, ch_senders ch)"
    using facts(3) by (cases rule: sync_waiters_pop) simp_all
  show "res = Ret VL_ERROR_CLOSED \<and> ch' = Some ch \<and> rt' = rt" if "ch_closed ch"
    using recv cur empty none that by (simp add: vl_channel_receive_def)
  show "res = Park \<and> rt_out rt' = rt_out rt \<and> (\<exists>ch1. ch' = Some ch1 \<and> ch_inv rt' ch1 [] (rs @ [t])
        \<and> ch_contents rt' ch1 [] = [] \<and> t_wait_output (rt_tasks rt' t) = Some cell)"
    if opn: "\<not> ch_closed ch" and ok: "vl_sync_park_locked p t rt = (VL_OK, rt1)"
  proof -
    obtain rt2 q where push: "vl_sync_wait_push (upd_task (\<lambda>t. t\<lparr>t_wait_output := Some cell\<rparr>) t rt1) (ch_receivers ch) t = (rt2, q)"
      by (cases "vl_sync_wait_push (upd_task (\<lambda>t. t\<lparr>t_wait_output := Some cell\<rparr>) t rt1) (ch_receivers ch) t")
    have out: "res = Park" "ch' = Some (ch\<lparr>ch_receivers := q\<rparr>)" "rt' = rt2"
      using recv cur opn empty none ok push by (simp_all add: vl_channel_receive_def)
    note pk = park_on [OF facts(2) ok disjI2 [OF refl] push]
    have "sync_waiters rt2 (ch_senders ch) []" using facts(3) sync_waiters_nil by metis
    then show ?thesis
      using facts(1) opn empty pk outs by (auto simp: out ch_inv_def ch_contents_def ch_ring_def ch_items_def)
  qed
qed

lemma close_open:
  assumes inv: "ch_inv rt ch ss rs" and opn: "\<not> ch_closed ch"
    and close: "vl_channel_close (Some ch) rt = (st, ch', rt')"
  shows "st = VL_OK \<and> rt_out rt' = rt_out rt
    \<and> (\<exists>ch1. ch' = Some ch1 \<and> ch_closed ch1 \<and> ch_inv rt' ch1 [] [] \<and> ch_contents rt' ch1 [] = ch_items ch)
    \<and> (\<forall>t \<in> set (ss @ rs). released rt' t \<and> vl_sync_resume_result t rt' = VL_ERROR_CLOSED)"
proof -
  let ?f = "\<lambda>t. t\<lparr>t_wait_value := None, t_wait_result := VL_ERROR_CLOSED\<rparr>"
  let ?g = "\<lambda>t. t\<lparr>t_wait_output := None, t_wait_result := VL_ERROR_CLOSED\<rparr>"
  have facts: "ch_ring ch" "sync_waiters rt (ch_senders ch) ss" "sync_waiters rt (ch_receivers ch) rs"
    "rs \<noteq> [] \<Longrightarrow> ss = []" using inv by (auto simp: ch_inv_def)
  obtain w1 rt1 q1 where d1: "sync_drain ?f (length ss) rt (ch_senders ch) = (w1, rt1, q1)"
    by (cases "sync_drain ?f (length ss) rt (ch_senders ch)") auto
  note s1 = sync_drain_spec [OF wait_updI(2) _ facts(2) d1, of VL_ERROR_CLOSED, simplified]
  have rs1: "sync_waiters rt1 (ch_receivers ch) rs"
  proof (cases "rs = []")
    case True
    then show ?thesis using facts(3) sync_waiters_nil by metis
  next
    case False
    then show ?thesis using facts(3,4) d1 by simp
  qed
  obtain w2 rt2 q2 where d2: "sync_drain ?g (length rs) rt1 (ch_receivers ch) = (w2, rt2, q2)"
    by (cases "sync_drain ?g (length rs) rt1 (ch_receivers ch)") auto
  note s2 = sync_drain_spec [OF wait_updI(3) _ rs1 d2, of VL_ERROR_CLOSED, simplified]
  have out: "st = VL_OK" "ch' = Some (ch\<lparr>ch_closed := True, ch_senders := q1, ch_receivers := q2\<rparr>)"
    "rt' = (if w1 \<or> w2 then vl_runtime_wake_workers rt2 else rt2)"
    using close opn d1 d2 sync_waiters_length [OF facts(2)] sync_waiters_length [OF facts(3)]
    by (simp_all add: vl_channel_close_def)
  have "sync_waiters rt2 q1 []" using s1 sync_waiters_nil by metis
  then have "ch_inv rt' (ch\<lparr>ch_closed := True, ch_senders := q1, ch_receivers := q2\<rparr>) [] []"
    using facts(1) s2 by (simp add: ch_inv_def out ch_ring_def)
  moreover have "released rt2 t \<and> t_wait_result (rt_tasks rt2 t) = VL_ERROR_CLOSED" if "t \<in> set (ss @ rs)" for t
    using that s1 s2 facts(4) by (cases "rs = []") auto
  then have "\<forall>t \<in> set (ss @ rs). released rt' t \<and> vl_sync_resume_result t rt' = VL_ERROR_CLOSED"
    by (simp add: out vl_sync_resume_result_def)
  ultimately show ?thesis
    using s1 s2 by (simp add: out ch_contents_def ch_items_def)
qed

section \<open>Runs\<close>

text \<open>
  \<open>cs_accepted\<close> lists the values whose send returned OK or is parked, in order; a close withdraws
  those still parked.  \<open>cs_delivered\<close> lists the values found in the receivers' cells, in the
  order in which they were stored there.
\<close>

record ch_sys =
  cs_ch :: vl_channel_impl
  cs_rt :: vl_runtime_impl
  cs_accepted :: "ptr list"
  cs_delivered :: "ptr list"

inductive ch_step :: "ch_sys \<Rightarrow> ch_sys \<Rightarrow> bool" where
  send_to: "vl_channel_send tls (Some (cs_ch s)) v (cs_rt s) = (Ret VL_OK, Some ch', rt') \<Longrightarrow>
    sw_head (ch_receivers (cs_ch s)) = Some r \<Longrightarrow> t_wait_output (rt_tasks (cs_rt s) r) = Some cell \<Longrightarrow>
    ch_step s (s\<lparr>cs_ch := ch', cs_rt := rt', cs_accepted := cs_accepted s @ [v],
                cs_delivered := cs_delivered s @ [rt_out rt' cell]\<rparr>)"
| send: "vl_channel_send tls (Some (cs_ch s)) v (cs_rt s) = (Ret VL_OK, Some ch', rt') \<Longrightarrow>
    sw_head (ch_receivers (cs_ch s)) = None \<Longrightarrow>
    ch_step s (s\<lparr>cs_ch := ch', cs_rt := rt', cs_accepted := cs_accepted s @ [v]\<rparr>)"
| send_wait: "vl_channel_send tls (Some (cs_ch s)) v (cs_rt s) = (Park, Some ch', rt') \<Longrightarrow>
    ch_step s (s\<lparr>cs_ch := ch', cs_rt := rt', cs_accepted := cs_accepted s @ [v]\<rparr>)"
| receive: "vl_channel_receive tls (Some (cs_ch s)) (Some cell) (cs_rt s) = (Ret VL_OK, Some ch', rt') \<Longrightarrow>
    ch_step s (s\<lparr>cs_ch := ch', cs_rt := rt', cs_delivered := cs_delivered s @ [rt_out rt' cell]\<rparr>)"
| receive_wait: "vl_channel_receive tls (Some (cs_ch s)) (Some cell) (cs_rt s) = (Park, Some ch', rt') \<Longrightarrow>
    ch_step s (s\<lparr>cs_ch := ch', cs_rt := rt'\<rparr>)"
| close: "vl_channel_close (Some (cs_ch s)) (cs_rt s) = (VL_OK, Some ch', rt') \<Longrightarrow>
    ch_step s (s\<lparr>cs_ch := ch', cs_rt := rt',
      cs_accepted := take (length (cs_accepted s) - sw_length (ch_senders (cs_ch s))) (cs_accepted s)\<rparr>)"
| other: "(\<And>ss rs. ch_inv (cs_rt s) (cs_ch s) ss rs \<Longrightarrow> ch_inv rt' (cs_ch s) ss rs
             \<and> ch_contents rt' (cs_ch s) ss = ch_contents (cs_rt s) (cs_ch s) ss) \<Longrightarrow>
    ch_step s (s\<lparr>cs_rt := rt'\<rparr>)"

inductive ch_reach :: "nat \<Rightarrow> ch_sys \<Rightarrow> bool" for capacity where
  start: "vl_channel_init True True (Some rt) None capacity = (VL_OK, Some ch) \<Longrightarrow>
    ch_reach capacity \<lparr>cs_ch = ch, cs_rt = rt, cs_accepted = [], cs_delivered = []\<rparr>"
| step: "ch_reach capacity s \<Longrightarrow> ch_step s s' \<Longrightarrow> ch_reach capacity s'"

definition ch_good :: "ch_sys \<Rightarrow> bool" where
  "ch_good s \<longleftrightarrow> (\<exists>ss rs. ch_inv (cs_rt s) (cs_ch s) ss rs
     \<and> cs_accepted s = cs_delivered s @ ch_contents (cs_rt s) (cs_ch s) ss)"

lemma ch_goodI:
  "ch_inv (cs_rt s) (cs_ch s) ss rs \<Longrightarrow>
   cs_accepted s = cs_delivered s @ ch_contents (cs_rt s) (cs_ch s) ss \<Longrightarrow> ch_good s"
  unfolding ch_good_def by blast

lemma send_caller:
  assumes "vl_channel_send tls (Some ch) v rt = (res, Some ch', rt')" "res = Ret VL_OK \<or> res = Park"
  obtains p t where "vl_sync_current tls rt = Some (p, t)" "\<not> ch_closed ch"
  using assms by (auto simp: vl_channel_send_def split: option.splits if_splits)

lemma receive_caller:
  assumes "vl_channel_receive tls (Some ch) (Some cell) rt = (res, Some ch', rt')" "res = Ret VL_OK \<or> res = Park"
  obtains p t where "vl_sync_current tls rt = Some (p, t)"
  using assms by (auto simp: vl_channel_receive_def split: option.splits if_splits)

lemma park_outcome:
  assumes "vl_sync_park_locked p t rt = (st, rt1)"
  shows "st = VL_OK \<or> st = VL_ERROR_INVALID_STATE \<and> rt1 = rt"
  using assms by (auto simp: vl_sync_park_locked_def split: if_splits)

lemma ch_inv_heads:
  assumes "ch_inv rt ch ss rs"
  shows "sw_head (ch_receivers ch) = first_of rs" "sw_length (ch_senders ch) = length ss"
  using assms by (simp_all add: ch_inv_def sync_waiters_def sw_rep_def fifo_rep_def)

lemma send_no_receiver:
  assumes "ch_inv rt ch ss []" "vl_sync_current tls rt = Some (p, t)"
    "vl_channel_send tls (Some ch) v rt = (res, ch', rt')"
  shows "res = Ret VL_OK \<Longrightarrow> ch_length ch < ch_capacity ch"
    and "res = Park \<Longrightarrow> \<not> ch_length ch < ch_capacity ch \<and> (\<exists>rt1. vl_sync_park_locked p t rt = (VL_OK, rt1))"
proof -
  have "sync_waiters rt (ch_receivers ch) []" using assms(1) by (simp add: ch_inv_def)
  then have pop: "vl_sync_wait_pop rt (ch_receivers ch) = (None, rt, ch_receivers ch)"
    by (cases rule: sync_waiters_pop) simp_all
  obtain st rt1 where pk: "vl_sync_park_locked p t rt = (st, rt1)" by (cases "vl_sync_park_locked p t rt")
  show "ch_length ch < ch_capacity ch" if "res = Ret VL_OK"
    using assms(2,3) pop pk that by (auto simp: vl_channel_send_def split: if_splits prod.splits)
  show "\<not> ch_length ch < ch_capacity ch \<and> (\<exists>rt1. vl_sync_park_locked p t rt = (VL_OK, rt1))" if "res = Park"
    using assms(2,3) pop pk that by (auto simp: vl_channel_send_def split: if_splits prod.splits)
qed

lemma receive_nothing:
  assumes "ch_inv rt ch [] rs" "vl_sync_current tls rt = Some (p, t)" "ch_length ch = 0"
    "vl_channel_receive tls (Some ch) (Some cell) rt = (res, ch', rt')"
  shows "res \<noteq> Ret VL_OK"
    and "res = Park \<Longrightarrow> \<not> ch_closed ch \<and> (\<exists>rt1. vl_sync_park_locked p t rt = (VL_OK, rt1))"
proof -
  have "sync_waiters rt (ch_senders ch) []" using assms(1) by (simp add: ch_inv_def)
  then have pop: "vl_sync_wait_pop rt (ch_senders ch) = (None, rt, ch_senders ch)"
    by (cases rule: sync_waiters_pop) simp_all
  obtain st rt1 where pk: "vl_sync_park_locked p t rt = (st, rt1)" by (cases "vl_sync_park_locked p t rt")
  show "res \<noteq> Ret VL_OK"
    using assms(2,3,4) pop pk by (auto simp: vl_channel_receive_def split: if_splits prod.splits)
  show "\<not> ch_closed ch \<and> (\<exists>rt1. vl_sync_park_locked p t rt = (VL_OK, rt1))" if "res = Park"
    using assms(2,3,4) pop pk that by (auto simp: vl_channel_receive_def split: if_splits prod.splits)
qed

lemma ch_step_receive:
  assumes inv: "ch_inv (cs_rt s) (cs_ch s) ss rs"
    and acc: "cs_accepted s = cs_delivered s @ ch_contents (cs_rt s) (cs_ch s) ss"
    and recv: "vl_channel_receive tls (Some (cs_ch s)) (Some cell) (cs_rt s) = (res, Some ch', rt')"
  shows "res = Ret VL_OK \<Longrightarrow> ch_good (s\<lparr>cs_ch := ch', cs_rt := rt', cs_delivered := cs_delivered s @ [rt_out rt' cell]\<rparr>)"
    and "res = Park \<Longrightarrow> ch_good (s\<lparr>cs_ch := ch', cs_rt := rt'\<rparr>)"
proof -
  let ?goal = "(res = Ret VL_OK \<longrightarrow> ch_good (s\<lparr>cs_ch := ch', cs_rt := rt', cs_delivered := cs_delivered s @ [rt_out rt' cell]\<rparr>))
    \<and> (res = Park \<longrightarrow> ch_good (s\<lparr>cs_ch := ch', cs_rt := rt'\<rparr>))"
  have ?goal if res: "res = Ret VL_OK \<or> res = Park"
  proof -
    obtain p t where cur: "vl_sync_current tls (cs_rt s) = Some (p, t)" using receive_caller [OF recv res] .
    show ?goal
    proof (cases "ch_length (cs_ch s) = 0")
      case False
      show ?thesis using receive_buffer [OF inv cur False recv] acc by (auto intro: ch_goodI)
    next
      case True
      show ?thesis
      proof (cases ss)
        case (Cons x xs)
        show ?thesis using receive_sender [OF inv [unfolded Cons] cur True recv] acc Cons by (auto intro: ch_goodI)
      next
        case Nil
        note no = receive_nothing [OF inv [unfolded Nil] cur True recv]
        then obtain rt1 where "\<not> ch_closed (cs_ch s)" "vl_sync_park_locked p t (cs_rt s) = (VL_OK, rt1)"
          using res by auto
        then obtain "ch_inv rt' ch' [] (rs @ [t])" "ch_contents rt' ch' [] = []"
          using receive_empty(2) [OF inv [unfolded Nil] cur True recv] by auto
        moreover have "ch_contents (cs_rt s) (cs_ch s) ss = []" using Nil True by (simp add: ch_contents_def ch_items_def)
        ultimately show ?thesis using acc no by (auto intro: ch_goodI)
      qed
    qed
  qed
  then show "res = Ret VL_OK \<Longrightarrow> ch_good (s\<lparr>cs_ch := ch', cs_rt := rt', cs_delivered := cs_delivered s @ [rt_out rt' cell]\<rparr>)"
    "res = Park \<Longrightarrow> ch_good (s\<lparr>cs_ch := ch', cs_rt := rt'\<rparr>)" by blast+
qed

lemma ch_step_good:
  assumes "ch_step s s'" "ch_good s"
  shows "ch_good s'"
proof -
  obtain ss rs where inv: "ch_inv (cs_rt s) (cs_ch s) ss rs"
    and acc: "cs_accepted s = cs_delivered s @ ch_contents (cs_rt s) (cs_ch s) ss"
    using assms(2) by (auto simp: ch_good_def)
  note hd = ch_inv_heads [OF inv]
  show ?thesis
    using assms(1)
  proof (cases rule: ch_step.cases)
    case (send_to tls v ch' rt' r cell)
    obtain p t where cur: "vl_sync_current tls (cs_rt s) = Some (p, t)" using send_caller [OF send_to(2)] by blast
    obtain rs' where "rs = r # rs'" using hd(1) send_to(3) by (cases rs) auto
    with send_receiver [OF _ cur send_to(2), of ss r rs'] inv send_to(4)
    obtain "ch_contents (cs_rt s) (cs_ch s) ss = []" "rt_out rt' cell = v" "ch_inv rt' ch' [] rs'" "ch_contents rt' ch' [] = []"
      by auto
    then show ?thesis using acc send_to(1) by (auto intro: ch_goodI)
  next
    case (send tls v ch' rt')
    obtain p t where cur: "vl_sync_current tls (cs_rt s) = Some (p, t)" "\<not> ch_closed (cs_ch s)"
      using send_caller [OF send(2)] by blast
    have rs: "rs = []" using hd(1) send(3) by (metis first_of_None)
    show ?thesis
      using send_buffer [OF inv [unfolded rs] cur _ send(2)] send_no_receiver(1) [OF inv [unfolded rs] cur(1) send(2)]
        acc send(1) by (auto intro: ch_goodI)
  next
    case (send_wait tls v ch' rt')
    obtain p t where cur: "vl_sync_current tls (cs_rt s) = Some (p, t)" "\<not> ch_closed (cs_ch s)"
      using send_caller [OF send_wait(2)] by blast
    have rs: "rs = []"
      using send_receiver [OF _ cur(1) send_wait(2)] inv by (cases rs) auto
    obtain rt1 where "\<not> ch_length (cs_ch s) < ch_capacity (cs_ch s)" "vl_sync_park_locked p t (cs_rt s) = (VL_OK, rt1)"
      using send_no_receiver(2) [OF inv [unfolded rs] cur(1) send_wait(2)] by auto
    then show ?thesis
      using send_park [OF inv [unfolded rs] cur _ _ send_wait(2)] acc send_wait(1) by (auto intro: ch_goodI)
  next
    case (receive tls cell ch' rt')
    then show ?thesis using ch_step_receive(1) [OF inv acc receive(2)] by simp
  next
    case (receive_wait tls cell ch' rt')
    then show ?thesis using ch_step_receive(2) [OF inv acc receive_wait(2)] by simp
  next
    case (close ch' rt')
    have opn: "\<not> ch_closed (cs_ch s)" using close(2) by (auto simp: vl_channel_close_def)
    show ?thesis using close_open [OF inv opn close(2)] acc hd(2) close(1)
      by (auto intro!: ch_goodI simp: ch_contents_def)
  next
    case (other rt')
    have "ch_inv rt' (cs_ch s) ss rs" "ch_contents rt' (cs_ch s) ss = ch_contents (cs_rt s) (cs_ch s) ss"
      using other(2) [OF inv] by simp_all
    then show ?thesis using acc other(1) by (intro ch_goodI [of _ ss rs]) simp_all
  qed
qed

section \<open>Properties\<close>

text \<open>C2: A channel is a first-in first-out queue.  In every run of sends, receives and closes, whatever
  else the runtime does in between, the values stored into receivers' cells, followed by the values
  buffered and those held by parked senders, are exactly the accepted values in the order of their
  sends: nothing is lost, duplicated, reordered or invented, and at most \<open>capacity\<close> values are buffered.\<close>

theorem channel_fifo:
  assumes "ch_reach capacity s"
  shows "\<exists>ss rs. ch_inv (cs_rt s) (cs_ch s) ss rs
    \<and> cs_accepted s = cs_delivered s @ ch_items (cs_ch s) @ map (\<lambda>t. t_wait_value (rt_tasks (cs_rt s) t)) ss
    \<and> length (ch_items (cs_ch s)) \<le> ch_capacity (cs_ch s)"
proof -
  have "ch_good s"
    using assms
  proof (induction rule: ch_reach.induct)
    case (start rt ch)
    have ch: "ch_ring ch" "ch_length ch = 0" "ch_senders ch = vl_sync_wait_queue_zero"
      "ch_receivers ch = vl_sync_wait_queue_zero"
      using start by (auto simp: vl_channel_init_def ch_ring_def split: if_splits)
    have "ch_inv rt ch [] []" "ch_contents rt ch [] = []"
      using ch sync_waiters_zero by (simp_all add: ch_inv_def ch_contents_def ch_items_def)
    then show ?case by (intro ch_goodI [of _ "[]" "[]"]) simp_all
  next
    case (step s s')
    then show ?case using ch_step_good by blast
  qed
  then obtain ss rs where "ch_inv (cs_rt s) (cs_ch s) ss rs"
      "cs_accepted s = cs_delivered s @ ch_contents (cs_rt s) (cs_ch s) ss" by (auto simp: ch_good_def)
  moreover from this have "length (ch_items (cs_ch s)) \<le> ch_capacity (cs_ch s)"
    by (simp add: ch_inv_def ch_ring_def)
  ultimately show ?thesis unfolding ch_contents_def by blast
qed

text \<open>A receiver parks on an unbuffered channel and a sender hands it the value 7.\<close>

lemma ch_demo_run: "\<exists>s. ch_reach 0 s \<and> cs_delivered s = [Some 7] \<and> cs_accepted s = [Some 7]"
proof -
  let ?ch = "\<lparr>ch_buffer = [], ch_capacity = 0, ch_head = 0, ch_length = 0, ch_closed = False,
    ch_senders = vl_sync_wait_queue_zero, ch_receivers = vl_sync_wait_queue_zero\<rparr>"
  let ?s0 = "\<lparr>cs_ch = ?ch, cs_rt = demo_rt, cs_accepted = [], cs_delivered = []\<rparr>"
  have s0: "ch_reach 0 ?s0" by (rule start) (simp add: vl_channel_init_def)
  obtain ch1 rt1 where r: "vl_channel_receive (TlsP 0) (Some ?ch) (Some 40) demo_rt = (Park, Some ch1, rt1)"
      "sw_head (ch_receivers ch1) = Some 1" "t_wait_output (rt_tasks rt1 1) = Some 40" "\<not> ch_closed ch1"
      "p_current (rt_ps rt1 1) = Some 2"
    by (simp add: vl_channel_receive_def vl_sync_current_def caller_of_def vl_sync_park_locked_def
        vl_sync_wait_push_def vl_sync_wait_pop_def vl_sync_wait_queue_zero_def demo_defs)
  let ?s1 = "?s0\<lparr>cs_ch := ch1, cs_rt := rt1\<rparr>"
  have s1: "ch_step ?s0 ?s1" by (rule receive_wait [of "TlsP 0" _ 40]) (simp add: r(1))
  obtain ch2 rt2 where s: "vl_channel_send (TlsP 1) (Some (cs_ch ?s1)) (Some 7) (cs_rt ?s1) = (Ret VL_OK, Some ch2, rt2)"
      "rt_out rt2 40 = Some 7"
    using r by (simp add: vl_channel_send_def vl_sync_current_def caller_of_def vl_sync_wait_pop_def Let_def
        finish_wait_def rt_simps)
  have "ch_step ?s1 (?s1\<lparr>cs_ch := ch2, cs_rt := rt2, cs_accepted := cs_accepted ?s1 @ [Some 7],
      cs_delivered := cs_delivered ?s1 @ [rt_out rt2 40]\<rparr>)"
    by (rule send_to [OF s(1)]) (use r in simp_all)
  then have "ch_reach 0 (?s1\<lparr>cs_ch := ch2, cs_rt := rt2, cs_accepted := cs_accepted ?s1 @ [Some 7],
      cs_delivered := cs_delivered ?s1 @ [rt_out rt2 40]\<rparr>)"
    using s0 s1 step by blast
  then show ?thesis by (intro exI conjI) (assumption, simp_all add: s(2))
qed

theorem channel_fifo_witness:
  "\<exists>s. ch_reach 0 s \<and> cs_delivered s = [Some 7] \<and> (\<exists>ss rs. ch_inv (cs_rt s) (cs_ch s) ss rs
    \<and> cs_accepted s = cs_delivered s @ ch_items (cs_ch s) @ map (\<lambda>t. t_wait_value (rt_tasks (cs_rt s) t)) ss)"
proof -
  obtain s where s: "ch_reach 0 s" "cs_delivered s = [Some 7]" using ch_demo_run by blast
  show ?thesis using channel_fifo [OF s(1)] s by blast
qed

end
