(* ===== verification/Timer.thy ===== *)
theory Timer
  imports Runtime_Core
begin

text \<open>
  Timers, \<^verbatim>\<open>src/time/timer.c\<close>.  A \<^verbatim>\<open>vl_timer_impl_t *\<close> is a timer id; timer \<open>i\<close> owns node \<open>i\<close> of
  \<open>rt_nodes\<close>, which is what its \<^verbatim>\<open>owner\<close> field records.  The clock reading \<open>now\<close> is an argument of
  the operations that read it, and so is the answer of \<^verbatim>\<open>realloc\<close> for the heap of the
  processor.  \<open>vl_timer_arm\<close> parks the caller; \<open>vl_timer_arm_resume\<close> is what it does after
  the caller has been resumed.
\<close>

section \<open>Operations\<close>

definition set_timer :: "nat \<Rightarrow> tid option \<Rightarrow> pid option \<Rightarrow> vl_runtime_impl \<Rightarrow> vl_runtime_impl" where
  "set_timer i task p rt = rt\<lparr>rt_timers := (rt_timers rt)(i := \<lparr>ti_task = task, ti_p = p\<rparr>)\<rparr>"

definition drop_timer_count :: "vl_runtime_impl \<Rightarrow> vl_runtime_impl" where
  "drop_timer_count rt =
     (if rt_timer_count rt \<noteq> 0 then rt\<lparr>rt_timer_count := rt_timer_count rt - 1\<rparr> else rt)"

definition set_heap :: "pid \<Rightarrow> vl_timer_heap \<times> node_store \<Rightarrow> vl_runtime_impl \<Rightarrow> vl_runtime_impl" where
  "set_heap p hn rt = upd_p (\<lambda>P. P\<lparr>p_timers := fst hn\<rparr>) p (rt\<lparr>rt_nodes := snd hn\<rparr>)"

text \<open>\<open>fresh\<close>: the new timer's address, \<open>None\<close> when \<^verbatim>\<open>calloc\<close> fails.\<close>

definition vl_timer_init ::
  "nat option \<Rightarrow> bool \<Rightarrow> nat option \<Rightarrow> vl_runtime_impl \<Rightarrow> vl_status \<times> nat option \<times> vl_runtime_impl" where
  "vl_timer_init fresh runtime_ok timer rt =
     (if timer \<noteq> None \<or> \<not> runtime_ok then (VL_ERROR_INVALID_ARGUMENT, timer, rt)
      else (case fresh of
              None \<Rightarrow> (VL_ERROR_OUT_OF_MEMORY, timer, rt)
            | Some i \<Rightarrow>
                (VL_OK, Some i,
                 set_timer i None None
                   (rt\<lparr>rt_nodes := (rt_nodes rt)(i := \<lparr>deadline_ns = 0, heap_index = 0, active = False,
                                                    owner = Some i\<rparr>)\<rparr>))))"

definition vl_timer_arm ::
  "nid option \<Rightarrow> u64 \<Rightarrow> tls \<Rightarrow> nat option \<Rightarrow> u64 \<Rightarrow> vl_runtime_impl \<Rightarrow>
   vl_status outcome \<times> vl_runtime_impl" where
  "vl_timer_arm realloc now tls timer delay_ns rt =
     (case (timer, caller_of tls rt) of
        (Some i, Some (p, task)) \<Rightarrow>
          if delay_ns > UINT64_MAX - now then (Ret VL_ERROR_INVALID_ARGUMENT, rt)
          else if active (rt_nodes rt i) \<or> ti_task (rt_timers rt i) \<noteq> None
                  \<or> task_state rt task \<noteq> VL_TASK_RUNNING \<or> \<not> t_executing (rt_tasks rt task)
          then (Ret VL_ERROR_INVALID_STATE, rt)
          else
            let rt1 = upd_task (\<lambda>t. t\<lparr>t_state := VL_TASK_SLEEPING, t_timer_result := VL_OK\<rparr>) task rt;
                rt2 = set_timer i (Some task) (Some p) rt1;
                ns2 = (rt_nodes rt2)(i := (rt_nodes rt2 i)\<lparr>deadline_ns := now + delay_ns\<rparr>)
            in (case vl_timer_heap_push realloc (p_timers (rt_ps rt2 p)) ns2 i of
                  (result, hn) \<Rightarrow>
                    (let rt3 = set_heap p hn rt2 in
                     if result = VL_OK
                     then (Park, count_park p (rt3\<lparr>rt_timer_count := rt_timer_count rt3 + 1\<rparr>))
                     else (Ret result, set_state VL_TASK_RUNNING task (set_timer i None None rt3))))
      | _ \<Rightarrow> (Ret VL_ERROR_INVALID_STATE, rt))"

definition vl_timer_arm_resume :: "nat \<Rightarrow> tid \<Rightarrow> vl_runtime_impl \<Rightarrow> vl_status \<times> vl_runtime_impl" where
  "vl_timer_arm_resume i task rt = (t_timer_result (rt_tasks rt task), set_timer i None None rt)"

definition vl_timer_cancel :: "nat option \<Rightarrow> vl_runtime_impl \<Rightarrow> vl_status \<times> vl_runtime_impl" where
  "vl_timer_cancel timer rt =
     (case timer of
        None \<Rightarrow> (VL_ERROR_INVALID_ARGUMENT, rt)
      | Some i \<Rightarrow>
          (case (ti_p (rt_timers rt i), ti_task (rt_timers rt i)) of
             (Some p, Some task) \<Rightarrow>
               if \<not> active (rt_nodes rt i) then (VL_ERROR_INVALID_STATE, rt)
               else
                 let rt1 = set_heap p (vl_timer_heap_remove (p_timers (rt_ps rt p)) (rt_nodes rt) i) rt;
                     rt2 = drop_timer_count (set_timer i None None rt1);
                     rt3 = upd_task (\<lambda>t. t\<lparr>t_timer_result := VL_ERROR_CANCELLED\<rparr>) task rt2
                 in (VL_OK, vl_runtime_wake_workers (vl_task_wake_locked task rt3))
           | _ \<Rightarrow> (VL_ERROR_INVALID_STATE, rt)))"

definition vl_timer_destroy :: "nat option \<Rightarrow> vl_runtime_impl \<Rightarrow> vl_status \<times> nat option" where
  "vl_timer_destroy timer rt =
     (case timer of
        None \<Rightarrow> (VL_ERROR_INVALID_ARGUMENT, timer)
      | Some i \<Rightarrow>
          if active (rt_nodes rt i) \<or> ti_task (rt_timers rt i) \<noteq> None
          then (VL_ERROR_INVALID_STATE, timer)
          else (VL_OK, None))"

text \<open>\<^verbatim>\<open>vl_sleep_ns\<close> arms a timer of its own and destroys it, either at once or, in \<open>vl_sleep_ns_resume\<close>, after the
  caller has slept.  Both answer the handle of the timer as the last component but one; it is \<open>None\<close> when the timer has been freed.\<close>

definition vl_sleep_ns ::
  "nat option \<Rightarrow> nid option \<Rightarrow> u64 \<Rightarrow> tls \<Rightarrow> u64 \<Rightarrow> vl_runtime_impl \<Rightarrow>
   vl_status outcome \<times> nat option \<times> vl_runtime_impl" where
  "vl_sleep_ns fresh realloc now tls delay_ns rt =
     (case tls of
        TlsP p \<Rightarrow>
          (case vl_timer_init fresh True None rt of
             (result, timer, rt1) \<Rightarrow>
               if result = VL_OK
               then (case vl_timer_arm realloc now tls timer delay_ns rt1 of
                       (Park, rt2) \<Rightarrow> (Park, timer, rt2)
                     | (Ret status, rt2) \<Rightarrow> (Ret status, snd (vl_timer_destroy timer rt2), rt2))
               else (Ret result, timer, rt1))
      | _ \<Rightarrow> (Ret VL_ERROR_INVALID_STATE, None, rt))"

definition vl_sleep_ns_resume :: "nat \<Rightarrow> tid \<Rightarrow> vl_runtime_impl \<Rightarrow> vl_status \<times> nat option \<times> vl_runtime_impl" where
  "vl_sleep_ns_resume i task rt =
     (case vl_timer_arm_resume i task rt of
        (result, rt1) \<Rightarrow> (result, snd (vl_timer_destroy (Some i) rt1), rt1))"

text \<open>One round of the expiry loop, and the loop; its fuel is the length of the heap.\<close>

definition expire_one :: "nid \<Rightarrow> vl_runtime_impl \<Rightarrow> vl_runtime_impl" where
  "expire_one node rt =
     (let i = the (owner (rt_nodes rt node));
          task = ti_task (rt_timers rt i);
          rt1 = drop_timer_count (set_timer i None None rt)
      in case task of
           None \<Rightarrow> rt1
         | Some t \<Rightarrow> vl_task_wake_locked t (upd_task (\<lambda>tk. tk\<lparr>t_timer_result := VL_OK\<rparr>) t rt1))"

fun expire_loop :: "nat \<Rightarrow> pid \<Rightarrow> u64 \<Rightarrow> vl_runtime_impl \<Rightarrow> vl_runtime_impl" where
  "expire_loop 0 p now_ns rt = rt"
| "expire_loop (Suc fuel) p now_ns rt =
     (case vl_timer_heap_peek (p_timers (rt_ps rt p)) of
        None \<Rightarrow> rt
      | Some head \<Rightarrow>
          if deadline_ns (rt_nodes rt head) \<le> now_ns then
            (case vl_timer_heap_pop (p_timers (rt_ps rt p)) (rt_nodes rt) of
               (Some node, hn) \<Rightarrow> expire_loop fuel p now_ns (expire_one node (set_heap p hn rt))
             | (None, hn) \<Rightarrow> rt)
          else rt)"

definition vl_timers_expire :: "pid option \<Rightarrow> u64 \<Rightarrow> vl_runtime_impl \<Rightarrow> vl_runtime_impl" where
  "vl_timers_expire p now_ns rt =
     (case p of
        None \<Rightarrow> rt
      | Some i \<Rightarrow> expire_loop (th_length (p_timers (rt_ps rt i))) i now_ns rt)"

definition vl_timers_timeout_ms :: "u64 \<Rightarrow> pid option \<Rightarrow> vl_runtime_impl \<Rightarrow> int" where
  "vl_timers_timeout_ms now p rt =
     (case p of
        None \<Rightarrow> -1
      | Some i \<Rightarrow>
          (case vl_timer_heap_peek (p_timers (rt_ps rt i)) of
             None \<Rightarrow> 0
           | Some node \<Rightarrow>
               if deadline_ns (rt_nodes rt node) \<le> now then 0
               else
                 let remaining = deadline_ns (rt_nodes rt node) - now in
                 if remaining div 1000000 \<ge> 2147483647 then 2147483647
                 else uint ((remaining + 999999) div 1000000)))"

section \<open>The timers of a runtime\<close>

abbreviation timers_of :: "vl_runtime_impl \<Rightarrow> pid \<Rightarrow> vl_timer_heap" where
  "timers_of rt p \<equiv> p_timers (rt_ps rt p)"

abbreviation armed :: "vl_runtime_impl \<Rightarrow> pid \<Rightarrow> nid set" where
  "armed rt p \<equiv> set (th_live (timers_of rt p))"

text \<open>
  Every heap is in order; a node is active iff some processor's heap holds it; an armed timer
  knows its processor; and the runtime's timer count is the number of armed timers.
\<close>

definition timers_ok :: "vl_runtime_impl \<Rightarrow> bool" where
  "timers_ok rt \<longleftrightarrow> (\<forall>p < rt_worker_count rt. th_inv (timers_of rt p) (rt_nodes rt))
     \<and> (\<forall>n. active (rt_nodes rt n) \<longleftrightarrow> (\<exists>p < rt_worker_count rt. n \<in> armed rt p))
     \<and> (\<forall>p < rt_worker_count rt. \<forall>n \<in> armed rt p. owner (rt_nodes rt n) = Some n \<and> ti_p (rt_timers rt n) = Some p)
     \<and> rt_timer_count rt = (\<Sum>p < rt_worker_count rt. th_length (timers_of rt p))"

lemma th_inv_cong:
  assumes "\<And>n. n \<in> set (th_live h) \<Longrightarrow> ns' n = ns n" "th_inv h ns"
  shows "th_inv h ns'"
proof -
  have wf: "th_wf h ns" using assms(2) by (simp add: th_inv_def)
  have same: "ns' (th_items h ! i) = ns (th_items h ! i)" if "i < th_length h" for i
    using assms(1) th_live_mem [OF wf that] by blast
  have "key_ord (th_key h ns') (th_length h) = key_ord (th_key h ns) (th_length h)"
    by (rule key_ord_cong) (simp add: th_key_def same)
  then show ?thesis using assms same by (auto simp: th_inv_def th_wf_def)
qed

lemma armed_unique:
  "timers_ok rt \<Longrightarrow> p < rt_worker_count rt \<Longrightarrow> q < rt_worker_count rt \<Longrightarrow>
   n \<in> armed rt p \<Longrightarrow> n \<in> armed rt q \<Longrightarrow> p = q"
  unfolding timers_ok_def by (metis option.inject)

lemma set_timer_sel [simp]:
  "rt_timers (set_timer i t p rt) = (rt_timers rt)(i := \<lparr>ti_task = t, ti_p = p\<rparr>)"
  "rt_nodes (set_timer i t p rt) = rt_nodes rt" "rt_ps (set_timer i t p rt) = rt_ps rt"
  "rt_tasks (set_timer i t p rt) = rt_tasks rt" "rt_timer_count (set_timer i t p rt) = rt_timer_count rt"
  "rt_worker_count (set_timer i t p rt) = rt_worker_count rt"
  "rt_global_runnable (set_timer i t p rt) = rt_global_runnable rt"
  by (simp_all add: set_timer_def)

lemma drop_timer_count_sel [simp]:
  "rt_timers (drop_timer_count rt) = rt_timers rt" "rt_nodes (drop_timer_count rt) = rt_nodes rt"
  "rt_ps (drop_timer_count rt) = rt_ps rt" "rt_tasks (drop_timer_count rt) = rt_tasks rt"
  "rt_timer_count (drop_timer_count rt) = rt_timer_count rt - 1"
  "rt_worker_count (drop_timer_count rt) = rt_worker_count rt"
  "rt_global_runnable (drop_timer_count rt) = rt_global_runnable rt"
  by (simp_all add: drop_timer_count_def)

lemma set_heap_sel [simp]:
  "rt_timers (set_heap p hn rt) = rt_timers rt" "rt_nodes (set_heap p hn rt) = snd hn"
  "p_timers (rt_ps (set_heap p hn rt) q) = (if q = p then fst hn else p_timers (rt_ps rt q))"
  "rt_tasks (set_heap p hn rt) = rt_tasks rt" "rt_timer_count (set_heap p hn rt) = rt_timer_count rt"
  "rt_worker_count (set_heap p hn rt) = rt_worker_count rt"
  "rt_global_runnable (set_heap p hn rt) = rt_global_runnable rt"
  by (simp_all add: set_heap_def)

lemma sum_set_heap:
  fixes n :: nat
  shows "p < n \<Longrightarrow> (\<Sum>q<n. th_length (if q = p then h else f q)) + th_length (f p)
     = (\<Sum>q<n. th_length (f q)) + th_length h"
proof -
  assume "p < n"
  then have fin: "finite {..<n}" "p \<in> {..<n}" by simp_all
  have "(\<Sum>q \<in> {..<n} - {p}. th_length (if q = p then h else f q)) = (\<Sum>q \<in> {..<n} - {p}. th_length (f q))"
    by (rule sum.cong) auto
  then show ?thesis
    using sum.remove [OF fin, of "\<lambda>q. th_length (if q = p then h else f q)"]
      sum.remove [OF fin, of "\<lambda>q. th_length (f q)"] by simp
qed

text \<open>Taking node \<open>i\<close> out of the heap of \<open>p\<close>, the common core of expiry and cancellation.\<close>

lemma timers_ok_taken:
  assumes ok: "timers_ok rt" and p: "p < rt_worker_count rt" and i: "i \<in> armed rt p"
    and taken: "th_taken (timers_of rt p) (rt_nodes rt) i h' ns'"
    and ps: "\<And>q. timers_of rt' q = (if q = p then h' else timers_of rt q)"
    and rest: "rt_nodes rt' = ns'" "rt_worker_count rt' = rt_worker_count rt"
      "rt_timers rt' = (rt_timers rt)(i := ti)" "rt_timer_count rt' = rt_timer_count rt - 1"
  shows "timers_ok rt'" "armed rt' p = armed rt p - {i}" "th_length (timers_of rt' p) = th_length (timers_of rt p) - 1"
    "deadline_ns (rt_nodes rt' n) = deadline_ns (rt_nodes rt n)" "owner (rt_nodes rt' n) = owner (rt_nodes rt n)"
proof -
  let ?h = "timers_of rt p"
  have inv: "th_inv ?h (rt_nodes rt)" using ok p by (simp add: timers_ok_def)
  have t: "th_inv h' ns'" "mset (th_live h') = mset (th_live ?h) - {#i#}"
    "ns_frame (set (th_live ?h)) (rt_nodes rt) ns'" "\<And>n. active (ns' n) \<longleftrightarrow> n \<noteq> i \<and> active (rt_nodes rt n)"
    using taken by (simp_all add: th_taken_def)
  have dist: "distinct (th_live ?h)" using inv th_live_distinct by (auto simp: th_inv_def)
  have live: "set (th_live h') = set (th_live ?h) - {i}"
    using t(2) dist by (metis mset_remove1 set_mset_mset set_remove1_eq)
  have len: "th_length h' = th_length ?h - 1"
  proof -
    have "length (th_live h') = length (th_live ?h) - 1"
      using t(2) i by (metis size_mset size_Diff_singleton set_mset_mset)
    moreover have "th_wf h' ns'" "th_wf ?h (rt_nodes rt)" using inv t(1) by (simp_all add: th_inv_def)
    ultimately show ?thesis by (metis th_live_length)
  qed
  have pos: "0 < th_length ?h" using i by (cases "th_length ?h") (auto simp: th_live_def)
  show armed: "armed rt' p = armed rt p - {i}" and "th_length (timers_of rt' p) = th_length ?h - 1"
    using ps live len by simp_all
  show dl: "deadline_ns (rt_nodes rt' n) = deadline_ns (rt_nodes rt n)"
    and ow: "owner (rt_nodes rt' n) = owner (rt_nodes rt n)" for n
    using t(3) rest(1) by (simp_all add: ns_frame_def)
  have notq: "i \<notin> armed rt q" if "q < rt_worker_count rt" "q \<noteq> p" for q
    using armed_unique [OF ok p that(1) i] that(2) by blast
  have "th_inv (timers_of rt' q) (rt_nodes rt')" if "q < rt_worker_count rt" for q
  proof (cases "q = p")
    case True
    then show ?thesis using ps t(1) rest(1) by simp
  next
    case False
    have "ns' n = rt_nodes rt n" if "n \<in> armed rt q" for n
      using that armed_unique [OF ok p \<open>q < rt_worker_count rt\<close>, of n] False t(3) by (auto simp: ns_frame_def)
    then show ?thesis
      using th_inv_cong [of "timers_of rt q" ns' "rt_nodes rt"] ok that False ps rest(1)
      by (simp add: timers_ok_def)
  qed
  moreover have "active (rt_nodes rt' n) \<longleftrightarrow> (\<exists>q < rt_worker_count rt. n \<in> armed rt' q)" for n
  proof -
    have "armed rt' q = (if q = p then armed rt p - {i} else armed rt q)" for q using ps live by simp
    then have "(\<exists>q < rt_worker_count rt. n \<in> armed rt' q) \<longleftrightarrow> n \<noteq> i \<and> (\<exists>q < rt_worker_count rt. n \<in> armed rt q)"
      using notq p by (metis DiffD1 DiffD2 DiffI empty_iff insert_iff)
    then show ?thesis using ok t(4) rest(1) by (simp add: timers_ok_def)
  qed
  moreover have "owner (rt_nodes rt' n) = Some n \<and> ti_p (rt_timers rt' n) = Some q"
    if "q < rt_worker_count rt" "n \<in> armed rt' q" for n q
  proof -
    have "n \<in> armed rt q" "n \<noteq> i" using that ps live notq by (auto split: if_splits)
    then show ?thesis using ok that(1) ow rest(3) by (simp add: timers_ok_def)
  qed
  moreover have "rt_timer_count rt' = (\<Sum>q < rt_worker_count rt. th_length (timers_of rt' q))"
    using sum_set_heap [OF p, of h' "timers_of rt"] ok rest(4) ps len pos by (simp add: timers_ok_def)
  ultimately show "timers_ok rt'" using rest(2) unfolding timers_ok_def by simp
qed

section \<open>Expiry\<close>

lemma expire_one_sel [simp]:
  "rt_nodes (expire_one n rt) = rt_nodes rt" "rt_ps (expire_one n rt) = rt_ps rt"
  "rt_worker_count (expire_one n rt) = rt_worker_count rt"
  "rt_timer_count (expire_one n rt) = rt_timer_count rt - 1"
  "rt_timers (expire_one n rt) = (rt_timers rt)(the (owner (rt_nodes rt n)) := \<lparr>ti_task = None, ti_p = None\<rparr>)"
  by (simp_all add: expire_one_def Let_def rt_simps split: option.split)

lemma expire_one_task:
  assumes "ti_task (rt_timers rt (the (owner (rt_nodes rt n)))) = task"
  shows "task = Some t \<Longrightarrow> parked rt t \<Longrightarrow> released (expire_one n rt) t \<and> t_timer_result (rt_tasks (expire_one n rt) t) = VL_OK"
    and "task \<noteq> Some x \<Longrightarrow> task_state (expire_one n rt) x = task_state rt x
      \<and> t_timer_result (rt_tasks (expire_one n rt) x) = t_timer_result (rt_tasks rt x)"
    and "released rt x \<Longrightarrow> released (expire_one n rt) x"
    and "t_timer_result (rt_tasks rt x) = VL_OK \<Longrightarrow> t_timer_result (rt_tasks (expire_one n rt) x) = VL_OK"
    and "t_executing (rt_tasks (expire_one n rt) x) = t_executing (rt_tasks rt x)"
proof -
  let ?rt1 = "\<lambda>t. upd_task (\<lambda>tk. tk\<lparr>t_timer_result := VL_OK\<rparr>) t
    (drop_timer_count (set_timer (the (owner (rt_nodes rt n))) None None rt))"
  have eq: "expire_one n rt = (case task of None \<Rightarrow> drop_timer_count (set_timer (the (owner (rt_nodes rt n))) None None rt)
      | Some t \<Rightarrow> vl_task_wake_locked t (?rt1 t))"
    using assms by (simp add: expire_one_def Let_def)
  have rel: "released (?rt1 t) x = released rt x" for t x by (simp add: released_def)
  show "released (expire_one n rt) t \<and> t_timer_result (rt_tasks (expire_one n rt) t) = VL_OK"
    if "task = Some t" "parked rt t"
    using wake_released [of "?rt1 t" t] that by (simp add: eq rt_simps)
  show "task_state (expire_one n rt) x = task_state rt x
      \<and> t_timer_result (rt_tasks (expire_one n rt) x) = t_timer_result (rt_tasks rt x)" if "task \<noteq> Some x"
    using that by (auto simp: eq rt_simps wake_state split: option.split)
  show "released (expire_one n rt) x" if "released rt x"
    using that wake_released_other [of "?rt1 t" x t for t] rel
    by (simp add: eq released_def split: option.split)
  show "t_timer_result (rt_tasks (expire_one n rt) x) = VL_OK" if "t_timer_result (rt_tasks rt x) = VL_OK"
    using that by (auto simp: eq rt_simps split: option.split)
  show "t_executing (rt_tasks (expire_one n rt) x) = t_executing (rt_tasks rt x)"
    by (auto simp: eq rt_simps split: option.split)
qed

lemma expire_step:
  assumes ok: "timers_ok rt" and p: "p < rt_worker_count rt"
    and pop: "vl_timer_heap_pop (timers_of rt p) (rt_nodes rt) = (Some n, hn)"
    and rt1: "rt1 = expire_one n (set_heap p hn rt)"
  shows "timers_ok rt1" "n \<in> armed rt p" "armed rt1 p = armed rt p - {n}"
    "th_length (timers_of rt1 p) = th_length (timers_of rt p) - 1"
    "deadline_ns (rt_nodes rt1 m) = deadline_ns (rt_nodes rt m)" "rt_worker_count rt1 = rt_worker_count rt"
    "rt_timers rt1 = (rt_timers rt)(n := \<lparr>ti_task = None, ti_p = None\<rparr>)"
    "the (owner (rt_nodes (set_heap p hn rt) n)) = n"
proof -
  obtain h' ns' where hn: "hn = (h', ns')" by (cases hn)
  have inv: "th_inv (timers_of rt p) (rt_nodes rt)" using ok p by (simp add: timers_ok_def)
  note hp = heap_pop [OF inv pop [unfolded hn]]
  show mem: "n \<in> armed rt p" by (fact hp(2))
  have "owner (ns' n) = Some n"
    using hp(1) ok p mem by (simp add: th_taken_def ns_frame_def timers_ok_def)
  then show own: "the (owner (rt_nodes (set_heap p hn rt) n)) = n" by (simp add: hn)
  show tm: "rt_timers rt1 = (rt_timers rt)(n := \<lparr>ti_task = None, ti_p = None\<rparr>)"
    and wc: "rt_worker_count rt1 = rt_worker_count rt"
    using own by (simp_all add: rt1)
  note tk = timers_ok_taken [OF ok p mem hp(1), of rt1]
  show "timers_ok rt1" "armed rt1 p = armed rt p - {n}"
    "th_length (timers_of rt1 p) = th_length (timers_of rt p) - 1"
    "deadline_ns (rt_nodes rt1 m) = deadline_ns (rt_nodes rt m)"
    by (rule tk; use tm wc in \<open>simp add: rt1 hn\<close>)+
qed

definition due :: "vl_runtime_impl \<Rightarrow> pid \<Rightarrow> u64 \<Rightarrow> nid set" where
  "due rt p now = {n \<in> armed rt p. deadline_ns (rt_nodes rt n) \<le> now}"

definition expiry_ok :: "vl_runtime_impl \<Rightarrow> pid \<Rightarrow> u64 \<Rightarrow> vl_runtime_impl \<Rightarrow> bool" where
  "expiry_ok rt p now rt' \<longleftrightarrow> timers_ok rt' \<and> armed rt' p = armed rt p - due rt p now
     \<and> (\<forall>n. deadline_ns (rt_nodes rt' n) = deadline_ns (rt_nodes rt n))
     \<and> (\<forall>x. released rt x \<longrightarrow> released rt' x)
     \<and> (\<forall>x. t_timer_result (rt_tasks rt x) = VL_OK \<longrightarrow> t_timer_result (rt_tasks rt' x) = VL_OK)
     \<and> (\<forall>n \<in> due rt p now. \<forall>t. ti_task (rt_timers rt n) = Some t \<and> parked rt t \<longrightarrow>
           released rt' t \<and> t_timer_result (rt_tasks rt' t) = VL_OK)
     \<and> (\<forall>x. (\<forall>n \<in> due rt p now. ti_task (rt_timers rt n) \<noteq> Some x) \<longrightarrow>
           task_state rt' x = task_state rt x \<and> t_timer_result (rt_tasks rt' x) = t_timer_result (rt_tasks rt x))"

lemma expiry_ok_none: "timers_ok rt \<Longrightarrow> due rt p now = {} \<Longrightarrow> expiry_ok rt p now rt"
  by (simp add: expiry_ok_def)

lemma expiry_ok_step:
  assumes ok: "timers_ok rt" and p: "p < rt_worker_count rt"
    and pop: "vl_timer_heap_pop (timers_of rt p) (rt_nodes rt) = (Some n, hn)"
    and now: "deadline_ns (rt_nodes rt n) \<le> now"
    and rt1: "rt1 = expire_one n (set_heap p hn rt)" and rest: "expiry_ok rt1 p now rt'"
  shows "expiry_ok rt p now rt'"
proof -
  note st = expire_step [OF ok p pop rt1]
  let ?rt0 = "set_heap p hn rt"
  have due1: "due rt1 p now = due rt p now - {n}" using st(3,5) by (auto simp: due_def)
  have mem: "n \<in> due rt p now" using st(2) now by (simp add: due_def)
  have ti: "ti_task (rt_timers ?rt0 (the (owner (rt_nodes ?rt0 n)))) = ti_task (rt_timers rt n)"
    using st(8) by simp
  note one = expire_one_task [OF ti]
  have same: "task_state rt1 x = task_state rt x \<and> t_timer_result (rt_tasks rt1 x) = t_timer_result (rt_tasks rt x)"
    if "ti_task (rt_timers rt n) \<noteq> Some x" for x using one(2) [OF that] by (simp add: rt1)
  have rel: "released rt1 x" if "released rt x" for x using one(3) [of x] that by (simp add: rt1 released_def)
  have res: "t_timer_result (rt_tasks rt1 x) = VL_OK" if "t_timer_result (rt_tasks rt x) = VL_OK" for x
    using one(4) [of x] that by (simp add: rt1)
  have mine: "released rt1 t \<and> t_timer_result (rt_tasks rt1 t) = VL_OK"
    if "ti_task (rt_timers rt n) = Some t" "parked rt t" for t using one(1) [OF that(1)] that(2) by (simp add: rt1)
  have "released rt' t \<and> t_timer_result (rt_tasks rt' t) = VL_OK"
    if "m \<in> due rt p now" "ti_task (rt_timers rt m) = Some t" "parked rt t" for m t
  proof (cases "ti_task (rt_timers rt n) = Some t")
    case True
    then show ?thesis using mine that(3) rest by (auto simp: expiry_ok_def)
  next
    case False
    then have "m \<in> due rt1 p now" "ti_task (rt_timers rt1 m) = Some t" "parked rt1 t"
      using that due1 st(7) same [of t] by auto
    then show ?thesis using rest by (auto simp: expiry_ok_def)
  qed
  moreover have "task_state rt' x = task_state rt x \<and> t_timer_result (rt_tasks rt' x) = t_timer_result (rt_tasks rt x)"
    if "\<forall>m \<in> due rt p now. ti_task (rt_timers rt m) \<noteq> Some x" for x
  proof -
    have "\<forall>m \<in> due rt1 p now. ti_task (rt_timers rt1 m) \<noteq> Some x" using that due1 st(7) by simp
    then show ?thesis using rest same [of x] that mem by (simp add: expiry_ok_def)
  qed
  moreover have "armed rt' p = armed rt p - due rt p now" using rest st(3) due1 mem by (auto simp: expiry_ok_def)
  ultimately show ?thesis using rest rel res st(5) by (simp add: expiry_ok_def)
qed

lemma expire_loop_ok:
  assumes "timers_ok rt" "p < rt_worker_count rt" "th_length (timers_of rt p) \<le> k"
  shows "expiry_ok rt p now (expire_loop k p now rt)"
  using assms
proof (induction k arbitrary: rt)
  case 0
  then have "due rt p now = {}" by (simp add: due_def th_live_def)
  then show ?case using expiry_ok_none [OF 0(1)] by simp
next
  case (Suc k)
  let ?h = "timers_of rt p"
  have inv: "th_inv ?h (rt_nodes rt)" using Suc.prems by (simp add: timers_ok_def)
  show ?case
  proof (cases "vl_timer_heap_peek ?h")
    case None
    then have "due rt p now = {}"
      by (simp add: due_def th_live_def vl_timer_heap_peek_def split: if_splits)
    then show ?thesis using expiry_ok_none [OF Suc.prems(1)] None by simp
  next
    case (Some n)
    obtain h' ns' where pop: "vl_timer_heap_pop ?h (rt_nodes rt) = (Some n, h', ns')"
      using th_inv_peek [OF inv Some] by blast
    show ?thesis
    proof (cases "deadline_ns (rt_nodes rt n) \<le> now")
      case False
      have "\<not> deadline_ns (rt_nodes rt m) \<le> now" if "m \<in> armed rt p" for m
        using heap_pop(3) [OF inv pop that] False by (meson order_trans)
      then have "due rt p now = {}" by (auto simp: due_def)
      then show ?thesis using expiry_ok_none [OF Suc.prems(1)] Some False by simp
    next
      case True
      let ?rt1 = "expire_one n (set_heap p (h', ns') rt)"
      note st = expire_step [OF Suc.prems(1,2) pop refl]
      have "expiry_ok ?rt1 p now (expire_loop k p now ?rt1)"
        by (rule Suc.IH) (use st(1,4,6) Suc.prems(2,3) in simp_all)
      then show ?thesis
        using expiry_ok_step [OF Suc.prems(1,2) pop True refl] Some pop True by simp
    qed
  qed
qed

section \<open>Arming and cancelling\<close>

text \<open>Adding node \<open>i\<close> to the heap of \<open>p\<close>, from a node store \<open>ns\<close> that differs at most at \<open>i\<close>.\<close>

lemma timers_ok_added:
  assumes ok: "timers_ok rt" and p: "p < rt_worker_count rt" and own: "owner (ns i) = Some i"
    and off: "\<not> active (rt_nodes rt i)" and ns: "\<And>n. n \<noteq> i \<Longrightarrow> ns n = rt_nodes rt n"
    and h': "th_inv h' ns'" "mset (th_live h') = add_mset i (mset (th_live (timers_of rt p)))"
      "ns_frame (insert i (armed rt p)) ns ns'" "\<And>n. active (ns' n) \<longleftrightarrow> n = i \<or> active (ns n)"
    and heaps: "\<And>q. timers_of rt' q = (if q = p then h' else timers_of rt q)"
    and rest: "rt_nodes rt' = ns'" "rt_worker_count rt' = rt_worker_count rt"
      "rt_timers rt' = (rt_timers rt)(i := \<lparr>ti_task = task, ti_p = Some p\<rparr>)"
      "rt_timer_count rt' = rt_timer_count rt + 1"
  shows "timers_ok rt'" "armed rt' p = insert i (armed rt p)" "i \<notin> armed rt p"
proof -
  have notin: "i \<notin> armed rt q" if "q < rt_worker_count rt" for q
    using ok off that by (auto simp: timers_ok_def)
  have inv: "th_inv (timers_of rt q) ns" if "q < rt_worker_count rt" for q
  proof (rule th_inv_cong [of _ ns "rt_nodes rt"])
    show "ns n = rt_nodes rt n" if "n \<in> armed rt q" for n using ns notin that \<open>q < rt_worker_count rt\<close> by metis
    show "th_inv (timers_of rt q) (rt_nodes rt)" using ok that by (simp add: timers_ok_def)
  qed
  have live: "set (th_live h') = insert i (armed rt p)" using h'(2) by (metis set_mset_add_mset_insert set_mset_mset)
  have armed: "armed rt' q = (if q = p then insert i (armed rt p) else armed rt q)" for q using heaps live by simp
  show "armed rt' p = insert i (armed rt p)" "i \<notin> armed rt p" using armed notin [OF p] by simp_all
  have "th_inv (timers_of rt' q) ns'" if q: "q < rt_worker_count rt" for q
  proof (cases "q = p")
    case True
    then show ?thesis using h'(1) heaps by simp
  next
    case False
    have "ns' n = ns n" if "n \<in> armed rt q" for n
    proof -
      have "n \<noteq> i" "n \<notin> armed rt p" using that notin [OF q] armed_unique [OF ok p q, of n] False by auto
      then show ?thesis using h'(3) by (simp add: ns_frame_def)
    qed
    then show ?thesis using th_inv_cong [of "timers_of rt q" ns' ns] inv [OF q] heaps False by simp
  qed
  moreover have "active (ns' n) \<longleftrightarrow> (\<exists>q < rt_worker_count rt. n \<in> armed rt' q)" for n
  proof -
    have "(\<exists>q < rt_worker_count rt. n \<in> armed rt' q) \<longleftrightarrow> n = i \<or> (\<exists>q < rt_worker_count rt. n \<in> armed rt q)"
      using p armed by (metis insert_iff)
    then show ?thesis using ok h'(4) [of n] ns [of n] by (auto simp: timers_ok_def)
  qed
  moreover have "owner (ns' n) = Some n \<and> ti_p (rt_timers rt' n) = Some q"
    if "q < rt_worker_count rt" "n \<in> armed rt' q" for n q
  proof (cases "n = i")
    case True
    then show ?thesis using that armed [of q] notin [OF that(1)] own h'(3) rest(3)
      by (simp add: ns_frame_def split: if_splits)
  next
    case False
    then have "n \<in> armed rt q" using that(2) armed [of q] by (auto split: if_splits)
    then show ?thesis using ok that(1) False ns [OF False] h'(3) rest(3) by (simp add: timers_ok_def ns_frame_def)
  qed
  moreover have "rt_timer_count rt' = (\<Sum>q < rt_worker_count rt. th_length (timers_of rt' q))"
  proof -
    have "length (th_live h') = length (th_live (timers_of rt p)) + 1"
      using h'(2) by (metis size_mset size_add_mset Suc_eq_plus1)
    moreover have "th_wf h' ns'" "th_wf (timers_of rt p) ns" using h'(1) inv [OF p] by (simp_all add: th_inv_def)
    ultimately have "th_length h' = th_length (timers_of rt p) + 1" by (metis th_live_length)
    then show ?thesis
      using sum_set_heap [OF p, of h' "timers_of rt"] ok heaps rest(4) by (simp add: timers_ok_def)
  qed
  ultimately show "timers_ok rt'" using rest unfolding timers_ok_def by simp
qed

lemma deadline_fits:
  assumes "\<not> delay_ns > UINT64_MAX - (now :: u64)"
  shows "uint (now + delay_ns) = uint now + uint delay_ns"
proof -
  have "uint (UINT64_MAX - now) = 2 ^ 64 - 1 - uint now" by (rule usize_uint_max_sub)
  then show ?thesis using assms by (simp add: word_less_def uint_add_lem [THEN iffD1])
qed

lemma arm_park:
  assumes ok: "timers_ok rt" and p: "p < rt_worker_count rt" and own: "owner (rt_nodes rt i) = Some i"
    and arm: "vl_timer_arm realloc now (TlsP p) (Some i) delay_ns rt = (Park, rt')"
  obtains t where "p_current (rt_ps rt p) = Some t" "task_state rt t = VL_TASK_RUNNING"
    "timers_ok rt'" "armed rt' p = insert i (armed rt p)" "i \<notin> armed rt p"
    "uint (deadline_ns (rt_nodes rt' i)) = uint now + uint delay_ns"
    "ti_task (rt_timers rt' i) = Some t" "task_state rt' t = VL_TASK_SLEEPING"
    "\<forall>x. x \<noteq> t \<longrightarrow> rt_tasks rt' x = rt_tasks rt x"
proof -
  obtain t where cur: "p_current (rt_ps rt p) = Some t"
    using arm by (auto simp: vl_timer_arm_def caller_of_def split: option.splits)
  have guards: "\<not> delay_ns > UINT64_MAX - now" "\<not> active (rt_nodes rt i)" "task_state rt t = VL_TASK_RUNNING"
    using arm cur by (auto simp: vl_timer_arm_def caller_of_def split: if_splits)
  let ?rt2 = "set_timer i (Some t) (Some p) (upd_task (\<lambda>t. t\<lparr>t_state := VL_TASK_SLEEPING, t_timer_result := VL_OK\<rparr>) t rt)"
  let ?ns = "(rt_nodes rt)(i := (rt_nodes rt i)\<lparr>deadline_ns := now + delay_ns\<rparr>)"
  obtain st h' ns' where push: "vl_timer_heap_push realloc (timers_of rt p) ?ns i = (st, h', ns')"
    by (cases "vl_timer_heap_push realloc (timers_of rt p) ?ns i") auto
  have st: "st = VL_OK" and rt': "rt' = count_park p ((set_heap p (h', ns') ?rt2)\<lparr>rt_timer_count := rt_timer_count rt + 1\<rparr>)"
    using arm cur guards push by (auto simp: vl_timer_arm_def caller_of_def Let_def split: if_splits)
  have "i \<notin> armed rt p" using ok guards(2) p by (auto simp: timers_ok_def)
  then have "th_inv (timers_of rt p) ?ns"
    using ok p by (intro th_inv_cong [of _ ?ns "rt_nodes rt"]) (auto simp: timers_ok_def)
  then have pu: "th_inv h' ns' \<and> mset (th_live h') = add_mset i (mset (th_live (timers_of rt p)))
      \<and> ns_frame (insert i (armed rt p)) ?ns ns' \<and> (\<forall>n. active (ns' n) \<longleftrightarrow> n = i \<or> active (?ns n))"
    using heap_push(1) [OF _ _ push] guards(2) st by simp
  note added = timers_ok_added [OF ok p, of ?ns i h' ns' rt' "Some t"]
  have "timers_ok rt'" "armed rt' p = insert i (armed rt p)"
    by (rule added; use own guards(2) pu in \<open>simp add: rt'\<close>)+
  moreover have "deadline_ns (ns' i) = now + delay_ns" using pu by (simp add: ns_frame_def)
  ultimately show ?thesis
    using that [OF cur guards(3)] deadline_fits [OF guards(1)] \<open>i \<notin> armed rt p\<close> by (simp add: rt')
qed

lemma cancel_ok:
  assumes ok: "timers_ok rt" and can: "vl_timer_cancel (Some i) rt = (VL_OK, rt')"
    and p: "ti_p (rt_timers rt i) = Some p"
  obtains t where "ti_task (rt_timers rt i) = Some t" "p < rt_worker_count rt" "i \<in> armed rt p"
    "timers_ok rt'" "armed rt' p = armed rt p - {i}" "ti_task (rt_timers rt' i) = None"
    "t_timer_result (rt_tasks rt' t) = VL_ERROR_CANCELLED" "parked rt t \<Longrightarrow> released rt' t"
    "\<And>x. x \<noteq> t \<Longrightarrow> task_state rt' x = task_state rt x"
proof -
  obtain t where t: "ti_task (rt_timers rt i) = Some t" and act: "active (rt_nodes rt i)"
    using can p by (auto simp: vl_timer_cancel_def split: option.splits if_splits)
  then obtain q where q: "q < rt_worker_count rt" "i \<in> armed rt q" using ok by (auto simp: timers_ok_def)
  then have "q = p" using ok p by (auto simp: timers_ok_def)
  with q have pw: "p < rt_worker_count rt" and mem: "i \<in> armed rt p" by simp_all
  obtain h' ns' where rem: "vl_timer_heap_remove (timers_of rt p) (rt_nodes rt) i = (h', ns')"
    by (cases "vl_timer_heap_remove (timers_of rt p) (rt_nodes rt) i")
  let ?rt3 = "upd_task (\<lambda>t. t\<lparr>t_timer_result := VL_ERROR_CANCELLED\<rparr>) t
    (drop_timer_count (set_timer i None None (set_heap p (h', ns') rt)))"
  have rt': "rt' = vl_runtime_wake_workers (vl_task_wake_locked t ?rt3)"
    using can p t act rem by (simp add: vl_timer_cancel_def Let_def)
  have inv: "th_inv (timers_of rt p) (rt_nodes rt)" using ok pw by (simp add: timers_ok_def)
  note tk = timers_ok_taken [OF ok pw mem heap_remove [OF inv mem rem], of rt']
  have "timers_ok rt'" "armed rt' p = armed rt p - {i}"
    by (rule tk; simp add: rt' rt_simps)+
  moreover have "released rt' t" if "parked rt t"
    using wake_released [of ?rt3 t] that by (simp add: rt' released_def)
  ultimately show ?thesis
    using that [OF t pw mem] by (simp add: rt' rt_simps wake_state)
qed

lemma arm_ret:
  assumes ok: "timers_ok rt" and p: "p < rt_worker_count rt"
    and arm: "vl_timer_arm realloc now (TlsP p) (Some i) delay_ns rt = (Ret e, rt')"
  shows "e \<noteq> VL_OK" "timers_of rt' q = timers_of rt q" "task_state rt' x = task_state rt x"
    "rt_timer_count rt' = rt_timer_count rt"
proof -
  have "e \<noteq> VL_OK \<and> (\<forall>q. timers_of rt' q = timers_of rt q) \<and> (\<forall>x. task_state rt' x = task_state rt x)
      \<and> rt_timer_count rt' = rt_timer_count rt"
  proof (cases "p_current (rt_ps rt p)")
    case None
    then show ?thesis using arm by (simp add: vl_timer_arm_def caller_of_def)
  next
    case (Some t)
    show ?thesis
    proof (cases "delay_ns > UINT64_MAX - now \<or> active (rt_nodes rt i) \<or> ti_task (rt_timers rt i) \<noteq> None
        \<or> task_state rt t \<noteq> VL_TASK_RUNNING \<or> \<not> t_executing (rt_tasks rt t)")
      case True
      then show ?thesis using arm Some by (auto simp: vl_timer_arm_def caller_of_def split: if_splits)
    next
      case False
      let ?ns = "(rt_nodes rt)(i := (rt_nodes rt i)\<lparr>deadline_ns := now + delay_ns\<rparr>)"
      obtain st h' ns' where push: "vl_timer_heap_push realloc (timers_of rt p) ?ns i = (st, h', ns')"
        by (cases "vl_timer_heap_push realloc (timers_of rt p) ?ns i") auto
      have "i \<notin> armed rt p" using ok False p by (auto simp: timers_ok_def)
      then have inv: "th_inv (timers_of rt p) ?ns"
        using ok p by (intro th_inv_cong [of _ ?ns "rt_nodes rt"]) (auto simp: timers_ok_def)
      have st: "st \<noteq> VL_OK" "e = st"
        using arm Some False push by (auto simp: vl_timer_arm_def caller_of_def Let_def split: if_splits)
      then have "h' = timers_of rt p" using heap_push(2) [OF inv _ push] False by simp
      then show ?thesis
        using arm Some False push st by (auto simp: vl_timer_arm_def caller_of_def Let_def split: if_splits)
    qed
  qed
  then show "e \<noteq> VL_OK" "timers_of rt' q = timers_of rt q" "task_state rt' x = task_state rt x"
    "rt_timer_count rt' = rt_timer_count rt" by simp_all
qed

section \<open>Properties\<close>

text \<open>The small runtime with timer 9 initialised.\<close>

definition demo_timer_rt :: vl_runtime_impl where
  "demo_timer_rt = snd (snd (vl_timer_init (Some 9) True None demo_rt))"

lemmas demo_timer_defs = demo_timer_rt_def vl_timer_init_def set_timer_def demo_defs

lemma th_inv_zero: "th_inv vl_timer_heap_zero ns"
  by (simp add: th_inv_def th_wf_def key_ord_def th_live_def vl_timer_heap_zero_def)

lemma demo_timers_ok: "timers_ok demo_timer_rt"
proof -
  have "timers_of demo_timer_rt p = vl_timer_heap_zero" for p by (simp add: demo_timer_defs)
  moreover have "\<not> active (rt_nodes demo_timer_rt n)" for n by (simp add: demo_timer_defs)
  moreover have "rt_timer_count demo_timer_rt = 0" by (simp add: demo_timer_defs)
  ultimately show ?thesis
    by (simp add: timers_ok_def th_inv_zero) (simp add: th_live_def vl_timer_heap_zero_def)
qed

text \<open>C12: Arming an initialised timer from a task of processor \<open>p\<close> either parks the task, and then exactly this
  timer has been added to the heap of \<open>p\<close> with deadline \<open>now + delay\<close> computed without wrap-around, the
  task sleeps and all timer invariants hold; or it returns an error and then no heap, no task state
  and no count has changed.\<close>

theorem timer_arm_exact:
  assumes "timers_ok rt" "p < rt_worker_count rt" "owner (rt_nodes rt i) = Some i"
    "vl_timer_arm realloc now (TlsP p) (Some i) delay_ns rt = (res, rt')"
  shows "(res = Park \<longrightarrow> timers_ok rt' \<and> armed rt' p = insert i (armed rt p) \<and> i \<notin> armed rt p
      \<and> uint (deadline_ns (rt_nodes rt' i)) = uint now + uint delay_ns
      \<and> (\<exists>t. p_current (rt_ps rt p) = Some t \<and> task_state rt' t = VL_TASK_SLEEPING
           \<and> ti_task (rt_timers rt' i) = Some t \<and> (\<forall>x. x \<noteq> t \<longrightarrow> rt_tasks rt' x = rt_tasks rt x)))
    \<and> (\<forall>e. res = Ret e \<longrightarrow> e \<noteq> VL_OK \<and> (\<forall>q. timers_of rt' q = timers_of rt q)
      \<and> (\<forall>x. task_state rt' x = task_state rt x) \<and> rt_timer_count rt' = rt_timer_count rt)"
proof (cases res)
  case Park
  from arm_park [OF assms(1-3) assms(4) [unfolded Park]]
  obtain t where "p_current (rt_ps rt p) = Some t" "task_state rt t = VL_TASK_RUNNING"
    "timers_ok rt'" "armed rt' p = insert i (armed rt p)" "i \<notin> armed rt p"
    "uint (deadline_ns (rt_nodes rt' i)) = uint now + uint delay_ns"
    "ti_task (rt_timers rt' i) = Some t" "task_state rt' t = VL_TASK_SLEEPING"
    "\<forall>x. x \<noteq> t \<longrightarrow> rt_tasks rt' x = rt_tasks rt x" .
  then show ?thesis using Park by auto
next
  case (Ret e)
  then show ?thesis using arm_ret [OF assms(1,2) assms(4) [unfolded Ret]] by auto
qed

theorem timer_arm_exact_witness:
  "\<exists>rt'. vl_timer_arm (Some 0) 100 (TlsP 0) (Some 9) 10 demo_timer_rt = (Park, rt')
     \<and> armed rt' 0 = {9} \<and> uint (deadline_ns (rt_nodes rt' 9)) = 110 \<and> task_state rt' 1 = VL_TASK_SLEEPING"
proof -
  obtain rt' where arm: "vl_timer_arm (Some 0) 100 (TlsP 0) (Some 9) 10 demo_timer_rt = (Park, rt')"
    by (simp add: vl_timer_arm_def caller_of_def demo_timer_defs vl_timer_heap_push_def th_next_capacity_def
        th_append_def th_grow_def vl_timer_heap_zero_def th_up_stop Let_def)
  have facts: "0 < rt_worker_count demo_timer_rt" "owner (rt_nodes demo_timer_rt 9) = Some 9"
    "armed demo_timer_rt 0 = {}" "p_current (rt_ps demo_timer_rt 0) = Some 1"
    by (simp_all add: demo_timer_defs th_live_def vl_timer_heap_zero_def)
  show ?thesis
    using timer_arm_exact [OF demo_timers_ok facts(1,2) arm] arm facts(3,4) by simp
qed

text \<open>C13: Expiry at time \<open>now\<close> takes exactly the timers of this processor whose deadline has passed out of
  its heap and keeps all timer invariants; every task sleeping on one of them is released with result
  OK, and every task that is not keeps its state and its result.  The loop always finishes.\<close>

theorem timers_expire_exact:
  assumes "timers_ok rt" "p < rt_worker_count rt"
  shows "expiry_ok rt p now (vl_timers_expire (Some p) now rt)"
  using expire_loop_ok [OF assms order_refl] by (simp add: vl_timers_expire_def)

theorem timers_expire_exact_witness:
  "\<exists>rt'. vl_timer_arm (Some 0) 100 (TlsP 0) (Some 9) 10 demo_timer_rt = (Park, rt')
     \<and> expiry_ok rt' 0 110 (vl_timers_expire (Some 0) 110 rt') \<and> due rt' 0 110 = {9}"
proof -
  obtain rt' where arm: "vl_timer_arm (Some 0) 100 (TlsP 0) (Some 9) 10 demo_timer_rt = (Park, rt')"
      and wc: "0 < rt_worker_count rt'"
    by (simp add: vl_timer_arm_def caller_of_def demo_timer_defs vl_timer_heap_push_def th_next_capacity_def
        th_append_def th_grow_def vl_timer_heap_zero_def th_up_stop Let_def)
  have facts: "0 < rt_worker_count demo_timer_rt" "owner (rt_nodes demo_timer_rt 9) = Some 9"
    "armed demo_timer_rt 0 = {}"
    by (simp_all add: demo_timer_defs th_live_def vl_timer_heap_zero_def)
  have ok: "timers_ok rt'" and armed: "armed rt' 0 = {9}"
    and dl: "uint (deadline_ns (rt_nodes rt' 9)) = 110"
    by (rule arm_park [OF demo_timers_ok facts(1,2) arm], simp_all add: facts(3))+
  have "due rt' 0 110 = {9}" using dl by (auto simp: due_def armed word_le_def)
  then show ?thesis
    using timers_expire_exact [OF ok wc, of 110] arm by blast
qed

text \<open>C14: A successful cancellation takes exactly that timer out of the heap that holds it, keeps all timer
  invariants, releases the sleeping task with result CANCELLED and leaves all other task states alone.\<close>

theorem timer_cancel_exact:
  assumes "timers_ok rt" "vl_timer_cancel (Some i) rt = (VL_OK, rt')"
  shows "\<exists>p t. ti_p (rt_timers rt i) = Some p \<and> ti_task (rt_timers rt i) = Some t \<and> i \<in> armed rt p
    \<and> timers_ok rt' \<and> armed rt' p = armed rt p - {i}
    \<and> t_timer_result (rt_tasks rt' t) = VL_ERROR_CANCELLED \<and> (parked rt t \<longrightarrow> released rt' t)
    \<and> (\<forall>x. x \<noteq> t \<longrightarrow> task_state rt' x = task_state rt x)"
proof -
  obtain p where p: "ti_p (rt_timers rt i) = Some p"
    using assms(2) by (auto simp: vl_timer_cancel_def split: option.splits)
  show ?thesis by (rule cancel_ok [OF assms p]) (use p in blast)
qed

theorem timer_cancel_exact_witness:
  "\<exists>rt rt' p t. vl_timer_arm (Some 0) 100 (TlsP 0) (Some 9) 10 demo_timer_rt = (Park, rt)
     \<and> vl_timer_cancel (Some 9) rt = (VL_OK, rt') \<and> ti_p (rt_timers rt 9) = Some p \<and> ti_task (rt_timers rt 9) = Some t
     \<and> armed rt' p = armed rt p - {9} \<and> t_timer_result (rt_tasks rt' t) = VL_ERROR_CANCELLED"
proof -
  obtain rt' where arm: "vl_timer_arm (Some 0) 100 (TlsP 0) (Some 9) 10 demo_timer_rt = (Park, rt')"
      and ti: "ti_p (rt_timers rt' 9) = Some 0" "active (rt_nodes rt' 9)"
    by (simp add: vl_timer_arm_def caller_of_def demo_timer_defs vl_timer_heap_push_def th_next_capacity_def
        th_append_def th_grow_def vl_timer_heap_zero_def th_up_stop Let_def)
  have facts: "0 < rt_worker_count demo_timer_rt" "owner (rt_nodes demo_timer_rt 9) = Some 9"
    by (simp_all add: demo_timer_defs)
  have ok: "timers_ok rt'"
    by (rule arm_park [OF demo_timers_ok facts(1,2) arm])
  obtain t where "ti_task (rt_timers rt' 9) = Some t"
    by (rule arm_park [OF demo_timers_ok facts(1,2) arm])
  then obtain rt'' where "vl_timer_cancel (Some 9) rt' = (VL_OK, rt'')"
    using ti by (simp add: vl_timer_cancel_def Let_def)
  then show ?thesis using timer_cancel_exact [OF ok] arm by blast
qed

text \<open>Rounding a span of nanoseconds up to milliseconds.\<close>

definition INT_MAX :: int where
  "INT_MAX = 2147483647"

lemma round_up_ms:
  assumes "(now :: u64) < d" "r = (if (d - now) div 1000000 \<ge> 2147483647 then 2147483647 else uint ((d - now + 999999) div 1000000))"
  shows "0 < r \<and> r \<le> INT_MAX
    \<and> (r < INT_MAX \<longrightarrow> uint d - uint now \<le> r * 1000000 \<and> r * 1000000 < uint d - uint now + 1000000)
    \<and> (r = INT_MAX \<longrightarrow> (INT_MAX - 1) * 1000000 < uint d - uint now)"
proof -
  define m where "m = uint d - uint now"
  have u: "uint (d - now) = m" and m: "0 < m"
    using assms(1) by (simp_all add: m_def word_less_def uint_minus_simple_alt [symmetric] word_le_def)
  have q: "(2147483647 \<le> (d - now) div 1000000) = (2147483647 \<le> m div 1000000)"
    by (simp add: word_le_def uint_div_distrib u)
  show ?thesis
  proof (cases "2147483647 \<le> m div 1000000")
    case True
    then show ?thesis using assms(2) q by (simp add: INT_MAX_def m_def [symmetric])
  next
    case False
    then have "m < 2147483647 * 1000000" by linarith
    then have "uint (w + 999999) = m + 999999" if "uint w = m" for w :: u64
      using m by (simp add: uint_word_ariths that)
    then have "uint (d - now + 999999) = m + 999999" using u .
    then have "r = (m + 999999) div 1000000" using False q assms(2) by (simp add: uint_div_distrib)
    then have "r * 1000000 \<le> m + 999999" "m + 999999 < r * 1000000 + 1000000" by linarith+
    moreover have "m < 2147483647 * 1000000" using False by linarith
    ultimately show ?thesis using m unfolding INT_MAX_def m_def [symmetric]
      by (intro conjI impI) (linarith | simp)+
  qed
qed

text \<open>C15: The poll timeout derived from the next timer of a processor.  With a timer still to come at
  deadline \<open>d > now\<close> the timeout is positive, fits an \<^verbatim>\<open>int\<close>, and unless it was cut to the largest
  \<^verbatim>\<open>int\<close> it is the remaining time rounded up to whole milliseconds, so a worker that sleeps for it wakes
  after the deadline and less than a millisecond late.  With a timer that is due, and also with no timer
  at all, it is 0.\<close>

theorem timers_timeout_rounds_up:
  "(\<forall>node. vl_timer_heap_peek (timers_of rt p) = Some node \<and> now < deadline_ns (rt_nodes rt node) \<longrightarrow>
      (let r = vl_timers_timeout_ms now (Some p) rt;
           remaining = uint (deadline_ns (rt_nodes rt node)) - uint now
       in 0 < r \<and> r \<le> INT_MAX \<and> (r < INT_MAX \<longrightarrow> remaining \<le> r * 1000000 \<and> r * 1000000 < remaining + 1000000)
          \<and> (r = INT_MAX \<longrightarrow> (INT_MAX - 1) * 1000000 < remaining)))
   \<and> (\<forall>node. vl_timer_heap_peek (timers_of rt p) = Some node \<and> deadline_ns (rt_nodes rt node) \<le> now \<longrightarrow>
        vl_timers_timeout_ms now (Some p) rt = 0)
   \<and> (vl_timer_heap_peek (timers_of rt p) = None \<longrightarrow> vl_timers_timeout_ms now (Some p) rt = 0)"
proof (intro conjI allI impI)
  fix node assume n: "vl_timer_heap_peek (timers_of rt p) = Some node \<and> now < deadline_ns (rt_nodes rt node)"
  have "vl_timers_timeout_ms now (Some p) rt = (let remaining = deadline_ns (rt_nodes rt node) - now in
      if remaining div 1000000 \<ge> 2147483647 then 2147483647 else uint ((remaining + 999999) div 1000000))"
    using n by (simp add: vl_timers_timeout_ms_def linorder_not_le [symmetric])
  from round_up_ms [OF conjunct2 [OF n] this [unfolded Let_def]]
  show "let r = vl_timers_timeout_ms now (Some p) rt; remaining = uint (deadline_ns (rt_nodes rt node)) - uint now
       in 0 < r \<and> r \<le> INT_MAX \<and> (r < INT_MAX \<longrightarrow> remaining \<le> r * 1000000 \<and> r * 1000000 < remaining + 1000000)
          \<and> (r = INT_MAX \<longrightarrow> (INT_MAX - 1) * 1000000 < remaining)"
    unfolding Let_def .
qed (simp_all add: vl_timers_timeout_ms_def)

theorem timers_timeout_rounds_up_witness:
  "\<exists>rt. vl_timer_arm (Some 0) 100 (TlsP 0) (Some 9) 1500000 demo_timer_rt = (Park, rt)
     \<and> vl_timers_timeout_ms 100 (Some 0) rt = 2"
proof -
  obtain rt where arm: "vl_timer_arm (Some 0) 100 (TlsP 0) (Some 9) 1500000 demo_timer_rt = (Park, rt)"
      and node: "vl_timer_heap_peek (timers_of rt 0) = Some 9" "deadline_ns (rt_nodes rt 9) = 1500100"
    by (simp add: vl_timer_arm_def caller_of_def demo_timer_defs vl_timer_heap_push_def th_next_capacity_def
        th_append_def th_grow_def vl_timer_heap_zero_def vl_timer_heap_peek_def th_up_stop Let_def)
  have "vl_timer_heap_peek (timers_of rt 0) = Some 9 \<and> (100 :: u64) < deadline_ns (rt_nodes rt 9)"
    using node by simp
  note timers_timeout_rounds_up [where rt = rt and p = 0 and now = 100, THEN conjunct1, rule_format, OF this]
  then have "vl_timers_timeout_ms 100 (Some 0) rt = 2"
    using node(2) by (cases "vl_timers_timeout_ms 100 (Some 0) rt = INT_MAX") (auto simp: Let_def INT_MAX_def)
  then show ?thesis using arm by blast
qed

end
