(* ===== verification/Worker.thy ===== *)
theory Worker
  imports Timer
begin

text \<open>
  The worker threads, \<^verbatim>\<open>src/runtime/worker.c\<close>: finding the next task, executing it, and going
  idle.  A function of the source that takes the runtime lock more than once is split into one
  definition per critical section, and the whole function is their composition; the theory
  \<open>Runtime_System\<close> interleaves the sections of all workers.  What a fiber does between being
  resumed and giving control back is an argument of \<open>vl_worker_execute\<close>, and so are the answers of
  the clock, of fiber creation and of the I/O driver.
\<close>

section \<open>Finding work\<close>

definition VL_STEAL_BATCH_MAX :: nat where
  "VL_STEAL_BATCH_MAX = 8"

definition clear_queued :: "tid \<Rightarrow> vl_runtime_impl \<Rightarrow> vl_runtime_impl" where
  "clear_queued t rt = upd_task (\<lambda>tk. tk\<lparr>t_queued := False\<rparr>) t rt"

text \<open>Reading an event descriptor resets its counter; an interrupted read is repeated.\<close>

definition vl_worker_drain_eventfd :: "pid \<Rightarrow> vl_runtime_impl \<Rightarrow> vl_runtime_impl" where
  "vl_worker_drain_eventfd p rt = upd_p (\<lambda>P. P\<lparr>p_event := False\<rparr>) p rt"

text \<open>
  The two loops of \<^verbatim>\<open>vl_worker_take_global\<close>.  Each runs at most as often as the queue was long
  when it started, so the pop never answers NULL.
\<close>

fun take_first :: "nat \<Rightarrow> pid \<Rightarrow> vl_runtime_impl \<Rightarrow> tid option \<times> vl_runtime_impl" where
  "take_first 0 p rt = (None, rt)"
| "take_first (Suc n) p rt =
     (case global_pop rt of
        (None, rt1) \<Rightarrow> (None, rt1)
      | (Some candidate, rt1) \<Rightarrow>
          if t_fiber (rt_tasks rt1 candidate) = None \<or> t_last_p (rt_tasks rt1 candidate) = Some p
          then (Some candidate, clear_queued candidate rt1)
          else take_first n p (global_push candidate rt1))"

fun take_extra :: "nat \<Rightarrow> pid \<Rightarrow> nat \<Rightarrow> vl_runtime_impl \<Rightarrow> nat \<times> vl_runtime_impl" where
  "take_extra 0 p pulled rt = (pulled, rt)"
| "take_extra (Suc n) p pulled rt =
     (if \<not> (rt_worker_count rt > 1 \<and> pulled < VL_STEAL_BATCH_MAX) then (pulled, rt)
      else (case global_pop rt of
              (None, rt1) \<Rightarrow> (pulled, rt1)
            | (Some extra, rt1) \<Rightarrow>
                if t_fiber (rt_tasks rt1 extra) \<noteq> None then take_extra n p pulled (global_push extra rt1)
                else (case local_push p extra rt1 of
                        (st, rt2) \<Rightarrow>
                          if st \<noteq> VL_OK then (pulled, global_push extra rt2)
                          else take_extra n p (pulled + 1) (count_local_push p rt2))))"

definition vl_worker_take_global :: "pid \<Rightarrow> vl_runtime_impl \<Rightarrow> tid option \<times> vl_runtime_impl" where
  "vl_worker_take_global p rt =
     (case take_first (tq_length (rt_global_runnable rt)) p rt of
        (task, rt1) \<Rightarrow>
          (case take_extra (tq_length (rt_global_runnable rt1)) p (if task = None then 0 else 1) rt1 of
             (pulled, rt2) \<Rightarrow>
               (task, upd_p_stats (\<lambda>s. s\<lparr>ps_global_pulls := ps_global_pulls s + of_nat pulled\<rparr>) p rt2)))"

text \<open>The two critical sections of a round of stealing, and the loop over the victims.\<close>

definition steal_attempt :: "pid \<Rightarrow> vl_runtime_impl \<Rightarrow> vl_runtime_impl" where
  "steal_attempt p rt = upd_p_stats (\<lambda>s. s\<lparr>ps_steal_attempts := ps_steal_attempts s + 1\<rparr>) p rt"

definition distribute_one :: "pid \<Rightarrow> tid \<Rightarrow> vl_runtime_impl \<Rightarrow> vl_runtime_impl" where
  "distribute_one p item rt =
     (case local_push p item rt of
        (st, rt1) \<Rightarrow> if st = VL_OK then count_local_push p rt1 else global_push item rt1)"

definition steal_distribute :: "pid \<Rightarrow> tid list \<Rightarrow> vl_runtime_impl \<Rightarrow> vl_runtime_impl" where
  "steal_distribute p items rt =
     fold (distribute_one p) (tl items)
       (upd_stats (\<lambda>s. s\<lparr>st_steals := st_steals s + of_nat (length items)\<rparr>)
          (upd_p_stats (\<lambda>s. s\<lparr>ps_steals := ps_steals s + of_nat (length items)\<rparr>) p rt))"

definition victim_of :: "pid \<Rightarrow> nat \<Rightarrow> vl_runtime_impl \<Rightarrow> pid" where
  "victim_of p offset rt = (p + offset) mod rt_worker_count rt"

fun steal_loop :: "nat \<Rightarrow> pid \<Rightarrow> nat \<Rightarrow> vl_runtime_impl \<Rightarrow> tid option \<times> vl_runtime_impl" where
  "steal_loop 0 p offset rt = (None, rt)"
| "steal_loop (Suc n) p offset rt =
     (let rt1 = steal_attempt p rt;
          victim = victim_of p offset rt1;
          (items, q) = vl_run_queue_steal_batch (p_runnable (rt_ps rt1 victim)) VL_STEAL_BATCH_MAX;
          rt2 = upd_p (\<lambda>P. P\<lparr>p_runnable := q\<rparr>) victim rt1
      in (case items of
            [] \<Rightarrow> steal_loop n p (offset + 1) rt2
          | x # xs \<Rightarrow> (Some x, clear_queued x (steal_distribute p items rt2))))"

definition vl_worker_steal :: "pid \<Rightarrow> vl_runtime_impl \<Rightarrow> tid option \<times> vl_runtime_impl" where
  "vl_worker_steal p rt = steal_loop (rt_worker_count rt - 1) p 1 rt"

definition local_pop :: "pid \<Rightarrow> vl_runtime_impl \<Rightarrow> tid option \<times> vl_runtime_impl" where
  "local_pop p rt =
     (case vl_run_queue_owner_pop (p_runnable (rt_ps rt p)) of
        (t, q) \<Rightarrow> (t, upd_p (\<lambda>P. P\<lparr>p_runnable := q\<rparr>) p rt))"

definition vl_worker_next_task :: "pid \<Rightarrow> vl_runtime_impl \<Rightarrow> tid option \<times> vl_runtime_impl" where
  "vl_worker_next_task p rt =
     (case local_pop p rt of
        (Some t, rt1) \<Rightarrow> (Some t, clear_queued t rt1)
      | (None, rt1) \<Rightarrow>
          (case vl_worker_take_global p rt1 of
             (Some t, rt2) \<Rightarrow> (Some t, rt2)
           | (None, rt2) \<Rightarrow> vl_worker_steal p rt2))"

section \<open>Executing a task\<close>

definition vl_worker_stop_run_locked :: "vl_status \<Rightarrow> vl_runtime_impl \<Rightarrow> vl_runtime_impl" where
  "vl_worker_stop_run_locked status rt =
     (if rt_running rt then rt\<lparr>rt_run_status := status, rt_running := False\<rparr> else rt)"

text \<open>The first critical section: drop the task, cancel it, or take it into execution.\<close>

datatype begin_result = Begin_Skip | Begin_Cancelled | Begin_Run

definition execute_begin :: "pid \<Rightarrow> tid \<Rightarrow> vl_runtime_impl \<Rightarrow> begin_result \<times> vl_runtime_impl" where
  "execute_begin p task rt =
     (if task_state rt task \<noteq> VL_TASK_RUNNABLE \<or> \<not> rt_running rt then (Begin_Skip, rt)
      else if rt_shutdown_requested rt
      then (Begin_Cancelled, count_cancelled (drop_live (set_state VL_TASK_CANCELLED task rt)))
      else
        let rt1 = upd_task (\<lambda>t. t\<lparr>t_executing := True, t_last_p := Some p, t_state := VL_TASK_RUNNING\<rparr>) task rt
        in (Begin_Run, rt1\<lparr>rt_active_workers := rt_active_workers rt1 + 1\<rparr>))"

definition execute_cancelled :: "vl_runtime_impl \<Rightarrow> vl_runtime_impl" where
  "execute_cancelled rt =
     vl_runtime_wake_workers (if rt_live_tasks rt = 0 then vl_worker_stop_run_locked VL_OK rt else rt)"

text \<open>
  The task's fiber: created on its first execution (\<open>fresh\<close> is the new fiber, \<open>None\<close> when
  \<^verbatim>\<open>vl_fiber_create\<close> fails).  The answer says whether there is a fiber to resume.
\<close>

definition execute_fiber :: "nat option \<Rightarrow> tid \<Rightarrow> vl_runtime_impl \<Rightarrow> bool \<times> vl_runtime_impl" where
  "execute_fiber fresh task rt =
     (if t_fiber (rt_tasks rt task) = None
      then (fresh \<noteq> None, upd_task (\<lambda>t. t\<lparr>t_fiber := fresh\<rparr>) task rt)
      else (True, rt))"

definition set_current :: "pid \<Rightarrow> tid option \<Rightarrow> vl_runtime_impl \<Rightarrow> vl_runtime_impl" where
  "set_current p task rt = snd (snd (vl_context_set_current (Some p) task rt))"

text \<open>How control came back from the fiber.\<close>

datatype fiber_result = Resume_Error | Fiber_Suspended | Fiber_Done

text \<open>A task cancelled by its worker loses its fiber.\<close>

definition cancel_executed :: "tid \<Rightarrow> vl_runtime_impl \<Rightarrow> vl_runtime_impl" where
  "cancel_executed task rt =
     upd_task (\<lambda>t. t\<lparr>t_fiber := None\<rparr>) task (count_cancelled (drop_live (set_state VL_TASK_CANCELLED task rt)))"

definition finish_suspended :: "pid \<Rightarrow> tid \<Rightarrow> vl_runtime_impl \<Rightarrow> vl_runtime_impl" where
  "finish_suspended p task rt =
     (let rt1 = (if t_wake_pending (rt_tasks rt task)
                    \<and> (task_state rt task = VL_TASK_WAITING \<or> task_state rt task = VL_TASK_SLEEPING)
                 then upd_task (\<lambda>t. t\<lparr>t_wake_pending := False, t_state := VL_TASK_RUNNABLE\<rparr>) task rt
                 else rt)
      in if task_state rt1 task = VL_TASK_RUNNABLE then vl_task_enqueue_local_locked p task rt1
         else if task_state rt1 task = VL_TASK_RUNNING then cancel_executed task rt1
         else rt1)"

definition execute_finish :: "pid \<Rightarrow> tid \<Rightarrow> fiber_result \<Rightarrow> vl_runtime_impl \<Rightarrow> vl_runtime_impl" where
  "execute_finish p task result rt =
     (let rt1 = upd_task (\<lambda>t. t\<lparr>t_executing := False\<rparr>) task rt;
          rt2 = upd_p_stats (\<lambda>s. s\<lparr>ps_executed := ps_executed s + 1\<rparr>) p
                  (rt1\<lparr>rt_active_workers := rt_active_workers rt1 - 1\<rparr>);
          rt3 = (case result of
                   Resume_Error \<Rightarrow> cancel_executed task rt2
                 | Fiber_Done \<Rightarrow>
                     upd_task (\<lambda>t. t\<lparr>t_fiber := None\<rparr>) task
                       (vl_task_complete_locked task (set_state VL_TASK_DONE task rt2))
                 | Fiber_Suspended \<Rightarrow> finish_suspended p task rt2);
          rt4 = (if rt_live_tasks rt3 = 0 then vl_worker_stop_run_locked VL_OK rt3 else rt3)
      in vl_runtime_wake_workers rt4)"

definition vl_worker_execute ::
  "nat option \<Rightarrow> (vl_runtime_impl \<Rightarrow> fiber_result \<times> vl_runtime_impl) \<Rightarrow> pid \<Rightarrow> tid \<Rightarrow>
   vl_runtime_impl \<Rightarrow> vl_runtime_impl" where
  "vl_worker_execute fresh resume p task rt =
     (case execute_begin p task rt of
        (Begin_Skip, rt1) \<Rightarrow> rt1
      | (Begin_Cancelled, rt1) \<Rightarrow> execute_cancelled rt1
      | (Begin_Run, rt1) \<Rightarrow>
          (case execute_fiber fresh task rt1 of
             (False, rt2) \<Rightarrow> execute_finish p task Resume_Error rt2
           | (True, rt2) \<Rightarrow>
               (case resume (set_current p (Some task) (count_switch rt2)) of
                  (result, rt3) \<Rightarrow> execute_finish p task result (set_current p None rt3))))"

section \<open>Going idle\<close>

text \<open>\<open>io_poll\<close> is the answer of \<^verbatim>\<open>vl_io_poll\<close> for the driver, with the completions it delivers.\<close>

definition vl_worker_poll_io ::
  "(nat \<Rightarrow> vl_runtime_impl \<Rightarrow> vl_status \<times> vl_runtime_impl) \<Rightarrow> pid \<Rightarrow> vl_runtime_impl \<Rightarrow>
   vl_status \<times> vl_runtime_impl" where
  "vl_worker_poll_io io_poll p rt =
     (if p \<noteq> 0 then (VL_ERROR_WOULD_BLOCK, rt)
      else (case (if rt_io_waiting rt \<noteq> 0 then rt_io_driver rt else None) of
              Some io \<Rightarrow> io_poll io rt
            | None \<Rightarrow> (VL_ERROR_WOULD_BLOCK, rt)))"

definition local_work :: "vl_runtime_impl \<Rightarrow> bool" where
  "local_work rt = list_ex (\<lambda>p. vl_run_queue_length (p_runnable (rt_ps rt p)) \<noteq> 0) [0..<rt_worker_count rt]"

definition idle_deadlock :: "vl_runtime_impl \<Rightarrow> bool" where
  "idle_deadlock rt \<longleftrightarrow> rt_idle_workers rt = rt_worker_count rt \<and> tq_length (rt_global_runnable rt) = 0
     \<and> rt_live_tasks rt \<noteq> 0 \<and> rt_timer_count rt = 0 \<and> rt_io_waiting rt = 0 \<and> \<not> local_work rt"

text \<open>The first critical section answers \<open>None\<close> when the run has been stopped, otherwise whether to
  wait and for how long.\<close>

definition idle_enter :: "u64 \<Rightarrow> pid \<Rightarrow> vl_runtime_impl \<Rightarrow> (bool \<times> int) option \<times> vl_runtime_impl" where
  "idle_enter now p rt =
     (if \<not> rt_running rt then (None, rt)
      else
        let rt1 = (if p_idle (rt_ps rt p) then rt
                   else upd_p_stats (\<lambda>s. s\<lparr>ps_parks := ps_parks s + 1\<rparr>) p
                          (upd_p (\<lambda>P. P\<lparr>p_idle := True\<rparr>) p
                             (rt\<lparr>rt_idle_workers := rt_idle_workers rt + 1\<rparr>)));
            rt2 = (if idle_deadlock rt1 then vl_worker_stop_run_locked VL_ERROR_INVALID_STATE rt1 else rt1);
            timeout = vl_timers_timeout_ms now (Some p) rt2;
            timeout' = (if rt_io_waiting rt2 \<noteq> 0 \<and> p = 0 \<and> (timeout < 0 \<or> timeout > 10) then 10 else timeout)
        in (Some (rt_running rt2, timeout'), rt2))"

definition idle_leave :: "pid \<Rightarrow> vl_runtime_impl \<Rightarrow> vl_runtime_impl" where
  "idle_leave p rt =
     (if p_idle (rt_ps rt p)
      then let rt1 = upd_p (\<lambda>P. P\<lparr>p_idle := False\<rparr>) p rt
           in if rt_idle_workers rt1 \<noteq> 0 then rt1\<lparr>rt_idle_workers := rt_idle_workers rt1 - 1\<rparr> else rt1
      else rt)"

definition vl_worker_idle :: "u64 \<Rightarrow> pid \<Rightarrow> vl_runtime_impl \<Rightarrow> vl_runtime_impl" where
  "vl_worker_idle now p rt =
     (case idle_enter now p rt of
        (None, rt1) \<Rightarrow> rt1
      | (Some (should_wait, timeout), rt1) \<Rightarrow>
          idle_leave p (if should_wait then vl_worker_drain_eventfd p rt1 else vl_runtime_wake_workers rt1))"

section \<open>The worker loop and the worker thread\<close>

text \<open>
  One round of the loop of \<^verbatim>\<open>vl_worker_run\<close>.  \<open>polls\<close> bounds the number of completions the I/O
  driver has ready.
\<close>

fun poll_all ::
  "nat \<Rightarrow> (nat \<Rightarrow> vl_runtime_impl \<Rightarrow> vl_status \<times> vl_runtime_impl) \<Rightarrow> pid \<Rightarrow> vl_runtime_impl \<Rightarrow> vl_runtime_impl" where
  "poll_all 0 io_poll p rt = rt"
| "poll_all (Suc polls) io_poll p rt =
     (case vl_worker_poll_io io_poll p rt of
        (st, rt1) \<Rightarrow> if st = VL_OK then poll_all polls io_poll p rt1 else rt1)"

definition vl_worker_round ::
  "nat \<Rightarrow> (nat \<Rightarrow> vl_runtime_impl \<Rightarrow> vl_status \<times> vl_runtime_impl) \<Rightarrow> nat option \<Rightarrow>
   (vl_runtime_impl \<Rightarrow> fiber_result \<times> vl_runtime_impl) \<Rightarrow> u64 \<Rightarrow> pid \<Rightarrow> vl_runtime_impl \<Rightarrow> vl_runtime_impl" where
  "vl_worker_round polls io_poll fresh resume now p rt =
     (case vl_worker_next_task p (poll_all polls io_poll p (vl_timers_expire (Some p) now rt)) of
        (Some task, rt1) \<Rightarrow> vl_worker_execute fresh resume p task rt1
      | (None, rt1) \<Rightarrow> vl_worker_idle now p rt1)"

definition vl_worker_destroy_owned_fibers :: "pid option \<Rightarrow> vl_runtime_impl \<Rightarrow> vl_runtime_impl" where
  "vl_worker_destroy_owned_fibers p rt =
     (case p of
        None \<Rightarrow> rt
      | Some i \<Rightarrow>
          fold (\<lambda>task rt. if t_fiber (rt_tasks rt task) \<noteq> None \<and> t_last_p (rt_tasks rt task) = Some i
                          then upd_task (\<lambda>t. t\<lparr>t_fiber := None\<rparr>) task rt else rt)
            (rt_all_tasks rt) rt)"

text \<open>A worker thread reports that it is ready, or that its fiber scheduler cannot be set up.\<close>

definition thread_ready :: "bool \<Rightarrow> pid \<Rightarrow> vl_runtime_impl \<Rightarrow> vl_runtime_impl" where
  "thread_ready sched_ok p rt =
     (let rt1 = upd_p (\<lambda>P. P\<lparr>p_init_status := (if sched_ok then VL_OK else VL_ERROR_SYSTEM)\<rparr>) p rt
      in rt1\<lparr>rt_workers_ready := rt_workers_ready rt1 + 1\<rparr>)"

definition vl_worker_start :: "bool \<Rightarrow> pid option \<Rightarrow> vl_runtime_impl \<Rightarrow> vl_status \<times> vl_runtime_impl" where
  "vl_worker_start create_ok p rt =
     (case p of
        None \<Rightarrow> (VL_ERROR_INVALID_ARGUMENT, rt)
      | Some i \<Rightarrow>
          if p_thread_started (rt_ps rt i) then (VL_ERROR_INVALID_ARGUMENT, rt)
          else if \<not> create_ok then (VL_ERROR_SYSTEM, rt)
          else (VL_OK, upd_p (\<lambda>P. P\<lparr>p_thread_started := True\<rparr>) i rt))"

definition vl_worker_stop :: "pid option \<Rightarrow> vl_runtime_impl \<Rightarrow> vl_runtime_impl" where
  "vl_worker_stop p rt =
     (case p of
        None \<Rightarrow> rt
      | Some i \<Rightarrow>
          if \<not> p_thread_started (rt_ps rt i) then rt
          else upd_p (\<lambda>P. P\<lparr>p_thread_started := False\<rparr>) i rt)"

section \<open>Running a runtime\<close>

text \<open>
  \<^verbatim>\<open>vl_runtime_run\<close> before and after its call of \<^verbatim>\<open>vl_worker_run\<close> for processor 0.  The first part
  answers \<open>Inl\<close> the status when it returns early.  The second part is entered when no worker is
  active.
\<close>

definition run_begin :: "bool \<Rightarrow> tls \<Rightarrow> vl_runtime_impl option \<Rightarrow> vl_status + vl_runtime_impl" where
  "run_begin is_owner tls runtime =
     (case runtime of
        None \<Rightarrow> Inl VL_ERROR_INVALID_ARGUMENT
      | Some impl \<Rightarrow>
          if \<not> is_owner \<or> tls \<noteq> TlsNull then Inl VL_ERROR_INVALID_STATE
          else if rt_running impl then Inl VL_ERROR_INVALID_STATE
          else if rt_live_tasks impl = 0 then Inl VL_OK
          else Inr (vl_runtime_wake_workers
                 (impl\<lparr>rt_run_status := VL_OK, rt_idle_workers := 0, rt_running := True\<rparr>)))"

definition run_end :: "vl_runtime_impl \<Rightarrow> vl_status \<times> vl_runtime_impl" where
  "run_end impl =
     (if rt_shutdown_requested impl then (VL_OK, vl_task_cancel_all impl)
      else (rt_run_status impl, impl))"

end
