(* ===== verification/Worker_Facts.thy ===== *)
theory Worker_Facts
  imports Worker
begin

text \<open>
  What the critical sections of a worker do to the queues and to the scheduling fields of the
  tasks.  \<open>sched_same\<close> says that two runtimes agree on everything the scheduler looks at, the links
  and contents of the queues apart; the loops over the queues are described by what they move.
\<close>

section \<open>Agreement on the scheduling state\<close>

definition tk_same :: "vl_task \<Rightarrow> vl_task \<Rightarrow> bool" where
  "tk_same a b \<longleftrightarrow> t_state b = t_state a \<and> t_queued b = t_queued a \<and> t_executing b = t_executing a
     \<and> t_wake_pending b = t_wake_pending a \<and> t_fiber b = t_fiber a \<and> t_last_p b = t_last_p a"

definition rest_same :: "vl_runtime_impl \<Rightarrow> vl_runtime_impl \<Rightarrow> bool" where
  "rest_same a b \<longleftrightarrow> rt_all_tasks b = rt_all_tasks a \<and> rt_worker_count b = rt_worker_count a
     \<and> rt_live_tasks b = rt_live_tasks a \<and> rt_active_workers b = rt_active_workers a
     \<and> rt_idle_workers b = rt_idle_workers a \<and> rt_running b = rt_running a
     \<and> rt_shutdown_requested b = rt_shutdown_requested a
     \<and> (\<forall>p. p_idle (rt_ps b p) = p_idle (rt_ps a p) \<and> p_current (rt_ps b p) = p_current (rt_ps a p))"

definition sched_same :: "vl_runtime_impl \<Rightarrow> vl_runtime_impl \<Rightarrow> bool" where
  "sched_same a b \<longleftrightarrow> rest_same a b \<and> (\<forall>t. tk_same (rt_tasks a t) (rt_tasks b t))"

text \<open>The queues hold the same tasks as well.\<close>

definition queues_same :: "vl_runtime_impl \<Rightarrow> vl_runtime_impl \<Rightarrow> bool" where
  "queues_same a b \<longleftrightarrow> (\<forall>gl. gl_rep a gl \<longrightarrow> gl_rep b gl) \<and> (\<forall>p. p_runnable (rt_ps b p) = p_runnable (rt_ps a p))"

lemma tk_same_refl [simp]: "tk_same a a"
  by (simp add: tk_same_def)

lemma rest_same_refl [simp]: "rest_same a a"
  by (simp add: rest_same_def)

lemma sched_same_refl [simp]: "sched_same a a"
  by (simp add: sched_same_def)

lemma queues_same_refl [simp]: "queues_same a a"
  by (simp add: queues_same_def)

lemma rest_same_trans: "rest_same a b \<Longrightarrow> rest_same b c \<Longrightarrow> rest_same a c"
  by (simp add: rest_same_def)

lemma tk_same_trans: "tk_same a b \<Longrightarrow> tk_same b c \<Longrightarrow> tk_same a c"
  by (simp add: tk_same_def)

lemma sched_same_trans: "sched_same a b \<Longrightarrow> sched_same b c \<Longrightarrow> sched_same a c"
  unfolding sched_same_def using rest_same_trans tk_same_trans by blast

lemma queues_same_trans: "queues_same a b \<Longrightarrow> queues_same b c \<Longrightarrow> queues_same a c"
  by (simp add: queues_same_def)

lemma sched_sameI:
  assumes "rest_same a b" "\<And>t. tk_same (rt_tasks a t) (rt_tasks b t)"
  shows "sched_same a b"
  using assms by (simp add: sched_same_def)

lemma sched_same_task: "sched_same a b \<Longrightarrow> tk_same (rt_tasks a t) (rt_tasks b t)"
  by (simp add: sched_same_def)

lemma same_queue_next:
  "(\<And>t. t_queue_next (rt_tasks b t) = t_queue_next (rt_tasks a t)) \<Longrightarrow> rt_global_runnable b = rt_global_runnable a \<Longrightarrow>
   gl_rep b gl = gl_rep a gl"
  using tq_rep_cong [of gl "rt_tasks b" "rt_tasks a"] by simp

lemma queues_sameI:
  assumes "\<And>t. t_queue_next (rt_tasks b t) = t_queue_next (rt_tasks a t)"
    "rt_global_runnable b = rt_global_runnable a" "\<And>p. p_runnable (rt_ps b p) = p_runnable (rt_ps a p)"
  shows "queues_same a b"
  using assms same_queue_next [of b a] by (simp add: queues_same_def)

section \<open>The elementary moves\<close>

lemma global_push_same: "sched_same rt (global_push t rt)"
  by (rule sched_sameI) (simp_all add: rest_same_def tk_same_def)

lemma global_pop_same: "sched_same rt (snd (global_pop rt))"
  by (rule sched_sameI) (simp_all add: rest_same_def tk_same_def)

lemma global_push_runnable [simp]: "p_runnable (rt_ps (global_push t rt) p) = p_runnable (rt_ps rt p)"
  by simp

lemma global_pop_cons:
  assumes "gl_rep rt (x # xs)"
  obtains rt' where "global_pop rt = (Some x, rt')" "gl_rep rt' xs" "sched_same rt rt'" "rt_ps rt' = rt_ps rt"
proof -
  obtain rt' where "global_pop rt = (Some x, rt')" "gl_rep rt' xs"
    using global_pop_rep(2) [OF assms refl] by blast
  then show ?thesis using global_pop_same [of rt] global_pop_frame(2) [of rt] that by simp
qed

lemma gl_distinct: "gl_rep rt gl \<Longrightarrow> distinct gl"
  by (rule gq.rep_distinct)

lemma gl_length: "gl_rep rt gl \<Longrightarrow> tq_length (rt_global_runnable rt) = length gl"
  by (simp add: tq_rep_def)

text \<open>A counter bound keeps the positions of the run queues from wrapping.\<close>

definition bottoms :: "vl_runtime_impl \<Rightarrow> nat \<Rightarrow> bool" where
  "bottoms rt k \<longleftrightarrow> (\<forall>p. unat (rq_bottom (p_runnable (rt_ps rt p))) \<le> k)"

lemma rq_push_bottom:
  assumes "vl_run_queue_owner_push q x = (st, q')" "unat (rq_bottom q) \<le> k"
  shows "unat (rq_bottom q') \<le> Suc k"
proof -
  have "unat (rq_bottom q + 1) \<le> unat (rq_bottom q) + 1" by (simp add: unat_word_ariths)
  then show ?thesis
    using assms by (auto simp: vl_run_queue_owner_push_def Let_def split: option.splits if_splits)
qed

lemma rq_steal_bottom: "vl_run_queue_steal q = (x, q') \<Longrightarrow> rq_bottom q' = rq_bottom q"
  by (auto simp: vl_run_queue_steal_def Let_def split: option.splits if_splits)

lemma rq_pop_bottom:
  assumes "rq_holds q xs" "vl_run_queue_owner_pop q = (x, q')"
  shows "unat (rq_bottom q') \<le> unat (rq_bottom q)"
proof -
  have top: "rq_top q \<le> rq_bottom q" using assms(1) by (simp add: rq_holds_def word_le_nat_alt)
  show ?thesis
  proof (cases "rq_bottom q = 0")
    case True
    then show ?thesis using assms(2) by (auto simp: vl_run_queue_owner_pop_def split: option.splits)
  next
    case False
    then have "unat (rq_bottom q - 1) \<le> unat (rq_bottom q)" by unat_arith
    moreover have "rq_top q = rq_bottom q - 1 \<Longrightarrow> rq_top q + 1 = rq_bottom q" by simp
    ultimately show ?thesis
      using assms(2) top by (auto simp: vl_run_queue_owner_pop_def Let_def word_le_nat_alt split: option.splits if_splits)
  qed
qed

lemma bottoms_upd:
  assumes "bottoms rt k" "\<And>q. rt_ps rt' q = (rt_ps rt q) \<or> (q = p \<and> unat (rq_bottom (p_runnable (rt_ps rt' p))) \<le> k')" "k \<le> k'"
  shows "bottoms rt' k'"
  unfolding bottoms_def
proof
  fix q
  show "unat (rq_bottom (p_runnable (rt_ps rt' q))) \<le> k'"
    using assms(1,3) assms(2) [of q] unfolding bottoms_def by (metis le_trans)
qed

lemma bottoms_runnable:
  "bottoms rt k \<Longrightarrow> (\<And>q. p_runnable (rt_ps rt' q) = p_runnable (rt_ps rt q)) \<Longrightarrow> bottoms rt' k"
  by (simp add: bottoms_def)

lemma bottoms_mono: "bottoms rt k \<Longrightarrow> k \<le> k' \<Longrightarrow> bottoms rt k'"
  by (meson bottoms_def le_trans)

text \<open>A push by the owner: onto the local queue, or refused because the queue is full.\<close>

lemma local_push_same: "sched_same rt (snd (local_push p t rt))"
  by (rule sched_sameI) (auto simp: local_push_def rest_same_def split: prod.splits)

lemma local_push_tasks [simp]:
  "rt_tasks (snd (local_push p t rt)) = rt_tasks rt" "rt_global_runnable (snd (local_push p t rt)) = rt_global_runnable rt"
  "rt_worker_count (snd (local_push p t rt)) = rt_worker_count rt"
  by (simp_all add: local_push_def split: prod.splits)

lemma local_push_cases:
  assumes "rq_holds (p_runnable (rt_ps rt p)) xs" "bottoms rt k" "k < 2 ^ 64 - 1"
  obtains rt' where "local_push p t rt = (VL_OK, rt')" "rq_holds (p_runnable (rt_ps rt' p)) (xs @ [t])"
      "\<And>q. q \<noteq> p \<Longrightarrow> rt_ps rt' q = rt_ps rt q" "bottoms rt' (Suc k)"
  | "local_push p t rt = (VL_ERROR_WOULD_BLOCK, rt)"
proof -
  let ?q = "p_runnable (rt_ps rt p)"
  have bot: "unat (rq_bottom ?q) \<le> k" using assms(2) by (simp add: bottoms_def)
  then have room: "rq_room ?q" using assms(3) by (simp add: rq_room_def)
  show ?thesis
  proof (rule rq.push_cases [OF assms(1) room, where x = t])
    fix q' assume 1: "vl_run_queue_owner_push ?q (Some t) = (VL_OK, q')" "rq_holds q' (xs @ [t])"
    let ?rt' = "upd_p (\<lambda>P. P\<lparr>p_runnable := q'\<rparr>) p rt"
    have "bottoms ?rt' (Suc k)"
      by (rule bottoms_upd [OF assms(2), of _ p]) (use rq_push_bottom [OF 1(1) bot] in auto)
    then show ?thesis using that(1) [of ?rt'] 1 by (simp add: local_push_def)
  next
    assume 2: "vl_run_queue_owner_push ?q (Some t) = (VL_ERROR_WOULD_BLOCK, ?q)"
    have "upd_p (\<lambda>P. P\<lparr>p_runnable := ?q\<rparr>) p rt = rt" by (simp add: upd_p_def)
    then show ?thesis using 2 that(2) by (simp add: local_push_def)
  qed
qed

section \<open>The loops over the queues\<close>

lemma clear_queued_sel [simp]:
  "rt_ps (clear_queued t rt) = rt_ps rt" "rt_global_runnable (clear_queued t rt) = rt_global_runnable rt"
  "rt_tasks (clear_queued t rt) x = (if x = t then (rt_tasks rt t)\<lparr>t_queued := False\<rparr> else rt_tasks rt x)"
  "rt_worker_count (clear_queued t rt) = rt_worker_count rt"
  by (simp_all add: clear_queued_def)

lemma clear_queued_rep: "gl_rep (clear_queued t rt) gl = gl_rep rt gl"
  by (rule same_queue_next) simp_all

text \<open>Rotating the head of the queue to its end.\<close>

lemma rotate_global:
  assumes "gl_rep rt (x # xs)"
  obtains rt1 where "global_pop rt = (Some x, rt1)" "gl_rep (global_push x rt1) (xs @ [x])"
    "sched_same rt (global_push x rt1)" "rt_ps (global_push x rt1) = rt_ps rt" "sched_same rt rt1"
proof -
  obtain rt1 where pop: "global_pop rt = (Some x, rt1)" "gl_rep rt1 xs" "sched_same rt rt1" "rt_ps rt1 = rt_ps rt"
    by (rule global_pop_cons [OF assms])
  have "x \<notin> set xs" using gl_distinct [OF assms] by simp
  then have "gl_rep (global_push x rt1) (xs @ [x])" by (rule global_push_rep [OF pop(2)])
  then show ?thesis
    using that pop sched_same_trans [OF pop(3) global_push_same] by simp
qed

lemma take_first_none:
  assumes "gl_rep rt gl" "n \<le> length gl" "take_first n p rt = (None, rt')"
  shows "sched_same rt rt' \<and> rt_ps rt' = rt_ps rt \<and> (\<exists>gl'. gl_rep rt' gl' \<and> mset gl' = mset gl)"
  using assms
proof (induction n arbitrary: rt gl)
  case (Suc n)
  then obtain x xs where gl: "gl = x # xs" by (cases gl) auto
  obtain rt1 where r: "global_pop rt = (Some x, rt1)" "gl_rep (global_push x rt1) (xs @ [x])"
    "sched_same rt (global_push x rt1)" "rt_ps (global_push x rt1) = rt_ps rt" "sched_same rt rt1"
    using rotate_global Suc.prems(1) unfolding gl by blast
  have "take_first n p (global_push x rt1) = (None, rt')"
    using Suc.prems(3) r(1) by (simp split: if_splits)
  from Suc.IH [OF r(2) _ this] Suc.prems(2) gl
  show ?case using r(3,4) sched_same_trans by auto
qed auto

lemma take_first_some:
  assumes "gl_rep rt gl" "n \<le> length gl" "take_first n p rt = (Some t, rt')"
  shows "\<exists>rt0 gl'. sched_same rt rt0 \<and> rt' = clear_queued t rt0 \<and> rt_ps rt' = rt_ps rt \<and> gl_rep rt' gl'
    \<and> mset gl = add_mset t (mset gl') \<and> (t_fiber (rt_tasks rt t) = None \<or> t_last_p (rt_tasks rt t) = Some p)"
  using assms
proof (induction n arbitrary: rt gl)
  case (Suc n)
  then obtain x xs where gl: "gl = x # xs" by (cases gl) auto
  obtain rt1 where r: "global_pop rt = (Some x, rt1)" "gl_rep (global_push x rt1) (xs @ [x])"
    "sched_same rt (global_push x rt1)" "rt_ps (global_push x rt1) = rt_ps rt" "sched_same rt rt1"
    using rotate_global Suc.prems(1) unfolding gl by blast
  have rep1: "gl_rep rt1 xs" using global_pop_rep(2) [OF Suc.prems(1) gl] r(1) by auto
  have same: "tk_same (rt_tasks rt y) (rt_tasks rt1 y)" "tk_same (rt_tasks rt y) (rt_tasks (global_push x rt1) y)" for y
    using r(3,5) by (simp_all add: sched_same_task)
  show ?case
  proof (cases "t_fiber (rt_tasks rt1 x) = None \<or> t_last_p (rt_tasks rt1 x) = Some p")
    case True
    then have "t = x" "rt' = clear_queued x rt1" using Suc.prems(3) r(1) by auto
    moreover have "gl_rep (clear_queued x rt1) xs" using rep1 clear_queued_rep by blast
    moreover have "t_fiber (rt_tasks rt x) = None \<or> t_last_p (rt_tasks rt x) = Some p"
      using True same(1) [of x] by (simp add: tk_same_def)
    moreover have "rt_ps (clear_queued x rt1) = rt_ps rt" using r(4) by simp
    moreover have "mset gl = add_mset x (mset xs)" using gl by simp
    ultimately show ?thesis using r(5) by blast
  next
    case False
    then have "take_first n p (global_push x rt1) = (Some t, rt')" using Suc.prems(3) r(1) by auto
    from Suc.IH [OF r(2) _ this] Suc.prems(2) gl
    show ?thesis using r(3,4) sched_same_trans same(2) [of t] by (fastforce simp: tk_same_def)
  qed
qed simp

lemma count_local_push_same: "sched_same rt (count_local_push p rt)"
  by (rule sched_sameI) (simp_all add: rest_same_def)

lemma count_local_push_rep: "gl_rep (count_local_push p rt) gl = gl_rep rt gl"
  by (rule same_queue_next) simp_all

text \<open>
  One task goes onto the local queue of its owner or, when that is full, to the end of the global one.
\<close>

lemma distribute_one_spec:
  assumes "gl_rep rt gl" "t \<notin> set gl" "rq_holds (p_runnable (rt_ps rt p)) xs" "bottoms rt k" "k < 2 ^ 64 - 1"
  shows "\<exists>gl' ys. sched_same rt (distribute_one p t rt) \<and> gl_rep (distribute_one p t rt) (gl @ gl')
    \<and> rq_holds (p_runnable (rt_ps (distribute_one p t rt) p)) (xs @ ys) \<and> mset gl' + mset ys = {#t#}
    \<and> bottoms (distribute_one p t rt) (Suc k)
    \<and> (\<forall>q. q \<noteq> p \<longrightarrow> p_runnable (rt_ps (distribute_one p t rt) q) = p_runnable (rt_ps rt q))"
proof (rule local_push_cases [OF assms(3-5), of t])
  fix rt' assume 1: "local_push p t rt = (VL_OK, rt')" "rq_holds (p_runnable (rt_ps rt' p)) (xs @ [t])"
      "\<And>q. q \<noteq> p \<Longrightarrow> rt_ps rt' q = rt_ps rt q" "bottoms rt' (Suc k)"
  then have d: "distribute_one p t rt = count_local_push p rt'" by (simp add: distribute_one_def)
  have "sched_same rt rt'" using local_push_same [of rt p t] 1(1) by simp
  moreover have "gl_rep rt' gl"
    using assms(1) local_push_tasks [of p t rt] 1(1) by simp
  ultimately show ?thesis
    using 1 sched_same_trans [OF _ count_local_push_same]
    by (intro exI [of _ "[]"] exI [of _ "[t]"]) (simp add: d bottoms_def)
next
  assume 2: "local_push p t rt = (VL_ERROR_WOULD_BLOCK, rt)"
  then have d: "distribute_one p t rt = global_push t rt" by (simp add: distribute_one_def)
  show ?thesis
    using assms global_push_rep [OF assms(1,2)] global_push_same [of rt t]
    by (intro exI [of _ "[t]"] exI [of _ "[]"]) (simp add: d bottoms_def le_SucI)
qed

lemma distribute_spec:
  assumes "gl_rep rt gl" "distinct ts" "set ts \<inter> set gl = {}" "rq_holds (p_runnable (rt_ps rt p)) xs"
    "bottoms rt k" "k + length ts < 2 ^ 64"
  shows "\<exists>gl' ys. sched_same rt (fold (distribute_one p) ts rt) \<and> gl_rep (fold (distribute_one p) ts rt) (gl @ gl')
    \<and> rq_holds (p_runnable (rt_ps (fold (distribute_one p) ts rt) p)) (xs @ ys) \<and> mset gl' + mset ys = mset ts
    \<and> bottoms (fold (distribute_one p) ts rt) (k + length ts)
    \<and> (\<forall>q. q \<noteq> p \<longrightarrow> p_runnable (rt_ps (fold (distribute_one p) ts rt) q) = p_runnable (rt_ps rt q))"
  using assms
proof (induction ts arbitrary: rt gl xs k)
  case Nil
  then show ?case by (intro exI [of _ "[]"]) simp
next
  case (Cons t ts)
  let ?rt1 = "distribute_one p t rt"
  obtain gl1 ys1 where 1: "sched_same rt ?rt1" "gl_rep ?rt1 (gl @ gl1)" "rq_holds (p_runnable (rt_ps ?rt1 p)) (xs @ ys1)"
      "mset gl1 + mset ys1 = {#t#}" "bottoms ?rt1 (Suc k)" "\<forall>q. q \<noteq> p \<longrightarrow> p_runnable (rt_ps ?rt1 q) = p_runnable (rt_ps rt q)"
    using distribute_one_spec [OF Cons.prems(1) _ Cons.prems(4,5), of t] Cons.prems(3,6) by auto
  have "set gl1 \<subseteq> {t}" using arg_cong [OF 1(4), of set_mset] by auto
  then have dis: "set ts \<inter> set (gl @ gl1) = {}" using Cons.prems(2,3) by auto
  obtain gl2 ys2 where 2: "sched_same ?rt1 (fold (distribute_one p) ts ?rt1)"
      "gl_rep (fold (distribute_one p) ts ?rt1) ((gl @ gl1) @ gl2)"
      "rq_holds (p_runnable (rt_ps (fold (distribute_one p) ts ?rt1) p)) ((xs @ ys1) @ ys2)" "mset gl2 + mset ys2 = mset ts"
      "bottoms (fold (distribute_one p) ts ?rt1) (Suc k + length ts)"
      "\<forall>q. q \<noteq> p \<longrightarrow> p_runnable (rt_ps (fold (distribute_one p) ts ?rt1) q) = p_runnable (rt_ps ?rt1 q)"
    using Cons.IH [OF 1(2) _ dis 1(3,5)] Cons.prems(2,6) by auto
  have "mset (gl1 @ gl2) + mset (ys1 @ ys2) = mset (t # ts)" using 1(4) 2(4) by (simp add: ac_simps)
  then show ?case
    using 2 1(6) sched_same_trans [OF 1(1) 2(1)]
    by (intro exI [of _ "gl1 @ gl2"] exI [of _ "ys1 @ ys2"]) simp
qed

text \<open>
  \<open>moved p rt gl xs rt' gl' ys k\<close>: the tasks \<open>ys\<close>, none of which has a fiber, went from the global queue
  \<open>gl\<close>, now \<open>gl'\<close>, to the end of the local queue \<open>xs\<close> of \<open>p\<close>.
\<close>

definition moved ::
  "pid \<Rightarrow> vl_runtime_impl \<Rightarrow> tid list \<Rightarrow> tid list \<Rightarrow> vl_runtime_impl \<Rightarrow> tid list \<Rightarrow> tid list \<Rightarrow> nat \<Rightarrow> bool" where
  "moved p rt gl xs rt' gl' ys k \<longleftrightarrow> sched_same rt rt' \<and> gl_rep rt' gl'
     \<and> rq_holds (p_runnable (rt_ps rt' p)) (xs @ ys) \<and> mset gl' + mset ys = mset gl
     \<and> (\<forall>t \<in> set ys. t_fiber (rt_tasks rt t) = None) \<and> bottoms rt' k
     \<and> (\<forall>q. q \<noteq> p \<longrightarrow> p_runnable (rt_ps rt' q) = p_runnable (rt_ps rt q))"

lemma moved_none:
  "gl_rep rt gl \<Longrightarrow> rq_holds (p_runnable (rt_ps rt p)) xs \<Longrightarrow> bottoms rt k \<Longrightarrow> k \<le> k' \<Longrightarrow> moved p rt gl xs rt gl [] k'"
  by (auto simp: moved_def intro: bottoms_mono)

lemma moved_trans:
  assumes "moved p rt gl xs rt1 gl1 ys1 k1" "moved p rt1 gl1 (xs @ ys1) rt2 gl2 ys2 k2"
  shows "moved p rt gl xs rt2 gl2 (ys1 @ ys2) k2"
proof -
  have "t_fiber (rt_tasks rt1 t) = t_fiber (rt_tasks rt t)" for t
    using assms(1) sched_same_task [of rt rt1 t] by (simp add: moved_def tk_same_def)
  moreover have "mset gl2 + mset (ys1 @ ys2) = mset gl"
    using assms by (simp add: moved_def ac_simps) (metis union_assoc union_commute)
  moreover have "sched_same rt rt2" using assms sched_same_trans unfolding moved_def by blast
  ultimately show ?thesis using assms by (auto simp: moved_def)
qed

lemma moved_rotate:
  assumes "gl_rep rt (x # gs)" "rq_holds (p_runnable (rt_ps rt p)) xs" "bottoms rt k" "global_pop rt = (Some x, rt1)"
  shows "moved p rt (x # gs) xs (global_push x rt1) (gs @ [x]) [] k"
proof -
  obtain r where "global_pop rt = (Some x, r)" "gl_rep (global_push x r) (gs @ [x])"
    "sched_same rt (global_push x r)" "rt_ps (global_push x r) = rt_ps rt"
    using rotate_global [OF assms(1)] by blast
  then show ?thesis using assms by (simp add: moved_def bottoms_def)
qed

lemma moved_push:
  assumes "gl_rep rt (x # gs)" "global_pop rt = (Some x, rt1)" "t_fiber (rt_tasks rt1 x) = None"
    "local_push p x rt1 = (VL_OK, rt2)" "rq_holds (p_runnable (rt_ps rt2 p)) (xs @ [x])"
    "\<And>q. q \<noteq> p \<Longrightarrow> rt_ps rt2 q = rt_ps rt1 q" "bottoms rt2 k"
  shows "moved p rt (x # gs) xs (count_local_push p rt2) gs [x] k"
proof -
  have 1: "sched_same rt rt1" "gl_rep rt1 gs" "rt_ps rt1 = rt_ps rt"
    using global_pop_cons [OF assms(1)] assms(2) by auto
  have "gl_rep (count_local_push p rt2) gs"
    using 1(2) local_push_tasks [of p x rt1] assms(4) count_local_push_rep [of p rt2 gs] by simp
  moreover have "sched_same rt (count_local_push p rt2)"
    using local_push_same [of rt1 p x] assms(4) 1(1) count_local_push_same [of rt2 p] sched_same_trans by force
  moreover have "t_fiber (rt_tasks rt x) = None"
    using sched_same_task [OF 1(1), of x] assms(3) by (simp add: tk_same_def)
  ultimately show ?thesis using assms(5-7) 1(3) by (simp add: moved_def bottoms_def)
qed

lemma take_extra_spec:
  assumes "gl_rep rt gl" "rq_holds (p_runnable (rt_ps rt p)) xs" "bottoms rt k"
    "k + (VL_STEAL_BATCH_MAX - pulled) < 2 ^ 64" "n \<le> length gl" "take_extra n p pulled rt = (m, rt')"
  shows "\<exists>gl' ys. moved p rt gl xs rt' gl' ys (k + (VL_STEAL_BATCH_MAX - pulled))"
  using assms
proof (induction n arbitrary: rt gl xs k pulled)
  case 0
  then have "rt' = rt" by simp
  then show ?case using moved_none [OF 0(1-3) le_add1] by blast
next
  case (Suc n)
  note none = moved_none [OF Suc.prems(1-3) le_add1]
  show ?case
  proof (cases "rt_worker_count rt > 1 \<and> pulled < VL_STEAL_BATCH_MAX")
    case False
    then have "rt' = rt" using Suc.prems(6) by (auto split: if_splits)
    then show ?thesis using none by blast
  next
    case go: True
    obtain x gs where gl: "gl = x # gs" using Suc.prems(5) by (cases gl) auto
    obtain rt1 where pop: "global_pop rt = (Some x, rt1)" "gl_rep rt1 gs" "rt_ps rt1 = rt_ps rt"
      using global_pop_cons Suc.prems(1) unfolding gl by blast
    note rot = moved_rotate [OF Suc.prems(1-3) [unfolded gl] pop(1)]
    have k: "k < 2 ^ 64 - 1" using Suc.prems(4) go by linarith
    show ?thesis
    proof (cases "t_fiber (rt_tasks rt1 x) = None")
      case False
      then have rec: "take_extra n p pulled (global_push x rt1) = (m, rt')" using Suc.prems(6) go pop(1) by simp
      obtain gl' ys where "moved p (global_push x rt1) (gs @ [x]) (xs @ []) rt' gl' ys (k + (VL_STEAL_BATCH_MAX - pulled))"
        using Suc.IH [OF _ _ _ Suc.prems(4) _ rec, of "gs @ [x]" xs] rot gl Suc.prems(5) by (auto simp: moved_def)
      then show ?thesis using moved_trans [OF rot] gl by blast
    next
      case fib: True
      show ?thesis
      proof (rule local_push_cases [of rt1 p xs k x])
        show "rq_holds (p_runnable (rt_ps rt1 p)) xs" "bottoms rt1 k" "k < 2 ^ 64 - 1"
          using Suc.prems(2,3) k pop(3) by (simp_all add: bottoms_def)
      next
        assume "local_push p x rt1 = (VL_ERROR_WOULD_BLOCK, rt1)"
        then have "rt' = global_push x rt1" using Suc.prems(6) go pop(1) fib by auto
        then show ?thesis using rot gl bottoms_mono unfolding moved_def by (metis le_add1)
      next
        fix rt2 assume 2: "local_push p x rt1 = (VL_OK, rt2)" "rq_holds (p_runnable (rt_ps rt2 p)) (xs @ [x])"
          "\<And>q. q \<noteq> p \<Longrightarrow> rt_ps rt2 q = rt_ps rt1 q" "bottoms rt2 (Suc k)"
        note mv = moved_push [OF Suc.prems(1) [unfolded gl] pop(1) fib 2]
        have rec: "take_extra n p (pulled + 1) (count_local_push p rt2) = (m, rt')"
          using Suc.prems(6) go pop(1) fib 2(1) by simp
        have eq: "Suc k + (VL_STEAL_BATCH_MAX - (pulled + 1)) = k + (VL_STEAL_BATCH_MAX - pulled)" using go by auto
        have "gl_rep (count_local_push p rt2) gs" "rq_holds (p_runnable (rt_ps (count_local_push p rt2) p)) (xs @ [x])"
          "bottoms (count_local_push p rt2) (Suc k)" "Suc k + (VL_STEAL_BATCH_MAX - (pulled + 1)) < 2 ^ 64" "n \<le> length gs"
          using mv Suc.prems(4,5) eq gl unfolding moved_def by auto
        from Suc.IH [OF this rec, unfolded eq] show ?thesis using moved_trans [OF mv] gl by blast
      qed
    qed
  qed
qed

lemma clear_queued_same:
  assumes "sched_same rt rt0"
  shows "sched_same (clear_queued t rt) (clear_queued t rt0)"
  using assms by (auto simp: sched_same_def rest_same_def tk_same_def clear_queued_def)

lemma take_global_none:
  assumes "gl_rep rt gl" "rq_holds (p_runnable (rt_ps rt p)) xs" "bottoms rt k" "k + VL_STEAL_BATCH_MAX < 2 ^ 64"
    "vl_worker_take_global p rt = (None, rt')"
  shows "\<exists>gl' ys. moved p rt gl xs rt' gl' ys (k + VL_STEAL_BATCH_MAX)"
proof -
  obtain rt1 m rt2 where t: "take_first (tq_length (rt_global_runnable rt)) p rt = (None, rt1)"
      "take_extra (tq_length (rt_global_runnable rt1)) p 0 rt1 = (m, rt2)"
      "rt' = upd_p_stats (\<lambda>s. s\<lparr>ps_global_pulls := ps_global_pulls s + of_nat m\<rparr>) p rt2"
    using assms(5) by (auto simp: vl_worker_take_global_def split: prod.splits option.splits if_splits)
  obtain gl1 where 1: "sched_same rt rt1" "rt_ps rt1 = rt_ps rt" "gl_rep rt1 gl1" "mset gl1 = mset gl"
    using take_first_none [OF assms(1) _ t(1)] gl_length [OF assms(1)] by auto
  then have mv1: "moved p rt gl xs rt1 gl1 [] k" using assms(2,3) by (simp add: moved_def bottoms_def)
  obtain gl' ys where "moved p rt1 gl1 xs rt2 gl' ys (k + VL_STEAL_BATCH_MAX)"
    using take_extra_spec [OF 1(3) _ _ _ _ t(2), of xs k] gl_length [OF 1(3)] 1(2) assms(2-4)
    by (auto simp: bottoms_def)
  then have "moved p rt gl xs rt2 gl' ys (k + VL_STEAL_BATCH_MAX)" using moved_trans [OF mv1, of rt2 gl' ys] by simp
  moreover have "sched_same rt2 rt'" by (rule sched_sameI) (simp_all add: t(3) rest_same_def)
  moreover have "gl_rep rt' gl' = gl_rep rt2 gl'" by (rule same_queue_next) (simp_all add: t(3))
  moreover have "p_runnable (rt_ps rt' q) = p_runnable (rt_ps rt2 q)" for q by (simp add: t(3))
  ultimately have "moved p rt gl xs rt' gl' ys (k + VL_STEAL_BATCH_MAX)"
    using sched_same_trans [of rt rt2 rt'] by (simp add: moved_def bottoms_def)
  then show ?thesis by blast
qed

lemma take_global_some:
  assumes "gl_rep rt gl" "rq_holds (p_runnable (rt_ps rt p)) xs" "bottoms rt k" "k + VL_STEAL_BATCH_MAX < 2 ^ 64"
    "vl_worker_take_global p rt = (Some t, rt')"
  shows "\<exists>gl1 gl' ys. mset gl = add_mset t (mset gl1) \<and> moved p (clear_queued t rt) gl1 xs rt' gl' ys (k + VL_STEAL_BATCH_MAX)
    \<and> (t_fiber (rt_tasks rt t) = None \<or> t_last_p (rt_tasks rt t) = Some p)"
proof -
  obtain rt1 m rt2 where t: "take_first (tq_length (rt_global_runnable rt)) p rt = (Some t, rt1)"
      "take_extra (tq_length (rt_global_runnable rt1)) p 1 rt1 = (m, rt2)"
      "rt' = upd_p_stats (\<lambda>s. s\<lparr>ps_global_pulls := ps_global_pulls s + of_nat m\<rparr>) p rt2"
    using assms(5) by (auto simp: vl_worker_take_global_def split: prod.splits option.splits if_splits)
  obtain rt0 gl1 where 1: "sched_same rt rt0" "rt1 = clear_queued t rt0" "rt_ps rt1 = rt_ps rt" "gl_rep rt1 gl1"
      "mset gl = add_mset t (mset gl1)" "t_fiber (rt_tasks rt t) = None \<or> t_last_p (rt_tasks rt t) = Some p"
    using take_first_some [OF assms(1) _ t(1)] gl_length [OF assms(1)] by auto
  have "k + (VL_STEAL_BATCH_MAX - 1) < 2 ^ 64" using assms(4) by linarith
  then obtain gl' ys where "moved p rt1 gl1 xs rt2 gl' ys (k + (VL_STEAL_BATCH_MAX - 1))"
    using take_extra_spec [OF 1(4) _ _ _ _ t(2), of xs k] gl_length [OF 1(4)] 1(3) assms(2-4)
    by (auto simp: bottoms_def)
  moreover have "sched_same (clear_queued t rt) rt1" using clear_queued_same [OF 1(1)] 1(2) by simp
  moreover have "sched_same rt2 rt'" by (rule sched_sameI) (simp_all add: t(3) rest_same_def)
  moreover have "gl_rep rt' gl' = gl_rep rt2 gl'" by (rule same_queue_next) (simp_all add: t(3))
  moreover have "p_runnable (rt_ps rt' q) = p_runnable (rt_ps rt2 q)" for q by (simp add: t(3))
  moreover have "t_fiber (rt_tasks rt1 x) = t_fiber (rt_tasks (clear_queued t rt) x)" for x
    using sched_same_task [OF \<open>sched_same (clear_queued t rt) rt1\<close>, of x] by (simp add: tk_same_def)
  ultimately have "moved p (clear_queued t rt) gl1 xs rt' gl' ys (k + VL_STEAL_BATCH_MAX)"
    using sched_same_trans [of "clear_queued t rt" rt1 rt2] sched_same_trans [of "clear_queued t rt" rt2 rt'] 1(3)
      bottoms_mono [of rt2 "k + (VL_STEAL_BATCH_MAX - 1)" "k + VL_STEAL_BATCH_MAX"]
    by (auto simp: moved_def bottoms_def)
  then show ?thesis using 1(5,6) by blast
qed

end
