(* ===== verification/Runtime_System.thy ===== *)
theory Runtime_System
  imports Worker_Facts
begin

text \<open>
  All worker threads of a runtime together.  A worker is at one of the program points \<open>wpc\<close>, which
  are the places of \<^verbatim>\<open>worker.c\<close> between two critical sections or accesses to a run queue; a step of
  the system executes one section of one worker, or an operation of a task, of the thread that
  owns the runtime, or of anything else that wakes a task.  An access to a run queue is one step,
  which is what the theory \<open>Chase_Lev\<close> shows of the lock-free accesses.
\<close>

section \<open>Program points\<close>

datatype wpc =
    WOut                     \<comment> \<open>not in \<^verbatim>\<open>vl_worker_run\<close>\<close>
  | WTop                     \<comment> \<open>at the test of \<^verbatim>\<open>running\<close>\<close>
  | WTimers                  \<comment> \<open>the run goes on, about to expire timers\<close>
  | WPoll                    \<comment> \<open>timers have been expired\<close>
  | WNext                    \<comment> \<open>about to look for a task\<close>
  | WPopped tid              \<comment> \<open>has a task whose queued flag is still set\<close>
  | WGlobal                  \<comment> \<open>the local queue was empty\<close>
  | WSteal nat               \<comment> \<open>about to steal from the processor at this distance\<close>
  | WThief nat "tid list"    \<comment> \<open>in the batch loop, with what has been stolen\<close>
  | WLoot "tid list"         \<comment> \<open>about to distribute the stolen tasks\<close>
  | WHas tid                 \<comment> \<open>at the start of \<^verbatim>\<open>vl_worker_execute\<close>\<close>
  | WCancel                  \<comment> \<open>has cancelled its task instead of running it\<close>
  | WExec tid                \<comment> \<open>has taken the task into execution\<close>
  | WRun tid                 \<comment> \<open>the fiber of the task runs\<close>
  | WFin tid fiber_result    \<comment> \<open>control came back from the fiber\<close>
  | WIdle                    \<comment> \<open>at the start of \<^verbatim>\<open>vl_worker_idle\<close>\<close>
  | WWait bool               \<comment> \<open>idle, waiting or about to wake the others\<close>

text \<open>The tasks a worker holds: still marked queued, taken but not yet executing, executing.\<close>

fun held :: "wpc \<Rightarrow> tid list" where
  "held (WPopped t) = [t]"
| "held (WThief offset acc) = acc"
| "held (WLoot ts) = ts"
| "held _ = []"

fun mine :: "wpc \<Rightarrow> tid list" where
  "mine (WHas t) = [t]"
| "mine _ = []"

fun exec_of :: "wpc \<Rightarrow> tid list" where
  "exec_of (WExec t) = [t]"
| "exec_of (WRun t) = [t]"
| "exec_of (WFin t r) = [t]"
| "exec_of _ = []"

section \<open>Steps\<close>

text \<open>The steps of the worker of processor \<open>p\<close>.\<close>

inductive worker_step :: "pid \<Rightarrow> vl_runtime_impl \<Rightarrow> wpc \<Rightarrow> vl_runtime_impl \<Rightarrow> wpc \<Rightarrow> bool" for p where
  enter: "rt_running rt \<Longrightarrow> worker_step p rt WOut (set_current p None rt) WTop"
| leave: "\<not> rt_running rt \<Longrightarrow> worker_step p rt WTop rt WOut"
| continue: "rt_running rt \<Longrightarrow> worker_step p rt WTop rt WTimers"
| expire: "worker_step p rt WTimers (vl_timers_expire (Some p) now rt) WPoll"
| complete: "p = 0 \<Longrightarrow> worker_step p rt WPoll (snd (vl_task_complete_io task ok rt)) WPoll"
| polled: "worker_step p rt WPoll rt WNext"
| pop: "local_pop p rt = (Some t, rt') \<Longrightarrow> worker_step p rt WNext rt' (WPopped t)"
| pop_none: "local_pop p rt = (None, rt') \<Longrightarrow> worker_step p rt WNext rt' WGlobal"
| claim: "worker_step p rt (WPopped t) (clear_queued t rt) (WHas t)"
| global: "vl_worker_take_global p rt = (Some t, rt') \<Longrightarrow> worker_step p rt WGlobal rt' (WHas t)"
| global_none: "vl_worker_take_global p rt = (None, rt') \<Longrightarrow> worker_step p rt WGlobal rt' (WSteal 1)"
| attempt: "offset < rt_worker_count rt \<Longrightarrow> worker_step p rt (WSteal offset) (steal_attempt p rt) (WThief offset [])"
| no_victim: "\<not> offset < rt_worker_count rt \<Longrightarrow> worker_step p rt (WSteal offset) rt WIdle"
| steal: "length acc < VL_STEAL_BATCH_MAX \<Longrightarrow> victim = victim_of p offset rt \<Longrightarrow>
    vl_run_queue_steal (p_runnable (rt_ps rt victim)) = (Some t, q) \<Longrightarrow>
    worker_step p rt (WThief offset acc) (upd_p (\<lambda>P. P\<lparr>p_runnable := q\<rparr>) victim rt) (WThief offset (acc @ [t]))"
| steal_fails: "worker_step p rt (WThief offset []) rt (WSteal (offset + 1))"
| steal_ends: "acc \<noteq> [] \<Longrightarrow> worker_step p rt (WThief offset acc) rt (WLoot acc)"
| distribute: "worker_step p rt (WLoot (t # ts)) (steal_distribute p (t # ts) rt) (WPopped t)"
| skip: "execute_begin p t rt = (Begin_Skip, rt') \<Longrightarrow> worker_step p rt (WHas t) rt' WTop"
| cancel: "execute_begin p t rt = (Begin_Cancelled, rt') \<Longrightarrow> worker_step p rt (WHas t) rt' WCancel"
| cancelled: "worker_step p rt WCancel (execute_cancelled rt) WTop"
| start: "execute_begin p t rt = (Begin_Run, rt') \<Longrightarrow> worker_step p rt (WHas t) rt' (WExec t)"
| no_fiber: "execute_fiber fresh t rt = (False, rt') \<Longrightarrow> worker_step p rt (WExec t) rt' (WFin t Resume_Error)"
| resume: "execute_fiber fresh t rt = (True, rt') \<Longrightarrow>
    worker_step p rt (WExec t) (set_current p (Some t) (count_switch rt')) (WRun t)"
| suspended: "worker_step p rt (WRun t) (set_current p None rt) (WFin t Fiber_Suspended)"
| returned: "task_state rt t = VL_TASK_RUNNING \<Longrightarrow> r \<in> {Fiber_Done, Resume_Error} \<Longrightarrow>
    worker_step p rt (WRun t) (set_current p None rt) (WFin t r)"
| finish: "worker_step p rt (WFin t r) (execute_finish p t r rt) WTop"
| idle_stop: "idle_enter now p rt = (None, rt') \<Longrightarrow> worker_step p rt WIdle rt' WTop"
| idle: "idle_enter now p rt = (Some (w, timeout), rt') \<Longrightarrow> worker_step p rt WIdle rt' (WWait w)"
| idle_end: "worker_step p rt (WWait w)
    (idle_leave p (if w then vl_worker_drain_eventfd p rt else vl_runtime_wake_workers rt)) WTop"

text \<open>
  The whole system.  \<open>sy_dropped\<close> is a ghost: the runnable tasks a worker let go of because the run
  had been stopped.  A task that runs may park or yield; \<open>other\<close> is everything that leaves the
  scheduler's state alone.
\<close>

record sys =
  sy_rt :: vl_runtime_impl
  sy_pc :: "pid \<Rightarrow> wpc"
  sy_dropped :: "tid set"

definition drops :: "vl_runtime_impl \<Rightarrow> wpc \<Rightarrow> wpc \<Rightarrow> tid set" where
  "drops rt pc pc' = (if pc' = WTop then {t \<in> set (mine pc). task_state rt t = VL_TASK_RUNNABLE} else {})"

inductive sys_step :: "sys \<Rightarrow> sys \<Rightarrow> bool" where
  worker: "p < rt_worker_count (sy_rt s) \<Longrightarrow> worker_step p (sy_rt s) (sy_pc s p) rt' pc' \<Longrightarrow>
    sys_step s (s\<lparr>sy_rt := rt', sy_pc := (sy_pc s)(p := pc'), sy_dropped := sy_dropped s \<union> drops (sy_rt s) (sy_pc s p) pc'\<rparr>)"
| run: "sy_pc s 0 = WOut \<Longrightarrow> 0 < rt_worker_count (sy_rt s) \<Longrightarrow> run_begin True TlsNull (Some (sy_rt s)) = Inr rt' \<Longrightarrow>
    sys_step s (s\<lparr>sy_rt := set_current 0 None rt', sy_pc := (sy_pc s)(0 := WTop)\<rparr>)"
| run_ends: "sy_pc s 0 = WOut \<Longrightarrow> rt_active_workers (sy_rt s) = 0 \<Longrightarrow>
    sys_step s (s\<lparr>sy_rt := snd (run_end (sy_rt s))\<rparr>)"
| spawn: "vl_spawn is_owner tls (Some t) fn_ok (Some (sy_rt s)) = (Some t, Some rt') \<Longrightarrow>
    t \<notin> set (rt_all_tasks (sy_rt s)) \<Longrightarrow> sys_step s (s\<lparr>sy_rt := rt'\<rparr>)"
| park: "p < rt_worker_count (sy_rt s) \<Longrightarrow> sy_pc s p = WRun t \<Longrightarrow> task_state (sy_rt s) t = VL_TASK_RUNNING \<Longrightarrow>
    st \<in> {VL_TASK_RUNNABLE, VL_TASK_WAITING, VL_TASK_SLEEPING} \<Longrightarrow>
    sys_step s (s\<lparr>sy_rt := set_state st t (sy_rt s)\<rparr>)"
| wake: "sys_step s (s\<lparr>sy_rt := vl_task_wake_locked t (sy_rt s)\<rparr>)"
| shutdown: "vl_runtime_request_shutdown (Some (sy_rt s)) = Some rt' \<Longrightarrow> sys_step s (s\<lparr>sy_rt := rt'\<rparr>)"
| other: "sched_same (sy_rt s) rt' \<Longrightarrow> queues_same (sy_rt s) rt' \<Longrightarrow> sys_step s (s\<lparr>sy_rt := rt'\<rparr>)"

section \<open>The invariant\<close>

text \<open>Where the tasks are: in the global queue \<open>gl\<close>, in the local queues \<open>ll\<close>, with a worker.\<close>

abbreviation items :: "(pid \<Rightarrow> tid list) \<Rightarrow> (pid \<Rightarrow> wpc) \<Rightarrow> pid \<Rightarrow> tid list" where
  "items ll pc p \<equiv> ll p @ held (pc p) @ mine (pc p) @ exec_of (pc p)"

definition placed :: "nat \<Rightarrow> tid list \<Rightarrow> (pid \<Rightarrow> tid list) \<Rightarrow> (pid \<Rightarrow> wpc) \<Rightarrow> bool" where
  "placed n gl ll pc \<longleftrightarrow> distinct gl \<and> (\<forall>p < n. distinct (gl @ items ll pc p))
     \<and> (\<forall>p < n. \<forall>q < n. p \<noteq> q \<longrightarrow> set (items ll pc p) \<inter> set (items ll pc q) = {})"

definition queued_in :: "nat \<Rightarrow> tid list \<Rightarrow> (pid \<Rightarrow> tid list) \<Rightarrow> (pid \<Rightarrow> wpc) \<Rightarrow> tid \<Rightarrow> bool" where
  "queued_in n gl ll pc t \<longleftrightarrow> t \<in> set gl \<or> (\<exists>p < n. t \<in> set (ll p) \<or> t \<in> set (held (pc p)))"

definition taken_in :: "nat \<Rightarrow> (pid \<Rightarrow> wpc) \<Rightarrow> tid \<Rightarrow> bool" where
  "taken_in n pc t \<longleftrightarrow> (\<exists>p < n. t \<in> set (mine (pc p)))"

definition executed_in :: "nat \<Rightarrow> (pid \<Rightarrow> wpc) \<Rightarrow> tid \<Rightarrow> bool" where
  "executed_in n pc t \<longleftrightarrow> (\<exists>p < n. t \<in> set (exec_of (pc p)))"

text \<open>
  The scheduling fields of one task, given where it is: \<open>q\<close> in a queue or held as queued, \<open>h\<close> taken by
  a worker, \<open>e\<close> executing, \<open>a\<close> a task of the runtime, \<open>d\<close> dropped.
\<close>

definition task_ok :: "vl_task \<Rightarrow> bool \<Rightarrow> bool \<Rightarrow> bool \<Rightarrow> bool \<Rightarrow> bool \<Rightarrow> bool" where
  "task_ok tk q h e a d \<longleftrightarrow> t_queued tk = q \<and> t_executing tk = e
     \<and> (q \<or> h \<longrightarrow> t_state tk = VL_TASK_RUNNABLE \<or> t_state tk = VL_TASK_CANCELLED)
     \<and> (e \<longrightarrow> t_state tk \<in> {VL_TASK_RUNNING, VL_TASK_RUNNABLE, VL_TASK_WAITING, VL_TASK_SLEEPING})
     \<and> (q \<or> h \<or> e \<longrightarrow> a) \<and> (a \<and> t_state tk = VL_TASK_RUNNABLE \<and> \<not> d \<longrightarrow> q \<or> h \<or> e)
     \<and> (t_wake_pending tk \<longrightarrow> e \<and> (t_state tk = VL_TASK_WAITING \<or> t_state tk = VL_TASK_SLEEPING))
     \<and> (t_state tk = VL_TASK_RUNNING \<longrightarrow> e) \<and> (a \<longleftrightarrow> t_state tk \<noteq> VL_TASK_NEW)"

definition tasks_ok ::
  "vl_runtime_impl \<Rightarrow> tid list \<Rightarrow> (pid \<Rightarrow> tid list) \<Rightarrow> (pid \<Rightarrow> wpc) \<Rightarrow> tid set \<Rightarrow> bool" where
  "tasks_ok rt gl ll pc d \<longleftrightarrow> (\<forall>t. task_ok (rt_tasks rt t) (queued_in (rt_worker_count rt) gl ll pc t)
     (taken_in (rt_worker_count rt) pc t) (executed_in (rt_worker_count rt) pc t) (t \<in> set (rt_all_tasks rt)) (t \<in> d))"

text \<open>
  One worker: its local and held tasks have no fiber, the task it has taken has none or one of this
  processor, and the task it executes was last run here.
\<close>

definition current_of :: "wpc \<Rightarrow> tid option" where
  "current_of pc = (case pc of WRun t \<Rightarrow> Some t | _ \<Rightarrow> None)"

definition running_at :: "wpc \<Rightarrow> tid list" where
  "running_at pc = (case pc of WExec t \<Rightarrow> [t] | WFin t Resume_Error \<Rightarrow> [t] | WFin t Fiber_Done \<Rightarrow> [t] | _ \<Rightarrow> [])"

definition worker_ok :: "task_store \<Rightarrow> vl_p \<Rightarrow> tid list \<Rightarrow> pid \<Rightarrow> wpc \<Rightarrow> bool" where
  "worker_ok ts P l p pc \<longleftrightarrow> (\<forall>t \<in> set (l @ held pc). t_fiber (ts t) = None)
     \<and> (\<forall>t \<in> set (mine pc). t_fiber (ts t) = None \<or> t_last_p (ts t) = Some p)
     \<and> (\<forall>t \<in> set (exec_of pc). t_last_p (ts t) = Some p) \<and> (\<forall>t \<in> set (running_at pc). t_state (ts t) = VL_TASK_RUNNING)
     \<and> p_current P = current_of pc \<and> (p_idle P \<longrightarrow> (\<exists>w. pc = WWait w))"

definition workers_ok :: "vl_runtime_impl \<Rightarrow> (pid \<Rightarrow> tid list) \<Rightarrow> (pid \<Rightarrow> wpc) \<Rightarrow> bool" where
  "workers_ok rt ll pc \<longleftrightarrow> (\<forall>p < rt_worker_count rt. worker_ok (rt_tasks rt) (rt_ps rt p) (ll p) p (pc p))"

abbreviation terminal :: "vl_task_state_t \<Rightarrow> bool" where
  "terminal st \<equiv> st = VL_TASK_DONE \<or> st = VL_TASK_CANCELLED"

definition counts_ok :: "vl_runtime_impl \<Rightarrow> (pid \<Rightarrow> wpc) \<Rightarrow> bool" where
  "counts_ok rt pc \<longleftrightarrow> distinct (rt_all_tasks rt)
     \<and> rt_live_tasks rt = card {t \<in> set (rt_all_tasks rt). \<not> terminal (task_state rt t)}
     \<and> rt_active_workers rt = card {p. p < rt_worker_count rt \<and> exec_of (pc p) \<noteq> []}
     \<and> rt_idle_workers rt \<le> card {p. p < rt_worker_count rt \<and> p_idle (rt_ps rt p)}"

definition reps :: "vl_runtime_impl \<Rightarrow> tid list \<Rightarrow> (pid \<Rightarrow> tid list) \<Rightarrow> bool" where
  "reps rt gl ll \<longleftrightarrow> gl_rep rt gl \<and> (\<forall>p < rt_worker_count rt. rq_holds (p_runnable (rt_ps rt p)) (ll p))"

definition sys_inv :: "vl_runtime_impl \<Rightarrow> (pid \<Rightarrow> wpc) \<Rightarrow> tid set \<Rightarrow> tid list \<Rightarrow> (pid \<Rightarrow> tid list) \<Rightarrow> bool" where
  "sys_inv rt pc d gl ll \<longleftrightarrow> 0 < rt_worker_count rt \<and> reps rt gl ll \<and> placed (rt_worker_count rt) gl ll pc \<and> tasks_ok rt gl ll pc d
     \<and> workers_ok rt ll pc \<and> counts_ok rt pc"

section \<open>Local reasoning\<close>

text \<open>
  A step of a worker concerns the global queue, the tasks of that worker, and possibly tasks \<open>N\<close> that
  were nowhere.  Nothing has to be said about the rest.
\<close>

abbreviation scope :: "tid list \<Rightarrow> (pid \<Rightarrow> tid list) \<Rightarrow> (pid \<Rightarrow> wpc) \<Rightarrow> pid \<Rightarrow> tid set" where
  "scope gl ll pc p \<equiv> set gl \<union> set (items ll pc p)"

definition nowhere :: "nat \<Rightarrow> (pid \<Rightarrow> tid list) \<Rightarrow> (pid \<Rightarrow> wpc) \<Rightarrow> tid set \<Rightarrow> bool" where
  "nowhere n ll pc N \<longleftrightarrow> (\<forall>t \<in> N. \<forall>q < n. t \<notin> set (items ll pc q))"

definition elsewhere_same :: "pid \<Rightarrow> (pid \<Rightarrow> 'a) \<Rightarrow> (pid \<Rightarrow> 'a) \<Rightarrow> bool" where
  "elsewhere_same p f f' \<longleftrightarrow> (\<forall>q. q \<noteq> p \<longrightarrow> f' q = f q)"

lemma elsewhere_upd [simp]: "elsewhere_same p f (f(p := x))" "elsewhere_same p f f"
  by (simp_all add: elsewhere_same_def)

lemma elsewhere_out:
  assumes "placed n gl ll pc" "p < n" "nowhere n ll pc N" "t \<in> scope gl ll pc p \<union> N" "q < n" "q \<noteq> p"
  shows "t \<notin> set (items ll pc q)"
proof -
  have "t \<notin> set (items ll pc q)" if "t \<in> set gl"
    using assms(1,5) that unfolding placed_def distinct_append by blast
  moreover have "t \<notin> set (items ll pc q)" if "t \<in> set (items ll pc p)"
    using assms(1,2,5,6) that unfolding placed_def by blast
  ultimately show ?thesis using assms(3,4,5) by (auto simp: nowhere_def)
qed

lemma placed_step:
  assumes "placed n gl ll pc" "p < n" "nowhere n ll pc N"
    "elsewhere_same p ll ll'" "elsewhere_same p pc pc'"
    "distinct (gl' @ items ll' pc' p)" "scope gl' ll' pc' p \<subseteq> scope gl ll pc p \<union> N"
  shows "placed n gl' ll' pc'"
proof -
  have eq: "items ll' pc' q = items ll pc q" if "q \<noteq> p" for q
    using assms(4,5) that by (simp add: elsewhere_same_def)
  have out: "set (items ll pc q) \<inter> scope gl' ll' pc' p = {}" if "q < n" "q \<noteq> p" for q
    using elsewhere_out [OF assms(1-3) _ that] assms(7) by blast
  have "distinct (items ll pc q)" if "q < n" for q
    using assms(1) that by (simp add: placed_def)
  then have "distinct (gl' @ items ll' pc' q)" if "q < n" for q
    using out [OF that] eq [of q] assms(6) that by (cases "q = p") (auto simp: distinct_append)
  moreover have "set (items ll' pc' a) \<inter> set (items ll' pc' b) = {}" if "a < n" "b < n" "a \<noteq> b" for a b
  proof -
    have dis: "set (items ll' pc' q) \<inter> set (items ll' pc' p) = {}" if "q < n" "q \<noteq> p" for q
      unfolding eq [OF that(2)] using out [OF that] by (simp only: Int_Un_distrib Un_empty)
    consider "a = p" | "b = p" | "a \<noteq> p" "b \<noteq> p" by blast
    then show ?thesis
    proof cases
      case 1
      then have "b \<noteq> p" using that(3) by blast
      from dis [OF that(2) this] show ?thesis unfolding 1 by (simp only: Int_commute)
    next
      case 2
      then have "a \<noteq> p" using that(3) by blast
      from dis [OF that(1) this] show ?thesis unfolding 2 .
    next
      case 3
      have "set (items ll pc a) \<inter> set (items ll pc b) = {}" using assms(1) that unfolding placed_def by blast
      then show ?thesis unfolding eq [OF 3(1)] eq [OF 3(2)] .
    qed
  qed
  ultimately show ?thesis using assms(6) by (simp add: placed_def)
qed

text \<open>Where a task of the scope is, seen from this worker.\<close>

lemma places_at:
  assumes "placed n gl ll pc" "p < n" "nowhere n ll pc N" "t \<in> scope gl ll pc p \<union> N"
    "elsewhere_same p ll ll'" "elsewhere_same p pc pc'"
  shows "(queued_in n gl' ll' pc' t \<longleftrightarrow> t \<in> set gl' \<or> t \<in> set (ll' p) \<or> t \<in> set (held (pc' p)))
    \<and> (taken_in n pc' t \<longleftrightarrow> t \<in> set (mine (pc' p))) \<and> (executed_in n pc' t \<longleftrightarrow> t \<in> set (exec_of (pc' p)))"
proof -
  have out: "t \<notin> set (ll' q) \<and> t \<notin> set (held (pc' q)) \<and> t \<notin> set (mine (pc' q)) \<and> t \<notin> set (exec_of (pc' q))"
    if "q < n" "q \<noteq> p" for q
    using elsewhere_out [OF assms(1-4) that] assms(5,6) that by (simp add: elsewhere_same_def)
  have at: "(\<exists>q < n. P q) \<longleftrightarrow> P p" if "\<And>q. q < n \<Longrightarrow> q \<noteq> p \<Longrightarrow> \<not> P q" for P
    using that assms(2) by blast
  show ?thesis
    unfolding queued_in_def taken_in_def executed_in_def using out by (intro conjI; subst at) auto
qed

lemma places_out:
  assumes "p < n" "elsewhere_same p ll ll'" "elsewhere_same p pc pc'" "t \<notin> scope gl ll pc p" "t \<notin> scope gl' ll' pc' p"
  shows "queued_in n gl' ll' pc' t = queued_in n gl ll pc t" "taken_in n pc' t = taken_in n pc t"
    "executed_in n pc' t = executed_in n pc t"
proof -
  have eq: "(\<exists>q < n. P q) \<longleftrightarrow> (\<exists>q < n. Q q)" if "\<And>q. q \<noteq> p \<Longrightarrow> P q = Q q" "\<not> P p" "\<not> Q p" for P Q
    using that by metis
  show "queued_in n gl' ll' pc' t = queued_in n gl ll pc t"
    unfolding queued_in_def using assms by (intro arg_cong2 [where f = "(\<or>)"] eq) (auto simp: elsewhere_same_def)
  show "taken_in n pc' t = taken_in n pc t" "executed_in n pc' t = executed_in n pc t"
    unfolding taken_in_def executed_in_def using assms by (intro eq; auto simp: elsewhere_same_def)+
qed

lemma task_ok_cong: "tk_same a b \<Longrightarrow> task_ok b q h e x d = task_ok a q h e x d"
  by (simp add: task_ok_def tk_same_def)

lemma tasks_at:
  assumes "placed (rt_worker_count rt) gl ll pc" "tasks_ok rt gl ll pc d" "p < rt_worker_count rt" "t \<in> scope gl ll pc p"
  shows "task_ok (rt_tasks rt t) (t \<in> set gl \<or> t \<in> set (ll p) \<or> t \<in> set (held (pc p))) (t \<in> set (mine (pc p)))
    (t \<in> set (exec_of (pc p))) (t \<in> set (rt_all_tasks rt)) (t \<in> d)"
proof -
  have "nowhere (rt_worker_count rt) ll pc {}" by (simp add: nowhere_def)
  from places_at [OF assms(1,3) this, of t ll pc gl] assms(4)
  have "(queued_in (rt_worker_count rt) gl ll pc t \<longleftrightarrow> t \<in> set gl \<or> t \<in> set (ll p) \<or> t \<in> set (held (pc p)))
    \<and> (taken_in (rt_worker_count rt) pc t \<longleftrightarrow> t \<in> set (mine (pc p)))
    \<and> (executed_in (rt_worker_count rt) pc t \<longleftrightarrow> t \<in> set (exec_of (pc p)))" by simp
  moreover have "task_ok (rt_tasks rt t) (queued_in (rt_worker_count rt) gl ll pc t) (taken_in (rt_worker_count rt) pc t)
    (executed_in (rt_worker_count rt) pc t) (t \<in> set (rt_all_tasks rt)) (t \<in> d)"
    using assms(2) unfolding tasks_ok_def by blast
  ultimately show ?thesis by (simp only:)
qed

lemma worker_ok_cong:
  assumes "\<And>t. t \<in> set (l @ held pc @ mine pc @ exec_of pc) \<Longrightarrow> tk_same (ts t) (ts' t)"
    "p_current P' = p_current P" "p_idle P' = p_idle P" "worker_ok ts P l p pc"
  shows "worker_ok ts' P' l p pc"
proof -
  have "set (running_at pc) \<subseteq> set (exec_of pc)" by (auto simp: running_at_def split: wpc.splits fiber_result.splits)
  then show ?thesis using assms by (auto simp: worker_ok_def tk_same_def)
qed

text \<open>The three parts of the invariant that speak about places, after a step of the worker of \<open>p\<close>.\<close>

lemma local_step:
  assumes inv: "placed (rt_worker_count rt) gl ll pc" "tasks_ok rt gl ll pc d" "workers_ok rt ll pc"
    and p: "p < rt_worker_count rt" "nowhere (rt_worker_count rt) ll pc N"
    and same: "elsewhere_same p ll ll'" "elsewhere_same p pc pc'" "rt_worker_count rt' = rt_worker_count rt"
      "\<And>q. q \<noteq> p \<Longrightarrow> p_current (rt_ps rt' q) = p_current (rt_ps rt q) \<and> p_idle (rt_ps rt' q) = p_idle (rt_ps rt q)"
    and placed': "distinct (gl' @ items ll' pc' p)" "scope gl' ll' pc' p \<subseteq> scope gl ll pc p \<union> N"
    and out: "\<And>t. t \<notin> scope gl ll pc p \<union> N \<Longrightarrow> tk_same (rt_tasks rt t) (rt_tasks rt' t)
        \<and> (t \<in> set (rt_all_tasks rt') \<longleftrightarrow> t \<in> set (rt_all_tasks rt)) \<and> (t \<in> d' \<longleftrightarrow> t \<in> d)"
    and inside: "\<And>t. t \<in> scope gl ll pc p \<union> N \<Longrightarrow>
        task_ok (rt_tasks rt' t) (t \<in> set gl' \<or> t \<in> set (ll' p) \<or> t \<in> set (held (pc' p))) (t \<in> set (mine (pc' p)))
          (t \<in> set (exec_of (pc' p))) (t \<in> set (rt_all_tasks rt')) (t \<in> d')"
    and worker': "worker_ok (rt_tasks rt') (rt_ps rt' p) (ll' p) p (pc' p)"
  shows "placed (rt_worker_count rt') gl' ll' pc' \<and> tasks_ok rt' gl' ll' pc' d' \<and> workers_ok rt' ll' pc'"
proof (intro conjI)
  show "placed (rt_worker_count rt') gl' ll' pc'"
    using placed_step [OF inv(1) p same(1,2) placed'] same(3) by simp
  show "tasks_ok rt' gl' ll' pc' d'"
    unfolding tasks_ok_def
  proof
    fix t
    show "task_ok (rt_tasks rt' t) (queued_in (rt_worker_count rt') gl' ll' pc' t) (taken_in (rt_worker_count rt') pc' t)
        (executed_in (rt_worker_count rt') pc' t) (t \<in> set (rt_all_tasks rt')) (t \<in> d')"
    proof (cases "t \<in> scope gl ll pc p \<union> N")
      case True
      then show ?thesis using inside [OF True] places_at [OF inv(1) p True same(1,2), of gl'] same(3) by simp
    next
      case False
      then have "t \<notin> scope gl ll pc p" "t \<notin> scope gl' ll' pc' p" using placed'(2) by auto
      note places_out [OF p(1) same(1,2) this]
      then show ?thesis using inv(2) out [OF False] task_ok_cong [of "rt_tasks rt t" "rt_tasks rt' t"] same(3)
        by (simp add: tasks_ok_def)
    qed
  qed
  show "workers_ok rt' ll' pc'"
    unfolding workers_ok_def
  proof (intro allI impI)
    fix q assume q: "q < rt_worker_count rt'"
    show "worker_ok (rt_tasks rt') (rt_ps rt' q) (ll' q) q (pc' q)"
    proof (cases "q = p")
      case False
      have "worker_ok (rt_tasks rt) (rt_ps rt q) (ll q) q (pc q)" using inv(3) q same(3) by (simp add: workers_ok_def)
      moreover have "tk_same (rt_tasks rt t) (rt_tasks rt' t)" if "t \<in> set (items ll pc q)" for t
        using that elsewhere_out [OF inv(1) p _ _ False] q same(3) out [of t] by auto
      ultimately show ?thesis
        using worker_ok_cong [of "ll q" "pc q" "rt_tasks rt" "rt_tasks rt'" "rt_ps rt' q" "rt_ps rt q" q] same False
        by (simp add: elsewhere_same_def)
    qed (use worker' in simp)
  qed
qed

section \<open>Steps that move nothing\<close>

lemma counts_same:
  assumes "counts_ok rt pc" "rt_all_tasks rt' = rt_all_tasks rt" "rt_worker_count rt' = rt_worker_count rt"
    "rt_live_tasks rt' = rt_live_tasks rt" "rt_active_workers rt' = rt_active_workers rt"
    "\<And>t. t \<in> set (rt_all_tasks rt) \<Longrightarrow> terminal (task_state rt' t) = terminal (task_state rt t)"
    "\<And>q. q < rt_worker_count rt \<Longrightarrow> (exec_of (pc' q) = []) = (exec_of (pc q) = [])"
    "rt_idle_workers rt' \<le> card {q. q < rt_worker_count rt \<and> p_idle (rt_ps rt' q)}"
  shows "counts_ok rt' pc'"
proof -
  have "{t \<in> set (rt_all_tasks rt'). \<not> terminal (task_state rt' t)} = {t \<in> set (rt_all_tasks rt). \<not> terminal (task_state rt t)}"
    using assms(2,6) by auto
  moreover have "{q. q < rt_worker_count rt' \<and> exec_of (pc' q) \<noteq> []} = {q. q < rt_worker_count rt \<and> exec_of (pc q) \<noteq> []}"
    using assms(3,7) by auto
  ultimately show ?thesis using assms(1-5,8) by (simp only: counts_ok_def)
qed

lemma reps_same:
  assumes "reps rt gl ll" "queues_same rt rt'" "rt_worker_count rt' = rt_worker_count rt"
  shows "reps rt' gl ll"
  using assms by (simp add: reps_def queues_same_def)

text \<open>The tasks, the queues and what the worker holds stay; its program point and the rest may change.\<close>

lemma inv_worker:
  assumes inv: "sys_inv rt pc d gl ll" and p: "p < rt_worker_count rt" and q: "queues_same rt rt'"
    and same: "\<And>t. tk_same (rt_tasks rt t) (rt_tasks rt' t)" "rt_all_tasks rt' = rt_all_tasks rt"
      "rt_worker_count rt' = rt_worker_count rt" "rt_live_tasks rt' = rt_live_tasks rt"
      "rt_active_workers rt' = rt_active_workers rt"
      "\<And>q. q \<noteq> p \<Longrightarrow> p_current (rt_ps rt' q) = p_current (rt_ps rt q) \<and> p_idle (rt_ps rt' q) = p_idle (rt_ps rt q)"
    and idle: "rt_idle_workers rt' \<le> card {q. q < rt_worker_count rt \<and> p_idle (rt_ps rt' q)}"
    and at: "held pc' = held (pc p)" "mine pc' = mine (pc p)" "exec_of pc' = exec_of (pc p)"
      "worker_ok (rt_tasks rt') (rt_ps rt' p) (ll p) p pc'"
  shows "sys_inv rt' (pc(p := pc')) d gl ll"
proof -
  let ?pc = "pc(p := pc')"
  have parts: "reps rt gl ll" "placed (rt_worker_count rt) gl ll pc" "tasks_ok rt gl ll pc d" "workers_ok rt ll pc"
      "counts_ok rt pc" "0 < rt_worker_count rt"
    using inv by (simp_all add: sys_inv_def)
  have it: "items ll ?pc q = items ll pc q" for q using at by simp
  have "placed (rt_worker_count rt') gl ll ?pc \<and> tasks_ok rt' gl ll ?pc d \<and> workers_ok rt' ll ?pc"
  proof (rule local_step [OF parts(2-4) p, of "{}"])
    show "distinct (gl @ items ll ?pc p)" using parts(2) p unfolding it placed_def by blast
    fix t assume "t \<in> scope gl ll pc p \<union> {}"
    then have "task_ok (rt_tasks rt t) (t \<in> set gl \<or> t \<in> set (ll p) \<or> t \<in> set (held (pc p))) (t \<in> set (mine (pc p)))
      (t \<in> set (exec_of (pc p))) (t \<in> set (rt_all_tasks rt)) (t \<in> d)"
      using tasks_at [OF parts(2,3) p] by (simp only: Un_empty_right)
    then show "task_ok (rt_tasks rt' t) (t \<in> set gl \<or> t \<in> set (ll p) \<or> t \<in> set (held (?pc p))) (t \<in> set (mine (?pc p)))
      (t \<in> set (exec_of (?pc p))) (t \<in> set (rt_all_tasks rt')) (t \<in> d)"
      using task_ok_cong [OF same(1)] at same(2) by simp
  qed (use same at in \<open>auto simp: nowhere_def\<close>)
  moreover have "counts_ok rt' ?pc"
    by (rule counts_same [OF parts(5) same(2-5)]) (use same(1) at idle in \<open>auto simp: tk_same_def\<close>)
  ultimately show ?thesis using reps_same [OF parts(1) q same(3)] parts(6) same(3) by (simp add: sys_inv_def)
qed

lemma inv_other:
  assumes inv: "sys_inv rt pc d gl ll" and q: "queues_same rt rt'"
    and same: "\<And>t. tk_same (rt_tasks rt t) (rt_tasks rt' t)" "rt_all_tasks rt' = rt_all_tasks rt"
      "rt_worker_count rt' = rt_worker_count rt" "rt_live_tasks rt' = rt_live_tasks rt"
      "rt_active_workers rt' = rt_active_workers rt" "rt_idle_workers rt' \<le> rt_idle_workers rt"
      "\<And>q. p_current (rt_ps rt' q) = p_current (rt_ps rt q) \<and> p_idle (rt_ps rt' q) = p_idle (rt_ps rt q)"
  shows "sys_inv rt' pc d gl ll"
proof -
  have p: "0 < rt_worker_count rt" and w: "workers_ok rt ll pc" and c: "counts_ok rt pc"
    using inv by (simp_all add: sys_inv_def)
  have "sys_inv rt' (pc(0 := pc 0)) d gl ll"
  proof (rule inv_worker [OF inv p q same(1-5)])
    have "worker_ok (rt_tasks rt) (rt_ps rt 0) (ll 0) 0 (pc 0)" using w p by (simp add: workers_ok_def)
    then show "worker_ok (rt_tasks rt') (rt_ps rt' 0) (ll 0) 0 (pc 0)"
      using worker_ok_cong [of "ll 0" "pc 0" "rt_tasks rt" "rt_tasks rt'" "rt_ps rt' 0" "rt_ps rt 0" 0] same by simp
  qed (use same c in \<open>auto simp: counts_ok_def\<close>)
  then show ?thesis by simp
qed

lemma inv_neutral:
  assumes "sys_inv rt pc d gl ll" "sched_same rt rt'" "queues_same rt rt'"
  shows "sys_inv rt' pc d gl ll"
  by (rule inv_other [OF assms(1,3)]) (use assms(2) in \<open>auto simp: sched_same_def rest_same_def\<close>)

text \<open>Facts about a worker from the invariant.\<close>

lemma inv_parts:
  assumes "sys_inv rt pc d gl ll"
  shows "reps rt gl ll" "placed (rt_worker_count rt) gl ll pc" "tasks_ok rt gl ll pc d" "workers_ok rt ll pc"
    "counts_ok rt pc" "0 < rt_worker_count rt"
  using assms by (simp_all add: sys_inv_def)

lemma inv_at:
  assumes "sys_inv rt pc d gl ll" "p < rt_worker_count rt"
  shows "worker_ok (rt_tasks rt) (rt_ps rt p) (ll p) p (pc p)" "distinct (gl @ items ll pc p)"
    "rq_holds (p_runnable (rt_ps rt p)) (ll p)" "gl_rep rt gl"
    "\<And>t. t \<in> scope gl ll pc p \<Longrightarrow> task_ok (rt_tasks rt t) (t \<in> set gl \<or> t \<in> set (ll p) \<or> t \<in> set (held (pc p)))
      (t \<in> set (mine (pc p))) (t \<in> set (exec_of (pc p))) (t \<in> set (rt_all_tasks rt)) (t \<in> d)"
proof -
  note parts = inv_parts [OF assms(1)]
  show "worker_ok (rt_tasks rt) (rt_ps rt p) (ll p) p (pc p)" using parts(4) assms(2) by (simp add: workers_ok_def)
  show "distinct (gl @ items ll pc p)" using parts(2) assms(2) unfolding placed_def by blast
  show "rq_holds (p_runnable (rt_ps rt p)) (ll p)" "gl_rep rt gl" using parts(1) assms(2) by (simp_all add: reps_def)
  show "task_ok (rt_tasks rt t) (t \<in> set gl \<or> t \<in> set (ll p) \<or> t \<in> set (held (pc p)))
      (t \<in> set (mine (pc p))) (t \<in> set (exec_of (pc p))) (t \<in> set (rt_all_tasks rt)) (t \<in> d)" if "t \<in> scope gl ll pc p" for t
    using tasks_at [OF parts(2,3) assms(2) that] .
qed

section \<open>Updates of one task\<close>

lemma executing_alone:
  assumes "placed n gl ll pc" "executed_in n pc t"
  shows "\<not> queued_in n gl ll pc t" "\<not> taken_in n pc t"
proof -
  obtain p where p: "p < n" "t \<in> set (exec_of (pc p))" using assms(2) by (auto simp: executed_in_def)
  have n: "nowhere n ll pc {}" by (simp add: nowhere_def)
  have "distinct (gl @ items ll pc p)" using assms(1) p(1) unfolding placed_def by blast
  then have "t \<notin> set gl" "t \<notin> set (ll p)" "t \<notin> set (held (pc p))" "t \<notin> set (mine (pc p))" using p(2) by auto
  then show "\<not> queued_in n gl ll pc t" "\<not> taken_in n pc t"
    using places_at [OF assms(1) p(1) n, of t ll pc gl] p(2) by simp_all
qed

lemma inv_update:
  assumes inv: "sys_inv rt pc d gl ll" and q: "queues_same rt rt'" and c: "counts_ok rt' pc"
    and same: "\<And>x. x \<noteq> t \<Longrightarrow> tk_same (rt_tasks rt x) (rt_tasks rt' x)" "rt_all_tasks rt' = rt_all_tasks rt"
      "rt_worker_count rt' = rt_worker_count rt"
      "\<And>q. p_current (rt_ps rt' q) = p_current (rt_ps rt q) \<and> p_idle (rt_ps rt' q) = p_idle (rt_ps rt q)"
    and tk: "\<And>q h e x. task_ok (rt_tasks rt t) q h e (t \<in> set (rt_all_tasks rt)) x \<Longrightarrow>
        task_ok (rt_tasks rt' t) q h e (t \<in> set (rt_all_tasks rt)) x"
      "t_last_p (rt_tasks rt' t) = t_last_p (rt_tasks rt t)"
      "t_fiber (rt_tasks rt' t) \<in> {None, t_fiber (rt_tasks rt t)} \<or> t_executing (rt_tasks rt t)"
      "\<And>p. p < rt_worker_count rt \<Longrightarrow> t \<in> set (running_at (pc p)) \<Longrightarrow> task_state rt' t = VL_TASK_RUNNING"
  shows "sys_inv rt' pc d gl ll"
proof -
  note parts = inv_parts [OF inv]
  have "tasks_ok rt' gl ll pc d"
    unfolding tasks_ok_def same(2,3)
  proof
    fix x
    have "task_ok (rt_tasks rt x) (queued_in (rt_worker_count rt) gl ll pc x) (taken_in (rt_worker_count rt) pc x)
        (executed_in (rt_worker_count rt) pc x) (x \<in> set (rt_all_tasks rt)) (x \<in> d)"
      using parts(3) unfolding tasks_ok_def by blast
    then show "task_ok (rt_tasks rt' x) (queued_in (rt_worker_count rt) gl ll pc x) (taken_in (rt_worker_count rt) pc x)
        (executed_in (rt_worker_count rt) pc x) (x \<in> set (rt_all_tasks rt)) (x \<in> d)"
      using tk(1) task_ok_cong [OF same(1), of x] by (cases "x = t") blast+
  qed
  moreover have "workers_ok rt' ll pc"
    unfolding workers_ok_def same(3)
  proof (intro allI impI)
    fix p assume p: "p < rt_worker_count rt"
    have old: "worker_ok (rt_tasks rt) (rt_ps rt p) (ll p) p (pc p)" using parts(4) p by (simp add: workers_ok_def)
    have "t_executing (rt_tasks rt t) \<Longrightarrow> executed_in (rt_worker_count rt) pc t"
      using parts(3) by (simp add: tasks_ok_def task_ok_def)
    then have fib: "t_fiber (rt_tasks rt' t) \<in> {None, t_fiber (rt_tasks rt t)}"
      if "t \<in> set (ll p) \<or> t \<in> set (held (pc p)) \<or> t \<in> set (mine (pc p))"
      using tk(3) executing_alone [OF parts(2)] that p by (auto simp: queued_in_def taken_in_def)
    have "t_fiber (rt_tasks rt' x) \<in> {None, t_fiber (rt_tasks rt x)}" if "x \<in> set (ll p @ held (pc p) @ mine (pc p))" for x
      using that fib same(1) [of x] by (cases "x = t") (auto simp: tk_same_def)
    moreover have "t_last_p (rt_tasks rt' x) = t_last_p (rt_tasks rt x)" for x
      using tk(2) same(1) [of x] by (cases "x = t") (auto simp: tk_same_def)
    moreover have "task_state rt' x = VL_TASK_RUNNING" if "x \<in> set (running_at (pc p))" for x
      using that tk(4) [OF p] same(1) [of x] old by (cases "x = t") (auto simp: tk_same_def worker_ok_def)
    ultimately show "worker_ok (rt_tasks rt') (rt_ps rt' p) (ll p) p (pc p)"
      using old same(4) [of p] by (fastforce simp: worker_ok_def)
  qed
  ultimately show ?thesis using parts(2,6) reps_same [OF parts(1) q same(3)] c same(3) by (simp add: sys_inv_def)
qed

text \<open>The number of live tasks when one task ends.\<close>

lemma live_drop:
  assumes "counts_ok rt pc" "t \<in> set (rt_all_tasks rt)" "\<not> terminal (task_state rt t)" "terminal (task_state rt' t)"
    "\<And>x. x \<noteq> t \<Longrightarrow> task_state rt' x = task_state rt x"
  shows "rt_live_tasks rt \<noteq> 0" "rt_live_tasks rt - 1 = card {x \<in> set (rt_all_tasks rt). \<not> terminal (task_state rt' x)}"
proof -
  let ?L = "{x \<in> set (rt_all_tasks rt). \<not> terminal (task_state rt x)}"
  have "t \<in> ?L" "finite ?L" using assms(2,3) by auto
  moreover have "{x \<in> set (rt_all_tasks rt). \<not> terminal (task_state rt' x)} = ?L - {t}"
  proof (rule set_eqI)
    fix x show "x \<in> {x \<in> set (rt_all_tasks rt). \<not> terminal (task_state rt' x)} \<longleftrightarrow> x \<in> ?L - {t}"
      using assms(4) assms(5) [of x] by (cases "x = t") auto
  qed
  moreover have "rt_live_tasks rt = card ?L" using assms(1) by (simp add: counts_ok_def)
  ultimately show "rt_live_tasks rt \<noteq> 0" "rt_live_tasks rt - 1 = card {x \<in> set (rt_all_tasks rt). \<not> terminal (task_state rt' x)}"
    by (auto simp: card_gt_0_iff)
qed

section \<open>Waking, parking and spawning\<close>

lemma wake_other: "x \<noteq> t \<Longrightarrow> tk_same (rt_tasks rt x) (rt_tasks (vl_task_wake_locked t rt) x)"
  by (simp add: tk_same_def rt_simps wake_state wake_pending)
     (simp add: vl_task_wake_locked_def vl_task_enqueue_global_locked_def vl_task_mark_queued_def)

lemma inv_wake:
  assumes inv: "sys_inv rt pc d gl ll"
  shows "\<exists>gl'. sys_inv (vl_task_wake_locked t rt) pc d gl' ll"
proof -
  note parts = inv_parts [OF inv]
  let ?n = "rt_worker_count rt"
  let ?rt = "vl_task_wake_locked t rt"
  have tk: "task_ok (rt_tasks rt t) (queued_in ?n gl ll pc t) (taken_in ?n pc t) (executed_in ?n pc t) (t \<in> set (rt_all_tasks rt)) (t \<in> d)"
    using parts(3) unfolding tasks_ok_def by blast
  have trm: "terminal (task_state ?rt x) = terminal (task_state rt x)" for x by (auto simp: wake_state)
  have c: "counts_ok ?rt pc"
    by (rule counts_same [OF parts(5)]) (use trm parts(5) in \<open>simp_all add: rt_simps counts_ok_def\<close>)
  consider "\<not> parked rt t" | "parked rt t" "t_executing (rt_tasks rt t)" | "parked rt t" "\<not> t_executing (rt_tasks rt t)" by blast
  then show ?thesis
  proof cases
    case 1
    then show ?thesis using inv by (auto simp: wake_off)
  next
    case 2
    then have rt': "?rt = upd_task (\<lambda>tk. tk\<lparr>t_wake_pending := True\<rparr>) t rt" by (auto simp: vl_task_wake_locked_def)
    have "sys_inv ?rt pc d gl ll"
    proof (rule inv_update [OF inv _ c wake_other])
      show "queues_same rt ?rt" unfolding rt' by (rule queues_sameI) auto
      fix p assume "p < ?n" "t \<in> set (running_at (pc p))"
      then show "task_state ?rt t = VL_TASK_RUNNING"
        using parts(4) 2 by (auto simp: workers_ok_def worker_ok_def)
    qed (use 2 in \<open>auto simp: rt' task_ok_def\<close>)
    then show ?thesis by blast
  next
    case 3
    then have out: "\<not> queued_in ?n gl ll pc t" "\<not> taken_in ?n pc t" "\<not> executed_in ?n pc t" "\<not> t_queued (rt_tasks rt t)"
      and a: "t \<in> set (rt_all_tasks rt)" using tk by (auto simp: task_ok_def)
    then have no: "nowhere ?n ll pc {t}" "t \<notin> set gl"
      by (auto simp: nowhere_def queued_in_def taken_in_def executed_in_def)
    have gl: "gl_rep rt gl" using parts(1) by (simp add: reps_def)
    note on = wake_on [OF 3 out(4) gl no(2)]
    have "placed (rt_worker_count ?rt) (gl @ [t]) ll pc \<and> tasks_ok ?rt (gl @ [t]) ll pc d \<and> workers_ok ?rt ll pc"
    proof (rule local_step [OF parts(2-4,6) no(1)])
      show "distinct ((gl @ [t]) @ items ll pc 0)"
        using inv_at(2) [OF inv parts(6)] no parts(6) by (auto simp: nowhere_def)
      show "tk_same (rt_tasks rt x) (rt_tasks ?rt x) \<and> (x \<in> set (rt_all_tasks ?rt)) = (x \<in> set (rt_all_tasks rt)) \<and> (x \<in> d) = (x \<in> d)"
        if "x \<notin> scope gl ll pc 0 \<union> {t}" for x using wake_other that by (simp add: rt_simps)
      show "task_ok (rt_tasks ?rt x) (x \<in> set (gl @ [t]) \<or> x \<in> set (ll 0) \<or> x \<in> set (held (pc 0))) (x \<in> set (mine (pc 0)))
          (x \<in> set (exec_of (pc 0))) (x \<in> set (rt_all_tasks ?rt)) (x \<in> d)" if "x \<in> scope gl ll pc 0 \<union> {t}" for x
      proof (cases "x = t")
        case True
        then show ?thesis using tk 3 a no parts(6)
          by (auto simp: task_ok_def on(2) rt_simps wake_state wake_pending nowhere_def)
      next
        case False
        then show ?thesis using inv_at(5) [OF inv parts(6), of x] that task_ok_cong [OF wake_other [OF False], of rt]
          by (simp add: rt_simps)
      qed
      show "worker_ok (rt_tasks ?rt) (rt_ps ?rt 0) (ll 0) 0 (pc 0)"
      proof (rule worker_ok_cong [OF _ _ _ inv_at(1) [OF inv parts(6)]])
        show "tk_same (rt_tasks rt x) (rt_tasks ?rt x)" if "x \<in> set (ll 0 @ held (pc 0) @ mine (pc 0) @ exec_of (pc 0))" for x
          using that no(1) parts(6) wake_other [of x t rt] by (auto simp: nowhere_def)
      qed (simp_all add: rt_simps)
    qed (auto simp: rt_simps)
    moreover have "reps ?rt (gl @ [t]) ll" using on(1) parts(1) by (simp add: reps_def rt_simps)
    ultimately have "sys_inv ?rt pc d (gl @ [t]) ll" using c parts(6) by (simp add: sys_inv_def rt_simps)
    then show ?thesis by blast
  qed
qed

text \<open>Changes the scheduler does not see.\<close>

definition neutral :: "vl_runtime_impl \<Rightarrow> vl_runtime_impl \<Rightarrow> bool" where
  "neutral a b \<longleftrightarrow> sched_same a b \<and> queues_same a b"

lemma neutral_refl [simp]: "neutral a a"
  by (simp add: neutral_def)

lemma neutral_trans [trans]: "neutral a b \<Longrightarrow> neutral b c \<Longrightarrow> neutral a c"
  unfolding neutral_def using sched_same_trans queues_same_trans by blast

lemma neutralI:
  assumes "rest_same a b" "\<And>t. tk_same (rt_tasks a t) (rt_tasks b t)"
    "\<And>t. t_queue_next (rt_tasks b t) = t_queue_next (rt_tasks a t)" "rt_global_runnable b = rt_global_runnable a"
    "\<And>p. p_runnable (rt_ps b p) = p_runnable (rt_ps a p)"
  shows "neutral a b"
  unfolding neutral_def using sched_sameI [OF assms(1,2)] queues_sameI [OF assms(3-5)] by blast

lemma neutral_runtime [intro]:
  "neutral rt (upd_stats f rt)" "neutral rt (upd_p_stats g p rt)" "neutral rt (vl_runtime_wake_workers rt)"
  "neutral rt (count_switch rt)" "neutral rt (count_park p rt)" "neutral rt (count_cancelled rt)"
  "neutral rt (set_timer i x y rt)" "neutral rt (drop_timer_count rt)" "neutral rt (set_heap p hn rt)"
  "neutral rt (rt\<lparr>rt_io_waiting := k\<rparr>)" "neutral rt (rt\<lparr>rt_io_driver := io\<rparr>)" "neutral rt (vl_worker_drain_eventfd p rt)"
  "neutral rt (steal_attempt p rt)"
  by (rule neutralI;
      simp add: rest_same_def set_heap_def vl_worker_drain_eventfd_def steal_attempt_def set_timer_def drop_timer_count_def)+

lemma neutral_task [intro]:
  "(\<And>tk. tk_same tk (f tk)) \<Longrightarrow> (\<And>tk. t_queue_next (f tk) = t_queue_next tk) \<Longrightarrow> neutral rt (upd_task f t rt)"
  by (rule neutralI) (simp_all add: rest_same_def)

text \<open>
  \<open>good rt pc d k\<close>: the invariant holds for some contents of the queues, and at most \<open>k\<close> tasks have gone
  through each run queue.
\<close>

definition good :: "vl_runtime_impl \<Rightarrow> (pid \<Rightarrow> wpc) \<Rightarrow> tid set \<Rightarrow> nat \<Rightarrow> bool" where
  "good rt pc d k \<longleftrightarrow> (\<exists>gl ll. sys_inv rt pc d gl ll) \<and> bottoms rt k"

lemma good_neutral:
  assumes "good rt pc d k" "neutral rt rt'"
  shows "good rt' pc d k"
  using assms inv_neutral [of rt pc d _ _ rt'] unfolding good_def neutral_def
  by (metis bottoms_runnable queues_same_def)

lemma good_wake: "good rt pc d k \<Longrightarrow> good (vl_task_wake_locked t rt) pc d k"
  unfolding good_def using inv_wake [of rt pc d _ _ t] by (metis bottoms_runnable wake_rt(2))

lemma good_expire:
  assumes "good rt pc d k"
  shows "good (vl_timers_expire p now rt) pc d k"
proof -
  have one: "good (expire_one node rt) pc d k" if "good rt pc d k" for node rt
  proof -
    have "good (drop_timer_count (set_timer i None None rt)) pc d k" for i
      using good_neutral that neutral_runtime(7,8) by metis
    moreover have res: "neutral rt (upd_task (\<lambda>tk. tk\<lparr>t_timer_result := VL_OK\<rparr>) t rt)" for t rt
      by (rule neutral_task) (simp_all add: tk_same_def)
    ultimately show ?thesis
      by (auto simp: expire_one_def Let_def intro!: good_wake good_neutral [OF _ res] split: option.split)
  qed
  have "good (expire_loop fuel i now rt) pc d k" if "good rt pc d k" for fuel i rt
    using that
  proof (induction fuel arbitrary: rt)
    case (Suc fuel)
    have "good (expire_one node (set_heap i hn rt)) pc d k" for node hn
      using one good_neutral [OF Suc.prems neutral_runtime(9)] by blast
    then show ?case using Suc by (auto split: option.split prod.split)
  qed simp
  then show ?thesis using assms by (simp add: vl_timers_expire_def split: option.split)
qed

lemma good_complete_io:
  assumes "good rt pc d k"
  shows "good (snd (vl_task_complete_io task ok rt)) pc d k"
proof -
  have io: "neutral rt (upd_task (\<lambda>tk. tk\<lparr>t_waiting_for_io := False\<rparr>) t rt)" for t rt
    by (rule neutral_task) (simp_all add: tk_same_def)
  have "good (upd_task (\<lambda>tk. tk\<lparr>t_waiting_for_io := False\<rparr>) t (rt\<lparr>rt_io_waiting := n\<rparr>)) pc d k" for t n
    using good_neutral [OF good_neutral [OF assms neutral_runtime(10)] io] .
  then have "good (vl_runtime_wake_workers (vl_task_wake_locked t r)) pc d k"
    if "r \<in> {upd_task (\<lambda>tk. tk\<lparr>t_waiting_for_io := False\<rparr>) t (rt\<lparr>rt_io_waiting := n\<rparr>),
              (upd_task (\<lambda>tk. tk\<lparr>t_waiting_for_io := False\<rparr>) t (rt\<lparr>rt_io_waiting := n\<rparr>))\<lparr>rt_io_driver := None\<rparr>}" for t n r
    using that good_neutral [OF _ neutral_runtime(3)] good_neutral [OF _ neutral_runtime(11)] good_wake by blast
  then show ?thesis using assms by (auto simp: vl_task_complete_io_def Let_def split: option.split)
qed

lemma inv_park:
  assumes inv: "sys_inv rt pc d gl ll" and p: "p < rt_worker_count rt" "pc p = WRun t" "task_state rt t = VL_TASK_RUNNING"
    and st: "st \<in> {VL_TASK_RUNNABLE, VL_TASK_WAITING, VL_TASK_SLEEPING}"
  shows "sys_inv (set_state st t rt) pc d gl ll"
proof (rule inv_update [OF inv, of _ t])
  note parts = inv_parts [OF inv]
  have ex: "t_executing (rt_tasks rt t)" using inv_at(5) [OF inv p(1), of t] p(2) by (auto simp: task_ok_def)
  show "queues_same rt (set_state st t rt)" by (rule queues_sameI) simp_all
  show "counts_ok (set_state st t rt) pc"
    by (rule counts_same [OF parts(5)]) (use st p(3) parts(5) in \<open>auto simp: counts_ok_def\<close>)
  show "task_ok (rt_tasks (set_state st t rt) t) q h e (t \<in> set (rt_all_tasks rt)) x"
    if "task_ok (rt_tasks rt t) q h e (t \<in> set (rt_all_tasks rt)) x" for q h e x
    using that st p(3) ex by (auto simp: task_ok_def)
  fix q assume q: "q < rt_worker_count rt" "t \<in> set (running_at (pc q))"
  then have "t \<in> set (exec_of (pc q))" by (auto simp: running_at_def split: wpc.splits fiber_result.splits)
  moreover have "q \<noteq> p" using q(2) p(2) by (auto simp: running_at_def)
  ultimately show "task_state (set_state st t rt) t = VL_TASK_RUNNING"
    using elsewhere_out [OF parts(2) p(1), of "{}" t q] q(1) p(2) by (simp add: nowhere_def)
qed simp_all

lemma drop_live_count:
  "rt_live_tasks rt \<noteq> 0 \<Longrightarrow> rt_live_tasks (drop_live rt) = rt_live_tasks rt - 1"
  by (simp add: drop_live_def)

lemma inv_cancel_one:
  assumes inv: "sys_inv rt pc d gl ll" and t: "t \<in> set (rt_all_tasks rt)"
  shows "sys_inv (cancel_one t rt) pc d gl ll"
proof (cases "\<not> terminal (task_state rt t) \<and> \<not> t_executing (rt_tasks rt t)")
  case False
  then have "cancel_one t rt = rt" by (auto simp: cancel_one_def vl_task_is_terminal_def)
  then show ?thesis using inv by simp
next
  case True
  note parts = inv_parts [OF inv]
  let ?rt1 = "set_state VL_TASK_CANCELLED t rt"
  have drop: "rt_live_tasks rt \<noteq> 0" "rt_live_tasks rt - 1 = card {x \<in> set (rt_all_tasks rt). \<not> terminal (task_state ?rt1 x)}"
    using live_drop [OF parts(5) t, of ?rt1] True by simp_all
  have "sys_inv (drop_live ?rt1) pc d gl ll"
  proof (rule inv_update [OF inv, of _ t])
    show "queues_same rt (drop_live ?rt1)" by (rule queues_sameI) simp_all
    show "counts_ok (drop_live ?rt1) pc" using parts(5) drop by (simp add: counts_ok_def drop_live_count)
    show "task_ok (rt_tasks (drop_live ?rt1) t) q h e (t \<in> set (rt_all_tasks rt)) x"
      if "task_ok (rt_tasks rt t) q h e (t \<in> set (rt_all_tasks rt)) x" for q h e x
      using that True t by (auto simp: task_ok_def)
    fix q assume q: "q < rt_worker_count rt" "t \<in> set (running_at (pc q))"
    then have "t \<in> set (exec_of (pc q))" by (auto simp: running_at_def split: wpc.splits fiber_result.splits)
    then have "executed_in (rt_worker_count rt) pc t" using q(1) by (auto simp: executed_in_def)
    moreover have "t_executing (rt_tasks rt t) = executed_in (rt_worker_count rt) pc t"
      using parts(3) by (auto simp: tasks_ok_def task_ok_def)
    ultimately show "task_state (drop_live ?rt1) t = VL_TASK_RUNNING" using True by simp
  qed (use True in simp_all)
  moreover have "neutral (drop_live ?rt1) (cancel_one t rt)"
    using True
    by (intro neutralI) (auto simp: cancel_one_def vl_task_is_terminal_def Let_def rest_same_def tk_same_def drop_live_def)
  ultimately show ?thesis using inv_neutral by (simp add: neutral_def)
qed

lemma good_cancel_all:
  assumes "good rt pc d k"
  shows "good (vl_task_cancel_all rt) pc d k"
proof -
  have one: "good (cancel_one t rt) pc d k \<and> rt_all_tasks (cancel_one t rt) = rt_all_tasks rt"
    if "good rt pc d k" "t \<in> set (rt_all_tasks rt)" for t rt
  proof -
    have "p_runnable (rt_ps (cancel_one t rt) p) = p_runnable (rt_ps rt p)" "rt_all_tasks (cancel_one t rt) = rt_all_tasks rt" for p
      by (simp_all add: cancel_one_def Let_def)
    then show ?thesis using that inv_cancel_one bottoms_runnable unfolding good_def by blast
  qed
  have "good (fold cancel_one ts rt) pc d k" if "good rt pc d k" "set ts \<subseteq> set (rt_all_tasks rt)" for ts rt
    using that by (induction ts arbitrary: rt) (use one in auto)
  then show ?thesis using assms by (simp add: vl_task_cancel_all_def)
qed

lemma vl_task_zero_sel:
  "t_state vl_task_zero = VL_TASK_NEW" "\<not> t_queued vl_task_zero" "\<not> t_executing vl_task_zero"
  "\<not> t_wake_pending vl_task_zero" "t_fiber vl_task_zero = None" "t_last_p vl_task_zero = None"
  by (simp_all add: vl_task_zero_def)

lemma inv_spawn:
  assumes inv: "sys_inv rt pc d gl ll" and new: "t \<notin> set (rt_all_tasks rt)"
    and spawn: "vl_spawn is_owner tls (Some t) fn_ok (Some rt) = (Some t, Some rt')"
  shows "sys_inv rt' pc d (gl @ [t]) ll" "rt_ps rt' p = (rt_ps rt p)\<lparr>p_event := p_event (rt_ps rt' p)\<rparr>"
proof -
  note parts = inv_parts [OF inv]
  let ?n = "rt_worker_count rt"
  let ?rt1 = "set_state VL_TASK_RUNNABLE t (rt\<lparr>rt_tasks := (rt_tasks rt)(t := vl_task_zero), rt_all_tasks := t # rt_all_tasks rt\<rparr>)"
  let ?rt2 = "vl_task_enqueue_global_locked t ?rt1"
  let ?rt3 = "?rt2\<lparr>rt_live_tasks := rt_live_tasks ?rt2 + 1\<rparr>"
  have rt': "rt' = vl_runtime_wake_workers (upd_stats (\<lambda>s. s\<lparr>st_spawned := st_spawned s + 1\<rparr>) ?rt3)"
    using spawn by (auto simp: vl_spawn_def Let_def split: if_splits)
  have "task_ok (rt_tasks rt t) (queued_in ?n gl ll pc t) (taken_in ?n pc t) (executed_in ?n pc t) (t \<in> set (rt_all_tasks rt)) (t \<in> d)"
    using parts(3) unfolding tasks_ok_def by blast
  then have "\<not> queued_in ?n gl ll pc t" "\<not> taken_in ?n pc t" "\<not> executed_in ?n pc t" and NEW: "task_state rt t = VL_TASK_NEW"
    using new by (auto simp: task_ok_def)
  then have no: "nowhere ?n ll pc {t}" "t \<notin> set gl"
    by (auto simp: nowhere_def queued_in_def taken_in_def executed_in_def)
  have "gl_rep rt gl" using parts(1) by (simp add: reps_def)
  moreover have "tq_rep (rt_tasks ?rt1) (rt_global_runnable rt) gl = gl_rep rt gl"
    by (rule tq_rep_cong) (use no(2) in auto)
  ultimately have "gl_rep ?rt1 gl" by simp
  note on = enqueue_global_on [OF _ _ this no(2)]
  have fr: "rt_frame ?rt1 ?rt2" by (rule frame_enqueue_global)
  note rf = rt_frame_fields [OF fr] and tf = tk_frame_fields [OF rt_frame_fields(18) [OF fr]]
  have q: "t_queued (rt_tasks ?rt2 x) = (x = t \<or> t_queued (rt_tasks rt x))" for x
    using on(2) [of x] by (simp add: vl_task_zero_sel)
  have other: "tk_same (rt_tasks rt x) (rt_tasks ?rt3 x)" if "x \<noteq> t" for x
    using that q by (simp add: tk_same_def tf)
  have "placed (rt_worker_count ?rt3) (gl @ [t]) ll pc \<and> tasks_ok ?rt3 (gl @ [t]) ll pc d \<and> workers_ok ?rt3 ll pc"
  proof (rule local_step [OF parts(2-4,6) no(1)])
    show "distinct ((gl @ [t]) @ items ll pc 0)"
      using inv_at(2) [OF inv parts(6)] no parts(6) by (auto simp: nowhere_def)
    show "task_ok (rt_tasks ?rt3 x) (x \<in> set (gl @ [t]) \<or> x \<in> set (ll 0) \<or> x \<in> set (held (pc 0))) (x \<in> set (mine (pc 0)))
        (x \<in> set (exec_of (pc 0))) (x \<in> set (rt_all_tasks ?rt3)) (x \<in> d)" if "x \<in> scope gl ll pc 0 \<union> {t}" for x
    proof (cases "x = t")
      case True
      then show ?thesis using no parts(6) by (auto simp: task_ok_def q tf rf vl_task_zero_sel nowhere_def)
    next
      case False
      then show ?thesis using inv_at(5) [OF inv parts(6), of x] that task_ok_cong [OF other [OF False]] by (simp add: rf)
    qed
    show "worker_ok (rt_tasks ?rt3) (rt_ps ?rt3 0) (ll 0) 0 (pc 0)"
    proof (rule worker_ok_cong [OF _ _ _ inv_at(1) [OF inv parts(6)]])
      show "tk_same (rt_tasks rt x) (rt_tasks ?rt3 x)" if "x \<in> set (ll 0 @ held (pc 0) @ mine (pc 0) @ exec_of (pc 0))" for x
        using that no(1) parts(6) other [of x] by (auto simp: nowhere_def)
    qed (simp_all add: rf)
  qed (use other in \<open>auto simp: rf\<close>)
  moreover have "{x \<in> set (rt_all_tasks ?rt3). \<not> terminal (task_state ?rt3 x)}
      = insert t {x \<in> set (rt_all_tasks rt). \<not> terminal (task_state rt x)}" by (auto simp: rf)
  then have "counts_ok ?rt3 pc" using parts(5) new by (simp add: counts_ok_def rf)
  moreover have "reps ?rt3 (gl @ [t]) ll"
    using on(1) parts(1) by (simp add: reps_def rf vl_task_zero_sel)
  ultimately have "sys_inv ?rt3 pc d (gl @ [t]) ll" using parts(6) by (simp add: sys_inv_def rf)
  moreover have "neutral ?rt3 rt'"
    unfolding rt' by (rule neutral_trans [OF neutral_runtime(1) neutral_runtime(3)])
  ultimately show "sys_inv rt' pc d (gl @ [t]) ll" using inv_neutral by (simp add: neutral_def)
  show "rt_ps rt' p = (rt_ps rt p)\<lparr>p_event := p_event (rt_ps rt' p)\<rparr>"
    by (simp add: rt' rf vl_runtime_wake_workers_def)
qed

end
