(* ===== verification/Runtime_Steps.thy ===== *)
theory Runtime_Steps
  imports Runtime_System
begin

text \<open>
  Every step of the system keeps the invariant of \<open>Runtime_System\<close>: first the steps that move tasks
  between queues and workers, then execution and idling, then all steps together.
\<close>

section \<open>Moves between the queues\<close>

text \<open>Queued tasks change their place, and no flag changes.\<close>

lemma shift:
  assumes inv: "placed (rt_worker_count rt) gl ll pc" "tasks_ok rt gl ll pc d" "workers_ok rt ll pc"
    and p: "p < rt_worker_count rt" and same: "sched_same rt rt'"
    and at: "mine pc' = mine (pc p)" "exec_of pc' = exec_of (pc p)"
      "mset gl' + mset l' + mset (held pc') = mset gl + mset (ll p) + mset (held (pc p))"
      "worker_ok (rt_tasks rt) (rt_ps rt p) l' p pc'"
  shows "placed (rt_worker_count rt') gl' (ll(p := l')) (pc(p := pc')) \<and> tasks_ok rt' gl' (ll(p := l')) (pc(p := pc')) d
    \<and> workers_ok rt' (ll(p := l')) (pc(p := pc'))"
proof (rule local_step [OF inv p, of "{}"])
  let ?ll = "ll(p := l')" and ?pc = "pc(p := pc')"
  have r: "rest_same rt rt'" and tk: "tk_same (rt_tasks rt t) (rt_tasks rt' t)" for t
    using same by (simp_all add: sched_same_def)
  have q: "set gl' \<union> set l' \<union> set (held pc') = set gl \<union> set (ll p) \<union> set (held (pc p))"
    using arg_cong [OF at(3), of set_mset] by simp
  have "mset (gl' @ items ?ll ?pc p) = mset (gl @ items ll pc p)"
    using at by (simp add: ac_simps)
  moreover have "distinct (gl @ items ll pc p)" using inv(1) p unfolding placed_def by blast
  ultimately show "distinct (gl' @ items ?ll ?pc p)" using mset_eq_imp_distinct_iff by blast
  show "scope gl' ?ll ?pc p \<subseteq> scope gl ll pc p \<union> {}" using q at by auto
  show "task_ok (rt_tasks rt' t) (t \<in> set gl' \<or> t \<in> set (?ll p) \<or> t \<in> set (held (?pc p))) (t \<in> set (mine (?pc p)))
      (t \<in> set (exec_of (?pc p))) (t \<in> set (rt_all_tasks rt')) (t \<in> d)" if "t \<in> scope gl ll pc p \<union> {}" for t
  proof -
    have "(t \<in> set gl' \<or> t \<in> set (?ll p) \<or> t \<in> set (held (?pc p))) = (t \<in> set gl \<or> t \<in> set (ll p) \<or> t \<in> set (held (pc p)))"
      using q by auto
    then show ?thesis
      using tasks_at [OF inv(1,2) p, of t] that task_ok_cong [OF tk, of t] at(1,2) r by (simp add: rest_same_def)
  qed
  show "worker_ok (rt_tasks rt') (rt_ps rt' p) (?ll p) p (?pc p)"
    using worker_ok_cong [of l' pc' "rt_tasks rt" "rt_tasks rt'" "rt_ps rt' p" "rt_ps rt p" p] tk at(4) r
    by (simp add: rest_same_def)
qed (use same in \<open>auto simp: sched_same_def rest_same_def nowhere_def\<close>)

lemma inv_shift:
  assumes inv: "sys_inv rt pc d gl ll" and p: "p < rt_worker_count rt" and same: "sched_same rt rt'"
    and at: "mine pc' = mine (pc p)" "exec_of pc' = exec_of (pc p)"
      "mset gl' + mset l' + mset (held pc') = mset gl + mset (ll p) + mset (held (pc p))"
      "worker_ok (rt_tasks rt) (rt_ps rt p) l' p pc'"
    and reps: "reps rt' gl' (ll(p := l'))"
  shows "sys_inv rt' (pc(p := pc')) d gl' (ll(p := l'))"
proof -
  note parts = inv_parts [OF inv]
  have r: "rest_same rt rt'" and tk: "tk_same (rt_tasks rt t) (rt_tasks rt' t)" for t
    using same by (simp_all add: sched_same_def)
  have "counts_ok rt' (pc(p := pc'))"
    by (rule counts_same [OF parts(5)]) (use tk at r parts(5) in \<open>auto simp: rest_same_def tk_same_def counts_ok_def\<close>)
  then show ?thesis
    using shift [OF parts(2-4) p same at] reps parts(6) r by (simp add: sys_inv_def rest_same_def)
qed

text \<open>The worker's own queue and the queues of the others.\<close>

lemma local_pop_spec:
  assumes "rq_holds (p_runnable (rt_ps rt p)) xs" "local_pop p rt = (res, rt')"
  shows "res = None \<Longrightarrow> rt' = rt"
    and "res = Some t \<Longrightarrow> \<exists>ys. xs = ys @ [t] \<and> rq_holds (p_runnable (rt_ps rt' p)) ys \<and> sched_same rt rt'
      \<and> (\<forall>q. q \<noteq> p \<longrightarrow> rt_ps rt' q = rt_ps rt q) \<and> rt_tasks rt' = rt_tasks rt \<and> rt_global_runnable rt' = rt_global_runnable rt
      \<and> (\<forall>k. bottoms rt k \<longrightarrow> bottoms rt' k)"
proof -
  let ?q = "p_runnable (rt_ps rt p)"
  have id: "upd_p (\<lambda>P. P\<lparr>p_runnable := ?q\<rparr>) p rt = rt" by (simp add: upd_p_def)
  have both: "(res = None \<longrightarrow> rt' = rt) \<and> (\<forall>t. res = Some t \<longrightarrow> (\<exists>ys. xs = ys @ [t] \<and> rq_holds (p_runnable (rt_ps rt' p)) ys \<and> sched_same rt rt'
      \<and> (\<forall>q. q \<noteq> p \<longrightarrow> rt_ps rt' q = rt_ps rt q) \<and> rt_tasks rt' = rt_tasks rt \<and> rt_global_runnable rt' = rt_global_runnable rt
      \<and> (\<forall>k. bottoms rt k \<longrightarrow> bottoms rt' k)))"
  proof (rule rq.pop_cases [OF assms(1)])
    assume "vl_run_queue_owner_pop ?q = (None, ?q)"
    then show ?thesis using assms(2) id by (simp add: local_pop_def)
  next
    fix ys x q' assume *: "xs = ys @ [x]" "vl_run_queue_owner_pop ?q = (Some x, q')" "rq_holds q' ys"
    let ?rt = "upd_p (\<lambda>P. P\<lparr>p_runnable := q'\<rparr>) p rt"
    have "res = Some x" "rt' = ?rt" using assms(2) *(2) by (simp_all add: local_pop_def)
    moreover have "sched_same rt ?rt" by (rule sched_sameI) (simp_all add: rest_same_def)
    moreover have "bottoms ?rt k" if "bottoms rt k" for k
      using that rq_pop_bottom [OF assms(1) *(2)] by (auto simp: bottoms_def intro: le_trans)
    ultimately show ?thesis using * by auto
  qed
  show "res = None \<Longrightarrow> rt' = rt" using both by blast
  show "res = Some t \<Longrightarrow> \<exists>ys. xs = ys @ [t] \<and> rq_holds (p_runnable (rt_ps rt' p)) ys \<and> sched_same rt rt'
      \<and> (\<forall>q. q \<noteq> p \<longrightarrow> rt_ps rt' q = rt_ps rt q) \<and> rt_tasks rt' = rt_tasks rt \<and> rt_global_runnable rt' = rt_global_runnable rt
      \<and> (\<forall>k. bottoms rt k \<longrightarrow> bottoms rt' k)" using both by blast
qed

lemma inv_pop:
  assumes inv: "sys_inv rt pc d gl ll" and p: "p < rt_worker_count rt" "pc p = WNext" and pop: "local_pop p rt = (Some t, rt')"
  shows "\<exists>ll'. sys_inv rt' (pc(p := WPopped t)) d gl ll'"
proof -
  note at = inv_at [OF inv p(1)]
  obtain ys where l: "ll p = ys @ [t]" "rq_holds (p_runnable (rt_ps rt' p)) ys" "sched_same rt rt'"
      "\<forall>q. q \<noteq> p \<longrightarrow> rt_ps rt' q = rt_ps rt q" "rt_tasks rt' = rt_tasks rt" "rt_global_runnable rt' = rt_global_runnable rt"
    using local_pop_spec(2) [OF at(3) pop refl] by blast
  have "sys_inv rt' (pc(p := WPopped t)) d gl (ll(p := ys))"
  proof (rule inv_shift [OF inv p(1) l(3)])
    show "reps rt' gl (ll(p := ys))"
      using inv_parts(1) [OF inv] l by (auto simp: reps_def sched_same_def rest_same_def)
    show "worker_ok (rt_tasks rt) (rt_ps rt p) ys p (WPopped t)"
      using at(1) p(2) l(1) by (auto simp: worker_ok_def running_at_def current_of_def)
  qed (use p(2) l(1) in simp_all)
  then show ?thesis by blast
qed

lemma inv_global_none:
  assumes inv: "sys_inv rt pc d gl ll" and p: "p < rt_worker_count rt" "pc p = WGlobal"
    and k: "bottoms rt k" "k + VL_STEAL_BATCH_MAX < 2 ^ 64" and take: "vl_worker_take_global p rt = (None, rt')"
  shows "good rt' (pc(p := WSteal 1)) d (k + VL_STEAL_BATCH_MAX)"
proof -
  note at = inv_at [OF inv p(1)]
  obtain gl' ys where mv: "moved p rt gl (ll p) rt' gl' ys (k + VL_STEAL_BATCH_MAX)"
    using take_global_none [OF at(4,3) k take] by blast
  then have same: "sched_same rt rt'" by (simp add: moved_def)
  have "sys_inv rt' (pc(p := WSteal 1)) d gl' (ll(p := ll p @ ys))"
  proof (rule inv_shift [OF inv p(1) same])
    show "reps rt' gl' (ll(p := ll p @ ys))"
      using inv_parts(1) [OF inv] mv same by (auto simp: reps_def moved_def sched_same_def rest_same_def)
    show "worker_ok (rt_tasks rt) (rt_ps rt p) (ll p @ ys) p (WSteal 1)"
      using at(1) p(2) mv by (auto simp: worker_ok_def running_at_def current_of_def moved_def)
    have "mset gl' + mset ys = mset gl" using mv by (simp add: moved_def)
    then show "mset gl' + mset (ll p @ ys) + mset (held (WSteal 1)) = mset gl + mset (ll p) + mset (held (pc p))"
      using p(2) by (simp add: ac_simps)
  qed (use p(2) in simp_all)
  then show ?thesis using mv by (auto simp: good_def moved_def)
qed

text \<open>Taking a task out of the queues: its queued flag is cleared.\<close>

lemma inv_claim:
  assumes inv: "sys_inv rt pc d gl ll" and p: "p < rt_worker_count rt" "pc p = WPopped t"
  shows "sys_inv (clear_queued t rt) (pc(p := WHas t)) d gl ll"
proof -
  note parts = inv_parts [OF inv] and at = inv_at [OF inv p(1)]
  let ?pc = "pc(p := WHas t)" and ?rt = "clear_queued t rt"
  have "placed (rt_worker_count ?rt) gl ll ?pc \<and> tasks_ok ?rt gl ll ?pc d \<and> workers_ok ?rt ll ?pc"
  proof (rule local_step [OF parts(2-4) p(1), of "{}"])
    show "distinct (gl @ items ll ?pc p)" using at(2) p(2) by simp
    show "task_ok (rt_tasks ?rt x) (x \<in> set gl \<or> x \<in> set (ll p) \<or> x \<in> set (held (?pc p))) (x \<in> set (mine (?pc p)))
        (x \<in> set (exec_of (?pc p))) (x \<in> set (rt_all_tasks ?rt)) (x \<in> d)" if "x \<in> scope gl ll pc p \<union> {}" for x
      using at(5) [of x] that p(2) at(2) by (auto simp: task_ok_def clear_queued_def)
    show "worker_ok (rt_tasks ?rt) (rt_ps ?rt p) (ll p) p (?pc p)"
      using at(1) p(2) by (auto simp: worker_ok_def running_at_def current_of_def)
  qed (use p(2) in \<open>auto simp: nowhere_def tk_same_def clear_queued_def\<close>)
  moreover have "counts_ok ?rt ?pc"
    by (rule counts_same [OF parts(5)]) (use p(2) parts(5) in \<open>auto simp: counts_ok_def clear_queued_def\<close>)
  moreover have "reps ?rt gl ll"
    using parts(1) clear_queued_rep [of t rt gl] by (auto simp: reps_def)
  ultimately show ?thesis using parts(6) by (simp add: sys_inv_def)
qed

lemma inv_global:
  assumes inv: "sys_inv rt pc d gl ll" and p: "p < rt_worker_count rt" "pc p = WGlobal"
    and k: "bottoms rt k" "k + VL_STEAL_BATCH_MAX < 2 ^ 64" and take: "vl_worker_take_global p rt = (Some t, rt')"
  shows "good rt' (pc(p := WHas t)) d (k + VL_STEAL_BATCH_MAX)"
proof -
  note parts = inv_parts [OF inv] and at = inv_at [OF inv p(1)]
  obtain gl1 gl' ys where mv: "mset gl = add_mset t (mset gl1)" "moved p (clear_queued t rt) gl1 (ll p) rt' gl' ys (k + VL_STEAL_BATCH_MAX)"
      "t_fiber (rt_tasks rt t) = None \<or> t_last_p (rt_tasks rt t) = Some p"
    using take_global_some [OF at(4,3) k take] by blast
  let ?pc = "pc(p := WHas t)" and ?ll = "ll(p := ll p @ ys)"
  have same: "sched_same (clear_queued t rt) rt'" and gl: "mset gl' + mset ys = mset gl1" using mv(2) by (simp_all add: moved_def)
  have r: "rt_worker_count rt' = rt_worker_count rt" "rt_all_tasks rt' = rt_all_tasks rt"
      "p_current (rt_ps rt' q) = p_current (rt_ps rt q)" "p_idle (rt_ps rt' q) = p_idle (rt_ps rt q)" for q
    using same by (simp_all add: sched_same_def rest_same_def clear_queued_def)
  have tk: "tk_same (rt_tasks (clear_queued t rt) x) (rt_tasks rt' x)" for x using same by (simp add: sched_same_def)
  have g: "mset gl = add_mset t (mset gl' + mset ys)" using gl mv(1) by simp
  have "set_mset (mset gl) = set_mset (add_mset t (mset gl' + mset ys))" by (simp only: g)
  then have sg: "set gl = insert t (set gl' \<union> set ys)" by simp
  have dist: "distinct (gl' @ items ?ll ?pc p)"
  proof -
    have "mset (gl' @ items ?ll ?pc p) = mset (gl @ items ll pc p)" using g p(2) by (simp add: ac_simps)
    then show ?thesis using at(2) mset_eq_imp_distinct_iff by blast
  qed
  have "placed (rt_worker_count rt') gl' ?ll ?pc \<and> tasks_ok rt' gl' ?ll ?pc d \<and> workers_ok rt' ?ll ?pc"
  proof (rule local_step [OF parts(2-4) p(1), of "{}"])
    show "distinct (gl' @ items ?ll ?pc p)" by (rule dist)
    show "scope gl' ?ll ?pc p \<subseteq> scope gl ll pc p \<union> {}" using sg by auto
    show "task_ok (rt_tasks rt' x) (x \<in> set gl' \<or> x \<in> set (?ll p) \<or> x \<in> set (held (?pc p))) (x \<in> set (mine (?pc p)))
        (x \<in> set (exec_of (?pc p))) (x \<in> set (rt_all_tasks rt')) (x \<in> d)" if "x \<in> scope gl ll pc p \<union> {}" for x
    proof -
      have "x \<notin> set gl' \<and> x \<notin> set (ll p) \<and> x \<notin> set ys" if "x = t" using dist that by auto
      moreover have "task_ok (rt_tasks rt x) (x \<in> set gl \<or> x \<in> set (ll p)) False False (x \<in> set (rt_all_tasks rt)) (x \<in> d)"
        using at(5) [of x] that p(2) by simp
      ultimately have "task_ok (rt_tasks (clear_queued t rt) x) (x \<in> set gl' \<or> x \<in> set (ll p @ ys)) (x = t) False
          (x \<in> set (rt_all_tasks rt)) (x \<in> d)"
        using sg by (auto simp: task_ok_def)
      then show ?thesis using task_ok_cong [OF tk, of x] r(2) by simp
    qed
    have old: "worker_ok (rt_tasks rt) (rt_ps rt p) (ll p) p WGlobal" using at(1) p(2) by simp
    have fib: "t_fiber (rt_tasks rt' x) = t_fiber (rt_tasks rt x)" "t_last_p (rt_tasks rt' x) = t_last_p (rt_tasks rt x)" for x
      using tk [of x] by (auto simp: tk_same_def split: if_splits)
    have "\<forall>x \<in> set ys. t_fiber (rt_tasks rt x) = None" using mv(2) by (auto simp: moved_def split: if_splits)
    then show "worker_ok (rt_tasks rt') (rt_ps rt' p) (?ll p) p (?pc p)"
      using old mv(3) by (auto simp: worker_ok_def running_at_def current_of_def r fib)
    show "tk_same (rt_tasks rt x) (rt_tasks rt' x) \<and> (x \<in> set (rt_all_tasks rt')) = (x \<in> set (rt_all_tasks rt)) \<and> (x \<in> d) = (x \<in> d)"
      if "x \<notin> scope gl ll pc p \<union> {}" for x
      using that tk [of x] sg r(2) by (auto split: if_splits)
  qed (auto simp: nowhere_def r)
  moreover have "counts_ok rt' ?pc"
    by (rule counts_same [OF parts(5)])
       (use p(2) parts(5) tk same in \<open>auto simp: counts_ok_def tk_same_def sched_same_def rest_same_def clear_queued_def split: if_splits\<close>)
  moreover have "reps rt' gl' ?ll"
    using parts(1) mv(2) r(1) by (auto simp: reps_def moved_def)
  ultimately have "sys_inv rt' ?pc d gl' ?ll" using parts(6) r(1) by (simp add: sys_inv_def)
  then show ?thesis using mv(2) by (auto simp: good_def moved_def)
qed

section \<open>Stealing\<close>

text \<open>A stolen task leaves the victim's queue and is held by the thief.\<close>

lemma inv_steal:
  assumes inv: "sys_inv rt pc d gl ll" and p: "p < rt_worker_count rt" "pc p = WThief offset acc"
    and v: "v = victim_of p offset rt" "vl_run_queue_steal (p_runnable (rt_ps rt v)) = (Some t, q)" and k: "bottoms rt k"
  shows "good (upd_p (\<lambda>P. P\<lparr>p_runnable := q\<rparr>) v rt) (pc(p := WThief offset (acc @ [t]))) d k"
proof -
  note parts = inv_parts [OF inv]
  let ?rt = "upd_p (\<lambda>P. P\<lparr>p_runnable := q\<rparr>) v rt" and ?pc' = "WThief offset (acc @ [t])"
  have vn: "v < rt_worker_count rt" using parts(6) by (simp add: v(1) victim_of_def)
  note at = inv_at [OF inv p(1)] and atv = inv_at [OF inv vn]
  obtain ys where ys: "ll v = t # ys" "rq_holds q ys"
    by (rule rq.steal_cases [OF atv(3)]) (use v(2) in auto)
  have same: "sched_same rt ?rt" by (rule sched_sameI) (simp_all add: rest_same_def)
  have fib: "t_fiber (rt_tasks rt t) = None" using atv(1) ys(1) by (simp add: worker_ok_def)
  let ?ll = "ll(v := ys)"
  have "worker_ok (rt_tasks rt) (rt_ps rt v) ys v (pc v)" using atv(1) ys(1) by (simp add: worker_ok_def)
  then have 1: "placed (rt_worker_count rt) (gl @ [t]) ?ll (pc(v := pc v)) \<and> tasks_ok rt (gl @ [t]) ?ll (pc(v := pc v)) d
      \<and> workers_ok rt ?ll (pc(v := pc v))"
    by (intro shift [OF parts(2-4) vn sched_same_refl]) (simp_all add: ys(1))
  have "worker_ok (rt_tasks rt) (rt_ps rt p) (?ll p) p ?pc'"
    using at(1) p(2) fib ys(1) by (auto simp: worker_ok_def running_at_def current_of_def)
  then have "placed (rt_worker_count ?rt) gl (?ll(p := ?ll p)) (pc(p := ?pc')) \<and> tasks_ok ?rt gl (?ll(p := ?ll p)) (pc(p := ?pc')) d
      \<and> workers_ok ?rt (?ll(p := ?ll p)) (pc(p := ?pc'))"
    using 1 by (intro shift [OF _ _ _ p(1) same, where gl = "gl @ [t]"]) (simp_all add: p(2))
  moreover have "p_idle (rt_ps ?rt x) = p_idle (rt_ps rt x)" for x by simp
  then have "counts_ok ?rt (pc(p := ?pc'))"
    by (intro counts_same [OF parts(5)]) (use p(2) parts(5) in \<open>simp_all add: counts_ok_def del: upd_p_ps\<close>)
  moreover have "reps ?rt gl ?ll" using parts(1) ys(2) by (auto simp: reps_def)
  moreover have "bottoms ?rt k" using k rq_steal_bottom [OF v(2)] by (auto simp: bottoms_def)
  moreover have "?ll(p := ?ll p) = ?ll" by (rule fun_upd_triv)
  ultimately have "sys_inv ?rt (pc(p := ?pc')) d gl ?ll \<and> bottoms ?rt k"
    using parts(6) by (simp only: sys_inv_def) simp
  then show ?thesis unfolding good_def by blast
qed

lemma inv_distribute:
  assumes inv: "sys_inv rt pc d gl ll" and p: "p < rt_worker_count rt" "pc p = WLoot (t # ts)"
    and k: "bottoms rt k" "k + length ts < 2 ^ 64"
  shows "good (steal_distribute p (t # ts) rt) (pc(p := WPopped t)) d (k + length ts)"
proof -
  let ?rt1 = "upd_stats (\<lambda>s. s\<lparr>st_steals := st_steals s + of_nat (length (t # ts))\<rparr>)
          (upd_p_stats (\<lambda>s. s\<lparr>ps_steals := ps_steals s + of_nat (length (t # ts))\<rparr>) p rt)"
  let ?rt' = "fold (distribute_one p) ts ?rt1"
  have rt': "steal_distribute p (t # ts) rt = ?rt'" by (simp add: steal_distribute_def)
  have n: "neutral rt ?rt1" using neutral_trans [OF neutral_runtime(2) neutral_runtime(1)] .
  then have inv1: "sys_inv ?rt1 pc d gl ll" using inv_neutral [OF inv] by (simp add: neutral_def)
  have k1: "bottoms ?rt1 k" using k(1) by (simp add: bottoms_def)
  have p1: "p < rt_worker_count ?rt1" using p(1) by simp
  note at = inv_at [OF inv1 p1]
  have "distinct ts" "set ts \<inter> set gl = {}" using at(2) p(2) by auto
  from distribute_spec [OF at(4) this at(3) k1 k(2)]
  obtain gl' ys where mv: "sched_same ?rt1 ?rt'" "gl_rep ?rt' (gl @ gl')" "rq_holds (p_runnable (rt_ps ?rt' p)) (ll p @ ys)"
      "mset gl' + mset ys = mset ts" "bottoms ?rt' (k + length ts)"
      "\<forall>q. q \<noteq> p \<longrightarrow> p_runnable (rt_ps ?rt' q) = p_runnable (rt_ps ?rt1 q)"
    by blast
  have "set_mset (mset gl' + mset ys) = set_mset (mset ts)" by (simp only: mv(4))
  then have st: "set ys \<subseteq> set ts" by auto
  have "sys_inv ?rt' (pc(p := WPopped t)) d (gl @ gl') (ll(p := ll p @ ys))"
  proof (rule inv_shift [OF inv1 p1 mv(1)])
    show "reps ?rt' (gl @ gl') (ll(p := ll p @ ys))"
      using inv_parts(1) [OF inv1] mv by (auto simp: reps_def sched_same_def rest_same_def)
    show "worker_ok (rt_tasks ?rt1) (rt_ps ?rt1 p) (ll p @ ys) p (WPopped t)"
      using at(1) p(2) st by (auto simp: worker_ok_def running_at_def current_of_def)
    show "mset (gl @ gl') + mset (ll p @ ys) + mset (held (WPopped t)) = mset gl + mset (ll p) + mset (held (pc p))"
      using mv(4) p(2) by (simp add: ac_simps)
  qed (use p(2) in simp_all)
  then show ?thesis using mv(5) unfolding good_def rt' by blast
qed

section \<open>Execution\<close>

text \<open>A worker lets go of a task that is not to be run.\<close>

lemma inv_skip:
  assumes inv: "sys_inv rt pc d gl ll" and p: "p < rt_worker_count rt" "pc p = WHas t"
  shows "sys_inv rt (pc(p := WTop)) (d \<union> {x. x = t \<and> task_state rt t = VL_TASK_RUNNABLE}) gl ll"
proof -
  note parts = inv_parts [OF inv] and at = inv_at [OF inv p(1)]
  let ?pc = "pc(p := WTop)" and ?d = "d \<union> {x. x = t \<and> task_state rt t = VL_TASK_RUNNABLE}"
  have "placed (rt_worker_count rt) gl ll ?pc \<and> tasks_ok rt gl ll ?pc ?d \<and> workers_ok rt ll ?pc"
  proof (rule local_step [OF parts(2-4) p(1), of "{}"])
    show "distinct (gl @ items ll ?pc p)" using at(2) p(2) by simp
    show "task_ok (rt_tasks rt x) (x \<in> set gl \<or> x \<in> set (ll p) \<or> x \<in> set (held (?pc p))) (x \<in> set (mine (?pc p)))
        (x \<in> set (exec_of (?pc p))) (x \<in> set (rt_all_tasks rt)) (x \<in> ?d)" if "x \<in> scope gl ll pc p \<union> {}" for x
      using at(5) [of x] that p(2) at(2) by (auto simp: task_ok_def)
    show "worker_ok (rt_tasks rt) (rt_ps rt p) (ll p) p (?pc p)"
      using at(1) p(2) by (auto simp: worker_ok_def running_at_def current_of_def)
  qed (use p(2) in \<open>auto simp: nowhere_def\<close>)
  moreover have "counts_ok rt ?pc"
    by (rule counts_same [OF parts(5)]) (use p(2) parts(5) in \<open>auto simp: counts_ok_def\<close>)
  ultimately show ?thesis using parts(1,6) by (simp add: sys_inv_def)
qed

lemma inv_cancel:
  assumes inv: "sys_inv rt pc d gl ll" and p: "p < rt_worker_count rt" "pc p = WHas t"
    and b: "execute_begin p t rt = (Begin_Cancelled, rt')"
  shows "sys_inv rt' (pc(p := WCancel)) d gl ll" "rt_ps rt' = rt_ps rt"
proof -
  note parts = inv_parts [OF inv] and at = inv_at [OF inv p(1)]
  let ?pc = "pc(p := WCancel)" and ?rt = "drop_live (set_state VL_TASK_CANCELLED t rt)"
  have rt': "rt' = count_cancelled ?rt" and st: "task_state rt t = VL_TASK_RUNNABLE"
    using b by (auto simp: execute_begin_def Let_def split: if_splits)
  have t: "t \<in> set (rt_all_tasks rt)" using at(5) [of t] p(2) by (simp add: task_ok_def)
  have drop: "rt_live_tasks rt \<noteq> 0"
      "rt_live_tasks rt - 1 = card {x \<in> set (rt_all_tasks rt). \<not> terminal (task_state (set_state VL_TASK_CANCELLED t rt) x)}"
    using live_drop [OF parts(5) t, of "set_state VL_TASK_CANCELLED t rt"] st by simp_all
  have "placed (rt_worker_count ?rt) gl ll ?pc \<and> tasks_ok ?rt gl ll ?pc d \<and> workers_ok ?rt ll ?pc"
  proof (rule local_step [OF parts(2-4) p(1), of "{}"])
    show "distinct (gl @ items ll ?pc p)" using at(2) p(2) by simp
    show "task_ok (rt_tasks ?rt x) (x \<in> set gl \<or> x \<in> set (ll p) \<or> x \<in> set (held (?pc p))) (x \<in> set (mine (?pc p)))
        (x \<in> set (exec_of (?pc p))) (x \<in> set (rt_all_tasks ?rt)) (x \<in> d)" if "x \<in> scope gl ll pc p \<union> {}" for x
      using at(5) [of x] that p(2) at(2) st by (auto simp: task_ok_def)
    show "worker_ok (rt_tasks ?rt) (rt_ps ?rt p) (ll p) p (?pc p)"
      using at(1) p(2) by (auto simp: worker_ok_def running_at_def current_of_def)
  qed (use p(2) in \<open>auto simp: nowhere_def tk_same_def\<close>)
  moreover have "counts_ok ?rt ?pc"
  proof -
    have "{q. q < rt_worker_count rt \<and> exec_of (?pc q) \<noteq> []} = {q. q < rt_worker_count rt \<and> exec_of (pc q) \<noteq> []}"
      using p(2) by auto
    then show ?thesis using parts(5) drop by (simp add: counts_ok_def drop_live_count)
  qed
  moreover have "queues_same rt ?rt" by (rule queues_sameI) simp_all
  then have "reps ?rt gl ll" using reps_same [OF parts(1)] by simp
  ultimately have "sys_inv ?rt ?pc d gl ll" using parts(6) by (simp add: sys_inv_def)
  then show "sys_inv rt' ?pc d gl ll" using inv_neutral neutral_runtime(6) [of ?rt] by (simp add: rt' neutral_def)
  show "rt_ps rt' = rt_ps rt" by (simp add: rt')
qed

lemma active_upd:
  fixes n :: nat
  assumes "p < n"
  shows "card {q. q < n \<and> exec_of ((pc(p := x)) q) \<noteq> []} =
    (card {q. q < n \<and> exec_of (pc q) \<noteq> []} - (if exec_of (pc p) \<noteq> [] then 1 else 0)) + (if exec_of x \<noteq> [] then 1 else (0 :: nat))"
proof -
  let ?A = "{q. q < n \<and> exec_of (pc q) \<noteq> []}"
  have fin: "finite ?A" by simp
  have "{q. q < n \<and> exec_of ((pc(p := x)) q) \<noteq> []} = (if exec_of x \<noteq> [] then insert p (?A - {p}) else ?A - {p})"
    using assms by auto
  moreover have "card (insert p (?A - {p})) = card (?A - {p}) + 1"
    using card_insert_disjoint [of "?A - {p}" p] fin by simp
  moreover have "card (?A - {p}) = card ?A - (if exec_of (pc p) \<noteq> [] then 1 else 0)" using assms by auto
  ultimately show ?thesis by simp
qed

lemma inv_start:
  assumes inv: "sys_inv rt pc d gl ll" and p: "p < rt_worker_count rt" "pc p = WHas t"
    and b: "execute_begin p t rt = (Begin_Run, rt')"
  shows "sys_inv rt' (pc(p := WExec t)) d gl ll" "rt_ps rt' = rt_ps rt"
proof -
  note parts = inv_parts [OF inv] and at = inv_at [OF inv p(1)]
  let ?pc = "pc(p := WExec t)"
  have rt': "rt' = (upd_task (\<lambda>t. t\<lparr>t_executing := True, t_last_p := Some p, t_state := VL_TASK_RUNNING\<rparr>) t rt)
      \<lparr>rt_active_workers := rt_active_workers rt + 1\<rparr>" and st: "task_state rt t = VL_TASK_RUNNABLE"
    using b by (auto simp: execute_begin_def Let_def split: if_splits)
  have "placed (rt_worker_count rt') gl ll ?pc \<and> tasks_ok rt' gl ll ?pc d \<and> workers_ok rt' ll ?pc"
  proof (rule local_step [OF parts(2-4) p(1), of "{}"])
    show "distinct (gl @ items ll ?pc p)" using at(2) p(2) by simp
    show "task_ok (rt_tasks rt' x) (x \<in> set gl \<or> x \<in> set (ll p) \<or> x \<in> set (held (?pc p))) (x \<in> set (mine (?pc p)))
        (x \<in> set (exec_of (?pc p))) (x \<in> set (rt_all_tasks rt')) (x \<in> d)" if "x \<in> scope gl ll pc p \<union> {}" for x
      using at(5) [of x] that p(2) at(2) st by (auto simp: task_ok_def rt')
    show "worker_ok (rt_tasks rt') (rt_ps rt' p) (ll p) p (?pc p)"
      using at(1) p(2) by (auto simp: worker_ok_def running_at_def current_of_def rt')
  qed (use p(2) in \<open>auto simp: nowhere_def tk_same_def rt'\<close>)
  moreover have "counts_ok rt' ?pc"
  proof -
    have "{x \<in> set (rt_all_tasks rt'). \<not> terminal (task_state rt' x)} = {x \<in> set (rt_all_tasks rt). \<not> terminal (task_state rt x)}"
      using st by (auto simp: rt')
    then show ?thesis
      using parts(5) active_upd [OF p(1), of pc "WExec t"] p(2) by (simp add: counts_ok_def rt')
  qed
  moreover have "queues_same rt rt'" unfolding rt' by (rule queues_sameI) simp_all
  then have "reps rt' gl ll" using reps_same [OF parts(1)] by (simp add: rt')
  ultimately show "sys_inv rt' ?pc d gl ll" using parts(6) by (simp add: sys_inv_def rt')
  show "rt_ps rt' = rt_ps rt" by (simp add: rt')
qed

text \<open>An executing task leaves its worker, and may go back to a queue.\<close>

lemma inv_leave:
  assumes inv: "sys_inv rt pc d gl ll" and p: "p < rt_worker_count rt" "pc p = WFin t r"
    and same: "\<And>x. x \<noteq> t \<Longrightarrow> tk_same (rt_tasks rt x) (rt_tasks rt' x)" "rt_all_tasks rt' = rt_all_tasks rt"
      "rt_worker_count rt' = rt_worker_count rt" "rt_active_workers rt' = rt_active_workers rt - 1"
      "rt_idle_workers rt' = rt_idle_workers rt"
      "\<And>q. p_current (rt_ps rt' q) = p_current (rt_ps rt q) \<and> p_idle (rt_ps rt' q) = p_idle (rt_ps rt q)"
    and live: "rt_live_tasks rt' = card {x \<in> set (rt_all_tasks rt). \<not> terminal (task_state rt' x)}"
    and place: "(gl', l') \<in> {(gl, ll p), (gl @ [t], ll p), (gl, ll p @ [t])}" "reps rt' gl' (ll(p := l'))"
      "t \<in> set l' \<longrightarrow> t_fiber (rt_tasks rt' t) = None"
      "task_ok (rt_tasks rt' t) (t \<in> set gl' \<or> t \<in> set l') False False (t \<in> set (rt_all_tasks rt)) (t \<in> d)"
  shows "sys_inv rt' (pc(p := WTop)) d gl' (ll(p := l'))"
proof -
  note parts = inv_parts [OF inv] and at = inv_at [OF inv p(1)]
  let ?pc = "pc(p := WTop)" and ?ll = "ll(p := l')"
  have t: "t \<notin> set gl" "t \<notin> set (ll p)" using at(2) p(2) by auto
  have dist: "distinct (gl @ ll p)" using at(2) by auto
  have "placed (rt_worker_count rt') gl' ?ll ?pc \<and> tasks_ok rt' gl' ?ll ?pc d \<and> workers_ok rt' ?ll ?pc"
  proof (rule local_step [OF parts(2-4) p(1), of "{}"])
    show "distinct (gl' @ items ?ll ?pc p)" using dist place(1) t by auto
    show "scope gl' ?ll ?pc p \<subseteq> scope gl ll pc p \<union> {}" using place(1) p(2) by auto
    show "task_ok (rt_tasks rt' x) (x \<in> set gl' \<or> x \<in> set (?ll p) \<or> x \<in> set (held (?pc p))) (x \<in> set (mine (?pc p)))
        (x \<in> set (exec_of (?pc p))) (x \<in> set (rt_all_tasks rt')) (x \<in> d)" if "x \<in> scope gl ll pc p \<union> {}" for x
    proof (cases "x = t")
      case True
      then show ?thesis using place(4) same(2) by simp
    next
      case False
      then have "(x \<in> set gl' \<or> x \<in> set l') = (x \<in> set gl \<or> x \<in> set (ll p))" using place(1) by auto
      then show ?thesis using at(5) [of x] that p(2) task_ok_cong [OF same(1) [OF False]] same(2) False by simp
    qed
    have "t_fiber (rt_tasks rt' x) = None" if "x \<in> set l'" for x
    proof (cases "x = t")
      case False
      then have "x \<in> set (ll p)" using that place(1) by auto
      then show ?thesis using same(1) [OF False] at(1) by (simp add: worker_ok_def tk_same_def)
    qed (use that place(3) in simp)
    then show "worker_ok (rt_tasks rt') (rt_ps rt' p) (?ll p) p (?pc p)"
      using at(1) p(2) same(6) [of p] by (auto simp: worker_ok_def running_at_def current_of_def)
  qed (use p(2) same in \<open>auto simp: nowhere_def\<close>)
  moreover have "counts_ok rt' ?pc"
    using parts(5) active_upd [OF p(1), of pc WTop] p(2) same live by (simp add: counts_ok_def)
  ultimately show ?thesis using place(2) parts(6) same(3) by (simp add: sys_inv_def)
qed

lemma enqueue_local_spec:
  assumes "task_state rt t = VL_TASK_RUNNABLE" "\<not> t_queued (rt_tasks rt t)" "gl_rep rt gl" "t \<notin> set gl"
    "rq_holds (p_runnable (rt_ps rt p)) xs" "bottoms rt k" "k < 2 ^ 64 - 1"
  shows "\<exists>gl' l'. (gl', l') \<in> {(gl @ [t], xs), (gl, xs @ [t])} \<and> (l' = xs @ [t] \<longrightarrow> t_fiber (rt_tasks rt t) = None)
    \<and> gl_rep (vl_task_enqueue_local_locked p t rt) gl' \<and> rq_holds (p_runnable (rt_ps (vl_task_enqueue_local_locked p t rt) p)) l'
    \<and> (\<forall>q. q \<noteq> p \<longrightarrow> p_runnable (rt_ps (vl_task_enqueue_local_locked p t rt) q) = p_runnable (rt_ps rt q))
    \<and> bottoms (vl_task_enqueue_local_locked p t rt) (Suc k)
    \<and> sched_same (upd_task (\<lambda>tk. tk\<lparr>t_queued := True\<rparr>) t rt) (vl_task_enqueue_local_locked p t rt)"
proof -
  let ?rt1 = "upd_task (\<lambda>tk. tk\<lparr>t_queued := True\<rparr>) t rt"
  have rep: "gl_rep ?rt1 gl" using assms(3) same_queue_next [of ?rt1 rt gl] by simp
  have hold: "rq_holds (p_runnable (rt_ps ?rt1 p)) xs" "bottoms ?rt1 k" using assms(5,6) by (simp_all add: bottoms_def)
  show ?thesis
  proof (cases "rt_worker_count rt = 1 \<or> t_fiber (rt_tasks rt t) \<noteq> None")
    case True
    then have "vl_task_enqueue_local_locked p t rt = global_push t ?rt1"
      using assms(1,2) by (simp add: vl_task_enqueue_local_locked_def vl_task_mark_queued_def)
    then show ?thesis
      using global_push_rep [OF rep assms(4)] global_push_same hold bottoms_mono [OF hold(2), of "Suc k"]
      by (intro exI [of _ "gl @ [t]"] exI [of _ xs]) (auto simp: bottoms_def)
  next
    case False
    then have eq: "vl_task_enqueue_local_locked p t rt = distribute_one p t ?rt1"
      using assms(1,2) by (simp add: vl_task_enqueue_local_locked_def vl_task_mark_queued_def distribute_one_def)
    obtain gl' ys where d: "sched_same ?rt1 (distribute_one p t ?rt1)" "gl_rep (distribute_one p t ?rt1) (gl @ gl')"
        "rq_holds (p_runnable (rt_ps (distribute_one p t ?rt1) p)) (xs @ ys)" "mset gl' + mset ys = {#t#}"
        "bottoms (distribute_one p t ?rt1) (Suc k)"
        "\<forall>q. q \<noteq> p \<longrightarrow> p_runnable (rt_ps (distribute_one p t ?rt1) q) = p_runnable (rt_ps ?rt1 q)"
      using distribute_one_spec [OF rep assms(4) hold assms(7)] by blast
    have "mset (gl' @ ys) = {#t#}" using d(4) by simp
    then have "gl' @ ys = [t]" by (simp only: mset_single_iff)
    then have "gl' = [t] \<and> ys = [] \<or> gl' = [] \<and> ys = [t]" by (auto simp: append_eq_Cons_conv)
    then show ?thesis
      using d False unfolding eq by (intro exI [of _ "gl @ gl'"] exI [of _ "xs @ ys"]) auto
  qed
qed

text \<open>Completing a task: its joiners are woken.\<close>

lemma wake_live:
  "vl_task_wake_locked t (rt\<lparr>rt_live_tasks := n\<rparr>) = (vl_task_wake_locked t rt)\<lparr>rt_live_tasks := n\<rparr>"
  by (simp add: vl_task_wake_locked_def vl_task_enqueue_global_locked_def vl_task_mark_queued_def global_push_def
      upd_task_def set_state_def split: prod.split)

lemma drop_live_eq: "drop_live rt = rt\<lparr>rt_live_tasks := rt_live_tasks rt - 1\<rparr>"
  by (simp add: drop_live_def)

lemma wake_joiners_live:
  "rt_live_tasks (wake_joiners fuel w rt) = rt_live_tasks rt"
  "wake_joiners fuel w (rt\<lparr>rt_live_tasks := n\<rparr>) = (wake_joiners fuel w rt)\<lparr>rt_live_tasks := n\<rparr>"
proof (induction fuel w rt rule: wake_joiners.induct)
  case (3 fuel waiter rt)
  { case 1 then show ?case using 3(1) by (simp add: Let_def rt_simps) }
  { case 2
    have "upd_task (\<lambda>t. t\<lparr>t_waiter_next := None, t_waiting_on := None\<rparr>) waiter (rt\<lparr>rt_live_tasks := n\<rparr>)
        = (upd_task (\<lambda>t. t\<lparr>t_waiter_next := None, t_waiting_on := None\<rparr>) waiter rt)\<lparr>rt_live_tasks := n\<rparr>"
      by (simp add: upd_task_def)
    then show ?case using 3(2) by (simp add: Let_def wake_live) }
qed simp_all

lemma good_joiners:
  assumes "good rt pc d k"
  shows "good (wake_joiners fuel w rt) pc d k"
  using assms
proof (induction fuel w rt rule: wake_joiners.induct)
  case (3 fuel waiter rt)
  have "neutral rt (upd_task (\<lambda>t. t\<lparr>t_waiter_next := None, t_waiting_on := None\<rparr>) waiter rt)"
    by (rule neutral_task) (simp_all add: tk_same_def)
  then show ?case using 3 good_wake good_neutral by (simp add: Let_def)
qed simp_all

lemma complete_eq:
  "vl_task_complete_locked t rt = upd_stats (\<lambda>s. s\<lparr>st_completed := st_completed s + 1\<rparr>)
     (wake_joiners (length (rt_all_tasks rt)) (t_waiters_head (rt_tasks rt t))
       (upd_task (\<lambda>t. t\<lparr>t_waiters_head := None, t_waiters_tail := None\<rparr>) t (drop_live rt)))"
proof -
  let ?f = "\<lambda>t. t\<lparr>t_waiters_head := None, t_waiters_tail := None\<rparr>"
  have "upd_task ?f t (drop_live rt) = (upd_task ?f t rt)\<lparr>rt_live_tasks := rt_live_tasks rt - 1\<rparr>"
    by (simp add: upd_task_def drop_live_eq)
  then show ?thesis
    by (simp add: vl_task_complete_locked_def Let_def drop_live_eq wake_joiners_live)
qed

text \<open>The last critical section of an execution, case by case.\<close>

abbreviation left_rt :: "pid \<Rightarrow> tid \<Rightarrow> vl_runtime_impl \<Rightarrow> vl_runtime_impl" where
  "left_rt p t rt \<equiv> upd_p_stats (\<lambda>s. s\<lparr>ps_executed := ps_executed s + 1\<rparr>) p
     ((upd_task (\<lambda>t. t\<lparr>t_executing := False\<rparr>) t rt)\<lparr>rt_active_workers := rt_active_workers rt - 1\<rparr>)"

lemma finish_facts:
  assumes inv: "sys_inv rt pc d gl ll" and p: "p < rt_worker_count rt" "pc p = WFin t r"
  shows "t \<in> set (rt_all_tasks rt)" "\<not> t_queued (rt_tasks rt t)" "t_executing (rt_tasks rt t)" "t \<notin> set gl" "t \<notin> set (ll p)"
    "task_state rt t \<in> {VL_TASK_RUNNING, VL_TASK_RUNNABLE, VL_TASK_WAITING, VL_TASK_SLEEPING}"
    "t_wake_pending (rt_tasks rt t) \<Longrightarrow> parked rt t" "reps (left_rt p t rt) gl ll"
    "r \<noteq> Fiber_Suspended \<Longrightarrow> task_state rt t = VL_TASK_RUNNING"
proof -
  note at = inv_at [OF inv p(1)]
  show out: "t \<notin> set gl" "t \<notin> set (ll p)" using at(2) p(2) by auto
  show "t \<in> set (rt_all_tasks rt)" "\<not> t_queued (rt_tasks rt t)" "t_executing (rt_tasks rt t)"
    "task_state rt t \<in> {VL_TASK_RUNNING, VL_TASK_RUNNABLE, VL_TASK_WAITING, VL_TASK_SLEEPING}"
    "t_wake_pending (rt_tasks rt t) \<Longrightarrow> parked rt t"
    using at(5) [of t] p(2) out by (auto simp: task_ok_def)
  have "queues_same rt (left_rt p t rt)" by (rule queues_sameI) simp_all
  then show "reps (left_rt p t rt) gl ll" using reps_same [OF inv_parts(1) [OF inv]] by simp
  show "task_state rt t = VL_TASK_RUNNING" if "r \<noteq> Fiber_Suspended"
    using at(1) p(2) that by (cases r) (auto simp: worker_ok_def running_at_def)
qed

lemma bottoms_left: "bottoms rt k \<Longrightarrow> bottoms (left_rt p t rt) k"
  by (simp add: bottoms_def)

lemma good_finish_end:
  assumes inv: "sys_inv rt pc d gl ll" and p: "p < rt_worker_count rt" "pc p = WFin t r" and k: "bottoms rt k"
    and st: "task_state rt t = VL_TASK_RUNNING" "st \<in> {VL_TASK_DONE, VL_TASK_CANCELLED}"
  shows "good (drop_live (set_state st t (left_rt p t rt))) (pc(p := WTop)) d k"
proof -
  note f = finish_facts [OF inv p] and parts = inv_parts [OF inv]
  let ?rt = "drop_live (set_state st t (left_rt p t rt))"
  have drop: "rt_live_tasks rt \<noteq> 0" "rt_live_tasks rt - 1 = card {x \<in> set (rt_all_tasks rt). \<not> terminal (task_state ?rt x)}"
    using live_drop [OF parts(5) f(1), of ?rt] st by auto
  have "sys_inv ?rt (pc(p := WTop)) d gl (ll(p := ll p))"
  proof (rule inv_leave [OF inv p, of ?rt])
    show "rt_live_tasks ?rt = card {x \<in> set (rt_all_tasks rt). \<not> terminal (task_state ?rt x)}"
      using drop by (simp add: drop_live_eq)
    have "queues_same (left_rt p t rt) ?rt" by (rule queues_sameI) simp_all
    then show "reps ?rt gl (ll(p := ll p))" using reps_same [OF f(8)] by simp
    show "task_ok (rt_tasks ?rt t) (t \<in> set gl \<or> t \<in> set (ll p)) False False (t \<in> set (rt_all_tasks rt)) (t \<in> d)"
      using f st by (auto simp: task_ok_def)
  qed (use f st in \<open>auto simp: tk_same_def\<close>)
  moreover have "bottoms ?rt k" using k by (simp add: bottoms_def)
  ultimately show ?thesis unfolding good_def fun_upd_triv by blast
qed

lemma good_no_fiber:
  assumes "good rt pc d k"
  shows "good (upd_task (\<lambda>t. t\<lparr>t_fiber := None\<rparr>) t rt) pc d k"
proof -
  let ?rt = "upd_task (\<lambda>t. t\<lparr>t_fiber := None\<rparr>) t rt"
  obtain gl ll where inv: "sys_inv rt pc d gl ll" and k: "bottoms rt k" using assms by (auto simp: good_def)
  have q: "queues_same rt ?rt" by (rule queues_sameI) simp_all
  have c: "counts_ok ?rt pc"
    by (rule counts_same [OF inv_parts(5) [OF inv]]) (use inv_parts(5) [OF inv] in \<open>auto simp: counts_ok_def\<close>)
  have "sys_inv ?rt pc d gl ll"
  proof (rule inv_update [OF inv q c, of t])
    fix p assume "p < rt_worker_count rt" "t \<in> set (running_at (pc p))"
    then show "task_state ?rt t = VL_TASK_RUNNING"
      using inv_at(1) [OF inv] by (auto simp: worker_ok_def)
  qed (auto simp: task_ok_def)
  moreover have "bottoms ?rt k" using k by (simp add: bottoms_def)
  ultimately show ?thesis by (auto simp: good_def)
qed

lemma good_cancel_executed:
  assumes inv: "sys_inv rt pc d gl ll" and p: "p < rt_worker_count rt" "pc p = WFin t r" and k: "bottoms rt k"
    and st: "task_state rt t = VL_TASK_RUNNING"
  shows "good (cancel_executed t (left_rt p t rt)) (pc(p := WTop)) d k"
  using good_no_fiber good_neutral [OF good_finish_end [OF inv p k st, of VL_TASK_CANCELLED] neutral_runtime(6)]
  by (simp add: cancel_executed_def)

lemma good_done:
  assumes inv: "sys_inv rt pc d gl ll" and p: "p < rt_worker_count rt" "pc p = WFin t r" and k: "bottoms rt k"
    and st: "task_state rt t = VL_TASK_RUNNING"
  shows "good (upd_task (\<lambda>t. t\<lparr>t_fiber := None\<rparr>) t (vl_task_complete_locked t (set_state VL_TASK_DONE t (left_rt p t rt)))) (pc(p := WTop)) d k"
proof -
  let ?rt = "drop_live (set_state VL_TASK_DONE t (left_rt p t rt))"
  have "good ?rt (pc(p := WTop)) d k" using good_finish_end [OF inv p k st] by simp
  moreover have "neutral ?rt (upd_task (\<lambda>t. t\<lparr>t_waiters_head := None, t_waiters_tail := None\<rparr>) t ?rt)"
    by (rule neutral_task) (simp_all add: tk_same_def)
  ultimately have "good (wake_joiners fuel w (upd_task (\<lambda>t. t\<lparr>t_waiters_head := None, t_waiters_tail := None\<rparr>) t ?rt)) (pc(p := WTop)) d k" for fuel w
    using good_neutral good_joiners by blast
  then show ?thesis
    unfolding complete_eq using good_no_fiber good_neutral [OF _ neutral_runtime(1)] by blast
qed

lemma good_requeue:
  assumes inv: "sys_inv rt pc d gl ll" and p: "p < rt_worker_count rt" "pc p = WFin t r" and k: "bottoms rt k" "k < 2 ^ 64 - 1"
    and st: "task_state rt t = VL_TASK_RUNNABLE \<or> parked rt t \<and> t_wake_pending (rt_tasks rt t)"
    and rt1: "rt1 = upd_task (\<lambda>t. t\<lparr>t_wake_pending := False, t_state := VL_TASK_RUNNABLE\<rparr>) t (left_rt p t rt)"
  shows "good (vl_task_enqueue_local_locked p t rt1) (pc(p := WTop)) d (Suc k)"
proof -
  note f = finish_facts [OF inv p] and parts = inv_parts [OF inv]
  let ?rt = "vl_task_enqueue_local_locked p t rt1"
  have "queues_same (left_rt p t rt) rt1" unfolding rt1 by (rule queues_sameI) simp_all
  then have r1: "reps rt1 gl ll" using reps_same [OF f(8)] by (simp add: rt1)
  have "task_state rt1 t = VL_TASK_RUNNABLE" "\<not> t_queued (rt_tasks rt1 t)" "gl_rep rt1 gl"
      "rq_holds (p_runnable (rt_ps rt1 p)) (ll p)" "bottoms rt1 k"
    using f(2) r1 p(1) k(1) by (simp_all add: rt1 reps_def bottoms_def)
  from enqueue_local_spec [OF this(1-3) f(4) this(4,5) k(2)]
  obtain gl' l' where e: "(gl', l') \<in> {(gl @ [t], ll p), (gl, ll p @ [t])}" "l' = ll p @ [t] \<longrightarrow> t_fiber (rt_tasks rt1 t) = None"
      "gl_rep ?rt gl'" "rq_holds (p_runnable (rt_ps ?rt p)) l'"
      "\<forall>q. q \<noteq> p \<longrightarrow> p_runnable (rt_ps ?rt q) = p_runnable (rt_ps rt1 q)" "bottoms ?rt (Suc k)"
      "sched_same (upd_task (\<lambda>tk. tk\<lparr>t_queued := True\<rparr>) t rt1) ?rt"
    by blast
  have tk: "tk_same (rt_tasks (upd_task (\<lambda>tk. tk\<lparr>t_queued := True\<rparr>) t rt1) x) (rt_tasks ?rt x)" for x
    using e(7) by (simp add: sched_same_def)
  have r: "rest_same rt1 ?rt" using e(7) by (simp add: sched_same_def rest_same_def)
  have trm: "\<not> terminal (task_state ?rt x) \<longleftrightarrow> \<not> terminal (task_state rt x)" for x
    using tk [of x] f(6) by (auto simp: tk_same_def rt1 split: if_splits)
  have "sys_inv ?rt (pc(p := WTop)) d gl' (ll(p := l'))"
  proof (rule inv_leave [OF inv p])
    show "tk_same (rt_tasks rt x) (rt_tasks ?rt x)" if "x \<noteq> t" for x
      using tk [of x] that by (simp add: rt1 tk_same_def)
    show "rt_live_tasks ?rt = card {x \<in> set (rt_all_tasks rt). \<not> terminal (task_state ?rt x)}"
      unfolding trm using r parts(5) by (simp add: rest_same_def counts_ok_def rt1)
    show "reps ?rt gl' (ll(p := l'))"
      using e(3-5) r1 r by (auto simp: reps_def rest_same_def)
    show "t \<in> set l' \<longrightarrow> t_fiber (rt_tasks ?rt t) = None" using e(1,2) f(5) tk [of t] by (auto simp: tk_same_def)
    show "task_ok (rt_tasks ?rt t) (t \<in> set gl' \<or> t \<in> set l') False False (t \<in> set (rt_all_tasks rt)) (t \<in> d)"
      using tk [of t] e(1) f(1) by (auto simp: task_ok_def tk_same_def rt1)
  qed (use e(1) r in \<open>auto simp: rest_same_def rt1\<close>)
  then show ?thesis using e(6) by (auto simp: good_def)
qed

lemma upd_task_id: "f (rt_tasks rt t) = rt_tasks rt t \<Longrightarrow> upd_task f t rt = rt"
  by (simp add: upd_task_def upd_def)

lemma good_suspended:
  assumes inv: "sys_inv rt pc d gl ll" and p: "p < rt_worker_count rt" "pc p = WFin t r" and k: "bottoms rt k" "k < 2 ^ 64 - 1"
  shows "good (finish_suspended p t (left_rt p t rt)) (pc(p := WTop)) d (Suc k)"
proof -
  note f = finish_facts [OF inv p] and parts = inv_parts [OF inv]
  let ?l = "left_rt p t rt" and ?f = "\<lambda>t. t\<lparr>t_wake_pending := False, t_state := VL_TASK_RUNNABLE\<rparr>"
  consider "task_state rt t = VL_TASK_RUNNING" | "task_state rt t = VL_TASK_RUNNABLE"
    | "parked rt t" "t_wake_pending (rt_tasks rt t)" | "parked rt t" "\<not> t_wake_pending (rt_tasks rt t)" using f(6) by blast
  then show ?thesis
  proof cases
    case 1
    then have "finish_suspended p t ?l = cancel_executed t ?l" by (simp add: finish_suspended_def)
    then show ?thesis using good_cancel_executed [OF inv p k(1) 1] bottoms_mono by (auto simp: good_def)
  next
    case 2
    then have "\<not> t_wake_pending (rt_tasks rt t)" using f(7) by auto
    then have "?f (rt_tasks ?l t) = rt_tasks ?l t" using 2 by (cases "rt_tasks rt t") simp
    then have id: "upd_task ?f t ?l = ?l" by (rule upd_task_id)
    have "finish_suspended p t ?l = vl_task_enqueue_local_locked p t (upd_task ?f t ?l)"
      unfolding id using 2 f(7) by (auto simp: finish_suspended_def)
    then show ?thesis using good_requeue [OF inv p k _ refl] 2 by simp
  next
    case 3
    then have "finish_suspended p t ?l = vl_task_enqueue_local_locked p t (upd_task ?f t ?l)"
      by (auto simp: finish_suspended_def)
    then show ?thesis using good_requeue [OF inv p k _ refl] 3 by auto
  next
    case 4
    then have eq: "finish_suspended p t ?l = ?l" by (auto simp: finish_suspended_def)
    have trm: "\<not> terminal (task_state ?l x) \<longleftrightarrow> \<not> terminal (task_state rt x)" for x by simp
    have "sys_inv ?l (pc(p := WTop)) d gl (ll(p := ll p))"
    proof (rule inv_leave [OF inv p])
      show "rt_live_tasks ?l = card {x \<in> set (rt_all_tasks rt). \<not> terminal (task_state ?l x)}"
        unfolding trm using parts(5) by (simp add: counts_ok_def)
      show "task_ok (rt_tasks ?l t) (t \<in> set gl \<or> t \<in> set (ll p)) False False (t \<in> set (rt_all_tasks rt)) (t \<in> d)"
        using f 4 by (auto simp: task_ok_def)
    qed (use f in \<open>auto simp: tk_same_def\<close>)
    moreover have "bottoms ?l (Suc k)" using k(1) by (simp add: bottoms_def le_SucI)
    ultimately show ?thesis unfolding good_def eq fun_upd_triv by blast
  qed
qed

lemma good_stop:
  assumes "good rt pc d k"
  shows "good (vl_worker_stop_run_locked st rt) pc d k"
proof -
  let ?rt = "vl_worker_stop_run_locked st rt"
  obtain gl ll where inv: "sys_inv rt pc d gl ll" and k: "bottoms rt k" using assms by (auto simp: good_def)
  have "queues_same rt ?rt" by (rule queues_sameI) (simp_all add: vl_worker_stop_run_locked_def)
  then have "sys_inv ?rt pc d gl ll"
    by (rule inv_other [OF inv]) (simp_all add: vl_worker_stop_run_locked_def)
  moreover have "bottoms ?rt k" using k by (simp add: bottoms_def vl_worker_stop_run_locked_def)
  ultimately show ?thesis by (auto simp: good_def)
qed

lemma good_finish:
  assumes inv: "sys_inv rt pc d gl ll" and p: "p < rt_worker_count rt" "pc p = WFin t r" and k: "bottoms rt k" "k < 2 ^ 64 - 1"
  shows "good (execute_finish p t r rt) (pc(p := WTop)) d (Suc k)"
proof -
  let ?l = "left_rt p t rt"
  let ?rt3 = "case r of Resume_Error \<Rightarrow> cancel_executed t ?l
      | Fiber_Done \<Rightarrow> upd_task (\<lambda>t. t\<lparr>t_fiber := None\<rparr>) t (vl_task_complete_locked t (set_state VL_TASK_DONE t ?l))
      | Fiber_Suspended \<Rightarrow> finish_suspended p t ?l"
  have up: "good rt pc d (Suc k)" if "good rt pc d k" for rt pc using that bottoms_mono [of rt k "Suc k"] by (auto simp: good_def)
  have "good ?rt3 (pc(p := WTop)) d (Suc k)"
  proof (cases r)
    case Resume_Error
    then show ?thesis using up [OF good_cancel_executed [OF inv p k(1) finish_facts(9) [OF inv p]]] by simp
  next
    case Fiber_Done
    then show ?thesis using up [OF good_done [OF inv p k(1) finish_facts(9) [OF inv p]]] by simp
  next
    case Fiber_Suspended
    then show ?thesis using good_suspended [OF inv p k] by simp
  qed
  then have "good (vl_runtime_wake_workers (if rt_live_tasks ?rt3 = 0 then vl_worker_stop_run_locked VL_OK ?rt3 else ?rt3)) (pc(p := WTop)) d (Suc k)"
    using good_stop good_neutral [OF _ neutral_runtime(3)] by simp
  then show ?thesis unfolding execute_finish_def Let_def upd_task_sel .
qed

section \<open>The program point alone\<close>

lemma good_pc:
  assumes inv: "sys_inv rt pc d gl ll" and p: "p < rt_worker_count rt" and n: "neutral rt rt'" and k: "bottoms rt k"
    and at: "held pc' = held (pc p)" "mine pc' = mine (pc p)" "exec_of pc' = exec_of (pc p)" "running_at pc' = running_at (pc p)"
      "current_of pc' = current_of (pc p)" "\<not> (\<exists>w. pc p = WWait w)"
  shows "good rt' (pc(p := pc')) d k"
proof -
  have same: "rest_same rt rt'" "\<And>t. tk_same (rt_tasks rt t) (rt_tasks rt' t)" "queues_same rt rt'"
    using n by (simp_all add: neutral_def sched_same_def)
  have c: "counts_ok rt pc" by (rule inv_parts(5) [OF inv])
  have "sys_inv rt' (pc(p := pc')) d gl ll"
  proof (rule inv_worker [OF inv p same(3,2)])
    have "worker_ok (rt_tasks rt) (rt_ps rt p) (ll p) p pc'"
      using inv_at(1) [OF inv p] at by (simp add: worker_ok_def)
    then show "worker_ok (rt_tasks rt') (rt_ps rt' p) (ll p) p pc'"
      using worker_ok_cong [of "ll p" pc' "rt_tasks rt" "rt_tasks rt'" "rt_ps rt' p" "rt_ps rt p" p] same by (simp add: rest_same_def)
  qed (use same c at in \<open>auto simp: rest_same_def counts_ok_def\<close>)
  moreover have "bottoms rt' k" using k same(3) by (simp add: bottoms_def queues_same_def)
  ultimately show ?thesis by (auto simp: good_def)
qed

text \<open>Entering the loop, and giving control to a fiber and back.\<close>

lemma good_current:
  assumes inv: "sys_inv rt pc d gl ll" and p: "p < rt_worker_count rt" and k: "bottoms rt k"
    and at: "held pc' = held (pc p)" "mine pc' = mine (pc p)" "exec_of pc' = exec_of (pc p)"
      "\<forall>t \<in> set (running_at pc'). task_state rt t = VL_TASK_RUNNING" "\<not> (\<exists>w. pc p = WWait w)"
  shows "good (set_current p (current_of pc') rt) (pc(p := pc')) d k"
proof -
  let ?rt = "set_current p (current_of pc') rt"
  have rt: "?rt = upd_p (\<lambda>P. P\<lparr>p_current := current_of pc'\<rparr>) p rt" by (simp add: set_current_def vl_context_set_current_def)
  have c: "counts_ok rt pc" by (rule inv_parts(5) [OF inv])
  have idle: "p_idle (rt_ps ?rt q) = p_idle (rt_ps rt q)" for q by (simp add: rt)
  have "sys_inv ?rt (pc(p := pc')) d gl ll"
  proof (rule inv_worker [OF inv p])
    show "queues_same rt ?rt" unfolding rt by (rule queues_sameI) simp_all
    show "worker_ok (rt_tasks ?rt) (rt_ps ?rt p) (ll p) p pc'"
      using inv_at(1) [OF inv p] at by (simp add: worker_ok_def rt)
    show "rt_idle_workers ?rt \<le> card {q. q < rt_worker_count rt \<and> p_idle (rt_ps ?rt q)}"
      unfolding idle using c by (simp add: counts_ok_def rt)
  qed (use at in \<open>simp_all add: rt\<close>)
  moreover have "bottoms ?rt k" using k by (simp add: bottoms_def rt)
  ultimately show ?thesis by (auto simp: good_def)
qed

lemma inv_fiber:
  assumes inv: "sys_inv rt pc d gl ll" and p: "p < rt_worker_count rt" "pc p = WExec t"
    and f: "execute_fiber fresh t rt = (b, rt')"
  shows "sys_inv rt' pc d gl ll" "rt_ps rt' = rt_ps rt" "rt_worker_count rt' = rt_worker_count rt" "task_state rt' t = VL_TASK_RUNNING"
proof -
  note parts = inv_parts [OF inv] and at = inv_at [OF inv p(1)]
  have st: "task_state rt t = VL_TASK_RUNNING" "t_executing (rt_tasks rt t)"
    using at(1) at(5) [of t] p(2) by (auto simp: worker_ok_def running_at_def task_ok_def)
  have "rt' = rt \<or> rt' = upd_task (\<lambda>t. t\<lparr>t_fiber := fresh\<rparr>) t rt"
    using f by (auto simp: execute_fiber_def split: if_splits)
  moreover have "sys_inv (upd_task (\<lambda>t. t\<lparr>t_fiber := fresh\<rparr>) t rt) pc d gl ll" (is "sys_inv ?rt _ _ _ _")
  proof (rule inv_update [OF inv, of _ t])
    show "queues_same rt ?rt" by (rule queues_sameI) simp_all
    show "counts_ok ?rt pc" by (rule counts_same [OF parts(5)]) (use parts(5) in \<open>auto simp: counts_ok_def\<close>)
  qed (use st in \<open>auto simp: task_ok_def\<close>)
  ultimately show "sys_inv rt' pc d gl ll" "rt_ps rt' = rt_ps rt" "rt_worker_count rt' = rt_worker_count rt"
      "task_state rt' t = VL_TASK_RUNNING"
    using inv st(1) by auto
qed

section \<open>Idling\<close>

lemma idle_upd:
  fixes n :: nat
  assumes "p < n"
  shows "card {q. q < n \<and> (if q = p then b else f q)} = (card {q. q < n \<and> f q} - (if f p then 1 else 0)) + (if b then 1 else (0 :: nat))"
proof -
  let ?A = "{q. q < n \<and> f q}"
  have fin: "finite ?A" by simp
  have "{q. q < n \<and> (if q = p then b else f q)} = (if b then insert p (?A - {p}) else ?A - {p})" using assms by auto
  moreover have "card (insert p (?A - {p})) = card (?A - {p}) + 1" using card_insert_disjoint [of "?A - {p}" p] fin by simp
  moreover have "card (?A - {p}) = card ?A - (if f p then 1 else 0)" using assms by auto
  ultimately show ?thesis by simp
qed

lemma good_idle:
  assumes inv: "sys_inv rt pc d gl ll" and p: "p < rt_worker_count rt" "pc p = WIdle" and k: "bottoms rt k"
    and i: "idle_enter now p rt = (Some (w, timeout), rt')"
  shows "good rt' (pc(p := WWait w)) d k"
proof -
  note parts = inv_parts [OF inv] and at = inv_at [OF inv p(1)]
  let ?rt1 = "upd_p_stats (\<lambda>s. s\<lparr>ps_parks := ps_parks s + 1\<rparr>) p
      (upd_p (\<lambda>P. P\<lparr>p_idle := True\<rparr>) p (rt\<lparr>rt_idle_workers := rt_idle_workers rt + 1\<rparr>))"
  have busy: "\<not> p_idle (rt_ps rt p)" using at(1) p(2) by (auto simp: worker_ok_def)
  then have rt': "rt' = ?rt1 \<or> rt' = vl_worker_stop_run_locked VL_ERROR_INVALID_STATE ?rt1"
    using i by (auto simp: idle_enter_def Let_def split: if_splits)
  have idle: "p_idle (rt_ps ?rt1 q) = (if q = p then True else p_idle (rt_ps rt q))" for q by simp
  have "sys_inv ?rt1 (pc(p := WWait w)) d gl ll"
  proof (rule inv_worker [OF inv p(1)])
    show "queues_same rt ?rt1" by (rule queues_sameI) simp_all
    show "worker_ok (rt_tasks ?rt1) (rt_ps ?rt1 p) (ll p) p (WWait w)"
      using at(1) p(2) by (auto simp: worker_ok_def running_at_def current_of_def)
    show "rt_idle_workers ?rt1 \<le> card {q. q < rt_worker_count rt \<and> p_idle (rt_ps ?rt1 q)}"
      unfolding idle idle_upd [OF p(1), of True "\<lambda>q. p_idle (rt_ps rt q)"] using parts(5) busy by (simp add: counts_ok_def)
  qed (use p(2) in simp_all)
  then have "good ?rt1 (pc(p := WWait w)) d k" using k by (auto simp: good_def bottoms_def)
  then show ?thesis using rt' good_stop by auto
qed

lemma good_idle_end:
  assumes inv: "sys_inv rt pc d gl ll" and p: "p < rt_worker_count rt" "pc p = WWait w" and k: "bottoms rt k"
  shows "good (idle_leave p rt) (pc(p := WTop)) d k"
proof -
  note parts = inv_parts [OF inv] and at = inv_at [OF inv p(1)]
  let ?rt = "idle_leave p rt"
  have idle: "p_idle (rt_ps ?rt q) = (if q = p then False else p_idle (rt_ps rt q))" for q
    by (simp add: idle_leave_def Let_def)
  have w: "rt_idle_workers ?rt = (if p_idle (rt_ps rt p) then rt_idle_workers rt - 1 else rt_idle_workers rt)"
    by (simp add: idle_leave_def Let_def)
  have "sys_inv ?rt (pc(p := WTop)) d gl ll"
  proof (rule inv_worker [OF inv p(1)])
    show "queues_same rt ?rt" by (rule queues_sameI) (simp_all add: idle_leave_def Let_def)
    show "worker_ok (rt_tasks ?rt) (rt_ps ?rt p) (ll p) p WTop"
      using at(1) p(2) idle [of p] by (auto simp: worker_ok_def running_at_def current_of_def idle_leave_def Let_def)
    show "rt_idle_workers ?rt \<le> card {q. q < rt_worker_count rt \<and> p_idle (rt_ps ?rt q)}"
      unfolding idle idle_upd [OF p(1), of False "\<lambda>q. p_idle (rt_ps rt q)"] w using parts(5) by (auto simp: counts_ok_def)
  qed (use p(2) in \<open>simp_all add: idle_leave_def Let_def\<close>)
  moreover have "bottoms ?rt k" using k by (simp add: bottoms_def idle_leave_def Let_def)
  ultimately show ?thesis by (auto simp: good_def)
qed

section \<open>All steps\<close>

lemma good_less: "good rt pc d k \<Longrightarrow> k \<le> k' \<Longrightarrow> good rt pc d k'"
  using bottoms_mono by (auto simp: good_def)

lemma good_worker:
  assumes g: "good rt pc d k" and p: "p < rt_worker_count rt" and k: "k + VL_STEAL_BATCH_MAX < 2 ^ 64"
    and len: "length (held (pc p)) \<le> VL_STEAL_BATCH_MAX" and step: "worker_step p rt (pc p) rt' pc'"
  shows "good rt' (pc(p := pc')) (d \<union> drops rt (pc p) pc') (k + VL_STEAL_BATCH_MAX)"
proof -
  obtain gl ll where inv: "sys_inv rt pc d gl ll" and b: "bottoms rt k" using g by (auto simp: good_def)
  note at = inv_at [OF inv p]
  note up = good_less [OF _ le_add1 [of k VL_STEAL_BATCH_MAX]]
  note move = good_pc [OF inv p neutral_refl b, THEN up] and cur = good_current [OF inv p b, THEN up]
  have k1: "k < 2 ^ 64 - 1" using k by (simp add: VL_STEAL_BATCH_MAX_def)
  from step show ?thesis
  proof (cases rule: worker_step.cases)
    case enter
    then show ?thesis using cur [of WTop] by (simp add: drops_def running_at_def current_of_def)
  next
    case leave
    then show ?thesis using move [of WOut] by (simp add: drops_def running_at_def current_of_def)
  next
    case continue
    then show ?thesis using move [of WTimers] by (simp add: drops_def running_at_def current_of_def)
  next
    case (expire now)
    have "good (vl_timers_expire (Some p) now rt) (pc(p := WPoll)) d (k + VL_STEAL_BATCH_MAX)"
      using good_expire [OF move [of WPoll]] expire by (simp add: running_at_def current_of_def)
    then show ?thesis using expire by (simp add: drops_def)
  next
    case (complete task ok)
    then have "pc(p := pc') = pc" "drops rt (pc p) pc' = {}" by (simp_all add: drops_def fun_upd_idem)
    then show ?thesis using complete good_complete_io [OF up [OF g]] by simp
  next
    case polled
    then show ?thesis using move [of WNext] by (simp add: drops_def running_at_def current_of_def)
  next
    case (pop t)
    have "bottoms rt' k" using local_pop_spec(2) [OF at(3) pop(3) refl] b by blast
    then have "good rt' (pc(p := WPopped t)) d k" using inv_pop [OF inv p pop(1,3)] by (auto simp: good_def)
    then show ?thesis using up pop by (simp add: drops_def)
  next
    case pop_none
    have "rt' = rt" using local_pop_spec(1) [OF at(3) pop_none(3)] by simp
    then show ?thesis using pop_none move [of WGlobal] by (simp add: drops_def running_at_def current_of_def)
  next
    case (claim t)
    have "good rt' (pc(p := pc')) d k" using inv_claim [OF inv p claim(1)] b claim by (auto simp: good_def bottoms_def)
    then show ?thesis using up claim by (simp add: drops_def)
  next
    case (global t)
    then show ?thesis using inv_global [OF inv p global(1) b k global(3)] by (simp add: drops_def)
  next
    case global_none
    then show ?thesis using inv_global_none [OF inv p global_none(1) b k global_none(3)] by (simp add: drops_def)
  next
    case (attempt offset)
    have "good (steal_attempt p rt) (pc(p := WThief offset [])) d k"
      by (rule good_pc [OF inv p neutral_runtime(13) b]) (use attempt in \<open>simp_all add: running_at_def current_of_def\<close>)
    then show ?thesis using up attempt by (simp add: drops_def)
  next
    case (no_victim offset)
    then show ?thesis using move [of WIdle] by (simp add: drops_def running_at_def current_of_def)
  next
    case (steal acc victim offset t q)
    then show ?thesis using up [OF inv_steal [OF inv p steal(1,5,6) b]] by (simp add: drops_def)
  next
    case (steal_fails offset)
    then show ?thesis using move [of "WSteal (offset + 1)"] by (simp add: drops_def running_at_def current_of_def)
  next
    case (steal_ends acc offset)
    then show ?thesis using move [of "WLoot acc"] by (simp add: drops_def running_at_def current_of_def)
  next
    case (distribute t ts)
    have l: "length ts < VL_STEAL_BATCH_MAX" using len distribute(1) by simp
    then have "k + length ts < 2 ^ 64" using k by linarith
    from inv_distribute [OF inv p distribute(1) b this] l
    show ?thesis using distribute good_less [of _ _ _ "k + length ts"] by (simp add: drops_def)
  next
    case (skip t)
    have rt': "rt' = rt" using skip(3) by (auto simp: execute_begin_def Let_def split: if_splits)
    have "drops rt (pc p) pc' = {x. x = t \<and> task_state rt t = VL_TASK_RUNNABLE}" using skip(1,2) by (auto simp: drops_def)
    moreover have "good rt (pc(p := WTop)) (d \<union> {x. x = t \<and> task_state rt t = VL_TASK_RUNNABLE}) k"
      using inv_skip [OF inv p skip(1)] b unfolding good_def by blast
    ultimately show ?thesis using up skip(2) rt' by simp
  next
    case (cancel t)
    have "good rt' (pc(p := pc')) d k" using inv_cancel [OF inv p cancel(1,3)] b cancel(2) by (auto simp: good_def bottoms_def)
    then show ?thesis using up cancel by (simp add: drops_def)
  next
    case cancelled
    have "good rt (pc(p := WTop)) d (k + VL_STEAL_BATCH_MAX)"
      using move [of WTop] cancelled by (simp add: running_at_def current_of_def)
    then have "good (execute_cancelled rt) (pc(p := WTop)) d (k + VL_STEAL_BATCH_MAX)"
      unfolding execute_cancelled_def using good_stop good_neutral [OF _ neutral_runtime(3)] by simp
    then show ?thesis using cancelled by (simp add: drops_def)
  next
    case (start t)
    have "good rt' (pc(p := pc')) d k" using inv_start [OF inv p start(1,3)] b start(2) by (auto simp: good_def bottoms_def)
    then show ?thesis using up start by (simp add: drops_def)
  next
    case (no_fiber fresh t)
    note f = inv_fiber [OF inv p no_fiber(1,3)]
    have "good rt' (pc(p := pc')) d k"
      by (rule good_pc [OF f(1) _ neutral_refl])
         (use no_fiber p b f in \<open>simp_all add: running_at_def current_of_def bottoms_def\<close>)
    then show ?thesis using up no_fiber by (simp add: drops_def)
  next
    case (resume fresh t rt1)
    note f = inv_fiber [OF inv p resume(1,4)]
    have i: "sys_inv (count_switch rt1) pc d gl ll"
      using inv_neutral [OF f(1)] neutral_runtime(4) [of rt1] by (simp add: neutral_def)
    have "good (set_current p (current_of (WRun t)) (count_switch rt1)) (pc(p := WRun t)) d k"
      by (rule good_current [OF i]) (use resume p b f in \<open>simp_all add: running_at_def bottoms_def\<close>)
    then show ?thesis using up resume by (simp add: drops_def current_of_def)
  next
    case (suspended t)
    then show ?thesis using cur [of "WFin t Fiber_Suspended"] by (simp add: drops_def running_at_def current_of_def)
  next
    case (returned t r)
    then show ?thesis using cur [of "WFin t r"] by (auto simp: drops_def running_at_def current_of_def)
  next
    case (finish t r)
    have "Suc k \<le> k + VL_STEAL_BATCH_MAX" by (simp add: VL_STEAL_BATCH_MAX_def)
    then show ?thesis using finish good_less [OF good_finish [OF inv p finish(1) b k1]] by (simp add: drops_def)
  next
    case (idle_stop now)
    have "rt' = rt" using idle_stop(3) by (auto simp: idle_enter_def Let_def split: if_splits)
    then show ?thesis using idle_stop move [of WTop] by (simp add: drops_def running_at_def current_of_def)
  next
    case (idle now w timeout)
    then show ?thesis using up [OF good_idle [OF inv p idle(1) b idle(3)]] by (simp add: drops_def)
  next
    case (idle_end w)
    let ?rt1 = "if w then vl_worker_drain_eventfd p rt else vl_runtime_wake_workers rt"
    have n: "neutral rt ?rt1" using neutral_runtime(3,12) by simp
    then have "sys_inv ?rt1 pc d gl ll" "p < rt_worker_count ?rt1" "bottoms ?rt1 k"
      using inv_neutral [OF inv] p b by (simp_all add: neutral_def sched_same_def rest_same_def queues_same_def bottoms_def)
    from good_idle_end [OF this(1,2) idle_end(1) this(3)] show ?thesis using up idle_end by (simp add: drops_def)
  qed
qed

text \<open>The states reachable in \<open>n\<close> steps from a freshly initialised runtime.\<close>

definition fresh_runtime :: "vl_runtime_impl \<Rightarrow> bool" where
  "fresh_runtime rt \<longleftrightarrow> 0 < rt_worker_count rt \<and> rt_global_runnable rt = \<lparr>tq_head = None, tq_tail = None, tq_length = 0\<rparr>
     \<and> rt_all_tasks rt = [] \<and> rt_live_tasks rt = 0 \<and> rt_active_workers rt = 0 \<and> rt_idle_workers rt = 0
     \<and> (\<forall>t. rt_tasks rt t = vl_task_zero)
     \<and> (\<forall>p. snd (vl_run_queue_init True vl_run_queue_zero 1024) = p_runnable (rt_ps rt p)
            \<and> \<not> p_idle (rt_ps rt p) \<and> p_current (rt_ps rt p) = None)"

inductive sys_reach :: "nat \<Rightarrow> sys \<Rightarrow> bool" where
  init: "fresh_runtime rt \<Longrightarrow> sys_reach 0 \<lparr>sy_rt = rt, sy_pc = (\<lambda>_. WOut), sy_dropped = {}\<rparr>"
| next_step: "sys_reach n s \<Longrightarrow> sys_step s s' \<Longrightarrow> sys_reach (Suc n) s'"

definition loot_ok :: "(pid \<Rightarrow> wpc) \<Rightarrow> bool" where
  "loot_ok pc \<longleftrightarrow> (\<forall>p. length (held (pc p)) \<le> VL_STEAL_BATCH_MAX)"

lemma worker_step_held:
  assumes "worker_step p rt pc rt' pc'" "length (held pc) \<le> VL_STEAL_BATCH_MAX"
  shows "length (held pc') \<le> VL_STEAL_BATCH_MAX"
  using assms by (cases rule: worker_step.cases) (auto simp: VL_STEAL_BATCH_MAX_def)

lemma sys_step_loot: "sys_step s s' \<Longrightarrow> loot_ok (sy_pc s) \<Longrightarrow> loot_ok (sy_pc s')"
  by (cases rule: sys_step.cases) (auto simp: loot_ok_def dest: worker_step_held)

lemma good_run:
  assumes g: "good rt pc d k" and run: "pc 0 = WOut" "run_begin True TlsNull (Some rt) = Inr rt'"
  shows "good (set_current 0 None rt') (pc(0 := WTop)) d k"
proof -
  obtain gl ll where inv: "sys_inv rt pc d gl ll" and b: "bottoms rt k" using g by (auto simp: good_def)
  have rt': "rt' = vl_runtime_wake_workers (rt\<lparr>rt_run_status := VL_OK, rt_idle_workers := 0, rt_running := True\<rparr>)"
    using run(2) by (auto simp: run_begin_def split: if_splits)
  have "queues_same rt rt'" unfolding rt' by (rule queues_sameI) simp_all
  then have i: "sys_inv rt' pc d gl ll" by (rule inv_other [OF inv]) (simp_all add: rt')
  have "0 < rt_worker_count rt'" "bottoms rt' k" using inv_parts(6) [OF inv] b by (simp_all add: rt' bottoms_def)
  from good_current [OF i this, of WTop] show ?thesis using run(1) by (simp add: running_at_def current_of_def)
qed

lemma good_shutdown:
  assumes g: "good rt pc d k" and "vl_runtime_request_shutdown (Some rt) = Some rt'"
  shows "good rt' pc d k"
proof -
  obtain gl ll where inv: "sys_inv rt pc d gl ll" and b: "bottoms rt k" using g by (auto simp: good_def)
  have rt': "rt' = vl_runtime_wake_workers (rt\<lparr>rt_shutdown_requested := True, rt_running := False\<rparr>)"
    using assms(2) by (simp add: vl_runtime_request_shutdown_def)
  have "queues_same rt rt'" unfolding rt' by (rule queues_sameI) simp_all
  then have "sys_inv rt' pc d gl ll" by (rule inv_other [OF inv]) (simp_all add: rt')
  then show ?thesis using b by (auto simp: good_def bottoms_def rt')
qed

lemma good_spawn:
  assumes g: "good rt pc d k" and s: "t \<notin> set (rt_all_tasks rt)" "vl_spawn is_owner tls (Some t) fn_ok (Some rt) = (Some t, Some rt')"
  shows "good rt' pc d k"
proof -
  obtain gl ll where inv: "sys_inv rt pc d gl ll" and b: "bottoms rt k" using g by (auto simp: good_def)
  note sp = inv_spawn [OF inv s]
  have "p_runnable (rt_ps rt' p) = p_runnable (rt_ps rt p)" for p using arg_cong [OF sp(2) [of p], of p_runnable] by simp
  then show ?thesis using sp(1) b by (auto simp: good_def bottoms_def)
qed

lemma good_step:
  assumes g: "good (sy_rt s) (sy_pc s) (sy_dropped s) k" and k: "k + VL_STEAL_BATCH_MAX < 2 ^ 64" and l: "loot_ok (sy_pc s)"
    and step: "sys_step s s'"
  shows "good (sy_rt s') (sy_pc s') (sy_dropped s') (k + VL_STEAL_BATCH_MAX)"
proof -
  note up = good_less [OF _ le_add1 [of k VL_STEAL_BATCH_MAX]]
  from step show ?thesis
  proof (cases rule: sys_step.cases)
    case (worker p rt' pc')
    then show ?thesis using good_worker [OF g worker(2) k _ worker(3)] l by (simp add: loot_ok_def)
  next
    case (run rt')
    then show ?thesis using up [OF good_run [OF g run(2,4)]] by simp
  next
    case run_ends
    have "good (snd (run_end (sy_rt s))) (sy_pc s) (sy_dropped s) k"
      using g good_cancel_all [OF g] by (simp add: run_end_def)
    then show ?thesis using up run_ends by simp
  next
    case (spawn is_owner tls t fn_ok rt')
    then show ?thesis using up [OF good_spawn [OF g spawn(3,2)]] by simp
  next
    case (park p t st)
    obtain gl ll where inv: "sys_inv (sy_rt s) (sy_pc s) (sy_dropped s) gl ll" and b: "bottoms (sy_rt s) k" using g by (auto simp: good_def)
    have "good (set_state st t (sy_rt s)) (sy_pc s) (sy_dropped s) k"
      using inv_park [OF inv park(2-5)] b by (auto simp: good_def bottoms_def)
    then show ?thesis using up park by simp
  next
    case (wake t)
    then show ?thesis using up [OF good_wake [OF g]] by simp
  next
    case (shutdown rt')
    then show ?thesis using up [OF good_shutdown [OF g shutdown(2)]] by simp
  next
    case (other rt')
    then show ?thesis using up [OF good_neutral [OF g]] by (simp add: neutral_def)
  qed
qed

end
