(* ===== verification/Scheduler.thy ===== *)
theory Scheduler
  imports Runtime_Steps
begin

text \<open>
  What the invariant of the worker system means: exclusive execution, no lost task, fiber affinity,
  exact counters and sound detection of a stuck run.  The bound \<open>2\<^sup>6\<^sup>0\<close> on the number
  of steps keeps the 64-bit positions of the run queues, which only grow, from wrapping.
\<close>

section \<open>Reachable states\<close>

lemma fresh_good:
  assumes "fresh_runtime rt"
  shows "good rt (\<lambda>_. WOut) {} 0"
proof -
  let ?q = "snd (vl_run_queue_init True vl_run_queue_zero 1024) :: tid vl_run_queue"
  obtain q' :: "tid vl_run_queue" where q: "vl_run_queue_init True vl_run_queue_zero 1024 = (VL_OK, q')" "rq_holds q' []"
    using rq_init_ok [of "vl_run_queue_zero :: tid vl_run_queue" 1024]
    by (auto simp: vl_run_queue_zero_def vl_is_power_of_two_def word_le_nat_alt unat_div)
  have r: "p_runnable (rt_ps rt p) = q'" "\<not> p_idle (rt_ps rt p)" "p_current (rt_ps rt p) = None" for p
    using assms q(1) by (auto simp: fresh_runtime_def)
  have "sys_inv rt (\<lambda>_. WOut) {} [] (\<lambda>_. [])"
    unfolding sys_inv_def
  proof (intro conjI)
    show "reps rt [] (\<lambda>_. [])" using assms q(2) r by (simp add: reps_def fresh_runtime_def tq_rep_def fifo_rep_nil)
    show "tasks_ok rt [] (\<lambda>_. []) (\<lambda>_. WOut) {}"
      using assms by (simp add: tasks_ok_def fresh_runtime_def task_ok_def queued_in_def taken_in_def executed_in_def vl_task_zero_sel)
    show "workers_ok rt (\<lambda>_. []) (\<lambda>_. WOut)" using r by (simp add: workers_ok_def worker_ok_def running_at_def current_of_def)
  qed (use assms in \<open>simp_all add: placed_def counts_ok_def fresh_runtime_def\<close>)
  moreover have "rq_bottom q' = 0" using q(1) by (auto simp: vl_run_queue_init_def split: if_splits)
  then have "bottoms rt 0" using r by (simp add: bottoms_def)
  ultimately show ?thesis by (auto simp: good_def)
qed

lemma reach_good:
  assumes "sys_reach n s" "n < 2 ^ 60"
  shows "good (sy_rt s) (sy_pc s) (sy_dropped s) (8 * n) \<and> loot_ok (sy_pc s)"
  using assms
proof (induction rule: sys_reach.induct)
  case (init rt)
  then show ?case using fresh_good by (simp add: loot_ok_def)
next
  case (next_step n s s')
  then have lt: "8 * n + VL_STEAL_BATCH_MAX < 2 ^ 64" and IH: "good (sy_rt s) (sy_pc s) (sy_dropped s) (8 * n)" "loot_ok (sy_pc s)"
    by (simp_all add: VL_STEAL_BATCH_MAX_def)
  have "8 * Suc n = 8 * n + VL_STEAL_BATCH_MAX" by (simp add: VL_STEAL_BATCH_MAX_def)
  then show ?case
    using good_step [OF IH(1) lt IH(2) next_step(2)] sys_step_loot [OF next_step(2) IH(2)] by (simp only:)
qed

lemma reach_inv:
  assumes "sys_reach n s" "n < 2 ^ 60"
  obtains gl ll where "sys_inv (sy_rt s) (sy_pc s) (sy_dropped s) gl ll"
  using reach_good [OF assms] by (auto simp: good_def)

lemma placed_distinct:
  assumes "placed n gl ll pc"
  shows "distinct (gl @ concat (map (items ll pc) [0..<n]))"
proof -
  have "distinct (concat (map (items ll pc) [0..<m])) \<and> set gl \<inter> set (concat (map (items ll pc) [0..<m])) = {}
      \<and> (\<forall>q < n. m \<le> q \<longrightarrow> set (concat (map (items ll pc) [0..<m])) \<inter> set (items ll pc q) = {})" if "m \<le> n" for m
    using that
  proof (induction m)
    case (Suc m)
    then have "distinct (gl @ items ll pc m)" and
      "\<forall>q < n. q \<noteq> m \<longrightarrow> set (items ll pc m) \<inter> set (items ll pc q) = {}"
      using assms unfolding placed_def by (auto simp del: distinct_append)
    then show ?case using Suc by (auto simp: Int_Un_distrib Int_Un_distrib2)
  qed simp
  then show ?thesis using assms by (simp add: placed_def)
qed

lemma live_exact:
  assumes "sys_inv rt pc d gl ll"
  shows "rt_live_tasks rt = length (filter (\<lambda>t. \<not> terminal (task_state rt t)) (rt_all_tasks rt))"
proof -
  have c: "counts_ok rt pc" by (rule inv_parts(5) [OF assms])
  have "distinct (filter (\<lambda>t. \<not> terminal (task_state rt t)) (rt_all_tasks rt))" using c by (simp add: counts_ok_def)
  then have "card (set (filter (\<lambda>t. \<not> terminal (task_state rt t)) (rt_all_tasks rt)))
      = length (filter (\<lambda>t. \<not> terminal (task_state rt t)) (rt_all_tasks rt))" by (rule distinct_card)
  then show ?thesis using c by (simp add: counts_ok_def)
qed

text \<open>When the run is declared stuck, every worker is idle and every queue is empty.\<close>

lemma stuck_empty:
  assumes inv: "sys_inv rt pc d gl ll" and stuck: "idle_deadlock rt"
  shows "gl = []" "\<And>p. p < rt_worker_count rt \<Longrightarrow> ll p = [] \<and> (\<exists>w. pc p = WWait w)"
proof -
  note parts = inv_parts [OF inv]
  show "gl = []" using parts(1) stuck by (auto simp: reps_def idle_deadlock_def tq_rep_def)
  let ?I = "{p. p < rt_worker_count rt \<and> p_idle (rt_ps rt p)}"
  have "rt_worker_count rt \<le> card ?I" using parts(5) stuck by (auto simp: counts_ok_def idle_deadlock_def)
  moreover have "?I \<subseteq> {..<rt_worker_count rt}" by auto
  ultimately have "?I = {..<rt_worker_count rt}" by (intro card_seteq) simp_all
  then have idle: "p_idle (rt_ps rt p)" if "p < rt_worker_count rt" for p using that by auto
  fix p assume p: "p < rt_worker_count rt"
  have "vl_run_queue_length (p_runnable (rt_ps rt p)) = 0"
    using stuck p by (auto simp: idle_deadlock_def local_work_def list_ex_iff)
  moreover have h: "rq_holds (p_runnable (rt_ps rt p)) (ll p)" by (rule inv_at(3) [OF inv p])
  ultimately have "ll p = []" using rq_length_holds [OF h] by simp
  then show "ll p = [] \<and> (\<exists>w. pc p = WWait w)" using idle [OF p] inv_at(1) [OF inv p] by (auto simp: worker_ok_def)
qed

section \<open>A run\<close>

text \<open>
  The examples below: a runtime with two workers, task 1 spawned by the owning thread, which then
  calls \<^verbatim>\<open>vl_runtime_run\<close>.
\<close>

definition two_workers :: vl_runtime_impl where
  "two_workers = vl_runtime_zero\<lparr>rt_worker_count := 2,
     rt_ps := (\<lambda>p. vl_p_zero\<lparr>p_runnable := snd (vl_run_queue_init True vl_run_queue_zero 1024)\<rparr>)\<rparr>"

lemma two_workers_fresh: "fresh_runtime two_workers"
  by (simp add: fresh_runtime_def two_workers_def vl_runtime_zero_def vl_p_zero_def)

text \<open>
  A schedule is a list of actions; each action performs the step of the system that the state allows,
  with the clock at 0 and every fiber creation successful.
\<close>

datatype action =
    Work pid                      \<comment> \<open>the next section of the worker\<close>
  | Fiber pid fiber_result        \<comment> \<open>the task on the processor gives control back\<close>
  | Spawn tid                     \<comment> \<open>the owner calls \<^verbatim>\<open>vl_spawn\<close>\<close>
  | Run                           \<comment> \<open>the owner calls \<^verbatim>\<open>vl_runtime_run\<close>\<close>
  | Set_State pid vl_task_state_t \<comment> \<open>the task on the processor yields or parks\<close>
  | Wake tid                      \<comment> \<open>something wakes the task\<close>

fun worker_exec :: "pid \<Rightarrow> vl_runtime_impl \<Rightarrow> wpc \<Rightarrow> (vl_runtime_impl \<times> wpc) option" where
  "worker_exec p rt WOut = (if rt_running rt then Some (set_current p None rt, WTop) else None)"
| "worker_exec p rt WTop = Some (rt, if rt_running rt then WTimers else WOut)"
| "worker_exec p rt WTimers = Some (vl_timers_expire (Some p) 0 rt, WPoll)"
| "worker_exec p rt WPoll = Some (rt, WNext)"
| "worker_exec p rt WNext = (case local_pop p rt of (Some t, rt') \<Rightarrow> Some (rt', WPopped t) | (None, rt') \<Rightarrow> Some (rt', WGlobal))"
| "worker_exec p rt (WPopped t) = Some (clear_queued t rt, WHas t)"
| "worker_exec p rt WGlobal =
     (case vl_worker_take_global p rt of (Some t, rt') \<Rightarrow> Some (rt', WHas t) | (None, rt') \<Rightarrow> Some (rt', WSteal 1))"
| "worker_exec p rt (WSteal offset) =
     Some (if offset < rt_worker_count rt then (steal_attempt p rt, WThief offset []) else (rt, WIdle))"
| "worker_exec p rt (WThief offset acc) =
     (case vl_run_queue_steal (p_runnable (rt_ps rt (victim_of p offset rt))) of
        (Some t, q) \<Rightarrow>
          if length acc < VL_STEAL_BATCH_MAX
          then Some (upd_p (\<lambda>P. P\<lparr>p_runnable := q\<rparr>) (victim_of p offset rt) rt, WThief offset (acc @ [t]))
          else if acc = [] then Some (rt, WSteal (offset + 1)) else Some (rt, WLoot acc)
      | (None, q) \<Rightarrow> if acc = [] then Some (rt, WSteal (offset + 1)) else Some (rt, WLoot acc))"
| "worker_exec p rt (WLoot ts) =
     (case ts of [] \<Rightarrow> None | t # ts' \<Rightarrow> Some (steal_distribute p (t # ts') rt, WPopped t))"
| "worker_exec p rt (WHas t) =
     (case execute_begin p t rt of
        (Begin_Skip, rt') \<Rightarrow> Some (rt', WTop) | (Begin_Cancelled, rt') \<Rightarrow> Some (rt', WCancel)
      | (Begin_Run, rt') \<Rightarrow> Some (rt', WExec t))"
| "worker_exec p rt WCancel = Some (execute_cancelled rt, WTop)"
| "worker_exec p rt (WExec t) =
     (case execute_fiber (Some t) t rt of
        (False, rt') \<Rightarrow> Some (rt', WFin t Resume_Error)
      | (True, rt') \<Rightarrow> Some (set_current p (Some t) (count_switch rt'), WRun t))"
| "worker_exec p rt (WRun t) = None"
| "worker_exec p rt (WFin t r) = Some (execute_finish p t r rt, WTop)"
| "worker_exec p rt WIdle =
     (case idle_enter 0 p rt of (None, rt') \<Rightarrow> Some (rt', WTop) | (Some (w, timeout), rt') \<Rightarrow> Some (rt', WWait w))"
| "worker_exec p rt (WWait w) =
     Some (idle_leave p (if w then vl_worker_drain_eventfd p rt else vl_runtime_wake_workers rt), WTop)"

fun act :: "action \<Rightarrow> sys \<Rightarrow> sys option" where
  "act (Work p) s =
     (if p < rt_worker_count (sy_rt s)
      then map_option (\<lambda>(rt', pc'). s\<lparr>sy_rt := rt', sy_pc := (sy_pc s)(p := pc'),
                                   sy_dropped := sy_dropped s \<union> drops (sy_rt s) (sy_pc s p) pc'\<rparr>)
             (worker_exec p (sy_rt s) (sy_pc s p))
      else None)"
| "act (Fiber p r) s =
     (case sy_pc s p of
        WRun t \<Rightarrow>
          if p < rt_worker_count (sy_rt s) \<and> (r = Fiber_Suspended \<or> task_state (sy_rt s) t = VL_TASK_RUNNING)
          then Some (s\<lparr>sy_rt := set_current p None (sy_rt s), sy_pc := (sy_pc s)(p := WFin t r)\<rparr>)
          else None
      | _ \<Rightarrow> None)"
| "act (Spawn t) s =
     (if t \<in> set (rt_all_tasks (sy_rt s)) then None
      else (case vl_spawn True TlsNull (Some t) True (Some (sy_rt s)) of
              (Some _, Some rt') \<Rightarrow> Some (s\<lparr>sy_rt := rt'\<rparr>) | _ \<Rightarrow> None))"
| "act Run s =
     (if sy_pc s 0 = WOut \<and> 0 < rt_worker_count (sy_rt s)
      then (case run_begin True TlsNull (Some (sy_rt s)) of
              Inr rt' \<Rightarrow> Some (s\<lparr>sy_rt := set_current 0 None rt', sy_pc := (sy_pc s)(0 := WTop)\<rparr>) | _ \<Rightarrow> None)
      else None)"
| "act (Set_State p st) s =
     (case sy_pc s p of
        WRun t \<Rightarrow>
          if p < rt_worker_count (sy_rt s) \<and> task_state (sy_rt s) t = VL_TASK_RUNNING
             \<and> (st = VL_TASK_RUNNABLE \<or> st = VL_TASK_WAITING \<or> st = VL_TASK_SLEEPING)
          then Some (s\<lparr>sy_rt := set_state st t (sy_rt s)\<rparr>) else None
      | _ \<Rightarrow> None)"
| "act (Wake t) s = Some (s\<lparr>sy_rt := vl_task_wake_locked t (sy_rt s)\<rparr>)"

fun acts :: "action list \<Rightarrow> sys \<Rightarrow> sys option" where
  "acts [] s = Some s"
| "acts (a # as) s = (case act a s of None \<Rightarrow> None | Some s' \<Rightarrow> acts as s')"

lemmas worker_step_forms = worker_step.intros worker_step.global_none [unfolded One_nat_def]
  worker_step.steal_fails [of _ _ offset for offset, simplified] worker_step.steal [of "[]", simplified]
  worker_step.idle_end [of _ _ True, simplified] worker_step.idle_end [of _ _ False, simplified]

lemma worker_exec_step: "worker_exec p rt pc = Some (rt', pc') \<Longrightarrow> worker_step p rt pc rt' pc'"
  by (cases pc) (auto intro: worker_step_forms split: if_splits prod.splits option.splits begin_result.splits list.splits bool.splits)

lemma spawn_returns: "vl_spawn is_owner tls (Some t) fn_ok rt = (Some u, rt') \<Longrightarrow> u = t"
  by (auto simp: vl_spawn_def Let_def split: option.splits if_splits)

lemma act_step: "act a s = Some s' \<Longrightarrow> sys_step s s'"
proof (induction a s rule: act.induct)
  case (1 p s)
  then show ?case by (auto split: if_splits intro!: sys_step.worker worker_exec_step)
next
  case (2 p r s)
  then obtain t where t: "sy_pc s p = WRun t" "p < rt_worker_count (sy_rt s)"
      "r = Fiber_Suspended \<or> task_state (sy_rt s) t = VL_TASK_RUNNING"
      "s' = s\<lparr>sy_rt := set_current p None (sy_rt s), sy_pc := (sy_pc s)(p := WFin t r)\<rparr>"
    by (auto split: wpc.splits if_splits)
  have "worker_step p (sy_rt s) (WRun t) (set_current p None (sy_rt s)) (WFin t r)"
    using t(3) by (cases r) (auto intro: worker_step.suspended worker_step.returned)
  then show ?case using sys_step.worker [OF t(2)] t(1,4) by (fastforce simp: drops_def)
next
  case (3 t s)
  then show ?case using spawn_returns sys_step.spawn
    by (fastforce split: if_splits option.splits prod.splits)
next
  case (4 s)
  then show ?case by (auto split: if_splits sum.splits intro!: sys_step.run)
next
  case (5 p st s)
  then show ?case by (auto split: if_splits wpc.splits intro!: sys_step.park)
next
  case (6 t s)
  then show ?case by (auto intro!: sys_step.wake)
qed

lemma acts_reach: "sys_reach n s \<Longrightarrow> acts as s = Some s' \<Longrightarrow> sys_reach (n + length as) s'"
proof (induction as arbitrary: n s)
  case (Cons a as)
  then obtain s1 where "act a s = Some s1" "acts as s1 = Some s'" by (auto split: option.splits)
  then show ?case using Cons.IH [of "Suc n" s1] sys_reach.next_step [OF Cons.prems(1)] act_step by fastforce
qed simp

definition start_state :: sys where
  "start_state = \<lparr>sy_rt = two_workers, sy_pc = (\<lambda>_. WOut), sy_dropped = {}\<rparr>"

definition after :: "action list \<Rightarrow> sys" where
  "after as = the (acts as start_state)"

lemma after_reach: "acts as start_state \<noteq> None \<Longrightarrow> sys_reach (length as) (after as)"
  using acts_reach [of 0 start_state as "after as"] sys_reach.init [OF two_workers_fresh]
  by (auto simp: start_state_def after_def)

text \<open>An empty run queue, kept folded while a schedule is evaluated.\<close>

definition empty_rq :: "tid vl_run_queue" where
  "empty_rq = snd (vl_run_queue_init True vl_run_queue_zero 1024)"

lemma two_workers_eq:
  "two_workers = vl_runtime_zero\<lparr>rt_worker_count := 2, rt_ps := (\<lambda>p. vl_p_zero\<lparr>p_runnable := empty_rq\<rparr>)\<rparr>"
  by (simp add: two_workers_def empty_rq_def)

lemma empty_rq_fields: "rq_slots empty_rq = Some (replicate 1024 None)" "rq_top empty_rq = 0" "rq_bottom empty_rq = 0"
    "rq_capacity empty_rq = 1024"
  by (simp_all add: empty_rq_def vl_run_queue_init_def vl_run_queue_zero_def vl_is_power_of_two_def)

lemma empty_rq_ops: "vl_run_queue_owner_pop empty_rq = (None, empty_rq)" "vl_run_queue_length empty_rq = 0"
    "vl_run_queue_steal empty_rq = (None, empty_rq)"
  by (simp_all add: vl_run_queue_owner_pop_def vl_run_queue_length_def vl_run_queue_steal_def empty_rq_fields)

lemmas schedule_defs = start_state_def two_workers_eq vl_spawn_def vl_runtime_zero_def vl_p_zero_def
  vl_task_enqueue_global_locked_def set_state_def upd_task_def upd_def vl_task_zero_def vl_task_mark_queued_def
  global_push_def vl_task_queue_push_def upd_stats_def vl_runtime_wake_workers_def run_begin_def set_current_def
  vl_context_set_current_def upd_p_def vl_timers_expire_def vl_timer_heap_zero_def local_pop_def empty_rq_ops
  vl_worker_take_global_def global_pop_def vl_task_queue_pop_def clear_queued_def upd_p_stats_def execute_begin_def
  execute_fiber_def execute_finish_def cancel_executed_def vl_task_complete_locked_def drop_live_def count_switch_def
  count_park_def count_cancelled_def vl_worker_stop_run_locked_def drops_def numeral_2_eq_2 vl_runtime_stats_zero_def
  finish_suspended_def vl_task_enqueue_local_locked_def vl_task_wake_locked_def steal_attempt_def victim_of_def
  idle_enter_def idle_deadlock_def local_work_def vl_timers_timeout_ms_def vl_timer_heap_peek_def Let_def

text \<open>A worker that finds no work passes through its whole search and arrives at \<^verbatim>\<open>vl_worker_idle\<close>.\<close>

definition quiet :: "vl_runtime_impl \<Rightarrow> bool" where
  "quiet rt \<longleftrightarrow> rt_running rt \<and> rt_worker_count rt = 2 \<and> tq_head (rt_global_runnable rt) = None
     \<and> tq_length (rt_global_runnable rt) = 0
     \<and> (\<forall>p. p_runnable (rt_ps rt p) = empty_rq \<and> p_timers (rt_ps rt p) = vl_timer_heap_zero)"

lemma upd_p_id: "f (rt_ps rt p) = rt_ps rt p \<Longrightarrow> upd_p f p rt = rt"
  by (simp add: upd_p_def)

lemma quiet_search:
  assumes "quiet rt"
  shows "vl_timers_expire (Some p) 0 rt = rt" "local_pop p rt = (None, rt)" "vl_worker_take_global p rt = (None, rt)"
    "quiet (steal_attempt p rt)" "vl_run_queue_steal (p_runnable (rt_ps rt q)) = (None, empty_rq)"
  using assms
  by (simp_all add: quiet_def vl_timers_expire_def vl_timer_heap_zero_def local_pop_def empty_rq_ops upd_p_id
      vl_worker_take_global_def upd_p_stats_def steal_attempt_def)

lemma quiet_path:
  assumes "quiet (sy_rt s)" "p < 2" "sy_pc s p = WTop"
  shows "acts (replicate 8 (Work p)) s = Some (s\<lparr>sy_rt := steal_attempt p (sy_rt s), sy_pc := (sy_pc s)(p := WIdle)\<rparr>)"
proof -
  let ?at = "\<lambda>pc. s\<lparr>sy_pc := (sy_pc s)(p := pc)\<rparr>"
  let ?to = "\<lambda>pc. s\<lparr>sy_rt := steal_attempt p (sy_rt s), sy_pc := (sy_pc s)(p := pc)\<rparr>"
  note search = quiet_search(1-3) [OF assms(1)]
  have run: "rt_running (sy_rt s)" "rt_worker_count (sy_rt s) = 2" "rt_worker_count (steal_attempt p (sy_rt s)) = 2"
    using assms(1) quiet_search(4) [OF assms(1), of p] by (simp_all add: quiet_def)
  have "act (Work p) (?at WTop) = Some (?at WTimers)" "act (Work p) (?at WTimers) = Some (?at WPoll)" "act (Work p) (?at WPoll) = Some (?at WNext)"
    "act (Work p) (?at WNext) = Some (?at WGlobal)" "act (Work p) (?at WGlobal) = Some (?at (WSteal 1))"
    using run assms(2) search by (simp_all add: drops_def)
  moreover have "act (Work p) (?at (WSteal 1)) = Some (?to (WThief 1 []))" "act (Work p) (?to (WSteal 2)) = Some (?to WIdle)"
    using run assms(2) by (simp_all add: drops_def)
  moreover have "act (Work p) (?to (WThief 1 [])) = Some (?to (WSteal 2))"
    using run assms(2) quiet_search(5) [OF quiet_search(4) [OF assms(1)]] by (simp add: drops_def numeral_2_eq_2)
  moreover have "replicate 8 (Work p) = [Work p, Work p, Work p, Work p, Work p, Work p, Work p, Work p]"
    by (simp add: eval_nat_numeral)
  moreover have "?at WTop = s" using assms(3) by (simp add: fun_upd_idem)
  ultimately show ?thesis by (metis acts.simps option.case(2))
qed

text \<open>Task 1 executes on processor 0, after its worker has taken it from the global queue.\<close>

definition running_one :: "action list" where
  "running_one = [Spawn 1, Run, Work 0, Work 0, Work 0, Work 0, Work 0, Work 0, Work 0]"

lemma running_one_state:
  "\<exists>s. acts running_one start_state = Some s \<and> sy_pc s 0 = WRun 1 \<and> sy_pc s 1 = WOut \<and> rt_worker_count (sy_rt s) = 2
     \<and> task_state (sy_rt s) 1 = VL_TASK_RUNNING \<and> t_executing (rt_tasks (sy_rt s) 1) \<and> rt_all_tasks (sy_rt s) = [1]
     \<and> sy_dropped s = {} \<and> rt_live_tasks (sy_rt s) = 1 \<and> t_fiber (rt_tasks (sy_rt s) 1) = Some 1 \<and> quiet (sy_rt s)
     \<and> rt_idle_workers (sy_rt s) = 0 \<and> rt_timer_count (sy_rt s) = 0 \<and> rt_io_waiting (sy_rt s) = 0
     \<and> \<not> p_idle (rt_ps (sy_rt s) 0) \<and> \<not> p_idle (rt_ps (sy_rt s) 1) \<and> \<not> t_wake_pending (rt_tasks (sy_rt s) 1)"
  by (simp add: schedule_defs running_one_def quiet_def del: set_state_rt global_push_frame upd_p_ps cong: if_cong)

text \<open>Task 1 has parked, has been woken while still on its processor, and control is back with its worker.\<close>

definition woken_one :: "action list" where
  "woken_one = running_one @ [Set_State 0 VL_TASK_WAITING, Wake 1, Fiber 0 Fiber_Suspended]"

lemma acts_append: "acts (as @ bs) s = (case acts as s of None \<Rightarrow> None | Some s' \<Rightarrow> acts bs s')"
  by (induction as arbitrary: s) (auto split: option.splits)

lemma woken_one_state:
  "\<exists>s. acts woken_one start_state = Some s \<and> sy_pc s 0 = WFin 1 Fiber_Suspended \<and> rt_worker_count (sy_rt s) = 2
     \<and> t_wake_pending (rt_tasks (sy_rt s) 1)"
proof -
  obtain s where s: "acts running_one start_state = Some s" "sy_pc s 0 = WRun 1" "rt_worker_count (sy_rt s) = 2"
      "task_state (sy_rt s) 1 = VL_TASK_RUNNING" "t_executing (rt_tasks (sy_rt s) 1)"
    using running_one_state by blast
  then show ?thesis
    by (simp add: woken_one_def acts_append wake_pending rt_simps set_current_def vl_context_set_current_def del: One_nat_def)
qed

text \<open>Task 1 is parked; after that, worker 0 is idle, and worker 1 has found no work.\<close>

definition parked_one :: "action list" where
  "parked_one = running_one @ [Set_State 0 VL_TASK_WAITING, Fiber 0 Fiber_Suspended, Work 0]"

definition stuck_one :: "action list" where
  "stuck_one = parked_one @ (replicate 8 (Work 0) @ [Work 0, Work 1] @ replicate 8 (Work 1))"

lemma parked_one_state:
  "\<exists>s. acts parked_one start_state = Some s
     \<and> quiet (sy_rt s) \<and> sy_pc s 0 = WTop \<and> sy_pc s 1 = WOut \<and> rt_live_tasks (sy_rt s) = 1 \<and> rt_idle_workers (sy_rt s) = 0
     \<and> rt_timer_count (sy_rt s) = 0 \<and> rt_io_waiting (sy_rt s) = 0 \<and> \<not> p_idle (rt_ps (sy_rt s) 0) \<and> \<not> p_idle (rt_ps (sy_rt s) 1)"
proof -
  obtain s where s: "acts running_one start_state = Some s" "sy_pc s 0 = WRun 1" "sy_pc s 1 = WOut" "rt_worker_count (sy_rt s) = 2"
      "task_state (sy_rt s) 1 = VL_TASK_RUNNING" "quiet (sy_rt s)" "rt_live_tasks (sy_rt s) = 1" "\<not> t_wake_pending (rt_tasks (sy_rt s) 1)"
      "rt_idle_workers (sy_rt s) = 0" "rt_timer_count (sy_rt s) = 0" "rt_io_waiting (sy_rt s) = 0"
      "\<not> p_idle (rt_ps (sy_rt s) 0)" "\<not> p_idle (rt_ps (sy_rt s) 1)"
    using running_one_state by blast
  then show ?thesis
    by (simp add: parked_one_def acts_append execute_finish_def finish_suspended_def Let_def quiet_def set_current_def vl_context_set_current_def
        del: One_nat_def)
qed

lemma stuck_one_state:
  "\<exists>s rt'. acts stuck_one start_state = Some s \<and> sy_pc s 1 = WIdle \<and> rt_worker_count (sy_rt s) = 2
     \<and> idle_enter 0 1 (sy_rt s) = (Some (False, 0), rt')"
proof -
  obtain s where s: "acts parked_one start_state = Some s"
     "quiet (sy_rt s)" "sy_pc s 0 = WTop" "sy_pc s 1 = WOut" "rt_live_tasks (sy_rt s) = 1" "rt_idle_workers (sy_rt s) = 0"
     "rt_timer_count (sy_rt s) = 0" "rt_io_waiting (sy_rt s) = 0" "\<not> p_idle (rt_ps (sy_rt s) 0)" "\<not> p_idle (rt_ps (sy_rt s) 1)"
    using parked_one_state by blast
  let ?i = "\<lambda>p rt. upd_p_stats (\<lambda>s. s\<lparr>ps_parks := ps_parks s + 1\<rparr>) p
                          (upd_p (\<lambda>P. P\<lparr>p_idle := True\<rparr>) p (rt\<lparr>rt_idle_workers := rt_idle_workers rt + 1\<rparr>))"
  let ?a = "steal_attempt 0 (sy_rt s)"
  let ?b = "set_current 1 None (?i 0 ?a)"
  have fields: "rt_idle_workers ?a = 0" "\<not> p_idle (rt_ps ?a 0)" "\<not> p_idle (rt_ps ?b 1)" "rt_idle_workers ?b = 1" "rt_live_tasks ?b = 1"
      "rt_timer_count ?b = 0" "rt_io_waiting ?b = 0"
    using s(5-10) by (simp_all add: steal_attempt_def set_current_def vl_context_set_current_def)
  have q: "quiet ?a" "quiet ?b" using quiet_search(4) [OF s(2), of 0]
    by (simp_all add: quiet_def set_current_def vl_context_set_current_def)
  then have run: "rt_running ?a" "rt_worker_count ?a = 2" "rt_worker_count ?b = 2" by (simp_all add: quiet_def)
  have enter: "idle_enter 0 0 ?a = (Some (True, vl_timers_timeout_ms 0 (Some 0) (?i 0 ?a)), ?i 0 ?a)"
    using run fields s(8) by (auto simp: idle_enter_def idle_deadlock_def Let_def steal_attempt_def)
  let ?s2 = "s\<lparr>sy_rt := ?b, sy_pc := (sy_pc s)(0 := WWait True, 1 := WTop)\<rparr>"
  have "acts (replicate 8 (Work 0) @ [Work 0, Work 1] @ replicate 8 (Work 1)) s = acts (replicate 8 (Work 1)) ?s2"
    using quiet_path [OF s(2) _ s(3)] enter run s(4) by (simp add: acts_append drops_def fun_upd_twist del: One_nat_def)
  moreover have "quiet (sy_rt ?s2)" "sy_pc ?s2 1 = WTop" using q by simp_all
  from quiet_path [OF this(1) _ this(2)]
  have "acts (replicate 8 (Work 1)) ?s2 = Some (?s2\<lparr>sy_rt := steal_attempt 1 ?b, sy_pc := (sy_pc ?s2)(1 := WIdle)\<rparr>)" by simp
  moreover have "\<exists>rt'. idle_enter 0 1 (steal_attempt 1 ?b) = (Some (False, 0), rt')"
    using quiet_search(4) [OF q(2), of 1] fields
    by (simp add: idle_enter_def quiet_def idle_deadlock_def local_work_def Let_def steal_attempt_def vl_worker_stop_run_locked_def
        vl_timers_timeout_ms_def vl_timer_heap_peek_def vl_timer_heap_zero_def empty_rq_ops list_ex_iff del: One_nat_def)
  moreover have "acts stuck_one start_state = acts (replicate 8 (Work 0) @ [Work 0, Work 1] @ replicate 8 (Work 1)) s"
    unfolding stuck_one_def acts_append [of parked_one] s(1) option.case ..
  moreover have "rt_worker_count (steal_attempt 1 ?b) = 2" using run(3) by (simp add: steal_attempt_def)
  ultimately show ?thesis by (simp del: One_nat_def)
qed

lemma reach_states:
  "\<exists>s. sys_reach 9 s \<and> sy_pc s 0 = WRun 1 \<and> rt_worker_count (sy_rt s) = 2 \<and> task_state (sy_rt s) 1 = VL_TASK_RUNNING
     \<and> rt_all_tasks (sy_rt s) = [1] \<and> sy_dropped s = {} \<and> rt_live_tasks (sy_rt s) = 1"
  "\<exists>s. sys_reach 12 s \<and> sy_pc s 0 = WFin 1 Fiber_Suspended \<and> rt_worker_count (sy_rt s) = 2
     \<and> t_wake_pending (rt_tasks (sy_rt s) 1)"
  "\<exists>s rt'. sys_reach 30 s \<and> sy_pc s 1 = WIdle \<and> rt_worker_count (sy_rt s) = 2
     \<and> idle_enter 0 1 (sy_rt s) = (Some (False, 0), rt')"
proof -
  have 0: "sys_reach 0 start_state" unfolding start_state_def by (rule sys_reach.init [OF two_workers_fresh])
  have r: "sys_reach (length as) s" if "acts as start_state = Some s" for as s using acts_reach [OF 0 that] by simp
  have len: "length running_one = 9" "length woken_one = 12" "length stuck_one = 30"
    by (simp_all add: running_one_def woken_one_def parked_one_def stuck_one_def)
  show "\<exists>s. sys_reach 9 s \<and> sy_pc s 0 = WRun 1 \<and> rt_worker_count (sy_rt s) = 2 \<and> task_state (sy_rt s) 1 = VL_TASK_RUNNING
     \<and> rt_all_tasks (sy_rt s) = [1] \<and> sy_dropped s = {} \<and> rt_live_tasks (sy_rt s) = 1"
    using running_one_state r len(1) by metis
  show "\<exists>s. sys_reach 12 s \<and> sy_pc s 0 = WFin 1 Fiber_Suspended \<and> rt_worker_count (sy_rt s) = 2
     \<and> t_wake_pending (rt_tasks (sy_rt s) 1)"
    using woken_one_state r len(2) by metis
  show "\<exists>s rt'. sys_reach 30 s \<and> sy_pc s 1 = WIdle \<and> rt_worker_count (sy_rt s) = 2
     \<and> idle_enter 0 1 (sy_rt s) = (Some (False, 0), rt')"
    using stuck_one_state r len(3) by metis
qed

section \<open>Properties\<close>

text \<open>C17: Every task is in at most one place.  In every reachable state the global queue, the local run queues
  and the hands of the workers, taken together, contain no task twice; the queued flag is set exactly
  for the tasks in a queue or still held as queued, and the executing flag exactly for the tasks some
  worker executes.  So no task is ever executed by two workers, or queued while it executes.\<close>

theorem scheduler_exclusive:
  assumes "sys_reach n s" "n < 2 ^ 60"
  shows "\<exists>gl ll. gl_rep (sy_rt s) gl \<and> (\<forall>p < rt_worker_count (sy_rt s). rq_holds (p_runnable (rt_ps (sy_rt s) p)) (ll p))
    \<and> distinct (gl @ concat (map (items ll (sy_pc s)) [0..<rt_worker_count (sy_rt s)]))
    \<and> (\<forall>t. t_queued (rt_tasks (sy_rt s) t) \<longleftrightarrow> queued_in (rt_worker_count (sy_rt s)) gl ll (sy_pc s) t)
    \<and> (\<forall>t. t_executing (rt_tasks (sy_rt s) t) \<longleftrightarrow> executed_in (rt_worker_count (sy_rt s)) (sy_pc s) t)"
proof -
  obtain gl ll where inv: "sys_inv (sy_rt s) (sy_pc s) (sy_dropped s) gl ll" by (rule reach_inv [OF assms])
  note parts = inv_parts [OF inv]
  show ?thesis
    using parts(1,3) placed_distinct [OF parts(2)]
    by (intro exI [of _ gl] exI [of _ ll]) (simp add: reps_def tasks_ok_def task_ok_def)
qed

theorem scheduler_exclusive_witness:
  "\<exists>s gl ll. sys_reach 9 s \<and> sy_pc s 0 = WRun 1 \<and> gl_rep (sy_rt s) gl
    \<and> distinct (gl @ concat (map (items ll (sy_pc s)) [0..<rt_worker_count (sy_rt s)]))"
proof -
  obtain s where s: "sys_reach 9 s" "sy_pc s 0 = WRun 1" using reach_states(1) by blast
  have "(9::nat) < 2 ^ 60" by simp
  from scheduler_exclusive [OF s(1) this] s show ?thesis by blast
qed

text \<open>C18: No runnable task is lost while the run goes on.  In every reachable state each runnable task is in a
  queue, in the hands of a worker or executing, unless a worker has let go of it; and a worker lets go
  of a runnable task only after the run has been stopped.\<close>

theorem scheduler_keeps_runnable:
  assumes "sys_reach n s" "n < 2 ^ 60"
  shows "(\<forall>t \<in> set (rt_all_tasks (sy_rt s)). task_state (sy_rt s) t = VL_TASK_RUNNABLE \<and> t \<notin> sy_dropped s \<longrightarrow>
      t_queued (rt_tasks (sy_rt s) t) \<or> t_executing (rt_tasks (sy_rt s) t) \<or> taken_in (rt_worker_count (sy_rt s)) (sy_pc s) t)
    \<and> (\<forall>s' t. sys_step s s' \<and> t \<in> sy_dropped s' - sy_dropped s \<longrightarrow> \<not> rt_running (sy_rt s))"
proof -
  obtain gl ll where inv: "sys_inv (sy_rt s) (sy_pc s) (sy_dropped s) gl ll" by (rule reach_inv [OF assms])
  have "\<not> rt_running (sy_rt s)" if "sys_step s s'" "t \<in> sy_dropped s' - sy_dropped s" for s' t
    using that(1)
  proof (cases rule: sys_step.cases)
    case (worker p rt' pc')
    have "sy_pc s p = WHas t" "pc' = WTop" "task_state (sy_rt s) t = VL_TASK_RUNNABLE"
      using that(2) worker(1) by (cases "sy_pc s p"; auto simp: drops_def split: if_splits)+
    with worker(3) have "worker_step p (sy_rt s) (WHas t) rt' WTop" "task_state (sy_rt s) t = VL_TASK_RUNNABLE" by simp_all
    then show ?thesis
      by (cases rule: worker_step.cases) (auto simp: execute_begin_def Let_def split: if_splits)
  qed (use that(2) in auto)
  then show ?thesis using inv_parts(3) [OF inv] by (auto simp: tasks_ok_def task_ok_def)
qed

theorem scheduler_keeps_runnable_witness:
  "\<exists>s. sys_reach 9 s \<and> (\<forall>t \<in> set (rt_all_tasks (sy_rt s)). task_state (sy_rt s) t = VL_TASK_RUNNABLE \<longrightarrow>
      t_queued (rt_tasks (sy_rt s) t) \<or> t_executing (rt_tasks (sy_rt s) t) \<or> taken_in (rt_worker_count (sy_rt s)) (sy_pc s) t)"
proof -
  obtain s where s: "sys_reach 9 s" "sy_dropped s = {}" using reach_states(1) by blast
  have "(9::nat) < 2 ^ 60" by simp
  from scheduler_keeps_runnable [OF s(1) this] s show ?thesis by auto
qed

text \<open>C19: Fibers stay on their processor.  In every reachable state the task a worker executes was last run on
  its processor, a task it has taken and not yet started has no fiber or one of this processor, and the
  tasks in local queues, which other workers may steal, have no fiber.\<close>

theorem scheduler_affinity:
  assumes "sys_reach n s" "n < 2 ^ 60"
  shows "\<forall>p < rt_worker_count (sy_rt s).
      (\<forall>t \<in> set (exec_of (sy_pc s p)). t_last_p (rt_tasks (sy_rt s) t) = Some p)
    \<and> (\<forall>t \<in> set (mine (sy_pc s p)). t_fiber (rt_tasks (sy_rt s) t) = None \<or> t_last_p (rt_tasks (sy_rt s) t) = Some p)
    \<and> (\<exists>l. rq_holds (p_runnable (rt_ps (sy_rt s) p)) l \<and> (\<forall>t \<in> set (l @ held (sy_pc s p)). t_fiber (rt_tasks (sy_rt s) t) = None))"
proof -
  obtain gl ll where inv: "sys_inv (sy_rt s) (sy_pc s) (sy_dropped s) gl ll" by (rule reach_inv [OF assms])
  show ?thesis using inv_at(1,3) [OF inv] unfolding worker_ok_def by blast
qed

theorem scheduler_affinity_witness:
  "\<exists>s. sys_reach 9 s \<and> sy_pc s 0 = WRun 1 \<and> t_last_p (rt_tasks (sy_rt s) 1) = Some 0"
proof -
  obtain s where s: "sys_reach 9 s" "sy_pc s 0 = WRun 1" "rt_worker_count (sy_rt s) = 2" using reach_states(1) by blast
  have "(9::nat) < 2 ^ 60" by simp
  from scheduler_affinity [OF s(1) this] s show ?thesis by force
qed

text \<open>C20: The counters are exact.  In every reachable state \<^verbatim>\<open>live_tasks\<close> is the number of tasks that have neither
  finished nor been cancelled, and \<^verbatim>\<open>active_workers\<close> is the number of workers executing a task.\<close>

theorem scheduler_counts:
  assumes "sys_reach n s" "n < 2 ^ 60"
  shows "rt_live_tasks (sy_rt s) = length (filter (\<lambda>t. \<not> terminal (task_state (sy_rt s) t)) (rt_all_tasks (sy_rt s)))
    \<and> rt_active_workers (sy_rt s) = length (filter (\<lambda>p. exec_of (sy_pc s p) \<noteq> []) [0..<rt_worker_count (sy_rt s)])"
proof -
  obtain gl ll where inv: "sys_inv (sy_rt s) (sy_pc s) (sy_dropped s) gl ll" by (rule reach_inv [OF assms])
  have "card (set (filter (\<lambda>p. exec_of (sy_pc s p) \<noteq> []) [0..<rt_worker_count (sy_rt s)]))
      = length (filter (\<lambda>p. exec_of (sy_pc s p) \<noteq> []) [0..<rt_worker_count (sy_rt s)])"
    by (rule distinct_card) simp
  then show ?thesis using live_exact [OF inv] inv_parts(5) [OF inv] by (simp add: counts_ok_def)
qed

theorem scheduler_counts_witness:
  "\<exists>s. sys_reach 9 s \<and> rt_live_tasks (sy_rt s) = 1
    \<and> rt_active_workers (sy_rt s) = length (filter (\<lambda>p. exec_of (sy_pc s p) \<noteq> []) [0..<rt_worker_count (sy_rt s)])"
proof -
  obtain s where s: "sys_reach 9 s" "rt_live_tasks (sy_rt s) = 1" using reach_states(1) by blast
  have "(9::nat) < 2 ^ 60" by simp
  from scheduler_counts [OF s(1) this] s show ?thesis by blast
qed

lemma stuck_tasks:
  assumes inv: "sys_inv rt pc d gl ll" and stuck: "idle_deadlock rt" and t: "t \<in> set (rt_all_tasks rt)"
  shows "terminal (task_state rt t) \<or> parked rt t \<or> t \<in> d \<and> task_state rt t = VL_TASK_RUNNABLE"
proof -
  have "gl = []" "ll p = [] \<and> (\<exists>w. pc p = WWait w)" if "p < rt_worker_count rt" for p
    using stuck_empty [OF inv stuck] that by blast+
  then have "\<not> queued_in (rt_worker_count rt) gl ll pc t" "\<not> taken_in (rt_worker_count rt) pc t"
      "\<not> executed_in (rt_worker_count rt) pc t"
    using inv_parts(6) [OF inv] by (fastforce simp: queued_in_def taken_in_def executed_in_def)+
  moreover have "task_ok (rt_tasks rt t) (queued_in (rt_worker_count rt) gl ll pc t) (taken_in (rt_worker_count rt) pc t)
      (executed_in (rt_worker_count rt) pc t) (t \<in> set (rt_all_tasks rt)) (t \<in> d)"
    using inv_parts(3) [OF inv] by (simp add: tasks_ok_def)
  ultimately show ?thesis using t by (cases "task_state rt t") (auto simp: task_ok_def)
qed

text \<open>C21: Declaring a run stuck is sound.  When a worker going idle stops the run with INVALID_STATE, no timer is
  armed and no I/O is awaited, the run is stopped with at least one task unfinished, and every task of the runtime has finished or is
  parked, with one exception: a runnable task that a worker let go of after an earlier run had been stopped.\<close>

theorem idle_deadlock_sound:
  assumes "sys_reach n s" "n < 2 ^ 60" "p < rt_worker_count (sy_rt s)" "sy_pc s p = WIdle"
    "idle_enter now p (sy_rt s) = (Some (False, timeout), rt')"
  shows "\<not> rt_running rt' \<and> rt_run_status rt' = VL_ERROR_INVALID_STATE \<and> rt_timer_count rt' = 0 \<and> rt_io_waiting rt' = 0
    \<and> (\<forall>t \<in> set (rt_all_tasks rt'). terminal (task_state rt' t) \<or> parked rt' t
          \<or> t \<in> sy_dropped s \<and> task_state rt' t = VL_TASK_RUNNABLE)
    \<and> (\<exists>t \<in> set (rt_all_tasks rt'). \<not> terminal (task_state rt' t))"
proof -
  obtain gl ll where inv: "sys_inv (sy_rt s) (sy_pc s) (sy_dropped s) gl ll" and k: "bottoms (sy_rt s) (8 * n)"
    using reach_good [OF assms(1,2)] by (auto simp: good_def)
  obtain gl' ll' where inv': "sys_inv rt' ((sy_pc s)(p := WWait False)) (sy_dropped s) gl' ll'"
    using good_idle [OF inv assms(3,4) k assms(5)] by (auto simp: good_def)
  have stop: "idle_deadlock rt' \<and> \<not> rt_running rt' \<and> rt_run_status rt' = VL_ERROR_INVALID_STATE"
    using assms(5) by (auto simp: idle_enter_def idle_deadlock_def local_work_def vl_worker_stop_run_locked_def Let_def split: if_splits)
  moreover have "filter (\<lambda>t. \<not> terminal (task_state rt' t)) (rt_all_tasks rt') \<noteq> []"
    using live_exact [OF inv'] stop by (simp add: idle_deadlock_def)
  then have "\<exists>t \<in> set (rt_all_tasks rt'). \<not> terminal (task_state rt' t)" by (simp add: filter_empty_conv)
  ultimately show ?thesis using stuck_tasks [OF inv'] by (auto simp: idle_deadlock_def)
qed

theorem idle_deadlock_sound_witness:
  "\<exists>s rt'. sys_reach 30 s \<and> idle_enter 0 1 (sy_rt s) = (Some (False, 0), rt') \<and> rt_run_status rt' = VL_ERROR_INVALID_STATE
     \<and> (\<exists>t \<in> set (rt_all_tasks rt'). \<not> terminal (task_state rt' t))"
proof -
  obtain s rt' where s: "sys_reach 30 s" "sy_pc s 1 = WIdle" "rt_worker_count (sy_rt s) = 2"
      "idle_enter 0 1 (sy_rt s) = (Some (False, 0), rt')" using reach_states(3) by blast
  have "(30::nat) < 2 ^ 60" "1 < rt_worker_count (sy_rt s)" using s(3) by simp_all
  from idle_deadlock_sound [OF s(1) this s(2,4)] s show ?thesis by blast
qed

section \<open>A task that is lost\<close>

text \<open>
  Worker 1 has passed the test of \<^verbatim>\<open>running\<close> when worker 0 finishes the last task and stops the run;
  the owner then spawns task 2, which worker 1 takes from the global queue.
\<close>

definition late_worker :: "action list" where
  "late_worker = [Spawn 1, Run, Work 1, Work 1, Work 1, Work 1, Work 0, Work 0, Work 0, Work 0, Work 0, Work 0, Work 0,
     Fiber 0 Fiber_Done, Work 0, Work 0, Spawn 2, Work 1, Work 1, Work 1]"

lemma late_worker_state:
  "\<exists>s. acts late_worker start_state = Some s \<and> sy_pc s 0 = WOut \<and> sy_pc s 1 = WTop \<and> \<not> rt_running (sy_rt s)
     \<and> rt_worker_count (sy_rt s) = 2
     \<and> task_state (sy_rt s) 2 = VL_TASK_RUNNABLE \<and> \<not> t_queued (rt_tasks (sy_rt s) 2) \<and> \<not> t_executing (rt_tasks (sy_rt s) 2)
     \<and> rt_global_runnable (sy_rt s) = \<lparr>tq_head = None, tq_tail = None, tq_length = 0\<rparr> \<and> rt_live_tasks (sy_rt s) = 1
     \<and> (\<forall>p < 2. p_runnable (rt_ps (sy_rt s) p) = empty_rq)"
  by (simp add: schedule_defs late_worker_def del: set_state_rt global_push_frame upd_p_ps cong: if_cong)

text \<open>C23: A spawned task can be lost.  There is a reachable state, 20 steps from a fresh runtime, in which the
  owner has spawned task 2 successfully and no worker is anywhere in \<^verbatim>\<open>vl_worker_execute\<close>, and yet task 2, which
  is runnable and counted as live, is in no queue and not marked as queued, so no worker can find it.\<close>

theorem spawned_task_lost:
  "\<exists>s. sys_reach 20 s \<and> 2 \<in> set (rt_all_tasks (sy_rt s)) \<and> task_state (sy_rt s) 2 = VL_TASK_RUNNABLE
     \<and> \<not> t_queued (rt_tasks (sy_rt s) 2) \<and> \<not> t_executing (rt_tasks (sy_rt s) 2) \<and> rt_live_tasks (sy_rt s) = 1
     \<and> \<not> taken_in (rt_worker_count (sy_rt s)) (sy_pc s) 2
     \<and> gl_rep (sy_rt s) [] \<and> list_all (\<lambda>p. rq_holds (p_runnable (rt_ps (sy_rt s) p)) []) [0..<rt_worker_count (sy_rt s)]"
proof -
  obtain s where s: "acts late_worker start_state = Some s" "sy_pc s 0 = WOut" "sy_pc s 1 = WTop" "rt_worker_count (sy_rt s) = 2"
      "task_state (sy_rt s) 2 = VL_TASK_RUNNABLE" "\<not> t_queued (rt_tasks (sy_rt s) 2)" "\<not> t_executing (rt_tasks (sy_rt s) 2)"
      "rt_global_runnable (sy_rt s) = \<lparr>tq_head = None, tq_tail = None, tq_length = 0\<rparr>" "rt_live_tasks (sy_rt s) = 1"
      "\<forall>p < 2. p_runnable (rt_ps (sy_rt s) p) = empty_rq"
    using late_worker_state by blast
  have "sys_reach 0 start_state" unfolding start_state_def by (rule sys_reach.init [OF two_workers_fresh])
  moreover have "length late_worker = 20" by (simp add: late_worker_def)
  ultimately have r: "sys_reach 20 s" using acts_reach [OF _ s(1)] by fastforce
  have lt: "(20::nat) < 2 ^ 60" by simp
  obtain gl ll where inv: "sys_inv (sy_rt s) (sy_pc s) (sy_dropped s) gl ll" by (rule reach_inv [OF r lt])
  have "2 \<in> set (rt_all_tasks (sy_rt s))" using inv_parts(3) [OF inv] s(5) by (auto simp: tasks_ok_def task_ok_def)
  moreover have "gl_rep (sy_rt s) []" using s(8) by (simp add: tq_rep_def fifo_rep_nil)
  moreover have "rq_holds empty_rq []"
    using rq_init_ok [of "vl_run_queue_zero :: tid vl_run_queue" 1024]
    by (auto simp: empty_rq_def vl_run_queue_zero_def vl_is_power_of_two_def word_le_nat_alt unat_div)
  moreover have "mine (sy_pc s p) = []" if "p < 2" for p using that s(2,3) less_2_cases [OF that] by auto
  then have "\<not> taken_in 2 (sy_pc s) 2" by (auto simp: taken_in_def)
  ultimately show ?thesis using r s by (auto simp: list_all_iff)
qed

end
