(* ===== verification/Wakeup.thy ===== *)
theory Wakeup
  imports Scheduler
begin

text \<open>
  Wake-ups in the worker system.  A task that is woken while it is still on its processor carries a mark,
  \<^verbatim>\<open>wake_pending\<close>, until its worker gets control back; nothing else in the system takes the mark away.
\<close>

abbreviation marked :: "vl_runtime_impl \<Rightarrow> tid \<Rightarrow> bool" where
  "marked rt t \<equiv> t_wake_pending (rt_tasks rt t)"

section \<open>The mark survives\<close>

text \<open>What the sections of the workers do to the mark of a task.\<close>

lemma marked_same: "sched_same rt rt' \<Longrightarrow> marked rt' t = marked rt t"
  using sched_same_task [of rt rt' t] by (simp add: tk_same_def)

lemma marked_wake: "marked rt t \<Longrightarrow> marked (vl_task_wake_locked u rt) t"
  by (simp add: wake_pending)

lemma marked_expire: "marked rt t \<Longrightarrow> marked (vl_timers_expire p now rt) t"
proof -
  have one: "marked (expire_one node r) t" if "marked r t" for node r
    using that by (auto simp: expire_one_def Let_def wake_pending drop_timer_count_def set_timer_def split: option.split)
  have "marked (expire_loop fuel i now r) t" if "marked r t" for fuel i r
    using that
  proof (induction fuel arbitrary: r)
    case (Suc fuel)
    then have "marked (expire_loop fuel i now (expire_one node (set_heap i hn r))) t" for node hn
      by (intro Suc.IH one) (simp add: set_heap_def)
    then show ?case using Suc.prems by (auto split: option.split prod.split)
  qed simp
  then show "marked rt t \<Longrightarrow> marked (vl_timers_expire p now rt) t" by (simp add: vl_timers_expire_def split: option.split)
qed

lemma marked_complete_io: "marked rt t \<Longrightarrow> marked (snd (vl_task_complete_io task ok rt)) t"
  by (auto simp: vl_task_complete_io_def Let_def wake_pending split: option.split)

lemma marked_take_first: "marked (snd (take_first n p rt)) t = marked rt t"
proof (induction n arbitrary: rt)
  case (Suc n)
  obtain x rt1 where pop: "global_pop rt = (x, rt1)" by fastforce
  then have "marked rt1 t = marked rt t" using global_pop_task(3) [of rt t] by simp
  then show ?case using pop Suc.IH by (simp split: option.split)
qed simp

lemma marked_take_extra: "marked (snd (take_extra n p pulled rt)) t = marked rt t"
proof (induction n arbitrary: pulled rt)
  case (Suc n)
  obtain x rt1 where pop: "global_pop rt = (x, rt1)" by fastforce
  then have m1: "marked rt1 t = marked rt t" using global_pop_task(3) [of rt t] by simp
  have m2: "marked (snd (local_push p u rt1)) t = marked rt1 t" for u by simp
  show ?case
  proof (cases x)
    case (Some u)
    obtain st rt2 where l: "local_push p u rt1 = (st, rt2)" by fastforce
    then have "marked rt2 t = marked rt t" using m1 m2 [of u] by simp
    then show ?thesis using pop Some l m1 Suc.IH marked_same [OF count_local_push_same] by simp
  qed (use pop m1 in simp)
qed simp

lemma marked_take_global: "marked (snd (vl_worker_take_global p rt)) t = marked rt t"
  by (simp add: vl_worker_take_global_def split_beta marked_take_first marked_take_extra)

lemma marked_distribute: "marked (steal_distribute p ts rt) t = marked rt t"
proof -
  have one: "marked (distribute_one p u r) t = marked r t" for u r
    using local_push_tasks(1) [of p u r] marked_same [OF count_local_push_same]
    by (simp add: distribute_one_def split_beta)
  have "marked (fold (distribute_one p) us r) t = marked r t" for us r
    by (induction us arbitrary: r) (simp_all add: one)
  then show ?thesis by (simp add: steal_distribute_def)
qed

lemma marked_joiners: "marked rt t \<Longrightarrow> marked (wake_joiners fuel w rt) t"
proof (induction fuel w rt rule: wake_joiners.induct)
  case (3 fuel waiter rt)
  have "marked (upd_task (\<lambda>t. t\<lparr>t_waiter_next := None, t_waiting_on := None\<rparr>) waiter rt) t" using 3(2) by auto
  from 3(1) [OF refl refl marked_wake [OF this]] show ?case by (simp add: Let_def)
qed simp_all

lemma marked_enqueue_local: "marked (vl_task_enqueue_local_locked p u rt) t = marked rt t"
  using local_push_tasks(1) [of p u] marked_same [OF count_local_push_same]
  by (auto simp: vl_task_enqueue_local_locked_def vl_task_mark_queued_def split_beta split: prod.split)

lemma marked_finish:
  assumes "marked rt t" "u \<noteq> t \<or> r \<noteq> Fiber_Suspended"
  shows "marked (execute_finish p u r rt) t"
proof -
  let ?rt1 = "upd_task (\<lambda>t. t\<lparr>t_executing := False\<rparr>) u rt"
  let ?rt2 = "upd_p_stats (\<lambda>s. s\<lparr>ps_executed := ps_executed s + 1\<rparr>) p (?rt1\<lparr>rt_active_workers := rt_active_workers ?rt1 - 1\<rparr>)"
  have m: "marked ?rt2 t" using assms(1) by auto
  define rt3 where "rt3 = (case r of Resume_Error \<Rightarrow> cancel_executed u ?rt2
      | Fiber_Done \<Rightarrow> upd_task (\<lambda>t. t\<lparr>t_fiber := None\<rparr>) u (vl_task_complete_locked u (set_state VL_TASK_DONE u ?rt2))
      | Fiber_Suspended \<Rightarrow> finish_suspended p u ?rt2)"
  have "marked rt3 t"
  proof (cases r)
    case Resume_Error
    then show ?thesis using m by (auto simp: rt3_def cancel_executed_def split: if_splits)
  next
    case Fiber_Done
    have "marked (wake_joiners n w (upd_task (\<lambda>t. t\<lparr>t_waiters_head := None, t_waiters_tail := None\<rparr>) u (set_state VL_TASK_DONE u ?rt2))) t" for n w
      by (rule marked_joiners) (use m in \<open>auto split: if_splits\<close>)
    then show ?thesis using Fiber_Done by (auto simp: rt3_def vl_task_complete_locked_def Let_def)
  next
    case Fiber_Suspended
    then have "u \<noteq> t" using assms(2) by simp
    then show ?thesis using m Fiber_Suspended by (auto simp: rt3_def finish_suspended_def Let_def marked_enqueue_local cancel_executed_def)
  qed
  moreover have "execute_finish p u r rt = vl_runtime_wake_workers (if rt_live_tasks rt3 = 0 then vl_worker_stop_run_locked VL_OK rt3 else rt3)"
    unfolding execute_finish_def Let_def rt3_def ..
  ultimately show ?thesis by (simp add: vl_worker_stop_run_locked_def)
qed

lemma marked_worker:
  assumes "worker_step p rt pc rt' pc'" "marked rt t" "pc \<noteq> WFin t Fiber_Suspended"
  shows "marked rt' t"
  using assms(1)
proof (cases rule: worker_step.cases)
  case (global u)
  then show ?thesis using assms(2) marked_take_global [of p rt t] by simp
next
  case global_none
  then show ?thesis using assms(2) marked_take_global [of p rt t] by simp
next
  case (finish u r)
  then show ?thesis using assms(2,3) marked_finish by blast
qed (use assms(2) in \<open>auto simp: marked_expire marked_complete_io marked_distribute local_pop_def execute_begin_def execute_fiber_def
    execute_cancelled_def vl_worker_stop_run_locked_def steal_attempt_def idle_enter_def idle_leave_def vl_worker_drain_eventfd_def
    Let_def set_current_def vl_context_set_current_def split: if_splits prod.splits\<close>)

lemma marked_cancel_all: "marked (vl_task_cancel_all rt) t = marked rt t"
proof -
  have "marked (cancel_one u r) t = marked r t" for u r by (simp add: cancel_one_def Let_def)
  then have "marked (fold cancel_one us r) t = marked r t" for us r by (induction us arbitrary: r) simp_all
  then show ?thesis by (simp add: vl_task_cancel_all_def)
qed

text \<open>Where a marked task is.\<close>

lemma marked_place:
  assumes inv: "sys_inv rt pc d gl ll" and m: "marked rt t"
  shows "parked rt t \<and> t_executing (rt_tasks rt t) \<and> (\<exists>p < rt_worker_count rt. pc p = WRun t \<or> pc p = WFin t Fiber_Suspended)"
proof -
  have tk: "parked rt t \<and> t_executing (rt_tasks rt t) \<and> executed_in (rt_worker_count rt) pc t"
    using inv_parts(3) [OF inv] m by (auto simp: tasks_ok_def task_ok_def)
  then obtain p where p: "p < rt_worker_count rt" "t \<in> set (exec_of (pc p))" by (auto simp: executed_in_def)
  have "t \<notin> set (running_at (pc p))" using inv_at(1) [OF inv p(1)] tk by (auto simp: worker_ok_def)
  then have "pc p = WRun t \<or> pc p = WFin t Fiber_Suspended"
    using p(2) by (cases "pc p") (auto simp: running_at_def split: fiber_result.splits)
  then show ?thesis using tk p(1) by blast
qed

lemma marked_step:
  assumes inv: "sys_inv (sy_rt s) (sy_pc s) (sy_dropped s) gl ll" and m: "marked (sy_rt s) t" and step: "sys_step s s'"
  shows "marked (sy_rt s') t \<or> (\<exists>p < rt_worker_count (sy_rt s). sy_pc s p = WFin t Fiber_Suspended
    \<and> s' = s\<lparr>sy_rt := execute_finish p t Fiber_Suspended (sy_rt s), sy_pc := (sy_pc s)(p := WTop)\<rparr>)"
  using step
proof (cases rule: sys_step.cases)
  case (worker p rt' pc')
  show ?thesis
  proof (cases "sy_pc s p = WFin t Fiber_Suspended")
    case True
    then have "rt' = execute_finish p t Fiber_Suspended (sy_rt s)" "pc' = WTop" using worker(3) by (auto elim: worker_step.cases)
    then show ?thesis using True worker(1,2) by (auto simp: drops_def)
  next
    case False
    then show ?thesis using marked_worker [OF worker(3) m] worker(1) by simp
  qed
next
  case (run rt')
  then show ?thesis using m by (auto simp: run_begin_def set_current_def vl_context_set_current_def split: if_splits)
next
  case run_ends
  then show ?thesis using m by (simp add: run_end_def marked_cancel_all)
next
  case (spawn is_owner tls u fn_ok rt')
  have "t \<in> set (rt_all_tasks (sy_rt s))" using inv_parts(3) [OF inv] m by (auto simp: tasks_ok_def task_ok_def)
  then have "u \<noteq> t" using spawn(3) by blast
  then show ?thesis using spawn(1,2) m by (auto simp: vl_spawn_def Let_def split: if_splits)
next
  case (shutdown rt')
  then show ?thesis using m by (auto simp: vl_runtime_request_shutdown_def)
next
  case (other rt')
  then show ?thesis using m marked_same [OF other(2)] by simp
qed (use m in \<open>auto simp: marked_wake\<close>)

section \<open>The task gets queued\<close>

definition ready_at :: "pid \<Rightarrow> vl_runtime_impl \<Rightarrow> tid \<Rightarrow> bool" where
  "ready_at p rt t \<longleftrightarrow> task_state rt t = VL_TASK_RUNNABLE \<and> t_queued (rt_tasks rt t) \<and> \<not> t_executing (rt_tasks rt t)
     \<and> (\<exists>gl ll. gl_rep rt gl \<and> rq_holds (p_runnable (rt_ps rt p)) ll \<and> t \<in> set (gl @ ll))"

lemma finish_woken:
  assumes inv: "sys_inv rt pc d gl ll" and p: "p < rt_worker_count rt" "pc p = WFin t Fiber_Suspended"
    and k: "bottoms rt k" "k < 2 ^ 64 - 1" and w: "t_wake_pending (rt_tasks rt t)"
  shows "ready_at p (execute_finish p t Fiber_Suspended rt) t"
proof -
  note f = finish_facts [OF inv p]
  let ?rt1 = "upd_task (\<lambda>t. t\<lparr>t_wake_pending := False, t_state := VL_TASK_RUNNABLE\<rparr>) t (left_rt p t rt)"
  let ?rt2 = "vl_task_enqueue_local_locked p t ?rt1"
  have "queues_same (left_rt p t rt) ?rt1" by (rule queues_sameI) simp_all
  then have r1: "reps ?rt1 gl ll" using reps_same [OF f(8)] by simp
  have "task_state ?rt1 t = VL_TASK_RUNNABLE" "\<not> t_queued (rt_tasks ?rt1 t)" "gl_rep ?rt1 gl"
      "rq_holds (p_runnable (rt_ps ?rt1 p)) (ll p)" "bottoms ?rt1 k"
    using f(2) r1 p(1) k(1) by (simp_all add: reps_def bottoms_def)
  from enqueue_local_spec [OF this(1-3) f(4) this(4,5) k(2)]
  obtain gl' l' where e: "(gl', l') \<in> {(gl @ [t], ll p), (gl, ll p @ [t])}"
      "gl_rep ?rt2 gl'" "rq_holds (p_runnable (rt_ps ?rt2 p)) l'"
      "sched_same (upd_task (\<lambda>tk. tk\<lparr>t_queued := True\<rparr>) t ?rt1) ?rt2"
    by blast
  have "tk_same (rt_tasks (upd_task (\<lambda>tk. tk\<lparr>t_queued := True\<rparr>) t ?rt1) t) (rt_tasks ?rt2 t)"
    using e(4) unfolding sched_same_def by blast
  then have "released ?rt2 t \<and> \<not> t_executing (rt_tasks ?rt2 t)" by (simp add: released_def tk_same_def)
  moreover have "finish_suspended p t (left_rt p t rt) = ?rt2" using f(7) w by (auto simp: finish_suspended_def)
  then have "execute_finish p t Fiber_Suspended rt
      = vl_runtime_wake_workers (if rt_live_tasks ?rt2 = 0 then vl_worker_stop_run_locked VL_OK ?rt2 else ?rt2)"
    by (simp add: execute_finish_def Let_def)
  moreover have "t \<in> set (gl' @ l')" using e(1) by auto
  ultimately show ?thesis
    using e(2,3) p(1) by (auto simp: ready_at_def released_def vl_worker_stop_run_locked_def)
qed

lemma wake_parked:
  assumes inv: "sys_inv rt pc d gl ll" and t: "parked rt t"
  shows "if t_executing (rt_tasks rt t) then marked (vl_task_wake_locked t rt) t
    else released (vl_task_wake_locked t rt) t \<and> (\<exists>gl. gl_rep (vl_task_wake_locked t rt) gl \<and> t \<in> set gl)"
proof (cases "t_executing (rt_tasks rt t)")
  case True
  then show ?thesis using t by (simp add: wake_pending)
next
  case False
  let ?n = "rt_worker_count rt"
  have "task_ok (rt_tasks rt t) (queued_in ?n gl ll pc t) (taken_in ?n pc t) (executed_in ?n pc t) (t \<in> set (rt_all_tasks rt)) (t \<in> d)"
    using inv_parts(3) [OF inv] unfolding tasks_ok_def by blast
  then have "t_queued (rt_tasks rt t) = queued_in ?n gl ll pc t" "\<not> queued_in ?n gl ll pc t"
    using t by (cases "task_state rt t"; simp add: task_ok_def)+
  then have out: "\<not> t_queued (rt_tasks rt t)" "t \<notin> set gl" by (simp_all add: queued_in_def)
  have "gl_rep rt gl" using inv_parts(1) [OF inv] by (simp add: reps_def)
  note on = wake_on [OF t False out(1) this out(2)]
  have "t \<in> set (gl @ [t])" by simp
  with on(1) have "\<exists>gl. gl_rep (vl_task_wake_locked t rt) gl \<and> t \<in> set gl" by blast
  then show ?thesis unfolding if_not_P [OF False] using wake_released [OF t] by (rule conjI [rotated])
qed

section \<open>Property\<close>

text \<open>C22: No wake-up is lost.  In every reachable state: waking a parked task that has left its processor makes it runnable
  and puts it into the global queue, and waking one that has not leaves a mark.  A marked task is parked and
  still executing, and the worker that executes it runs its fiber or has just got control back from it.  No step of the system takes the mark away except the
  bookkeeping of that worker after control came back; and that bookkeeping makes the task runnable and puts it into the global queue or the worker's own.\<close>

theorem wakeup_not_lost:
  assumes "sys_reach n s" "Suc n < 2 ^ 60"
  shows "(\<forall>t. parked (sy_rt s) t \<longrightarrow>
        (if t_executing (rt_tasks (sy_rt s) t) then marked (vl_task_wake_locked t (sy_rt s)) t
         else released (vl_task_wake_locked t (sy_rt s)) t \<and> (\<exists>gl. gl_rep (vl_task_wake_locked t (sy_rt s)) gl \<and> t \<in> set gl)))
    \<and> (\<forall>t. marked (sy_rt s) t \<longrightarrow> parked (sy_rt s) t \<and> t_executing (rt_tasks (sy_rt s) t)
        \<and> (\<exists>p < rt_worker_count (sy_rt s). sy_pc s p = WRun t \<or> sy_pc s p = WFin t Fiber_Suspended))
    \<and> (\<forall>t s'. marked (sy_rt s) t \<and> sys_step s s' \<longrightarrow> marked (sy_rt s') t
        \<or> (\<exists>p < rt_worker_count (sy_rt s). sy_pc s p = WFin t Fiber_Suspended
             \<and> s' = s\<lparr>sy_rt := execute_finish p t Fiber_Suspended (sy_rt s), sy_pc := (sy_pc s)(p := WTop)\<rparr>))
    \<and> (\<forall>t p. marked (sy_rt s) t \<and> p < rt_worker_count (sy_rt s) \<and> sy_pc s p = WFin t Fiber_Suspended \<longrightarrow>
        ready_at p (execute_finish p t Fiber_Suspended (sy_rt s)) t)"
proof -
  obtain gl ll where inv: "sys_inv (sy_rt s) (sy_pc s) (sy_dropped s) gl ll" and k: "bottoms (sy_rt s) (8 * n)"
    using reach_good [OF assms(1)] assms(2) by (auto simp: good_def)
  have "8 * n < 2 ^ 64 - 1" using assms(2) by simp
  note finish = finish_woken [OF inv _ _ k this]
  show ?thesis
  proof (intro conjI allI impI)
    fix t assume "parked (sy_rt s) t"
    from wake_parked [OF inv this] show "if t_executing (rt_tasks (sy_rt s) t) then marked (vl_task_wake_locked t (sy_rt s)) t
         else released (vl_task_wake_locked t (sy_rt s)) t \<and> (\<exists>gl. gl_rep (vl_task_wake_locked t (sy_rt s)) gl \<and> t \<in> set gl)" .
  qed (use marked_place [OF inv] marked_step [OF inv] finish in blast)+
qed

theorem wakeup_not_lost_witness:
  "\<exists>s. sys_reach 12 s \<and> sy_pc s 0 = WFin 1 Fiber_Suspended \<and> marked (sy_rt s) 1
     \<and> ready_at 0 (execute_finish 0 1 Fiber_Suspended (sy_rt s)) 1"
proof -
  obtain s where s: "sys_reach 12 s" "sy_pc s 0 = WFin 1 Fiber_Suspended" "rt_worker_count (sy_rt s) = 2" "marked (sy_rt s) 1"
    using reach_states(2) by blast
  have "Suc 12 < 2 ^ 60" "0 < rt_worker_count (sy_rt s)" using s(3) by simp_all
  with wakeup_not_lost [OF s(1)] s show ?thesis by blast
qed

end
