(* ===== verification/Timer_Race.thy ===== *)
theory Timer_Race
  imports Worker
begin

text \<open>
  A race of two tasks for one timer, with what the workers do in between (\<^verbatim>\<open>timer.c\<close> and \<^verbatim>\<open>worker.c\<close>): task 1 runs on
  processor 0 and task 2 on processor 1, each on a fiber of its own.
\<close>

definition on_fiber :: "tid \<Rightarrow> pid \<Rightarrow> vl_runtime_impl \<Rightarrow> vl_runtime_impl" where
  "on_fiber t p rt = upd_task (\<lambda>tk. tk\<lparr>t_fiber := Some t, t_last_p := Some p\<rparr>) t rt"

definition racing_rt :: vl_runtime_impl where
  "racing_rt = on_fiber 1 0 (on_fiber 2 1 demo_timer_rt)"

text \<open>Control comes back to the worker of \<open>p\<close> after its task has parked; and the worker of \<open>p\<close> takes its next task and resumes it.\<close>

definition goes_off :: "pid \<Rightarrow> tid \<Rightarrow> vl_runtime_impl \<Rightarrow> vl_runtime_impl" where
  "goes_off p t rt = execute_finish p t Fiber_Suspended (set_current p None rt)"

definition resumed_next :: "pid \<Rightarrow> vl_runtime_impl \<Rightarrow> (tid \<times> vl_runtime_impl) option" where
  "resumed_next p rt =
     (case vl_worker_next_task p rt of
        (None, rt1) \<Rightarrow> None
      | (Some t, rt1) \<Rightarrow>
          (case execute_begin p t rt1 of
             (Begin_Run, rt2) \<Rightarrow> Some (t, set_current p (Some t) (count_switch (snd (execute_fiber None t rt2))))
           | _ \<Rightarrow> None))"

text \<open>The states of the run, as far as the next steps depend on them.\<close>

definition going :: "vl_runtime_impl \<Rightarrow> bool" where
  "going rt \<longleftrightarrow> rt_live_tasks rt = 2 \<and> rt_running rt \<and> \<not> rt_shutdown_requested rt \<and> rt_worker_count rt = 2
     \<and> (\<forall>p. p_runnable (rt_ps rt p) = vl_run_queue_zero)"

definition first_sleeps :: "vl_runtime_impl \<Rightarrow> bool" where
  "first_sleeps rt \<longleftrightarrow> rt_nodes rt 9 = \<lparr>deadline_ns = 110, heap_index = 0, active = True, owner = Some 9\<rparr>
     \<and> rt_timers rt 9 = \<lparr>ti_task = Some 1, ti_p = Some 0\<rparr>
     \<and> timers_of rt 0 = \<lparr>th_items = (replicate 16 0)[0 := 9], th_length = 1, th_capacity = 16\<rparr>
     \<and> (\<forall>p. p \<noteq> 0 \<longrightarrow> timers_of rt p = vl_timer_heap_zero)
     \<and> rt_tasks rt 1 = demo_task\<lparr>t_state := VL_TASK_SLEEPING, t_fiber := Some 1, t_last_p := Some 0, t_timer_result := VL_OK\<rparr>
     \<and> rt_tasks rt 2 = demo_task\<lparr>t_fiber := Some 2, t_last_p := Some 1\<rparr> \<and> p_current (rt_ps rt 1) = Some 2
     \<and> rt_global_runnable rt = \<lparr>tq_head = None, tq_tail = None, tq_length = 0\<rparr> \<and> going rt"

definition first_queued :: "vl_runtime_impl \<Rightarrow> bool" where
  "first_queued rt \<longleftrightarrow> rt_tasks rt 1 = demo_task\<lparr>t_state := VL_TASK_RUNNABLE, t_executing := False, t_queued := True, t_fiber := Some 1,
       t_last_p := Some 0, t_timer_result := VL_OK\<rparr>
     \<and> rt_global_runnable rt = \<lparr>tq_head = Some 1, tq_tail = Some 1, tq_length = 1\<rparr> \<and> going rt"

definition timer_free :: "vl_runtime_impl \<Rightarrow> bool" where
  "timer_free rt \<longleftrightarrow> rt_nodes rt 9 = \<lparr>deadline_ns = 110, heap_index = 0, active = False, owner = Some 9\<rparr>
     \<and> rt_timers rt 9 = \<lparr>ti_task = None, ti_p = None\<rparr> \<and> (\<forall>p. th_length (timers_of rt p) = 0) \<and> timers_of rt 1 = vl_timer_heap_zero
     \<and> rt_tasks rt 2 = demo_task\<lparr>t_fiber := Some 2, t_last_p := Some 1\<rparr> \<and> p_current (rt_ps rt 1) = Some 2"

definition second_armed :: "vl_runtime_impl \<Rightarrow> bool" where
  "second_armed rt \<longleftrightarrow> rt_nodes rt 9 = \<lparr>deadline_ns = 130, heap_index = 0, active = True, owner = Some 9\<rparr>
     \<and> timers_of rt 1 = \<lparr>th_items = (replicate 16 0)[0 := 9], th_length = 1, th_capacity = 16\<rparr>
     \<and> (\<forall>p. p \<noteq> 1 \<longrightarrow> th_length (timers_of rt p) = 0)
     \<and> t_state (rt_tasks rt 2) = VL_TASK_SLEEPING \<and> t_queued (rt_tasks rt 2) = False \<and> t_wake_pending (rt_tasks rt 2) = False"

lemmas race_states = going_def first_sleeps_def first_queued_def timer_free_def second_armed_def

lemmas going_off = goes_off_def execute_finish_def finish_suspended_def set_current_def vl_context_set_current_def

lemma first_arms: "\<exists>rt1. vl_timer_arm (Some 0) 100 (TlsP 0) (Some 9) 10 racing_rt = (Park, rt1) \<and> first_sleeps rt1"
  by (simp add: vl_timer_arm_def caller_of_def racing_rt_def on_fiber_def demo_timer_defs vl_timer_heap_push_def th_next_capacity_def
      th_append_def th_grow_def vl_timer_heap_zero_def th_up_stop set_heap_def Let_def race_states)

lemma first_expires:
  assumes "first_sleeps rt1"
  defines "rt2 \<equiv> vl_timers_expire (Some 0) 110 (goes_off 0 1 rt1)"
  shows "first_queued rt2" "timer_free rt2"
  using assms(1) unfolding rt2_def race_states
  by (simp_all add: going_off vl_timers_expire_def vl_timer_heap_peek_def vl_timer_heap_pop_def Let_def
      expire_one_def drop_timer_count_def set_heap_def set_timer_def demo_task_def vl_task_zero_def vl_task_wake_locked_def
      vl_task_enqueue_global_locked_def vl_task_mark_queued_def set_active_def global_push_def vl_task_queue_push_def vl_timer_heap_zero_def
      upd_apply)

lemma second_arms:
  assumes "first_queued rt2" "timer_free rt2"
  shows "\<exists>rt3. vl_timer_arm (Some 0) 120 (TlsP 1) (Some 9) 10 rt2 = (Park, rt3) \<and> first_queued rt3 \<and> second_armed rt3"
  using assms unfolding race_states
  by (simp add: vl_timer_arm_def caller_of_def vl_timer_heap_push_def th_next_capacity_def demo_task_def vl_task_zero_def
      th_append_def th_grow_def vl_timer_heap_zero_def th_up_stop Let_def set_heap_def set_timer_def)

lemma first_resumed:
  assumes "first_queued rt3" "second_armed rt3"
  shows "\<exists>rt4 rt5. resumed_next 0 (goes_off 1 2 rt3) = Some (1, rt4) \<and> vl_timer_arm_resume 9 1 rt4 = (VL_OK, rt5)
    \<and> second_armed rt5 \<and> ti_task (rt_timers rt5 9) = None \<and> t_executing (rt_tasks rt5 2) = False"
  using assms unfolding race_states
  by (simp add: resumed_next_def vl_worker_next_task_def local_pop_def vl_run_queue_owner_pop_def vl_run_queue_zero_def
      vl_worker_take_global_def global_pop_def vl_task_queue_pop_def clear_queued_def execute_begin_def execute_fiber_def
      going_off count_switch_def vl_timer_arm_resume_def set_timer_def demo_task_def vl_task_zero_def Let_def upd_apply upd_p_stats_def
      upd_stats_def)

lemma second_lost:
  assumes "second_armed rt5" "ti_task (rt_timers rt5 9) = None" "t_executing (rt_tasks rt5 2) = False"
  defines "rt6 \<equiv> vl_timers_expire (Some 1) 130 rt5"
  shows "armed rt5 1 = {9}" "armed rt6 p = {}" "task_state rt6 2 = VL_TASK_SLEEPING" "\<not> released rt6 2"
proof -
  have "th_length (timers_of rt6 p) = 0" "task_state rt6 2 = VL_TASK_SLEEPING" "\<not> released rt6 2"
    using assms(1-3) unfolding rt6_def race_states
    by (simp_all add: vl_timers_expire_def vl_timer_heap_peek_def vl_timer_heap_pop_def Let_def
      expire_one_def drop_timer_count_def set_heap_def set_timer_def released_def)
  then show "armed rt6 p = {}" "task_state rt6 2 = VL_TASK_SLEEPING" "\<not> released rt6 2" by (simp_all add: th_live_def)
  show "armed rt5 1 = {9}" using assms(1) by (simp add: second_armed_def th_live_def numeral_eq_Suc)
qed

text \<open>C16: A wakeup that is lost.  The task that armed a timer clears the timer's task pointer after it has been
  resumed, without the lock.  Task 1 arms a timer and leaves its processor, its deadline passes and it is queued; task 2
  arms the same timer and leaves its processor; then worker 0 takes task 1 and resumes it, which wipes the
  registration of task 2: when the second deadline passes, the timer leaves the heap, no timer is armed any
  more, and task 2 still sleeps and has not been released.\<close>

theorem timer_rearm_lost_wakeup:
  "\<exists>rt1 rt2 rt3 rt4 rt5. vl_timer_arm (Some 0) 100 (TlsP 0) (Some 9) 10 racing_rt = (Park, rt1)
     \<and> rt2 = vl_timers_expire (Some 0) 110 (goes_off 0 1 rt1) \<and> released rt2 1
     \<and> vl_timer_arm (Some 0) 120 (TlsP 1) (Some 9) 10 rt2 = (Park, rt3)
     \<and> resumed_next 0 (goes_off 1 2 rt3) = Some (1, rt4) \<and> vl_timer_arm_resume 9 1 rt4 = (VL_OK, rt5)
     \<and> armed rt5 1 = {9} \<and> (let rt6 = vl_timers_expire (Some 1) 130 rt5 in
        (\<forall>p. armed rt6 p = {}) \<and> task_state rt6 2 = VL_TASK_SLEEPING \<and> \<not> released rt6 2)"
proof -
  obtain rt1 where 1: "vl_timer_arm (Some 0) 100 (TlsP 0) (Some 9) 10 racing_rt = (Park, rt1)" "first_sleeps rt1" using first_arms by blast
  note 2 = first_expires [OF 1(2)]
  let ?rt2 = "vl_timers_expire (Some 0) 110 (goes_off 0 1 rt1)"
  obtain rt3 where 3: "vl_timer_arm (Some 0) 120 (TlsP 1) (Some 9) 10 ?rt2 = (Park, rt3)" "first_queued rt3" "second_armed rt3"
    using second_arms [OF 2] by blast
  obtain rt4 rt5 where 5: "resumed_next 0 (goes_off 1 2 rt3) = Some (1, rt4)" "vl_timer_arm_resume 9 1 rt4 = (VL_OK, rt5)"
      "second_armed rt5" "ti_task (rt_timers rt5 9) = None" "t_executing (rt_tasks rt5 2) = False"
    using first_resumed [OF 3(2,3)] by blast
  have "released ?rt2 1" using 2(1) by (simp add: first_queued_def released_def demo_task_def)
  then show ?thesis using 1(1) 3(1) 5(1,2) second_lost [OF 5(3-5)] unfolding Let_def by blast
qed

end
