(* ===== verification/Http_Parser.thy ===== *)
theory Http_Parser
  imports Veloco_Prelude
begin

text \<open>
  The HTTP request parser, \<^verbatim>\<open>src/http/http_parser.c\<close> and the types of \<^verbatim>\<open>veloco/http.h\<close>.  Bytes are
  characters.  A \<^verbatim>\<open>char *\<close> into the parse buffer is the list of the bytes from it on, and the
  functions that write terminators into the buffer answer the bytes they leave behind.  A \<^verbatim>\<open>char\<close>
  array that holds a C string is the string.  \<open>hp_buffer\<close> holds the bytes received so far, so the
  field \<^verbatim>\<open>length\<close> is its length and the terminator after it is implicit.  Sizes are natural numbers:
  the lemmas show that the only sum, the capacity, is below \<open>2\<^sup>1\<^sup>7\<close> and that no difference goes below
  zero.  The functions of the C library are modelled after the C standard.
\<close>

section \<open>The C library\<close>

abbreviation (input) NUL :: char where "NUL \<equiv> CHR 0x00"
abbreviation (input) CR :: char where "CR \<equiv> CHR 0x0D"
abbreviation (input) LF :: char where "LF \<equiv> CHR 0x0A"

definition isspace :: "char \<Rightarrow> bool" where
  "isspace c \<longleftrightarrow> of_char c = (32::nat) \<or> (9 \<le> (of_char c :: nat) \<and> of_char c \<le> (13::nat))"

definition tolower :: "char \<Rightarrow> char" where
  "tolower c = (if 65 \<le> (of_char c :: nat) \<and> of_char c \<le> (90::nat) then char_of (of_char c + (32::nat)) else c)"

definition isdigit :: "char \<Rightarrow> bool" where
  "isdigit c \<longleftrightarrow> 48 \<le> (of_char c :: nat) \<and> of_char c \<le> (57::nat)"

text \<open>The distance to the first occurrence, which must come before the terminator.\<close>

fun strchr :: "string \<Rightarrow> char \<Rightarrow> nat option" where
  "strchr [] c = None"
| "strchr (x # xs) c = (if x = c then Some 0 else if x = NUL then None else map_option Suc (strchr xs c))"

text \<open>\<^verbatim>\<open>strstr\<close> for the two bytes CR LF.\<close>

fun strstr_crlf :: "string \<Rightarrow> nat option" where
  "strstr_crlf (x # y # xs) =
     (if x = CR \<and> y = LF then Some 0 else if x = NUL then None else map_option Suc (strstr_crlf (y # xs)))"
| "strstr_crlf _ = None"

text \<open>Reading byte \<open>i\<close> of a C string, up to its terminator.\<close>

definition byte_at :: "string \<Rightarrow> nat \<Rightarrow> char" where
  "byte_at s i = (if i < length s then s ! i else NUL)"

text \<open>
  \<^verbatim>\<open>strtoul\<close> to base 10, for a 64-bit \<^verbatim>\<open>unsigned long\<close>: the value, whether \<^verbatim>\<open>errno\<close> is set, and the
  rest of the string at which \<^verbatim>\<open>end\<close> points.  A minus sign negates the value modulo \<open>2\<^sup>6\<^sup>4\<close>.
\<close>

definition digits_value :: "string \<Rightarrow> nat" where
  "digits_value ds = foldl (\<lambda>n d. 10 * n + (of_char d - 48)) 0 ds"

definition strtoul :: "string \<Rightarrow> nat \<times> bool \<times> string" where
  "strtoul s =
     (let s1 = dropWhile isspace s;
          neg = (s1 \<noteq> [] \<and> hd s1 = CHR ''-'');
          s2 = (if s1 \<noteq> [] \<and> (hd s1 = CHR ''-'' \<or> hd s1 = CHR ''+'') then tl s1 else s1);
          ds = takeWhile isdigit s2;
          n = digits_value ds
      in if ds = [] then (0, False, s)
         else if n \<ge> 2 ^ 64 then (2 ^ 64 - 1, True, drop (length ds) s2)
         else (if neg then (2 ^ 64 - n) mod 2 ^ 64 else n, False, drop (length ds) s2))"

text \<open>The conversions \<^verbatim>\<open>%zu\<close> and \<^verbatim>\<open>%zx\<close> of \<^verbatim>\<open>snprintf\<close>.\<close>

fun decimal :: "nat \<Rightarrow> string" where
  "decimal n = (if n < 10 then [char_of (48 + n)] else decimal (n div 10) @ [char_of (48 + n mod 10)])"

definition hex_digit :: "nat \<Rightarrow> char" where
  "hex_digit n = char_of (if n < 10 then 48 + n else 87 + n)"

fun hexadecimal :: "nat \<Rightarrow> string" where
  "hexadecimal n = (if n < 16 then [hex_digit n] else hexadecimal (n div 16) @ [hex_digit (n mod 16)])"

declare decimal.simps [simp del] hexadecimal.simps [simp del]

section \<open>Types\<close>

record vl_http_config =
  hc_max_request_line :: nat
  hc_max_header_bytes :: nat
  hc_max_body_bytes :: nat
  hc_max_connections :: nat
  hc_read_timeout_ns :: nat
  hc_write_timeout_ns :: nat

record vl_http_header =
  hh_name :: string
  hh_value :: string

text \<open>\<open>hr_headers\<close> is the used part of the header array, so \<^verbatim>\<open>header_count\<close> is its length.  \<open>hr_body\<close> is
  the offset of the body in the buffer.\<close>

record vl_http_request =
  hr_method :: string
  hr_path :: string
  hr_http_major :: nat
  hr_http_minor :: nat
  hr_headers :: "vl_http_header list"
  hr_content_length :: nat
  hr_keep_alive :: bool
  hr_body :: "nat option"
  hr_body_length :: nat

datatype vl_http_parse_status = VL_HTTP_PARSE_NEED_MORE | VL_HTTP_PARSE_COMPLETE | VL_HTTP_PARSE_ERROR

datatype vl_http_error =
    VL_HTTP_ERROR_NONE
  | VL_HTTP_ERROR_BAD_REQUEST
  | VL_HTTP_ERROR_LENGTH_REQUIRED
  | VL_HTTP_ERROR_PAYLOAD_TOO_LARGE
  | VL_HTTP_ERROR_HEADER_TOO_LARGE

fun vl_http_error_code :: "vl_http_error \<Rightarrow> int" where
  "vl_http_error_code VL_HTTP_ERROR_NONE = 0"
| "vl_http_error_code VL_HTTP_ERROR_BAD_REQUEST = 400"
| "vl_http_error_code VL_HTTP_ERROR_LENGTH_REQUIRED = 411"
| "vl_http_error_code VL_HTTP_ERROR_PAYLOAD_TOO_LARGE = 413"
| "vl_http_error_code VL_HTTP_ERROR_HEADER_TOO_LARGE = 431"

record vl_http_parser =
  hp_config :: vl_http_config
  hp_request :: vl_http_request
  hp_buffer :: "string option"
  hp_capacity :: nat
  hp_header_end :: nat
  hp_error :: vl_http_error
  hp_complete :: bool

definition VL_HTTP_MAX_METHOD :: nat where "VL_HTTP_MAX_METHOD = 8"
definition VL_HTTP_MAX_PATH :: nat where "VL_HTTP_MAX_PATH = 256"
definition VL_HTTP_MAX_HEADERS :: nat where "VL_HTTP_MAX_HEADERS = 32"
definition VL_HTTP_MAX_HEADER_NAME :: nat where "VL_HTTP_MAX_HEADER_NAME = 64"
definition VL_HTTP_MAX_HEADER_VALUE :: nat where "VL_HTTP_MAX_HEADER_VALUE = 256"
definition VL_HTTP_DEFAULT_MAX_REQUEST_LINE :: nat where "VL_HTTP_DEFAULT_MAX_REQUEST_LINE = 1024"
definition VL_HTTP_DEFAULT_MAX_HEADER_BYTES :: nat where "VL_HTTP_DEFAULT_MAX_HEADER_BYTES = 8192"
definition VL_HTTP_DEFAULT_MAX_BODY_BYTES :: nat where "VL_HTTP_DEFAULT_MAX_BODY_BYTES = 64 * 1024"
definition VL_HTTP_DEFAULT_MAX_CONNECTIONS :: nat where "VL_HTTP_DEFAULT_MAX_CONNECTIONS = 1024"
definition VL_HTTP_DEFAULT_READ_TIMEOUT_NS :: nat where "VL_HTTP_DEFAULT_READ_TIMEOUT_NS = 5000000000"
definition VL_HTTP_DEFAULT_WRITE_TIMEOUT_NS :: nat where "VL_HTTP_DEFAULT_WRITE_TIMEOUT_NS = 5000000000"

lemmas http_limits = VL_HTTP_MAX_METHOD_def VL_HTTP_MAX_PATH_def VL_HTTP_MAX_HEADERS_def VL_HTTP_MAX_HEADER_NAME_def
  VL_HTTP_MAX_HEADER_VALUE_def VL_HTTP_DEFAULT_MAX_REQUEST_LINE_def VL_HTTP_DEFAULT_MAX_HEADER_BYTES_def
  VL_HTTP_DEFAULT_MAX_BODY_BYTES_def

section \<open>The parser\<close>

definition vl_http_set_error :: "vl_http_parser \<Rightarrow> vl_http_error \<Rightarrow> vl_http_parser" where
  "vl_http_set_error parser error = parser\<lparr>hp_error := error\<rparr>"

definition vl_http_config_default :: vl_http_config where
  "vl_http_config_default =
     \<lparr>hc_max_request_line = VL_HTTP_DEFAULT_MAX_REQUEST_LINE,
      hc_max_header_bytes = VL_HTTP_DEFAULT_MAX_HEADER_BYTES,
      hc_max_body_bytes = VL_HTTP_DEFAULT_MAX_BODY_BYTES,
      hc_max_connections = VL_HTTP_DEFAULT_MAX_CONNECTIONS,
      hc_read_timeout_ns = VL_HTTP_DEFAULT_READ_TIMEOUT_NS,
      hc_write_timeout_ns = VL_HTTP_DEFAULT_WRITE_TIMEOUT_NS\<rparr>"

definition vl_http_request_zero :: vl_http_request where
  "vl_http_request_zero =
     \<lparr>hr_method = [], hr_path = [], hr_http_major = 0, hr_http_minor = 0, hr_headers = [],
      hr_content_length = 0, hr_keep_alive = False, hr_body = None, hr_body_length = 0\<rparr>"

text \<open>The adjustment of the limits in \<^verbatim>\<open>vl_http_parser_init\<close>.\<close>

definition http_clamp :: "vl_http_config \<Rightarrow> vl_http_config" where
  "http_clamp c =
     (let c1 = (if hc_max_request_line c = 0 \<or> hc_max_request_line c > VL_HTTP_DEFAULT_MAX_HEADER_BYTES
                then c\<lparr>hc_max_request_line := VL_HTTP_DEFAULT_MAX_REQUEST_LINE\<rparr> else c);
          c2 = (if hc_max_header_bytes c1 = 0 \<or> hc_max_header_bytes c1 > VL_HTTP_DEFAULT_MAX_HEADER_BYTES
                then c1\<lparr>hc_max_header_bytes := VL_HTTP_DEFAULT_MAX_HEADER_BYTES\<rparr> else c1)
      in if hc_max_body_bytes c2 > VL_HTTP_DEFAULT_MAX_BODY_BYTES
         then c2\<lparr>hc_max_body_bytes := VL_HTTP_DEFAULT_MAX_BODY_BYTES\<rparr> else c2)"

definition vl_http_parser_init :: "bool \<Rightarrow> vl_http_config option \<Rightarrow> vl_http_parser" where
  "vl_http_parser_init malloc_ok config =
     (let c = http_clamp (case config of None \<Rightarrow> vl_http_config_default | Some c \<Rightarrow> c);
          capacity = hc_max_header_bytes c + hc_max_body_bytes c
      in \<lparr>hp_config = c, hp_request = vl_http_request_zero, hp_buffer = (if malloc_ok then Some [] else None),
          hp_capacity = (if malloc_ok then capacity else 0), hp_header_end = 0, hp_error = VL_HTTP_ERROR_NONE,
          hp_complete = False\<rparr>)"

definition vl_http_parser_destroy :: "vl_http_parser \<Rightarrow> vl_http_parser" where
  "vl_http_parser_destroy parser = parser\<lparr>hp_buffer := None, hp_capacity := 0\<rparr>"

text \<open>The offset just after the first CR LF CR LF.\<close>

fun find_end :: "string \<Rightarrow> nat \<Rightarrow> nat option" where
  "find_end (a # b # c # d # xs) index =
     (if a = CR \<and> b = LF \<and> c = CR \<and> d = LF then Some (index + 4) else find_end (b # c # d # xs) (index + 1))"
| "find_end _ index = None"

definition vl_http_find_header_end :: "string \<Rightarrow> nat option" where
  "vl_http_find_header_end buffer = (if length buffer < 4 then None else find_end buffer 0)"

definition vl_http_token_copy :: "nat \<Rightarrow> string \<Rightarrow> string option" where
  "vl_http_token_copy dest_size src = (if length src = 0 \<or> length src \<ge> dest_size then None else Some src)"

definition vl_http_parse_content_length :: "string \<Rightarrow> nat option" where
  "vl_http_parse_content_length value =
     (if value = [] then None
      else (case strtoul value of
              (parsed, errno, rest) \<Rightarrow> if errno \<or> rest = value \<or> rest \<noteq> [] then None else Some parsed))"

fun vl_http_equals_ci :: "string \<Rightarrow> string \<Rightarrow> bool" where
  "vl_http_equals_ci (l # left) (r # right) = (if tolower l \<noteq> tolower r then False else vl_http_equals_ci left right)"
| "vl_http_equals_ci left right = (left = [] \<and> right = [])"

definition vl_http_trim :: "string \<Rightarrow> string" where
  "vl_http_trim s = rev (dropWhile isspace (rev (dropWhile isspace s)))"

text \<open>
  The request line, without its CR LF.  The answers are the status, the bytes of the line with the
  terminators written into it, and the request.
\<close>

definition vl_http_parse_request_line ::
  "vl_http_config \<Rightarrow> string \<Rightarrow> vl_http_request \<Rightarrow> vl_status \<times> string \<times> vl_http_request" where
  "vl_http_parse_request_line config line req =
     (case strchr line (CHR '' '') of
        None \<Rightarrow> (VL_ERROR_INVALID_ARGUMENT, line, req)
      | Some s1 \<Rightarrow>
          if s1 > hc_max_request_line config then (VL_ERROR_INVALID_ARGUMENT, line, req)
          else
            let line1 = line[s1 := NUL]; method = take s1 line; path_on = drop (s1 + 1) line in
            (case strchr path_on (CHR '' '') of
               None \<Rightarrow> (VL_ERROR_INVALID_ARGUMENT, line1, req)
             | Some s2 \<Rightarrow>
                 let line2 = line1[s1 + 1 + s2 := NUL]; path = take s2 path_on; version = drop (s2 + 1) path_on in
                 if take 7 version \<noteq> ''HTTP/1.'' \<or> (byte_at version 7 \<noteq> CHR ''0'' \<and> byte_at version 7 \<noteq> CHR ''1'')
                    \<or> byte_at version 8 \<noteq> NUL
                 then (VL_ERROR_INVALID_ARGUMENT, line2, req)
                 else if method \<noteq> ''GET'' \<and> method \<noteq> ''POST'' \<and> method \<noteq> ''HEAD''
                 then (VL_ERROR_INVALID_ARGUMENT, line2, req)
                 else if byte_at path 0 \<noteq> CHR ''/'' then (VL_ERROR_INVALID_ARGUMENT, line2, req)
                 else (case vl_http_token_copy VL_HTTP_MAX_METHOD method of
                         None \<Rightarrow> (VL_ERROR_INVALID_ARGUMENT, line2, req)
                       | Some m \<Rightarrow>
                           let req1 = req\<lparr>hr_method := m\<rparr> in
                           (case vl_http_token_copy VL_HTTP_MAX_PATH path of
                              None \<Rightarrow> (VL_ERROR_INVALID_ARGUMENT, line2, req1)
                            | Some p \<Rightarrow>
                                let minor = of_char (byte_at version 7) - 48
                                in (VL_OK, line2,
                                    req1\<lparr>hr_path := p, hr_http_major := 1, hr_http_minor := minor,
                                         hr_keep_alive := (minor = 1)\<rparr>)))))"

text \<open>One header line: the header, or \<open>None\<close> when it is malformed.\<close>

definition parse_header_line :: "string \<Rightarrow> vl_http_header option" where
  "parse_header_line line =
     (case strchr line (CHR '':'') of
        None \<Rightarrow> None
      | Some colon \<Rightarrow>
          if colon = 0 then None
          else (case (vl_http_token_copy VL_HTTP_MAX_HEADER_NAME (vl_http_trim (take colon line)),
                      vl_http_token_copy VL_HTTP_MAX_HEADER_VALUE (vl_http_trim (drop (colon + 1) line))) of
                  (Some n, Some v) \<Rightarrow> Some \<lparr>hh_name = n, hh_value = v\<rparr>
                | _ \<Rightarrow> None))"

text \<open>What a header means for the request; \<open>None\<close> when a content length is repeated or malformed.\<close>

definition apply_header :: "bool \<Rightarrow> vl_http_header \<Rightarrow> vl_http_request \<Rightarrow> (bool \<times> vl_http_request) option" where
  "apply_header saw header req =
     (if vl_http_equals_ci (hh_name header) ''Content-Length'' then
        if saw then None
        else map_option (\<lambda>n. (True, req\<lparr>hr_content_length := n\<rparr>)) (vl_http_parse_content_length (hh_value header))
      else if vl_http_equals_ci (hh_name header) ''Connection'' then
        if vl_http_equals_ci (hh_value header) ''close'' then Some (saw, req\<lparr>hr_keep_alive := False\<rparr>)
        else if vl_http_equals_ci (hh_value header) ''keep-alive'' then Some (saw, req\<lparr>hr_keep_alive := True\<rparr>)
        else Some (saw, req)
      else Some (saw, req))"

lemma strstr_bound: "strstr_crlf s = Some n \<Longrightarrow> n + 1 < length s"
  by (induction s arbitrary: n rule: strstr_crlf.induct) (auto split: if_splits)

text \<open>
  The loop over the header lines, from \<open>cursor\<close> on.  Each round writes a terminator over the CR of its
  line and continues two bytes further.
\<close>

function vl_http_parse_headers ::
  "bool \<Rightarrow> string \<Rightarrow> vl_http_request \<Rightarrow> vl_status \<times> string \<times> vl_http_request" where
  "vl_http_parse_headers saw cursor req =
     (case strstr_crlf cursor of
        None \<Rightarrow> (VL_ERROR_INVALID_ARGUMENT, cursor, req)
      | Some n \<Rightarrow>
          if n = 0 then (VL_OK, cursor, req)
          else if length (hr_headers req) \<ge> VL_HTTP_MAX_HEADERS then (VL_ERROR_INVALID_ARGUMENT, cursor, req)
          else
            let line = take n cursor in
            (case parse_header_line line of
               None \<Rightarrow> (VL_ERROR_INVALID_ARGUMENT, cursor[n := NUL], req)
             | Some header \<Rightarrow>
                 let req1 = req\<lparr>hr_headers := hr_headers req @ [header]\<rparr> in
                 (case apply_header saw header req1 of
                    None \<Rightarrow> (VL_ERROR_INVALID_ARGUMENT, cursor[n := NUL], req1)
                  | Some (saw', req2) \<Rightarrow>
                      (case vl_http_parse_headers saw' (drop (n + 2) cursor) req2 of
                         (status, rest, req3) \<Rightarrow> (status, take (n + 2) (cursor[n := NUL]) @ rest, req3)))))"
  by pat_completeness auto

termination vl_http_parse_headers
  by (relation "measure (\<lambda>(saw, cursor, req). length cursor)") (auto dest: strstr_bound)

declare vl_http_parse_headers.simps [simp del]

definition vl_http_parse_head :: "vl_http_parser \<Rightarrow> string \<Rightarrow> vl_status \<times> vl_http_parser" where
  "vl_http_parse_head parser buffer =
     (case strstr_crlf buffer of
        None \<Rightarrow> (VL_ERROR_INVALID_ARGUMENT, parser)
      | Some n \<Rightarrow>
          if n > hc_max_request_line (hp_config parser) then (VL_ERROR_INVALID_ARGUMENT, parser)
          else
            (case vl_http_parse_request_line (hp_config parser) (take n buffer) (hp_request parser) of
               (st1, line, req1) \<Rightarrow>
                 if st1 \<noteq> VL_OK
                 then (VL_ERROR_INVALID_ARGUMENT,
                       parser\<lparr>hp_request := req1, hp_buffer := Some (line @ drop n (buffer[n := NUL]))\<rparr>)
                 else
                   (case vl_http_parse_headers False (drop (n + 2) buffer) req1 of
                      (st2, rest, req2) \<Rightarrow>
                        let buffer1 = line @ take 2 (drop n (buffer[n := NUL])) @ rest in
                        if st2 \<noteq> VL_OK
                        then (VL_ERROR_INVALID_ARGUMENT, parser\<lparr>hp_request := req2, hp_buffer := Some buffer1\<rparr>)
                        else
                          let parser1 = parser\<lparr>hp_request := req2, hp_buffer := Some (buffer1[hp_header_end parser - 4 := CR])\<rparr> in
                          if hr_content_length req2 > hc_max_body_bytes (hp_config parser) then (VL_ERROR_OUT_OF_MEMORY, parser1)
                          else (VL_OK, parser1\<lparr>hp_request := req2\<lparr>hr_body := Some (hp_header_end parser)\<rparr>\<rparr>))))"

text \<open>The last part of \<^verbatim>\<open>vl_http_parser_feed\<close>: is the body complete?\<close>

definition feed_body :: "vl_http_parser \<Rightarrow> string \<Rightarrow> vl_http_parse_status \<times> vl_http_parser" where
  "feed_body parser buffer =
     (if length buffer - hp_header_end parser < hr_content_length (hp_request parser)
      then (VL_HTTP_PARSE_NEED_MORE, parser)
      else (VL_HTTP_PARSE_COMPLETE,
            parser\<lparr>hp_request := (hp_request parser)\<lparr>hr_body_length := hr_content_length (hp_request parser)\<rparr>,
                   hp_complete := True\<rparr>))"

text \<open>The parser is not NULL, and \<open>data\<close> is not NULL or its length is 0.\<close>

definition vl_http_parser_feed :: "vl_http_parser \<Rightarrow> string \<Rightarrow> vl_http_parse_status \<times> vl_http_parser" where
  "vl_http_parser_feed parser data =
     (if hp_complete parser \<or> hp_error parser \<noteq> VL_HTTP_ERROR_NONE
      then (if hp_error parser = VL_HTTP_ERROR_NONE then VL_HTTP_PARSE_COMPLETE else VL_HTTP_PARSE_ERROR, parser)
      else
        (case hp_buffer parser of
           None \<Rightarrow> (VL_HTTP_PARSE_ERROR, vl_http_set_error parser VL_HTTP_ERROR_PAYLOAD_TOO_LARGE)
         | Some old \<Rightarrow>
             if length data > hp_capacity parser - length old
             then (VL_HTTP_PARSE_ERROR, vl_http_set_error parser VL_HTTP_ERROR_PAYLOAD_TOO_LARGE)
             else
               let buffer = old @ data; parser1 = parser\<lparr>hp_buffer := Some buffer\<rparr> in
               if hp_header_end parser1 \<noteq> 0 then feed_body parser1 buffer
               else
                 (case vl_http_find_header_end buffer of
                    None \<Rightarrow>
                      if length buffer > hc_max_header_bytes (hp_config parser1)
                      then (VL_HTTP_PARSE_ERROR, vl_http_set_error parser1 VL_HTTP_ERROR_HEADER_TOO_LARGE)
                      else (VL_HTTP_PARSE_NEED_MORE, parser1)
                  | Some header_end \<Rightarrow>
                      let parser2 = parser1\<lparr>hp_header_end := header_end\<rparr> in
                      if header_end > hc_max_header_bytes (hp_config parser2)
                      then (VL_HTTP_PARSE_ERROR, vl_http_set_error parser2 VL_HTTP_ERROR_HEADER_TOO_LARGE)
                      else
                        (case vl_http_parse_head parser2 buffer of
                           (st, parser3) \<Rightarrow>
                             if st \<noteq> VL_OK
                             then (VL_HTTP_PARSE_ERROR,
                                   vl_http_set_error parser3
                                     (if hr_content_length (hp_request parser3) > hc_max_body_bytes (hp_config parser3)
                                      then VL_HTTP_ERROR_PAYLOAD_TOO_LARGE else VL_HTTP_ERROR_BAD_REQUEST))
                             else feed_body parser3 buffer))))"

definition vl_http_parser_request :: "vl_http_parser option \<Rightarrow> vl_http_request option" where
  "vl_http_parser_request parser =
     (case parser of Some p \<Rightarrow> if hp_complete p then Some (hp_request p) else None | None \<Rightarrow> None)"

definition vl_http_parser_error :: "vl_http_parser option \<Rightarrow> vl_http_error" where
  "vl_http_parser_error parser = (case parser of Some p \<Rightarrow> hp_error p | None \<Rightarrow> VL_HTTP_ERROR_BAD_REQUEST)"

end
