(* ===== verification/Http_Facts.thy ===== *)
theory Http_Facts
  imports Http_Parser
begin

text \<open>
  Facts on the request parser: the head of a request is parsed without looking at what follows it,
  receiving a request in pieces makes no difference, and what the parser accepts.
\<close>

section \<open>Searching\<close>

lemma strstr_nth:
  "strstr_crlf s = Some n \<Longrightarrow> n + 1 < length s \<and> s ! n = CR \<and> s ! Suc n = LF \<and> NUL \<notin> set (take n s)"
proof (induction s arbitrary: n rule: strstr_crlf.induct)
  case (1 x y xs)
  then show ?case by (auto split: if_splits)
qed simp_all

lemma strstr_app: "strstr_crlf (e @ CR # LF # u) = strstr_crlf (e @ [CR, LF])"
  by (induction e rule: strstr_crlf.induct) auto

lemma strstr_head:
  assumes "strstr_crlf (e @ CR # LF # CR # LF # t) = Some n"
  shows "n = length e \<or> n + 2 \<le> length e"
proof -
  have "strstr_crlf (e @ [CR, LF]) = Some n" using assms strstr_app by metis
  then have le: "n \<le> length e" using strstr_bound by fastforce
  have lf: "(e @ CR # LF # CR # LF # t) ! Suc n = LF" using strstr_nth [OF assms] by simp
  have "Suc n \<noteq> length e"
  proof
    assume "Suc n = length e"
    with lf show False by (simp add: nth_append)
  qed
  then show ?thesis using le by linarith
qed

lemma find_end_some:
  "find_end xs i = Some e \<Longrightarrow> \<exists>h t. xs = h @ CR # LF # CR # LF # t \<and> e = i + length h + 4"
proof (induction xs i rule: find_end.induct)
  case (1 a b c d xs i)
  show ?case
  proof (cases "a = CR \<and> b = LF \<and> c = CR \<and> d = LF")
    case False
    then obtain h t where "b # c # d # xs = h @ CR # LF # CR # LF # t" "e = i + 1 + length h + 4"
      using 1 by auto
    then have "a # b # c # d # xs = (a # h) @ CR # LF # CR # LF # t \<and> e = i + length (a # h) + 4" by simp
    then show ?thesis by blast
  qed (use 1 in auto)
qed simp_all

lemma find_end_extend: "find_end xs i = Some e \<Longrightarrow> find_end (xs @ ys) i = Some e"
  by (induction xs i rule: find_end.induct) (auto split: if_splits)

lemma find_end_late: "find_end xs i = None \<Longrightarrow> find_end (xs @ ys) i = Some e \<Longrightarrow> e > i + length xs"
  by (induction xs i rule: find_end.induct) (auto split: if_splits dest!: find_end_some)

lemma header_end_find: "vl_http_find_header_end xs = find_end xs 0"
proof -
  have "find_end xs 0 = None" if "length xs < 4" using that by (cases "find_end xs 0") (auto dest!: find_end_some)
  then show ?thesis by (simp add: vl_http_find_header_end_def)
qed

section \<open>The head is parsed on its own\<close>

lemma parse_headers_app:
  "\<exists>st rest r. length rest = length e + 4
     \<and> (\<forall>t. vl_http_parse_headers saw (e @ CR # LF # CR # LF # t) req = (st, rest @ t, r))"
proof (induction "length e" arbitrary: e saw req rule: less_induct)
  case less
  let ?b = "\<lambda>t. e @ CR # LF # CR # LF # t"
  have search: "strstr_crlf (?b t) = strstr_crlf (e @ [CR, LF])" for t by (rule strstr_app)
  show ?case
  proof (cases "strstr_crlf (e @ [CR, LF])")
    case None
    then have "vl_http_parse_headers saw (?b t) req = (VL_ERROR_INVALID_ARGUMENT, ?b [] @ t, req)" for t
      using search by (simp add: vl_http_parse_headers.simps [of saw "?b t"])
    then show ?thesis by (intro exI [of _ VL_ERROR_INVALID_ARGUMENT] exI [of _ "?b []"] exI [of _ req]) simp
  next
    case (Some n)
    then have n: "strstr_crlf (?b t) = Some n" for t using search by simp
    have le: "n = length e \<or> n + 2 \<le> length e" using strstr_head [OF n [of "[]"]] .
    then have tk: "take n (?b t) = take n (e @ [CR, LF, CR, LF])" and up: "(?b t)[n := NUL] = (e @ [CR, LF, CR, LF])[n := NUL] @ t" for t
      by (auto simp: list_update_append)
    have const: "\<exists>st rest r. length rest = length e + 4 \<and> (\<forall>t. f t = (st, rest @ t, r))"
      if "\<And>t. f t = (st, rest @ t, r)" "length rest = length e + 4" for f :: "string \<Rightarrow> vl_status \<times> string \<times> vl_http_request" and st rest r
      using that by blast
    consider "n = 0" | "n \<noteq> 0" "length (hr_headers req) \<ge> VL_HTTP_MAX_HEADERS"
      | "n \<noteq> 0" "length (hr_headers req) < VL_HTTP_MAX_HEADERS" "parse_header_line (take n (e @ [CR, LF, CR, LF])) = None"
      | h where "n \<noteq> 0" "length (hr_headers req) < VL_HTTP_MAX_HEADERS" "parse_header_line (take n (e @ [CR, LF, CR, LF])) = Some h"
      by fastforce
    then show ?thesis
    proof cases
      case 1
      then have "vl_http_parse_headers saw (?b t) req = (VL_OK, ?b [] @ t, req)" for t
        using n by (subst vl_http_parse_headers.simps) simp
      then show ?thesis by (rule const) simp
    next
      case 2
      then have "vl_http_parse_headers saw (?b t) req = (VL_ERROR_INVALID_ARGUMENT, ?b [] @ t, req)" for t
        using n by (subst vl_http_parse_headers.simps) simp
      then show ?thesis by (rule const) simp
    next
      case 3
      then have "vl_http_parse_headers saw (?b t) req = (VL_ERROR_INVALID_ARGUMENT, (?b [])[n := NUL] @ t, req)" for t
        using n [of t] tk [of t] up [of t] by (subst vl_http_parse_headers.simps) simp
      then show ?thesis by (rule const) simp
    next
      case 4
      let ?r1 = "req\<lparr>hr_headers := hr_headers req @ [h]\<rparr>"
      show ?thesis
      proof (cases "apply_header saw h ?r1")
        case None
        then have "vl_http_parse_headers saw (?b t) req = (VL_ERROR_INVALID_ARGUMENT, (?b [])[n := NUL] @ t, ?r1)" for t
          using n [of t] 4 tk [of t] up [of t] by (subst vl_http_parse_headers.simps) simp
        then show ?thesis by (rule const) simp
      next
        case (Some a)
        obtain saw' r2 where a: "a = (saw', r2)" by (cases a)
        have "\<exists>st rest r. length rest = length (drop (n + 2) (?b [])) \<and> (\<forall>t. vl_http_parse_headers saw' (drop (n + 2) (?b t)) r2 = (st, rest @ t, r))"
        proof (cases "n = length e")
          case True
          then have "drop (n + 2) (?b t) = CR # LF # t" for t by simp
          then show ?thesis by (simp add: vl_http_parse_headers.simps)
        next
          case False
          then have d: "drop (n + 2) (?b t) = drop (n + 2) e @ CR # LF # CR # LF # t" for t using le by simp
          have "length (drop (n + 2) e) < length e" using le False by simp
          from less [OF this] show ?thesis unfolding d using le False by force
        qed
        then obtain st rest r where r: "length rest = length (drop (n + 2) (?b []))"
            "\<And>t. vl_http_parse_headers saw' (drop (n + 2) (?b t)) r2 = (st, rest @ t, r)" by blast
        have t2: "take (n + 2) ((?b t)[n := NUL]) = take (n + 2) ((?b [])[n := NUL])" for t
          unfolding up [of t] using le by auto
        have "vl_http_parse_headers saw (?b t) req = (st, (take (n + 2) ((?b [])[n := NUL]) @ rest) @ t, r)" for t
          using n [of t] 4 Some a r(2) [of t] t2 [of t] tk [of t] by (subst vl_http_parse_headers.simps) simp
        moreover have "length (take (n + 2) ((?b [])[n := NUL]) @ rest) = length e + 4" using r(1) le by auto
        ultimately show ?thesis by (rule const)
      qed
    qed
  qed
qed

lemma request_line_length: "vl_http_parse_request_line c line req = (st, line', r) \<Longrightarrow> length line' = length line"
  by (auto simp: vl_http_parse_request_line_def Let_def split: option.splits if_splits)

text \<open>Parsing the head of a request of any length: the outcome, for all that may follow the head.\<close>

lemma parse_head_app:
  "\<exists>st h r. length h = length e + 4 \<and> (\<forall>p t. hp_config p = c \<longrightarrow> hp_request p = req \<longrightarrow> hp_header_end p = length e + 4 \<longrightarrow>
      hp_buffer p = Some (e @ CR # LF # CR # LF # t) \<longrightarrow>
      vl_http_parse_head p (e @ CR # LF # CR # LF # t) = (st, p\<lparr>hp_request := r, hp_buffer := Some (h @ t)\<rparr>))"
proof -
  let ?b = "\<lambda>t. e @ CR # LF # CR # LF # t"
  let ?ok = "\<lambda>p t. hp_config p = c \<and> hp_request p = req \<and> hp_header_end p = length e + 4 \<and> hp_buffer p = Some (?b t)"
  have const: ?thesis
    if "\<And>p t. ?ok p t \<Longrightarrow> vl_http_parse_head p (?b t) = (st, p\<lparr>hp_request := r, hp_buffer := Some (h @ t)\<rparr>)" "length h = length e + 4"
    for st h r using that by (intro exI [of _ st] exI [of _ h] exI [of _ r]) simp
  have search: "strstr_crlf (?b t) = strstr_crlf (e @ [CR, LF])" for t by (rule strstr_app)
  consider "strstr_crlf (e @ [CR, LF]) = None" | n where "strstr_crlf (e @ [CR, LF]) = Some n" "n > hc_max_request_line c"
    | n where "strstr_crlf (e @ [CR, LF]) = Some n" "n \<le> hc_max_request_line c" by fastforce
  then show ?thesis
  proof cases
    case 1
    then have "vl_http_parse_head p (?b t) = (VL_ERROR_INVALID_ARGUMENT, p\<lparr>hp_request := req, hp_buffer := Some (?b [] @ t)\<rparr>)"
      if "?ok p t" for p t using that search [of t] by (simp add: vl_http_parse_head_def)
    then show ?thesis by (rule const) (simp_all add: eval_nat_numeral)
  next
    case (2 n)
    then have "vl_http_parse_head p (?b t) = (VL_ERROR_INVALID_ARGUMENT, p\<lparr>hp_request := req, hp_buffer := Some (?b [] @ t)\<rparr>)"
      if "?ok p t" for p t using that search [of t] by (simp add: vl_http_parse_head_def)
    then show ?thesis by (rule const) (simp_all add: eval_nat_numeral)
  next
    case (3 n)
    have n: "strstr_crlf (?b t) = Some n" for t using search 3 by simp
    have le: "n = length e \<or> n + 2 \<le> length e" using strstr_head [OF n [of "[]"]] .
    obtain st1 line r1 where line: "vl_http_parse_request_line c (take n (e @ [CR, LF])) req = (st1, line, r1)" by (metis prod_cases3)
    have tk: "take n (?b t) = take n (e @ [CR, LF])" for t using le by auto
    have len: "length line = n" using request_line_length [OF line] le by auto
    have up: "(?b t)[n := NUL] = (?b [])[n := NUL] @ t" for t using le by (auto simp: list_update_append)
    have dn: "drop n ((?b t)[n := NUL]) = drop n ((?b [])[n := NUL]) @ t" for t unfolding up [of t] using le by auto
    show ?thesis
    proof (cases "st1 = VL_OK")
      case False
      then have "vl_http_parse_head p (?b t) = (VL_ERROR_INVALID_ARGUMENT,
          p\<lparr>hp_request := r1, hp_buffer := Some ((line @ drop n ((?b [])[n := NUL])) @ t)\<rparr>)" if "?ok p t" for p t
        using that line tk [of t] n [of t] 3(2) dn [of t] by (simp add: vl_http_parse_head_def)
      then show ?thesis by (rule const) (use len le in auto)
    next
      case True
      have "\<exists>st rest r. length rest = length (drop (n + 2) (?b [])) \<and> (\<forall>t. vl_http_parse_headers False (drop (n + 2) (?b t)) r1 = (st, rest @ t, r))"
      proof (cases "n = length e")
        case True
        then have "drop (n + 2) (?b t) = CR # LF # t" for t by simp
        then show ?thesis by (simp add: vl_http_parse_headers.simps)
      next
        case False
        then have d: "drop (n + 2) (?b t) = drop (n + 2) e @ CR # LF # CR # LF # t" for t using le by simp
        show ?thesis unfolding d using parse_headers_app [of "drop (n + 2) e" False r1] le False by force
      qed
      then obtain st2 rest r2 where r: "length rest = length (drop (n + 2) (?b []))"
          "\<And>t. vl_http_parse_headers False (drop (n + 2) (?b t)) r1 = (st2, rest @ t, r2)" by blast
      let ?h = "line @ take 2 (drop n ((?b [])[n := NUL])) @ rest"
      have hlen: "length ?h = length e + 4" using len r(1) le by auto
      have t2: "take 2 (drop n ((?b t)[n := NUL])) = take 2 (drop n ((?b [])[n := NUL]))" for t unfolding dn [of t] using le by auto
      have cr: "(?h @ t)[length e := CR] = ?h[length e := CR] @ t" for t
        by (rule list_update_append1) (use hlen in linarith)
      have eq: "vl_http_parse_head p (?b t) = (if st2 \<noteq> VL_OK then (VL_ERROR_INVALID_ARGUMENT, p\<lparr>hp_request := r2, hp_buffer := Some (?h @ t)\<rparr>)
          else if hr_content_length r2 > hc_max_body_bytes c then (VL_ERROR_OUT_OF_MEMORY, p\<lparr>hp_request := r2, hp_buffer := Some (?h[length e := CR] @ t)\<rparr>)
          else (VL_OK, p\<lparr>hp_request := r2\<lparr>hr_body := Some (length e + 4)\<rparr>, hp_buffer := Some (?h[length e := CR] @ t)\<rparr>))" if "?ok p t" for p t
        using that line tk [of t] n [of t] 3(2) True r(2) [of t] t2 [of t] cr [of t] by (simp add: vl_http_parse_head_def Let_def)
      show ?thesis
      proof (cases "st2 = VL_OK")
        case False
        then show ?thesis by (intro const [OF _ hlen, of VL_ERROR_INVALID_ARGUMENT r2]) (simp add: eq)
      next
        case True
        have hlen': "length (?h[length e := CR]) = length e + 4" using hlen by simp
        show ?thesis
          by (cases "hr_content_length r2 > hc_max_body_bytes c")
             (intro const [OF _ hlen', of VL_ERROR_OUT_OF_MEMORY r2] const [OF _ hlen', of VL_OK "r2\<lparr>hr_body := Some (length e + 4)\<rparr>"]; simp add: eq True)+
      qed
    qed
  qed
qed

section \<open>Receiving in pieces\<close>

definition http_done :: "vl_http_parser \<Rightarrow> bool" where
  "http_done p \<longleftrightarrow> hp_complete p \<or> hp_error p \<noteq> VL_HTTP_ERROR_NONE"

text \<open>What a caller sees of a parser: the error, whether the request is complete, the request and its body.\<close>

definition http_body :: "vl_http_parser \<Rightarrow> string option" where
  "http_body p = (if hp_complete p
     then Some (take (hr_body_length (hp_request p)) (drop (hp_header_end p) (the (hp_buffer p)))) else None)"

definition http_view :: "vl_http_parser \<Rightarrow> vl_http_error \<times> bool \<times> vl_http_request \<times> string option" where
  "http_view p = (hp_error p, hp_complete p, hp_request p, http_body p)"

definition http_fresh :: "vl_http_parser \<Rightarrow> bool" where
  "http_fresh p \<longleftrightarrow> hp_buffer p = Some [] \<and> hp_header_end p = 0 \<and> \<not> http_done p"

lemma feed_done: "http_done p \<Longrightarrow> snd (vl_http_parser_feed p c) = p"
  by (simp add: http_done_def vl_http_parser_feed_def)

lemma feed_head_missing:
  assumes "http_fresh p" "length xs \<le> hp_capacity p" "find_end xs 0 = None"
  shows "vl_http_parser_feed p xs =
    (if length xs > hc_max_header_bytes (hp_config p)
     then (VL_HTTP_PARSE_ERROR, p\<lparr>hp_buffer := Some xs, hp_error := VL_HTTP_ERROR_HEADER_TOO_LARGE\<rparr>)
     else (VL_HTTP_PARSE_NEED_MORE, p\<lparr>hp_buffer := Some xs\<rparr>))"
  using assms by (simp add: http_fresh_def http_done_def vl_http_parser_feed_def header_end_find vl_http_set_error_def)

text \<open>Once the whole head is there, the outcome is decided by the head, except for the wait for the body.\<close>

lemma feed_head:
  assumes "http_fresh p"
  shows "\<exists>h r err. length h = length e + 4 \<and> (\<forall>t. length (e @ CR # LF # CR # LF # t) \<le> hp_capacity p \<longrightarrow>
      find_end (e @ CR # LF # CR # LF # t) 0 = Some (length e + 4) \<longrightarrow>
      vl_http_parser_feed p (e @ CR # LF # CR # LF # t) =
       (case err of
          Some x \<Rightarrow> (VL_HTTP_PARSE_ERROR, p\<lparr>hp_buffer := Some (h @ t), hp_header_end := length e + 4, hp_request := r, hp_error := x\<rparr>)
        | None \<Rightarrow> feed_body (p\<lparr>hp_buffer := Some (h @ t), hp_header_end := length e + 4, hp_request := r\<rparr>) (h @ t)))
      \<and> err \<noteq> Some VL_HTTP_ERROR_NONE"
proof -
  let ?b = "\<lambda>t. e @ CR # LF # CR # LF # t"
  have old: "hp_buffer p = Some []" "\<not> hp_complete p" "hp_error p = VL_HTTP_ERROR_NONE" "hp_header_end p = 0"
    using assms by (simp_all add: http_fresh_def http_done_def)
  show ?thesis
  proof (cases "length e + 4 > hc_max_header_bytes (hp_config p)")
    case True
    then have "vl_http_parser_feed p (?b t) = (VL_HTTP_PARSE_ERROR,
        p\<lparr>hp_buffer := Some (?b [] @ t), hp_header_end := length e + 4, hp_request := hp_request p, hp_error := VL_HTTP_ERROR_HEADER_TOO_LARGE\<rparr>)"
      if "length (?b t) \<le> hp_capacity p" "find_end (?b t) 0 = Some (length e + 4)" for t
      using old that by (simp add: vl_http_parser_feed_def header_end_find vl_http_set_error_def)
    then show ?thesis
      by (intro exI [of _ "?b []"] exI [of _ "hp_request p"] exI [of _ "Some VL_HTTP_ERROR_HEADER_TOO_LARGE"]) simp
  next
    case False
    obtain st h r where h: "length h = length e + 4" "\<And>q t. hp_config q = hp_config p \<Longrightarrow> hp_request q = hp_request p \<Longrightarrow>
        hp_header_end q = length e + 4 \<Longrightarrow> hp_buffer q = Some (?b t) \<Longrightarrow>
        vl_http_parse_head q (?b t) = (st, q\<lparr>hp_request := r, hp_buffer := Some (h @ t)\<rparr>)"
      using parse_head_app [of e "hp_config p" "hp_request p"] by blast
    let ?x = "if hr_content_length r > hc_max_body_bytes (hp_config p) then VL_HTTP_ERROR_PAYLOAD_TOO_LARGE else VL_HTTP_ERROR_BAD_REQUEST"
    have "vl_http_parser_feed p (?b t) =
        (if st \<noteq> VL_OK then (VL_HTTP_PARSE_ERROR, p\<lparr>hp_buffer := Some (h @ t), hp_header_end := length e + 4, hp_request := r, hp_error := ?x\<rparr>)
         else feed_body (p\<lparr>hp_buffer := Some (h @ t), hp_header_end := length e + 4, hp_request := r\<rparr>) (h @ t))"
      if t: "length (?b t) \<le> hp_capacity p" "find_end (?b t) 0 = Some (length e + 4)" for t
    proof -
      let ?q = "p\<lparr>hp_buffer := Some (?b t), hp_header_end := length e + 4\<rparr>"
      have "vl_http_parse_head ?q (?b t) = (st, ?q\<lparr>hp_request := r, hp_buffer := Some (h @ t)\<rparr>)" by (rule h(2)) simp_all
      moreover have "length (?b t) = length (h @ t)" using h(1) by simp
      ultimately show ?thesis
        using old False t h(1) by (simp add: vl_http_parser_feed_def header_end_find vl_http_set_error_def feed_body_def)
    qed
    then show ?thesis
      using h(1) by (intro exI [of _ h] exI [of _ r] exI [of _ "if st \<noteq> VL_OK then Some ?x else None"]) simp
  qed
qed

lemma feed_more:
  assumes p: "http_fresh p" and len: "length (xs @ c) \<le> hp_capacity p" and q: "q = snd (vl_http_parser_feed p xs)"
  shows "(http_done q \<longrightarrow> http_view (snd (vl_http_parser_feed p (xs @ c))) = http_view q)
    \<and> (\<not> http_done q \<longrightarrow> vl_http_parser_feed q c = vl_http_parser_feed p (xs @ c))
    \<and> (\<not> http_done q \<longrightarrow> (\<exists>b. hp_buffer q = Some b \<and> length b = length xs) \<and> hp_capacity q = hp_capacity p)"
proof (cases "find_end xs 0")
  case None
  have q': "q = (if length xs > hc_max_header_bytes (hp_config p)
      then p\<lparr>hp_buffer := Some xs, hp_error := VL_HTTP_ERROR_HEADER_TOO_LARGE\<rparr> else p\<lparr>hp_buffer := Some xs\<rparr>)"
    using feed_head_missing [OF p _ None] len q by simp
  show ?thesis
  proof (cases "length xs > hc_max_header_bytes (hp_config p)")
    case True
    have "hp_error (snd (vl_http_parser_feed p (xs @ c))) = VL_HTTP_ERROR_HEADER_TOO_LARGE
        \<and> hp_complete (snd (vl_http_parser_feed p (xs @ c))) = False \<and> hp_request (snd (vl_http_parser_feed p (xs @ c))) = hp_request p"
    proof (cases "find_end (xs @ c) 0")
      case None
      then show ?thesis using feed_head_missing [OF p len None] True p by (simp add: http_fresh_def http_done_def)
    next
      case (Some he)
      then have "he > hc_max_header_bytes (hp_config p)" using find_end_late [OF None Some] True by simp
      then show ?thesis
        using p len Some by (simp add: http_fresh_def http_done_def vl_http_parser_feed_def header_end_find vl_http_set_error_def)
    qed
    then show ?thesis using q' True p by (simp add: http_view_def http_body_def http_done_def http_fresh_def)
  next
    case False
    then have "vl_http_parser_feed q c = vl_http_parser_feed p (xs @ c)"
      using q' p len by (simp add: vl_http_parser_feed_def http_fresh_def http_done_def less_diff_conv2 Let_def add.commute not_less)
    then show ?thesis using q' False p by (simp add: http_done_def http_fresh_def)
  qed
next
  case (Some he)
  obtain e t where xs: "xs = e @ CR # LF # CR # LF # t" "he = length e + 4" using find_end_some [OF Some] by auto
  have more: "xs @ c = e @ CR # LF # CR # LF # (t @ c)" "find_end (xs @ c) 0 = Some he" using xs find_end_extend [OF Some] by simp_all
  obtain h r err where h: "length h = length e + 4" "err \<noteq> Some VL_HTTP_ERROR_NONE" and feed:
      "\<And>t. length (e @ CR # LF # CR # LF # t) \<le> hp_capacity p \<Longrightarrow> find_end (e @ CR # LF # CR # LF # t) 0 = Some (length e + 4) \<Longrightarrow>
       vl_http_parser_feed p (e @ CR # LF # CR # LF # t) = (case err of
          Some x \<Rightarrow> (VL_HTTP_PARSE_ERROR, p\<lparr>hp_buffer := Some (h @ t), hp_header_end := length e + 4, hp_request := r, hp_error := x\<rparr>)
        | None \<Rightarrow> feed_body (p\<lparr>hp_buffer := Some (h @ t), hp_header_end := length e + 4, hp_request := r\<rparr>) (h @ t))"
    using feed_head [OF p, of e] by blast
  note one = feed [of t, folded xs(1)] and two = feed [of "t @ c", folded more(1)]
  have le: "length xs \<le> hp_capacity p" using len by simp
  show ?thesis
  proof (cases err)
    case (Some x)
    then show ?thesis
      using one [OF le] two [OF len] \<open>find_end xs 0 = Some he\<close> more(2) xs(2) h(2) q p
      by (simp add: http_view_def http_body_def http_done_def http_fresh_def)
  next
    case None
    let ?P = "\<lambda>u. p\<lparr>hp_buffer := Some (h @ u), hp_header_end := length e + 4, hp_request := r\<rparr>"
    have f: "vl_http_parser_feed p xs = feed_body (?P t) (h @ t)" "vl_http_parser_feed p (xs @ c) = feed_body (?P (t @ c)) (h @ t @ c)"
      using None one [OF le] two [OF len] \<open>find_end xs 0 = Some he\<close> more(2) xs(2) by simp_all
    have fresh: "hp_error p = VL_HTTP_ERROR_NONE" "\<not> hp_complete p" using p by (simp_all add: http_fresh_def http_done_def)
    show ?thesis
    proof (cases "length t < hr_content_length r")
      case True
      then have qP: "q = ?P t" using q f(1) h(1) by (simp add: feed_body_def)
      have "length c \<le> hp_capacity p - length (h @ t)" using len xs(1) h(1) by simp
      then have "vl_http_parser_feed q c = feed_body ((?P t)\<lparr>hp_buffer := Some (h @ t @ c)\<rparr>) (h @ t @ c)"
        unfolding qP using fresh by (simp add: vl_http_parser_feed_def Let_def)
      moreover have "(?P t)\<lparr>hp_buffer := Some (h @ t @ c)\<rparr> = ?P (t @ c)" by simp
      ultimately have "vl_http_parser_feed q c = feed_body (?P (t @ c)) (h @ t @ c)" by (simp only:)
      then show ?thesis using f(2) qP fresh h(1) xs(1) by (simp add: http_done_def)
    next
      case False
      then show ?thesis using q f h(1) by (simp add: feed_body_def http_view_def http_body_def http_done_def)
    qed
  qed
qed

fun feeds :: "vl_http_parser \<Rightarrow> string list \<Rightarrow> vl_http_parser" where
  "feeds p [] = p"
| "feeds p (c # cs) = feeds (snd (vl_http_parser_feed p c)) cs"

lemma feeds_snoc: "feeds p (cs @ [c]) = snd (vl_http_parser_feed (feeds p cs) c)"
  by (induction cs arbitrary: p) simp_all

lemma feed_nothing: "http_fresh p \<Longrightarrow> snd (vl_http_parser_feed p []) = p"
  by (simp add: http_fresh_def http_done_def vl_http_parser_feed_def vl_http_find_header_end_def)

lemma feeds_view:
  assumes "http_fresh p" "length (concat cs) \<le> hp_capacity p"
  shows "http_view (feeds p cs) = http_view (snd (vl_http_parser_feed p (concat cs)))
    \<and> (\<not> http_done (feeds p cs) \<longrightarrow> feeds p cs = snd (vl_http_parser_feed p (concat cs)))"
  using assms(2)
proof (induction cs rule: rev_induct)
  case Nil
  then show ?case using feed_nothing [OF assms(1)] by simp
next
  case (snoc c cs)
  let ?q = "snd (vl_http_parser_feed p (concat cs))"
  have IH: "http_view (feeds p cs) = http_view ?q" "\<not> http_done (feeds p cs) \<longrightarrow> feeds p cs = ?q" using snoc by simp_all
  have dn: "http_done (feeds p cs) = http_done ?q" using IH(1) by (simp add: http_view_def http_done_def)
  have more: "http_done ?q \<longrightarrow> http_view (snd (vl_http_parser_feed p (concat cs @ c))) = http_view ?q"
      "\<not> http_done ?q \<longrightarrow> vl_http_parser_feed ?q c = vl_http_parser_feed p (concat cs @ c)"
    using feed_more [OF assms(1) _ refl, of "concat cs" c] snoc.prems by simp_all
  show ?case
  proof (cases "http_done ?q")
    case True
    then have "feeds p (cs @ [c]) = feeds p cs" using feed_done dn by (simp add: feeds_snoc)
    then show ?thesis using True dn IH(1) more(1) by simp
  next
    case False
    then show ?thesis using dn IH(2) more(2) by (simp add: feeds_snoc)
  qed
qed

text \<open>When the input no longer fits into the buffer, an unfinished request is rejected.\<close>

lemma feed_full:
  assumes "\<not> http_done q" "hp_buffer q = Some b" "length b \<le> hp_capacity q" "hp_capacity q < length b + length c"
  shows "snd (vl_http_parser_feed q c) = q\<lparr>hp_error := VL_HTTP_ERROR_PAYLOAD_TOO_LARGE\<rparr>"
  using assms by (simp add: vl_http_parser_feed_def http_done_def vl_http_set_error_def less_diff_conv2)

lemma feeds_done: "http_done p \<Longrightarrow> feeds p cs = p"
  by (induction cs) (simp_all add: feed_done)

lemma feeds_append: "feeds p (cs @ ds) = feeds (feeds p cs) ds"
  by (induction cs arbitrary: p) simp_all

lemma feeds_full:
  assumes p: "http_fresh p" and fit: "length (concat cs) \<le> hp_capacity p" and full: "hp_capacity p < length (concat cs) + length c"
  defines "q \<equiv> snd (vl_http_parser_feed p (concat cs))"
  shows "http_view (feeds p (cs @ c # ds)) =
    (if http_done q then http_view q else (VL_HTTP_ERROR_PAYLOAD_TOO_LARGE, False, hp_request q, None))"
proof -
  have v: "http_view (feeds p cs) = http_view q" "\<not> http_done (feeds p cs) \<Longrightarrow> feeds p cs = q"
    using feeds_view [OF p fit] unfolding q_def by blast+
  have dn: "http_done (feeds p cs) = http_done q" using v(1) by (simp add: http_view_def http_done_def)
  show ?thesis
  proof (cases "http_done q")
    case True
    then have "feeds p (cs @ c # ds) = feeds p cs" unfolding feeds_append by (intro feeds_done) (simp only: dn)
    then show ?thesis using True v(1) by (simp only: if_True)
  next
    case False
    then have eq: "feeds p cs = q" using v(2) dn by blast
    obtain b where b: "hp_buffer q = Some b" "length b = length (concat cs)" "hp_capacity q = hp_capacity p"
      using feed_more [OF p _ q_def [THEN meta_eq_to_obj_eq], of "[]"] fit False by auto
    let ?q = "q\<lparr>hp_error := VL_HTTP_ERROR_PAYLOAD_TOO_LARGE\<rparr>"
    have "snd (vl_http_parser_feed q c) = ?q" by (rule feed_full [OF False b(1)]) (use b(2,3) fit full in simp_all)
    moreover have "feeds ?q ds = ?q" by (rule feeds_done) (simp add: http_done_def)
    ultimately have "feeds p (cs @ c # ds) = ?q" by (simp only: feeds_append feeds.simps eq)
    then show ?thesis using False by (simp add: http_view_def http_body_def http_done_def)
  qed
qed

section \<open>What is accepted\<close>

definition header_ok :: "vl_http_header \<Rightarrow> bool" where
  "header_ok h \<longleftrightarrow> 0 < length (hh_name h) \<and> length (hh_name h) < VL_HTTP_MAX_HEADER_NAME
     \<and> 0 < length (hh_value h) \<and> length (hh_value h) < VL_HTTP_MAX_HEADER_VALUE"

definition headers_ok :: "vl_http_request \<Rightarrow> bool" where
  "headers_ok r \<longleftrightarrow> length (hr_headers r) \<le> VL_HTTP_MAX_HEADERS \<and> list_all header_ok (hr_headers r)"

definition request_line_ok :: "vl_http_request \<Rightarrow> bool" where
  "request_line_ok r \<longleftrightarrow> hr_method r \<in> {''GET'', ''POST'', ''HEAD''} \<and> length (hr_method r) < VL_HTTP_MAX_METHOD
     \<and> hr_path r \<noteq> [] \<and> hd (hr_path r) = CHR ''/'' \<and> length (hr_path r) < VL_HTTP_MAX_PATH
     \<and> hr_http_major r = 1 \<and> hr_http_minor r \<le> 1"

definition parser_ok :: "vl_http_parser \<Rightarrow> bool" where
  "parser_ok p \<longleftrightarrow> hp_capacity p < 2 ^ 17 \<and> hc_max_body_bytes (hp_config p) \<le> VL_HTTP_DEFAULT_MAX_BODY_BYTES
     \<and> headers_ok (hp_request p) \<and> (\<forall>b. hp_buffer p = Some b \<longrightarrow> length b \<le> hp_capacity p)
     \<and> (hp_error p = VL_HTTP_ERROR_NONE \<and> hp_header_end p \<noteq> 0 \<longrightarrow> request_line_ok (hp_request p)
         \<and> hp_header_end p \<le> hc_max_header_bytes (hp_config p) \<and> hr_body (hp_request p) = Some (hp_header_end p)
         \<and> hr_content_length (hp_request p) \<le> hc_max_body_bytes (hp_config p))
     \<and> (hp_complete p \<longrightarrow> hp_error p = VL_HTTP_ERROR_NONE \<and> hp_header_end p \<noteq> 0
         \<and> hr_body_length (hp_request p) = hr_content_length (hp_request p)
         \<and> (\<exists>b. hp_buffer p = Some b \<and> hp_header_end p + hr_body_length (hp_request p) \<le> length b))"

lemma parse_header_line_ok: "parse_header_line line = Some h \<Longrightarrow> header_ok h"
  by (auto simp: parse_header_line_def header_ok_def vl_http_token_copy_def split: option.splits if_splits)

lemma request_line_ok_cong [simp]:
  "request_line_ok (r\<lparr>hr_content_length := n\<rparr>) = request_line_ok r" "request_line_ok (r\<lparr>hr_keep_alive := b\<rparr>) = request_line_ok r"
  "request_line_ok (r\<lparr>hr_headers := hs\<rparr>) = request_line_ok r" "request_line_ok (r\<lparr>hr_body := b'\<rparr>) = request_line_ok r"
  "request_line_ok (r\<lparr>hr_body_length := n\<rparr>) = request_line_ok r"
  by (simp_all add: request_line_ok_def)

lemma apply_header_cases:
  assumes "apply_header saw h r = Some (saw', r')"
  shows "r' = r \<or> (\<exists>n. r' = r\<lparr>hr_content_length := n\<rparr>) \<or> (\<exists>b. r' = r\<lparr>hr_keep_alive := b\<rparr>)"
proof -
  define a b c d where "a = vl_http_equals_ci (hh_name h) ''Content-Length''" "b = vl_http_equals_ci (hh_name h) ''Connection''"
    "c = vl_http_equals_ci (hh_value h) ''close''" "d = vl_http_equals_ci (hh_value h) ''keep-alive''"
  then show ?thesis
    using assms unfolding apply_header_def by (simp only: flip: a_b_c_d_def) (auto split: if_splits)
qed

lemma apply_header_same:
  "apply_header saw h r = Some (saw', r') \<Longrightarrow>
   hr_headers r' = hr_headers r \<and> request_line_ok r' = request_line_ok r \<and> hr_body r' = hr_body r"
  by (drule apply_header_cases) auto

lemma parse_headers_ok:
  assumes "vl_http_parse_headers saw cursor r = (st, rest, r')" "headers_ok r"
  shows "headers_ok r' \<and> request_line_ok r' = request_line_ok r \<and> length rest = length cursor"
  using assms
proof (induction saw cursor r arbitrary: st rest r' rule: vl_http_parse_headers.induct)
  case (1 saw cursor r)
  show ?case
  proof (cases "strstr_crlf cursor")
    case None
    then show ?thesis using "1.prems" by (subst (asm) vl_http_parse_headers.simps) auto
  next
    case (Some n)
    consider "n = 0 \<or> length (hr_headers r) \<ge> VL_HTTP_MAX_HEADERS \<or> parse_header_line (take n cursor) = None"
      | h where "n \<noteq> 0" "\<not> length (hr_headers r) \<ge> VL_HTTP_MAX_HEADERS" "parse_header_line (take n cursor) = Some h" by fastforce
    then show ?thesis
    proof cases
      case 1
      then show ?thesis using "1.prems" Some by (subst (asm) vl_http_parse_headers.simps) (auto split: if_splits)
    next
      case (2 h)
      let ?r1 = "r\<lparr>hr_headers := hr_headers r @ [h]\<rparr>"
      have ok1: "headers_ok ?r1" "request_line_ok ?r1 = request_line_ok r"
        using 2 "1.prems"(2) parse_header_line_ok [OF 2(3)] by (simp_all add: headers_ok_def)
      show ?thesis
      proof (cases "apply_header saw h ?r1")
        case None
        then show ?thesis using "1.prems"(1) 2 Some ok1 by (subst (asm) vl_http_parse_headers.simps) auto
      next
        case (Some a)
        obtain saw' r2 where a: "a = (saw', r2)" by (cases a)
        have same: "hr_headers r2 = hr_headers ?r1" "request_line_ok r2 = request_line_ok ?r1"
          using apply_header_same [of saw h ?r1] Some a by simp_all
        obtain st' rest' r3 where rec: "vl_http_parse_headers saw' (drop (n + 2) cursor) r2 = (st', rest', r3)" by (metis prod_cases3)
        have IH: "headers_ok r3 \<and> request_line_ok r3 = request_line_ok r2 \<and> length rest' = length (drop (n + 2) cursor)"
          by (rule "1.IH" [OF \<open>strstr_crlf cursor = Some n\<close> 2(1,2) refl 2(3) refl Some a [symmetric] rec])
             (use ok1 same in \<open>simp_all add: headers_ok_def\<close>)
        have "n + 1 < length cursor" using strstr_bound [OF \<open>strstr_crlf cursor = Some n\<close>] .
        then show ?thesis
          using "1.prems"(1) 2 \<open>strstr_crlf cursor = Some n\<close> Some a rec IH ok1(2) same(2)
          by (subst (asm) vl_http_parse_headers.simps) auto
      qed
    qed
  qed
qed

lemma minor_digits: "(if x = CHR ''0'' \<or> x = CHR ''1'' then of_char x - 48 else 0) \<le> (1::nat)"
  by (simp add: of_char_def)

lemma request_line_accepts:
  assumes "vl_http_parse_request_line c line r = (st, line', r')"
  shows "hr_headers r' = hr_headers r \<and> (st = VL_OK \<longrightarrow> request_line_ok r')"
proof (cases "st = VL_OK")
  case True
  obtain s1 s2 where 1: "strchr line (CHR '' '') = Some s1" "strchr (drop (s1 + 1) line) (CHR '' '') = Some s2"
    using assms True by (auto simp: vl_http_parse_request_line_def Let_def split: option.splits if_splits)
  let ?m = "take s1 line" and ?p = "take s2 (drop (s1 + 1) line)" and ?v = "drop (s2 + 1) (drop (s1 + 1) line)"
  have 2: "byte_at ?v 7 = CHR ''0'' \<or> byte_at ?v 7 = CHR ''1''" "?m = ''GET'' \<or> ?m = ''POST'' \<or> ?m = ''HEAD''" "byte_at ?p 0 = CHR ''/''"
    using assms True 1 by (simp_all add: vl_http_parse_request_line_def Let_def split: option.splits if_splits)
  have 3: "vl_http_token_copy VL_HTTP_MAX_METHOD ?m = Some ?m" "vl_http_token_copy VL_HTTP_MAX_PATH ?p = Some ?p"
      "r' = r\<lparr>hr_method := ?m, hr_path := ?p, hr_http_major := 1, hr_http_minor := of_char (byte_at ?v 7) - 48,
           hr_keep_alive := (of_char (byte_at ?v 7) - 48 = (1::nat))\<rparr>"
    using assms True 1 2 by (auto simp: vl_http_parse_request_line_def Let_def vl_http_token_copy_def split: option.splits if_splits)
  have "of_char (byte_at ?v 7) - 48 \<le> (1::nat)" using 2(1) minor_digits [of "byte_at ?v 7"] by simp
  moreover have "?p \<noteq> [] \<and> hd ?p = CHR ''/''" using 2(3) by (auto simp: byte_at_def hd_conv_nth split: if_splits)
  moreover have "length ?m < VL_HTTP_MAX_METHOD" "length ?p < VL_HTTP_MAX_PATH" using 3(1,2) by (auto simp: vl_http_token_copy_def split: if_splits)
  ultimately show ?thesis unfolding 3(3) request_line_ok_def using 2(2) by simp
next
  case False
  then show ?thesis using assms by (auto simp: vl_http_parse_request_line_def Let_def split: option.splits if_splits)
qed

lemma headers_ok_cong [simp]:
  "headers_ok (r\<lparr>hr_body := b\<rparr>) = headers_ok r" "headers_ok (r\<lparr>hr_body_length := n\<rparr>) = headers_ok r"
  by (simp_all add: headers_ok_def)

lemma parse_head_ok:
  assumes "vl_http_parse_head p buffer = (st, p')" "headers_ok (hp_request p)" "hp_buffer p = Some buffer"
  shows "headers_ok (hp_request p') \<and> hp_config p' = hp_config p \<and> hp_capacity p' = hp_capacity p \<and> hp_error p' = hp_error p
    \<and> hp_complete p' = hp_complete p \<and> hp_header_end p' = hp_header_end p
    \<and> (\<exists>b. hp_buffer p' = Some b \<and> length b = length buffer)
    \<and> (st = VL_OK \<longrightarrow> request_line_ok (hp_request p') \<and> hr_body (hp_request p') = Some (hp_header_end p)
         \<and> hr_content_length (hp_request p') \<le> hc_max_body_bytes (hp_config p))"
proof (cases "strstr_crlf buffer")
  case None
  then show ?thesis using assms by (auto simp: vl_http_parse_head_def)
next
  case (Some n)
  obtain st1 line r1 where 1: "vl_http_parse_request_line (hp_config p) (take n buffer) (hp_request p) = (st1, line, r1)" by (metis prod_cases3)
  obtain st2 rest r2 where 2: "vl_http_parse_headers False (drop (n + 2) buffer) r1 = (st2, rest, r2)" by (metis prod_cases3)
  have len: "n + 1 < length buffer" "length line = n" using strstr_bound [OF Some] request_line_length [OF 1] by simp_all
  have r1: "headers_ok r1" "st1 = VL_OK \<longrightarrow> request_line_ok r1" using request_line_accepts [OF 1] assms(2) by (simp_all add: headers_ok_def)
  have r2: "headers_ok r2" "request_line_ok r2 = request_line_ok r1" "length rest = length buffer - n - 2"
    using parse_headers_ok [OF 2 r1(1)] by simp_all
  consider "n > hc_max_request_line (hp_config p)" | "\<not> n > hc_max_request_line (hp_config p)" "st1 \<noteq> VL_OK"
    | "\<not> n > hc_max_request_line (hp_config p)" "st1 = VL_OK" by blast
  then show ?thesis
  proof cases
    case 1
    then show ?thesis using assms Some by (auto simp: vl_http_parse_head_def)
  next
    case 2
    then show ?thesis using assms Some \<open>vl_http_parse_request_line _ _ _ = _\<close> len r1(1) by (auto simp: vl_http_parse_head_def)
  next
    case 3
    then show ?thesis
      using assms Some \<open>vl_http_parse_request_line _ _ _ = _\<close> 2 len r1(2) r2
      by (cases "st2 = VL_OK"; cases "hr_content_length r2 > hc_max_body_bytes (hp_config p)") (auto simp: vl_http_parse_head_def Let_def)
  qed
qed

lemma feed_body_ok:
  assumes "parser_ok p" "hp_buffer p = Some b" "length b = length buffer" "hp_error p = VL_HTTP_ERROR_NONE" "hp_header_end p \<noteq> 0"
    "hp_header_end p \<le> length buffer" "\<not> hp_complete p"
  shows "parser_ok (snd (feed_body p buffer))"
  using assms by (auto simp: parser_ok_def feed_body_def)

lemma init_ok: "parser_ok (vl_http_parser_init malloc_ok config)"
  by (auto simp: vl_http_parser_init_def http_clamp_def parser_ok_def headers_ok_def vl_http_request_zero_def http_limits
      vl_http_config_default_def Let_def split: option.split)

text \<open>The offset of the body never exceeds what has been received.\<close>

definition parser_inv :: "vl_http_parser \<Rightarrow> bool" where
  "parser_inv p \<longleftrightarrow> parser_ok p \<and> (\<forall>b. hp_buffer p = Some b \<and> hp_error p = VL_HTTP_ERROR_NONE \<longrightarrow> hp_header_end p \<le> length b)"

lemma init_inv: "parser_inv (vl_http_parser_init malloc_ok config)"
  using init_ok [of malloc_ok config] by (simp add: parser_inv_def vl_http_parser_init_def Let_def)

lemma feed_inv:
  assumes "parser_inv p"
  shows "parser_inv (snd (vl_http_parser_feed p data))"
proof -
  have ok: "parser_ok p" using assms by (simp add: parser_inv_def)
  consider "http_done p" | "\<not> http_done p" "hp_buffer p = None" | old where "\<not> http_done p" "hp_buffer p = Some old" "length data > hp_capacity p - length old"
    | old where "\<not> http_done p" "hp_buffer p = Some old" "\<not> length data > hp_capacity p - length old" by fastforce
  then show ?thesis
  proof cases
    case 1
    then show ?thesis using feed_done assms by simp
  next
    case 2
    then show ?thesis using ok by (simp add: vl_http_parser_feed_def http_done_def vl_http_set_error_def parser_inv_def parser_ok_def)
  next
    case 3
    then show ?thesis using ok by (simp add: vl_http_parser_feed_def http_done_def vl_http_set_error_def parser_inv_def parser_ok_def)
  next
    case (4 old)
    let ?b = "old @ data"
    let ?p1 = "p\<lparr>hp_buffer := Some ?b\<rparr>"
    have nd: "\<not> hp_complete p" "hp_error p = VL_HTTP_ERROR_NONE" using 4(1) by (simp_all add: http_done_def)
    have len: "length ?b \<le> hp_capacity p" using 4 ok by (auto simp: parser_ok_def)
    have ok1: "parser_ok ?p1" using ok len nd by (auto simp: parser_ok_def)
    show ?thesis
    proof (cases "hp_header_end p = 0")
      case False
      then have eq: "snd (vl_http_parser_feed p data) = snd (feed_body ?p1 ?b)" using 4 nd by (simp add: vl_http_parser_feed_def Let_def)
      have he: "hp_header_end p \<le> length ?b" using assms 4(2) nd by (fastforce simp: parser_inv_def)
      then have "parser_ok (snd (feed_body ?p1 ?b))" using feed_body_ok [OF ok1, of ?b ?b] False nd by simp
      then show ?thesis unfolding eq parser_inv_def using he by (auto simp: feed_body_def)
    next
      case True
      show ?thesis
      proof (cases "vl_http_find_header_end ?b")
        case None
        then show ?thesis using 4 nd True ok1 by (auto simp: vl_http_parser_feed_def Let_def vl_http_set_error_def parser_inv_def parser_ok_def)
      next
        case (Some he)
        let ?p2 = "?p1\<lparr>hp_header_end := he\<rparr>"
        obtain e t where "?b = e @ CR # LF # CR # LF # t" "he = 0 + length e + 4"
          using find_end_some [of ?b 0 he] Some by (auto simp: header_end_find)
        then have he: "he \<noteq> 0" "he \<le> length ?b" by simp_all
        obtain st p3 where h: "vl_http_parse_head ?p2 ?b = (st, p3)" by fastforce
        have "headers_ok (hp_request ?p2)" using ok by (simp add: parser_ok_def)
        from parse_head_ok [OF h this] obtain b3 where p3: "headers_ok (hp_request p3)" "hp_config p3 = hp_config p" "hp_capacity p3 = hp_capacity p"
          "hp_error p3 = VL_HTTP_ERROR_NONE" "\<not> hp_complete p3" "hp_header_end p3 = he" "hp_buffer p3 = Some b3" "length b3 = length ?b"
          "st = VL_OK \<longrightarrow> request_line_ok (hp_request p3) \<and> hr_body (hp_request p3) = Some he
             \<and> hr_content_length (hp_request p3) \<le> hc_max_body_bytes (hp_config p)" using nd by auto
        have base: "hp_capacity p < 2 ^ 17" "hc_max_body_bytes (hp_config p) \<le> VL_HTTP_DEFAULT_MAX_BODY_BYTES" using ok by (simp_all add: parser_ok_def)
        have feed: "snd (vl_http_parser_feed p data) = (if he > hc_max_header_bytes (hp_config p) then vl_http_set_error ?p2 VL_HTTP_ERROR_HEADER_TOO_LARGE
            else if st \<noteq> VL_OK then vl_http_set_error p3 (if hr_content_length (hp_request p3) > hc_max_body_bytes (hp_config p3)
               then VL_HTTP_ERROR_PAYLOAD_TOO_LARGE else VL_HTTP_ERROR_BAD_REQUEST) else snd (feed_body p3 ?b))"
          using 4 nd True Some h by (simp add: vl_http_parser_feed_def Let_def)
        consider "he > hc_max_header_bytes (hp_config p)" | "\<not> he > hc_max_header_bytes (hp_config p)" "st \<noteq> VL_OK"
          | "\<not> he > hc_max_header_bytes (hp_config p)" "st = VL_OK" by blast
        then show ?thesis
        proof cases
          case 1
          then show ?thesis using ok len nd base feed by (auto simp: parser_inv_def parser_ok_def vl_http_set_error_def)
        next
          case 2
          then show ?thesis using p3 len base feed by (auto simp: parser_inv_def parser_ok_def vl_http_set_error_def)
        next
          case 3
          have "parser_ok p3" using p3 3 len base by (simp add: parser_ok_def)
          then have "parser_ok (snd (feed_body p3 ?b))" using feed_body_ok [of p3 b3 ?b] p3 he by simp
          then show ?thesis using feed 3 p3 he by (auto simp: parser_inv_def feed_body_def)
        qed
      qed
    qed
  qed
qed

lemma feeds_inv: "parser_inv p \<Longrightarrow> parser_inv (feeds p cs)"
  by (induction cs arbitrary: p) (simp_all add: feed_inv)

end
