(* ===== verification/Http.thy ===== *)
theory Http
  imports Http_Facts
begin

text \<open>
  What the request parser guarantees: a request that is written out and received comes back as it
  was, however it is cut into pieces; nothing is accepted or stored beyond the limits; and what the
  parser makes of a content length.
\<close>

section \<open>Writing a request\<close>

definition render_header :: "string \<times> string \<Rightarrow> string" where
  "render_header h = fst h @ '': '' @ snd h @ [CR, LF]"

definition render_line :: "string \<Rightarrow> string \<Rightarrow> nat \<Rightarrow> string" where
  "render_line meth path minor = meth @ CHR '' '' # path @ CHR '' '' # ''HTTP/1.'' @ decimal minor"

definition render :: "string \<Rightarrow> string \<Rightarrow> nat \<Rightarrow> (string \<times> string) list \<Rightarrow> string" where
  "render meth path minor hs = render_line meth path minor @ [CR, LF] @ concat (map render_header hs) @ [CR, LF]"

text \<open>Headers that survive: their name has no colon, neither part begins or ends with white space, no
  control characters that end a line or a string, and both fit.\<close>

definition plain :: "string \<Rightarrow> bool" where
  "plain s \<longleftrightarrow> NUL \<notin> set s \<and> CR \<notin> set s \<and> LF \<notin> set s"

definition header_plain :: "string \<times> string \<Rightarrow> bool" where
  "header_plain h \<longleftrightarrow> plain (fst h) \<and> plain (snd h) \<and> CHR '':'' \<notin> set (fst h)
     \<and> fst h \<noteq> [] \<and> snd h \<noteq> [] \<and> length (fst h) < VL_HTTP_MAX_HEADER_NAME \<and> length (snd h) < VL_HTTP_MAX_HEADER_VALUE
     \<and> \<not> isspace (hd (fst h)) \<and> \<not> isspace (last (fst h)) \<and> \<not> isspace (hd (snd h)) \<and> \<not> isspace (last (snd h))"

definition header_ordinary :: "string \<times> string \<Rightarrow> bool" where
  "header_ordinary h \<longleftrightarrow> \<not> vl_http_equals_ci (fst h) ''Content-Length'' \<and> \<not> vl_http_equals_ci (fst h) ''Connection''"

definition to_header :: "string \<times> string \<Rightarrow> vl_http_header" where
  "to_header h = \<lparr>hh_name = fst h, hh_value = snd h\<rparr>"

section \<open>Numbers\<close>

lemma decimal_digits: "d \<in> set (decimal n) \<Longrightarrow> isdigit d"
proof (induction n rule: decimal.induct)
  case (1 n)
  have "isdigit (char_of (48 + k))" if "k < 10" for k :: nat using that by (simp add: isdigit_def)
  then show ?case using 1 by (subst (asm) decimal.simps) (auto split: if_splits)
qed

lemma decimal_nonempty [simp]: "decimal n \<noteq> []"
  by (subst decimal.simps) simp

lemma digits_value_snoc: "digits_value (ds @ [d]) = 10 * digits_value ds + (of_char d - 48)"
  by (simp add: digits_value_def)

lemma digits_value_decimal: "digits_value (decimal n) = n"
proof (induction n rule: decimal.induct)
  case (1 n)
  have "n mod 10 < 10" by simp
  then have "(48 + n mod 10) mod 256 - 48 = n mod 10" by simp
  then show ?case using 1 by (subst decimal.simps) (simp add: digits_value_snoc, simp add: digits_value_def)
qed

lemma decimal_length: "0 < k \<Longrightarrow> n < 10 ^ k \<Longrightarrow> length (decimal n) \<le> k"
proof (induction k arbitrary: n)
  case (Suc k)
  show ?case
  proof (cases "n < 10")
    case True
    then show ?thesis by (subst decimal.simps) simp
  next
    case False
    then have "n div 10 < 10 ^ k" "k \<noteq> 0" using Suc.prems(2) by (auto simp: less_mult_imp_div_less mult.commute intro: gr0I)
    then show ?thesis using Suc.IH [of "n div 10"] False by (subst decimal.simps) simp
  qed
qed simp

lemma digit_char: "isdigit c \<Longrightarrow> \<not> isspace c \<and> c \<noteq> CHR ''-'' \<and> c \<noteq> CHR ''+'' \<and> c \<notin> {NUL, CR, LF}"
  by (auto simp: isdigit_def isspace_def of_char_def)

lemma strtoul_decimal:
  assumes "n < 2 ^ 64"
  shows "strtoul (decimal n) = (n, False, [])"
proof -
  obtain d ds where d: "decimal n = d # ds" by (cases "decimal n") simp_all
  have all: "isdigit x" if "x \<in> set (d # ds)" for x using that decimal_digits [of x n] d by simp
  then have "takeWhile isdigit (d # ds) = d # ds" by (simp add: takeWhile_eq_all_conv)
  moreover have "\<not> isspace d \<and> d \<noteq> CHR ''-'' \<and> d \<noteq> CHR ''+''" using digit_char [of d] all by simp
  moreover have "digits_value (d # ds) = n" using digits_value_decimal [of n] d by simp
  ultimately show ?thesis using assms unfolding d strtoul_def Let_def by simp
qed

lemma content_length_decimal: "n < 2 ^ 64 \<Longrightarrow> vl_http_parse_content_length (decimal n) = Some n"
  using decimal_nonempty [of n, symmetric] by (simp add: vl_http_parse_content_length_def strtoul_decimal)

section \<open>Reading it back\<close>

lemma strstr_line: "NUL \<notin> set line \<Longrightarrow> CR \<notin> set line \<Longrightarrow> strstr_crlf (line @ CR # LF # u) = Some (length line)"
proof (induction line)
  case (Cons x xs)
  obtain y ys where "xs @ CR # LF # u = y # ys" by (cases "xs @ CR # LF # u") auto
  then show ?case using Cons by auto
qed simp

lemma strchr_found: "c \<notin> set a \<Longrightarrow> NUL \<notin> set a \<Longrightarrow> strchr (a @ c # b) c = Some (length a)"
  by (induction a) auto

lemma find_end_skip: "a \<noteq> CR \<Longrightarrow> find_end (a # xs) i = find_end xs (Suc i)"
  by (cases "(a # xs, i)" rule: find_end.cases) auto

lemma find_end_line: "CR \<notin> set line \<Longrightarrow> find_end (line @ xs) i = find_end xs (i + length line)"
  by (induction line arbitrary: i) (auto simp: find_end_skip)

lemma find_end_crlf: "x \<noteq> CR \<Longrightarrow> find_end (CR # LF # x # xs) i = find_end (x # xs) (i + 2)"
  by (cases xs) (simp_all add: find_end_skip)

lemma trim_plain: "s \<noteq> [] \<Longrightarrow> \<not> isspace (hd s) \<Longrightarrow> \<not> isspace (last s) \<Longrightarrow> vl_http_trim s = s"
proof -
  assume s: "s \<noteq> []" "\<not> isspace (hd s)" "\<not> isspace (last s)"
  then have "dropWhile isspace s = s" by (cases s) simp_all
  moreover have "dropWhile isspace (rev s) = rev s" using s by (cases "rev s") (simp_all add: last_rev [symmetric] hd_rev)
  ultimately show ?thesis by (simp add: vl_http_trim_def)
qed

lemma trim_space: "vl_http_trim (CHR '' '' # s) = vl_http_trim s"
proof -
  have "isspace (CHR '' '')" by (simp add: isspace_def of_char_def)
  then show ?thesis by (simp add: vl_http_trim_def)
qed

lemma line_split: "take (length l) (l @ CR # LF # r) = l" "drop (length l + 2) (l @ CR # LF # r) = r"
  by simp_all

lemma parse_rendered_header:
  assumes "header_plain h"
  shows "parse_header_line (fst h @ '': '' @ snd h) = Some (to_header h)"
proof -
  have "strchr (fst h @ CHR '':'' # CHR '' '' # snd h) (CHR '':'') = Some (length (fst h))"
    using assms by (intro strchr_found) (simp_all add: header_plain_def plain_def)
  then show ?thesis
    using assms by (simp add: parse_header_line_def header_plain_def trim_space trim_plain vl_http_token_copy_def to_header_def)
qed

text \<open>The header loop, when every header can be applied.\<close>

fun apply_headers :: "bool \<Rightarrow> (string \<times> string) list \<Rightarrow> vl_http_request \<Rightarrow> (bool \<times> vl_http_request) option" where
  "apply_headers saw [] r = Some (saw, r)"
| "apply_headers saw (h # hs) r =
     (case apply_header saw (to_header h) (r\<lparr>hr_headers := hr_headers r @ [to_header h]\<rparr>) of
        None \<Rightarrow> None
      | Some (saw', r') \<Rightarrow> apply_headers saw' hs r')"

lemma parse_rendered_headers:
  assumes "list_all header_plain hs" "apply_headers saw hs r = Some (saw', r')" "length (hr_headers r) + length hs \<le> VL_HTTP_MAX_HEADERS"
  shows "\<exists>rest. vl_http_parse_headers saw (concat (map render_header hs) @ CR # LF # u) r = (VL_OK, rest, r')"
  using assms
proof (induction hs arbitrary: saw r)
  case Nil
  then show ?case by (simp add: vl_http_parse_headers.simps)
next
  case (Cons h hs)
  let ?line = "fst h @ '': '' @ snd h"
  let ?rest = "concat (map render_header hs) @ CR # LF # u"
  let ?r1 = "r\<lparr>hr_headers := hr_headers r @ [to_header h]\<rparr>"
  obtain saw1 r1 where a: "apply_header saw (to_header h) ?r1 = Some (saw1, r1)" "apply_headers saw1 hs r1 = Some (saw', r')"
    using Cons.prems(2) by (auto split: option.splits)
  have "hr_headers r1 = hr_headers ?r1" using apply_header_same [OF a(1)] by simp
  then obtain rest where IH: "vl_http_parse_headers saw1 ?rest r1 = (VL_OK, rest, r')"
    using Cons.IH [OF _ a(2)] Cons.prems by auto
  have h: "header_plain h" using Cons.prems by simp
  have eq: "concat (map render_header (h # hs)) @ CR # LF # u = ?line @ CR # LF # ?rest" by (simp add: render_header_def)
  have "strstr_crlf (?line @ CR # LF # ?rest) = Some (length ?line)"
    using h by (intro strstr_line) (simp_all add: header_plain_def plain_def)
  moreover have "take (length ?line) (?line @ CR # LF # ?rest) = ?line" "drop (length ?line + 2) (?line @ CR # LF # ?rest) = ?rest"
    by (rule line_split)+
  moreover have "length ?line \<noteq> 0" "\<not> VL_HTTP_MAX_HEADERS \<le> length (hr_headers r)" using Cons.prems(3) by simp_all
  ultimately show ?case
    unfolding eq using parse_rendered_header [OF h] a(1) IH
    by (subst vl_http_parse_headers.simps) (simp add: Let_def)
qed

lemma parse_rendered_line:
  assumes "meth \<in> {''GET'', ''POST'', ''HEAD''}" "plain path" "CHR '' '' \<notin> set path" "path \<noteq> []" "hd path = CHR ''/''"
    "length path < VL_HTTP_MAX_PATH" "minor \<le> 1" "length (render_line meth path minor) \<le> hc_max_request_line c"
  shows "\<exists>line. vl_http_parse_request_line c (render_line meth path minor) r = (VL_OK, line,
    r\<lparr>hr_method := meth, hr_path := path, hr_http_major := 1, hr_http_minor := minor, hr_keep_alive := (minor = 1)\<rparr>)"
proof -
  let ?on = "path @ CHR '' '' # ''HTTP/1.'' @ decimal minor"
  have m: "strchr (meth @ CHR '' '' # ?on) (CHR '' '') = Some (length meth)"
    using assms(1) by (intro strchr_found) auto
  have p: "strchr ?on (CHR '' '') = Some (length path)" using assms(2,3) by (intro strchr_found) (simp_all add: plain_def)
  have d: "decimal minor = [char_of (48 + minor)]" using assms(7) by (simp add: decimal.simps)
  have v: "byte_at (''HTTP/1.'' @ decimal minor) 7 = char_of (48 + minor)" "byte_at (''HTTP/1.'' @ decimal minor) 8 = NUL"
    by (simp_all add: byte_at_def d)
  have c: "char_of (48 + minor) = CHR ''0'' \<or> char_of (48 + minor) = CHR ''1''"
  proof -
    have "char_of (48::nat) = CHR ''0''" "char_of (49::nat) = CHR ''1''" by code_simp+
    moreover have "48 + minor = 48 \<or> 48 + minor = 49" using assms(7) by linarith
    ultimately show ?thesis by metis
  qed
  have n: "of_char (char_of (48 + minor)) - 48 = minor" using assms(7) by simp
  have tok: "vl_http_token_copy VL_HTTP_MAX_METHOD meth = Some meth" "vl_http_token_copy VL_HTTP_MAX_PATH path = Some path"
    using assms(1,4,6) by (auto simp: vl_http_token_copy_def http_limits)
  have b: "byte_at path 0 = CHR ''/''" using assms(4,5) by (simp add: byte_at_def hd_conv_nth)
  have le: "\<not> length meth > hc_max_request_line c" using assms(8) by (simp add: render_line_def)
  show ?thesis
    using m p v c n tok b le assms(1) unfolding render_line_def vl_http_parse_request_line_def Let_def by (simp add: d)
qed

lemma find_rendered_end:
  assumes "CR \<notin> set line" "list_all header_plain hs"
  shows "find_end (line @ CR # LF # concat (map render_header hs) @ CR # LF # u) i
    = Some (i + length line + 2 + length (concat (map render_header hs)) + 2)"
  using assms
proof (induction hs arbitrary: line i)
  case Nil
  then show ?case by (simp add: find_end_line)
next
  case (Cons h hs)
  let ?line = "fst h @ '': '' @ snd h" and ?rest = "CR # LF # concat (map render_header hs) @ CR # LF # u"
  have h: "fst h \<noteq> []" "CR \<notin> set ?line" using Cons.prems(2) by (simp_all add: header_plain_def plain_def)
  then obtain x xs where x: "?line @ ?rest = x # xs" "x \<noteq> CR" by (cases "fst h") auto
  have "find_end (line @ CR # LF # concat (map render_header (h # hs)) @ CR # LF # u) i = find_end (CR # LF # ?line @ ?rest) (i + length line)"
    using Cons.prems(1) by (simp add: find_end_line render_header_def)
  also have "\<dots> = find_end (?line @ ?rest) (i + length line + 2)" unfolding x(1) by (rule find_end_crlf [OF x(2)])
  also have "\<dots> = Some (i + length line + 2 + length ?line + 2 + length (concat (map render_header hs)) + 2)"
    using Cons.IH [OF h(2), of "i + length line + 2"] Cons.prems(2) by simp
  also have "i + length line + 2 + length ?line + 2 + length (concat (map render_header hs)) + 2
      = i + length line + 2 + length (concat (map render_header (h # hs))) + 2" by (simp add: render_header_def)
  finally show ?case .
qed

lemma apply_ordinary:
  "list_all header_ordinary hs \<Longrightarrow> apply_headers saw hs r = Some (saw, r\<lparr>hr_headers := hr_headers r @ map to_header hs\<rparr>)"
proof (induction hs arbitrary: r)
  case (Cons h hs)
  have "apply_header saw (to_header h) q = Some (saw, q)" for q
    using Cons.prems by (simp add: apply_header_def header_ordinary_def to_header_def)
  then show ?case using Cons by simp
qed simp

lemma apply_headers_append:
  "apply_headers saw (hs @ gs) r = (case apply_headers saw hs r of None \<Rightarrow> None | Some (saw', r') \<Rightarrow> apply_headers saw' gs r')"
  by (induction hs arbitrary: saw r) (auto split: option.splits)

definition length_header :: "string \<Rightarrow> string \<times> string" where
  "length_header body = (''Content-Length'', decimal (length body))"

lemma length_header_plain:
  assumes "length body \<le> VL_HTTP_DEFAULT_MAX_BODY_BYTES"
  shows "header_plain (length_header body)"
proof -
  let ?d = "decimal (length body)"
  have "length ?d \<le> 5" using assms by (intro decimal_length) (simp_all add: http_limits)
  moreover have "hd ?d \<in> set ?d" "last ?d \<in> set ?d" by simp_all
  then have "\<not> isspace (hd ?d)" "\<not> isspace (last ?d)" using decimal_digits digit_char by blast+
  moreover have "plain ?d" using decimal_digits digit_char unfolding plain_def by blast
  moreover have "plain ''Content-Length''" "\<not> isspace (hd ''Content-Length'')" "\<not> isspace (last ''Content-Length'')"
    by (simp_all add: plain_def isspace_def of_char_def)
  ultimately show ?thesis by (simp add: header_plain_def length_header_def http_limits)
qed

lemma apply_length:
  assumes "length body < 2 ^ 64"
  shows "apply_headers False [length_header body] r =
    Some (True, r\<lparr>hr_headers := hr_headers r @ [to_header (length_header body)], hr_content_length := length body\<rparr>)"
proof -
  have "vl_http_equals_ci ''Content-Length'' ''Content-Length''" by code_simp
  then show ?thesis
    using content_length_decimal [OF assms] by (simp add: apply_header_def to_header_def length_header_def)
qed

text \<open>A request that fits: what a client may send.\<close>

definition sendable :: "vl_http_config \<Rightarrow> string \<Rightarrow> string \<Rightarrow> nat \<Rightarrow> (string \<times> string) list \<Rightarrow> string \<Rightarrow> bool" where
  "sendable c meth path minor hs body \<longleftrightarrow> meth \<in> {''GET'', ''POST'', ''HEAD''} \<and> plain path \<and> CHR '' '' \<notin> set path
     \<and> path \<noteq> [] \<and> hd path = CHR ''/'' \<and> length path < VL_HTTP_MAX_PATH \<and> minor \<le> 1
     \<and> length (render_line meth path minor) \<le> hc_max_request_line c
     \<and> list_all header_plain hs \<and> list_all header_ordinary hs \<and> length hs < VL_HTTP_MAX_HEADERS
     \<and> length (render meth path minor (hs @ [length_header body])) \<le> hc_max_header_bytes c
     \<and> length body \<le> hc_max_body_bytes c \<and> hc_max_body_bytes c \<le> VL_HTTP_DEFAULT_MAX_BODY_BYTES"

definition sent_request :: "string \<Rightarrow> string \<Rightarrow> nat \<Rightarrow> (string \<times> string) list \<Rightarrow> string \<Rightarrow> vl_http_request" where
  "sent_request meth path minor hs body =
     \<lparr>hr_method = meth, hr_path = path, hr_http_major = 1, hr_http_minor = minor,
      hr_headers = map to_header (hs @ [length_header body]), hr_content_length = length body, hr_keep_alive = (minor = 1),
      hr_body = Some (length (render meth path minor (hs @ [length_header body]))), hr_body_length = length body\<rparr>"

lemma render_line_plain:
  assumes "meth \<in> {''GET'', ''POST'', ''HEAD''}" "plain path" "minor \<le> 1"
  shows "plain (render_line meth path minor)"
proof -
  have "plain (decimal minor)" using decimal_digits digit_char unfolding plain_def by blast
  then show ?thesis using assms by (auto simp: render_line_def plain_def)
qed

lemma feed_rendered:
  assumes "sendable (hp_config p) meth path minor hs body" "http_fresh p" "hp_request p = vl_http_request_zero"
    "hp_capacity p = hc_max_header_bytes (hp_config p) + hc_max_body_bytes (hp_config p)"
  shows "\<exists>q. vl_http_parser_feed p (render meth path minor (hs @ [length_header body]) @ body) = (VL_HTTP_PARSE_COMPLETE, q)
    \<and> hp_request q = sent_request meth path minor hs body \<and> hp_error q = VL_HTTP_ERROR_NONE \<and> http_body q = Some body"
proof -
  let ?c = "hp_config p" and ?hs = "hs @ [length_header body]" and ?line = "render_line meth path minor"
  let ?head = "render meth path minor ?hs"
  note s = assms(1) [unfolded sendable_def]
  have small: "length body \<le> VL_HTTP_DEFAULT_MAX_BODY_BYTES" using s by linarith
  then have small': "length body < 2 ^ 64" by (simp add: http_limits)
  have ord: "list_all header_ordinary hs" using s by blast
  have plain: "list_all header_plain ?hs" using s length_header_plain [OF small] by simp
  have line: "NUL \<notin> set ?line" "CR \<notin> set ?line" using render_line_plain [of meth path minor] s by (auto simp: plain_def)
  let ?rest = "concat (map render_header ?hs) @ CR # LF # body"
  have buf: "?head @ body = ?line @ CR # LF # ?rest" by (simp add: render_def)
  have head: "find_end (?head @ body) 0 = Some (length ?head)"
    unfolding buf find_rendered_end [OF line(2) plain] by (simp add: render_def)
  let ?r1 = "vl_http_request_zero\<lparr>hr_method := meth, hr_path := path, hr_http_major := 1, hr_http_minor := minor, hr_keep_alive := (minor = 1)\<rparr>"
  obtain l where l: "vl_http_parse_request_line ?c ?line vl_http_request_zero = (VL_OK, l, ?r1)"
    using parse_rendered_line [of meth path minor ?c] s by blast
  let ?r2 = "?r1\<lparr>hr_headers := map to_header ?hs, hr_content_length := length body\<rparr>"
  have "apply_headers False ?hs ?r1 = Some (True, ?r2)"
    unfolding apply_headers_append apply_ordinary [OF ord] option.case prod.case apply_length [OF small']
    by (simp add: vl_http_request_zero_def)
  moreover have "length (hr_headers ?r1) + length ?hs \<le> VL_HTTP_MAX_HEADERS" using s by (simp add: vl_http_request_zero_def)
  ultimately obtain rest where rest: "vl_http_parse_headers False ?rest ?r1 = (VL_OK, rest, ?r2)"
    using parse_rendered_headers [OF plain] by blast
  let ?p2 = "p\<lparr>hp_buffer := Some (?head @ body), hp_header_end := length ?head\<rparr>"
  have "strstr_crlf (?head @ body) = Some (length ?line)" unfolding buf by (rule strstr_line [OF line])
  moreover have "take (length ?line) (?head @ body) = ?line" "drop (length ?line + 2) (?head @ body) = ?rest"
    unfolding buf by (rule line_split)+
  moreover have "\<not> hc_max_request_line ?c < length ?line" "\<not> hc_max_body_bytes ?c < length body" using s by simp_all
  ultimately have ok: "fst (vl_http_parse_head ?p2 (?head @ body)) = VL_OK"
      "hp_request (snd (vl_http_parse_head ?p2 (?head @ body))) = ?r2\<lparr>hr_body := Some (length ?head)\<rparr>"
    using l rest assms(3) by (simp_all add: vl_http_parse_head_def Let_def del: take_append drop_append)
  obtain e t where "?head @ body = (e @ [CR, LF, CR, LF]) @ t" "length ?head = length (e @ [CR, LF, CR, LF])"
    using find_end_some [OF head] by auto
  then have "?head = e @ [CR, LF, CR, LF]" using append_eq_append_conv by blast
  then have e: "?head @ body = e @ CR # LF # CR # LF # body" "length ?head = length e + 4" by simp_all
  obtain st h r where h: "length h = length e + 4" "vl_http_parse_head ?p2 (?head @ body) = (st, ?p2\<lparr>hp_request := r, hp_buffer := Some (h @ body)\<rparr>)"
    using parse_head_app [of e ?c "hp_request p"] e by fastforce
  then have p3: "vl_http_parse_head ?p2 (?head @ body) = (VL_OK, ?p2\<lparr>hp_request := ?r2\<lparr>hr_body := Some (length ?head)\<rparr>, hp_buffer := Some (h @ body)\<rparr>)"
    using ok by simp
  let ?q = "?p2\<lparr>hp_request := sent_request meth path minor hs body, hp_buffer := Some (h @ body), hp_complete := True\<rparr>"
  have "length (?head @ body) \<le> hp_capacity p" "\<not> length ?head > hc_max_header_bytes ?c" using s assms(4) by auto
  moreover have "length ?head \<noteq> 0" by (simp add: render_def)
  ultimately have "vl_http_parser_feed p (?head @ body) = (VL_HTTP_PARSE_COMPLETE, ?q)"
    using head p3 assms(2) by (simp add: vl_http_parser_feed_def header_end_find http_fresh_def http_done_def feed_body_def Let_def
        sent_request_def vl_http_request_zero_def)
  then show ?thesis using h(1) e(2) assms(2) by (simp add: http_body_def sent_request_def http_fresh_def http_done_def)
qed

lemma init_fresh: "http_fresh (vl_http_parser_init True config)"
  by (simp add: vl_http_parser_init_def http_fresh_def http_done_def Let_def)

lemma init_fields:
  "hp_request (vl_http_parser_init True config) = vl_http_request_zero"
  "hp_capacity (vl_http_parser_init True config) =
     hc_max_header_bytes (hp_config (vl_http_parser_init True config)) + hc_max_body_bytes (hp_config (vl_http_parser_init True config))"
  by (simp_all add: vl_http_parser_init_def Let_def)

section \<open>Properties\<close>

text \<open>C24: Receiving a request in pieces makes no difference as long as the input fits into the buffer: the error, the
  completion, the parsed request and the body are then those of feeding all of it at once.  If a piece arrives that does not fit,
  only the pieces before it count: when these, fed at once, finish the request or are rejected, that is the
  outcome, and otherwise the request is rejected as too large.\<close>

theorem http_pieces:
  assumes "length (concat pieces) \<le> hp_capacity (vl_http_parser_init True config)"
  shows "let p = vl_http_parser_init True config; q = snd (vl_http_parser_feed p (concat pieces)) in
    http_view (feeds p pieces) = http_view q
    \<and> (\<forall>piece more. hp_capacity p < length (concat pieces) + length piece \<longrightarrow>
         http_view (feeds p (pieces @ piece # more)) =
           (if http_done q then http_view q else (VL_HTTP_ERROR_PAYLOAD_TOO_LARGE, False, hp_request q, None)))"
  using feeds_view [OF init_fresh assms] feeds_full [OF init_fresh assms] by (simp add: Let_def)

theorem http_pieces_witness:
  "let p = vl_http_parser_init True None in
   http_view (feeds p [''GET'', '' / HTTP'', ''/1.1'']) = http_view (snd (vl_http_parser_feed p (concat [''GET'', '' / HTTP'', ''/1.1''])))
   \<and> hp_error (feeds p ([''GET''] @ replicate 100000 CHR ''x'' # [])) = VL_HTTP_ERROR_PAYLOAD_TOO_LARGE"
proof -
  let ?p = "vl_http_parser_init True None"
  have cap: "hp_capacity ?p < 100000" "14 \<le> hp_capacity ?p" "hc_max_header_bytes (hp_config ?p) \<ge> 3"
    by (simp_all add: vl_http_parser_init_def http_clamp_def vl_http_config_default_def http_limits Let_def)
  have "vl_http_find_header_end ''GET'' = None" by (simp add: vl_http_find_header_end_def)
  then have "\<not> http_done (snd (vl_http_parser_feed ?p (concat [''GET''])))"
    using init_fresh [of None] cap by (simp add: vl_http_parser_feed_def http_fresh_def http_done_def Let_def)
  moreover have "length (concat [''GET'']) \<le> hp_capacity ?p" "length (concat [''GET'', '' / HTTP'', ''/1.1'']) \<le> hp_capacity ?p"
      "hp_capacity ?p < length (concat [''GET'']) + length (replicate 100000 (CHR ''x''))"
    using cap by simp_all
  ultimately show ?thesis
    using http_pieces [of "[''GET'']" None] http_pieces [of "[''GET'', '' / HTTP'', ''/1.1'']" None]
    unfolding Let_def http_view_def by (metis fst_conv)
qed

text \<open>C25: A request that is written out and received comes back as it was: every request within the limits,
  with ordinary headers and its content length, is accepted in whatever pieces it arrives, and method,
  path, version, headers, content length, connection persistence and body are the ones sent.\<close>

theorem http_roundtrip:
  assumes "sendable (hp_config (vl_http_parser_init True config)) meth path minor hs body"
    "concat pieces = render meth path minor (hs @ [length_header body]) @ body"
  shows "http_view (feeds (vl_http_parser_init True config) pieces)
    = (VL_HTTP_ERROR_NONE, True, sent_request meth path minor hs body, Some body)"
proof -
  let ?p = "vl_http_parser_init True config"
  obtain q where q: "vl_http_parser_feed ?p (concat pieces) = (VL_HTTP_PARSE_COMPLETE, q)"
      "hp_request q = sent_request meth path minor hs body" "hp_error q = VL_HTTP_ERROR_NONE" "http_body q = Some body"
    using feed_rendered [OF assms(1) init_fresh init_fields] assms(2) by auto
  have "length (concat pieces) \<le> hp_capacity ?p"
    using assms unfolding init_fields(2) by (simp add: sendable_def)
  then have "http_view (feeds ?p pieces) = http_view q" using feeds_view [OF init_fresh] q(1) by simp
  moreover have "hp_complete q" using q(4) by (simp add: http_body_def split: if_splits)
  ultimately show ?thesis using q by (simp add: http_view_def)
qed

theorem http_roundtrip_witness:
  "http_view (feeds (vl_http_parser_init True None)
       [render ''POST'' ''/a'' 1 [(''Host'', ''x''), length_header ''hello''], ''hel'', ''lo''])
    = (VL_HTTP_ERROR_NONE, True, sent_request ''POST'' ''/a'' 1 [(''Host'', ''x'')] ''hello'', Some ''hello'')"
proof (rule http_roundtrip)
  show "sendable (hp_config (vl_http_parser_init True None)) ''POST'' ''/a'' 1 [(''Host'', ''x'')] ''hello''"
    by (simp add: sendable_def vl_http_parser_init_def http_clamp_def vl_http_config_default_def http_limits plain_def header_plain_def
        header_ordinary_def render_line_def render_def render_header_def length_header_def decimal.simps isspace_def of_char_def
        tolower_def Let_def)
qed simp

text \<open>C26: The parser stays within its limits.  After any input in any pieces, the bytes kept fit into the buffer,
  there are at most 32 headers and each fits into its arrays; an accepted request has a known method, a
  path that begins with a slash and fits, a version 1.0 or 1.1, and a body that lies within the bytes
  received and is not longer than the configured maximum.\<close>

theorem http_limits_kept: "parser_inv (feeds (vl_http_parser_init malloc_ok config) pieces)"
proof (rule feeds_inv)
  show "parser_inv (vl_http_parser_init malloc_ok config)"
    by (rule init_inv)
qed

lemma strtoul_digits:
  assumes "dropWhile isspace value = s1" "s1 \<noteq> []"
    "s2 = (if hd s1 = CHR ''-'' \<or> hd s1 = CHR ''+'' then tl s1 else s1)"
  shows "(vl_http_parse_content_length value = Some n) =
    (s2 \<noteq> [] \<and> list_all isdigit s2 \<and> digits_value s2 < 2 ^ 64
      \<and> n = (if hd s1 = CHR ''-'' then (2 ^ 64 - digits_value s2) mod 2 ^ 64 else digits_value s2))"
proof -
  let ?ds = "takeWhile isdigit s2"
  have v: "value \<noteq> []" using assms(1,2) by auto
  have rest: "drop (length ?ds) s2 = [] \<longleftrightarrow> list_all isdigit s2" "list_all isdigit s2 \<Longrightarrow> ?ds = s2"
    by (simp_all add: dropWhile_eq_drop [symmetric] list_all_iff takeWhile_eq_all_conv)
  have st: "strtoul value = (if ?ds = [] then (0, False, value)
      else if digits_value ?ds \<ge> 2 ^ 64 then (2 ^ 64 - 1, True, drop (length ?ds) s2)
      else (if hd s1 = CHR ''-'' then (2 ^ 64 - digits_value ?ds) mod 2 ^ 64 else digits_value ?ds, False, drop (length ?ds) s2))"
    unfolding strtoul_def Let_def assms(1) using assms(2,3) by simp
  show ?thesis
  proof (cases "list_all isdigit s2")
    case True
    then have ds: "?ds = s2" by (rule rest(2))
    show ?thesis
      using v True unfolding vl_http_parse_content_length_def st ds by (cases "s2 = []") auto
  next
    case False
    then have "drop (length ?ds) s2 \<noteq> []" using rest(1) by blast
    then show ?thesis using v False unfolding vl_http_parse_content_length_def st by (simp split: if_splits)
  qed
qed

text \<open>C27: Which content lengths are accepted.  A value is accepted exactly if, after white space, it is a
  non-empty sequence of digits below \<open>2\<^sup>6\<^sup>4\<close>, possibly after a sign, and a minus sign is not rejected: it
  negates the length modulo \<open>2\<^sup>6\<^sup>4\<close>, so that \<^verbatim>\<open>-18446744073709551611\<close> announces five bytes.\<close>

theorem content_length_accepts:
  "(vl_http_parse_content_length value = Some n) =
     (\<exists>ds. ds \<noteq> [] \<and> list_all isdigit ds \<and> digits_value ds < 2 ^ 64
       \<and> ((dropWhile isspace value = ds \<or> dropWhile isspace value = CHR ''+'' # ds) \<and> n = digits_value ds
          \<or> dropWhile isspace value = CHR ''-'' # ds \<and> n = (2 ^ 64 - digits_value ds) mod 2 ^ 64))"
proof (cases "dropWhile isspace value")
  case Nil
  then have "strtoul value = (0, False, value)" by (simp only: strtoul_def Let_def) simp
  then show ?thesis unfolding Nil by (simp add: vl_http_parse_content_length_def)
next
  case (Cons c cs)
  have sign: "\<not> isdigit (CHR ''-'')" "\<not> isdigit (CHR ''+'')" by (simp_all add: isdigit_def of_char_def)
  show ?thesis
    unfolding strtoul_digits [OF Cons _ refl, simplified] Cons using sign
    by (cases "c = CHR ''-''"; cases "c = CHR ''+''") auto
qed

end
