(* ===== verification/Socket.thy ===== *)
theory Socket
  imports Veloco_Prelude
begin

text \<open>
  The registry of descriptors, \<^verbatim>\<open>src/net/socket.c\<close>: every descriptor number that was ever tracked has a slot with a generation,
  which grows with every use of the number, and at most one pending request.  The list of slots is a HOL list.
  What the kernel answers to \<^verbatim>\<open>socket\<close>, \<^verbatim>\<open>fcntl\<close>, \<^verbatim>\<open>bind\<close>, \<^verbatim>\<open>connect\<close>, \<^verbatim>\<open>accept4\<close> and \<^verbatim>\<open>close\<close>, and \<^verbatim>\<open>calloc\<close>, are arguments; the descriptors
  given back to it are kept in \<open>so_closed\<close>.
\<close>

section \<open>The registry\<close>

record vl_socket_slot =
  sl_fd :: int
  sl_generation :: u64
  sl_pending_generation :: u64
  sl_active :: bool

record vl_sockets =
  so_slots :: "vl_socket_slot list"
  so_closed :: "int list"

definition vl_socket_find_slot_locked :: "int \<Rightarrow> vl_sockets \<Rightarrow> vl_socket_slot option" where
  "vl_socket_find_slot_locked fd so = find (\<lambda>slot. sl_fd slot = fd) (so_slots so)"

text \<open>An assignment through the pointer that \<^verbatim>\<open>vl_socket_find_slot_locked\<close> returned.\<close>

primrec upd_first :: "int \<Rightarrow> (vl_socket_slot \<Rightarrow> vl_socket_slot) \<Rightarrow> vl_socket_slot list \<Rightarrow> vl_socket_slot list" where
  "upd_first fd f [] = []"
| "upd_first fd f (slot # slots) = (if sl_fd slot = fd then f slot # slots else slot # upd_first fd f slots)"

definition upd_slot :: "int \<Rightarrow> (vl_socket_slot \<Rightarrow> vl_socket_slot) \<Rightarrow> vl_sockets \<Rightarrow> vl_sockets" where
  "upd_slot fd f so = so\<lparr>so_slots := upd_first fd f (so_slots so)\<rparr>"

text \<open>\<^verbatim>\<open>++slot->generation; if (slot->generation == 0) ++slot->generation;\<close>\<close>

definition next_generation :: "u64 \<Rightarrow> u64" where
  "next_generation g = (let g1 = g + 1 in if g1 = 0 then g1 + 1 else g1)"

definition vl_socket_track :: "bool \<Rightarrow> int \<Rightarrow> vl_sockets \<Rightarrow> vl_status \<times> vl_sockets" where
  "vl_socket_track calloc_ok fd so =
     (if fd < 0 then (VL_ERROR_INVALID_ARGUMENT, so)
      else
        (case (case vl_socket_find_slot_locked fd so of
                 Some slot \<Rightarrow> Some (slot, so)
               | None \<Rightarrow>
                   if \<not> calloc_ok then None
                   else let slot = \<lparr>sl_fd = fd, sl_generation = 0, sl_pending_generation = 0, sl_active = False\<rparr>
                        in Some (slot, so\<lparr>so_slots := slot # so_slots so\<rparr>)) of
           None \<Rightarrow> (VL_ERROR_OUT_OF_MEMORY, so)
         | Some (slot, so1) \<Rightarrow>
             if sl_active slot \<or> sl_generation slot = UINT64_MAX then (VL_ERROR_INVALID_STATE, so1)
             else (VL_OK, upd_slot fd (\<lambda>s. s\<lparr>sl_generation := next_generation (sl_generation s), sl_active := True\<rparr>) so1)))"

definition vl_socket_generation :: "int \<Rightarrow> vl_sockets \<Rightarrow> u64" where
  "vl_socket_generation fd so =
     (if fd < 0 then 0
      else (case vl_socket_find_slot_locked fd so of Some slot \<Rightarrow> sl_generation slot | None \<Rightarrow> 0))"

definition vl_socket_is_tracked :: "int \<Rightarrow> vl_sockets \<Rightarrow> bool" where
  "vl_socket_is_tracked fd so =
     (if fd < 0 then False
      else (case vl_socket_find_slot_locked fd so of Some slot \<Rightarrow> sl_active slot | None \<Rightarrow> False))"

definition vl_socket_claim :: "int \<Rightarrow> u64 \<Rightarrow> vl_sockets \<Rightarrow> vl_status \<times> vl_sockets" where
  "vl_socket_claim fd generation so =
     (if fd < 0 \<or> generation = 0 then (VL_ERROR_INVALID_ARGUMENT, so)
      else
        (case vl_socket_find_slot_locked fd so of
           None \<Rightarrow> (VL_ERROR_INVALID_STATE, so)
         | Some slot \<Rightarrow>
             if \<not> sl_active slot \<or> sl_generation slot \<noteq> generation \<or> sl_pending_generation slot \<noteq> 0
             then (VL_ERROR_INVALID_STATE, so)
             else (VL_OK, upd_slot fd (\<lambda>s. s\<lparr>sl_pending_generation := generation\<rparr>) so)))"

definition vl_socket_release :: "int \<Rightarrow> u64 \<Rightarrow> vl_sockets \<Rightarrow> vl_sockets" where
  "vl_socket_release fd generation so =
     (if fd < 0 then so
      else
        (case vl_socket_find_slot_locked fd so of
           None \<Rightarrow> so
         | Some slot \<Rightarrow>
             if sl_pending_generation slot = generation then upd_slot fd (\<lambda>s. s\<lparr>sl_pending_generation := 0\<rparr>) so else so))"

text \<open>\<open>timeout\<close>: the request is a \<^verbatim>\<open>VL_IO_TIMEOUT\<close>; the request is not NULL.\<close>

definition vl_socket_request_is_stale :: "bool \<Rightarrow> int \<Rightarrow> u64 \<Rightarrow> vl_sockets \<Rightarrow> bool" where
  "vl_socket_request_is_stale timeout fd generation so =
     (if timeout then False
      else if fd < 0 then True
      else
        (case vl_socket_find_slot_locked fd so of
           None \<Rightarrow> True
         | Some slot \<Rightarrow> \<not> sl_active slot \<or> sl_generation slot \<noteq> generation))"

text \<open>\<open>close_ok\<close>: the kernel's \<^verbatim>\<open>close\<close> returns 0.\<close>

definition vl_socket_close :: "bool \<Rightarrow> int \<Rightarrow> vl_sockets \<Rightarrow> vl_status \<times> vl_sockets" where
  "vl_socket_close close_ok fd so =
     (if fd < 0 then (VL_ERROR_INVALID_ARGUMENT, so)
      else
        (case vl_socket_find_slot_locked fd so of
           None \<Rightarrow> (VL_ERROR_INVALID_STATE, so)
         | Some slot \<Rightarrow>
             if \<not> sl_active slot then (VL_ERROR_INVALID_STATE, so)
             else if \<not> close_ok then (VL_ERROR_SYSTEM, so)
             else (VL_OK,
                   upd_slot fd (\<lambda>s. s\<lparr>sl_active := False,
                       sl_generation := (if sl_generation s \<noteq> UINT64_MAX then next_generation (sl_generation s) else sl_generation s)\<rparr>)
                     (so\<lparr>so_closed := fd # so_closed so\<rparr>))))"

section \<open>Opening sockets\<close>

text \<open>The two calls of \<^verbatim>\<open>fcntl\<close>: the flags, or a negative number, and whether they could be set.\<close>

definition vl_socket_set_nonblocking :: "int \<Rightarrow> bool \<Rightarrow> int \<Rightarrow> vl_status" where
  "vl_socket_set_nonblocking getfl setfl_ok fd =
     (if fd < 0 then VL_ERROR_INVALID_ARGUMENT else if getfl < 0 \<or> \<not> setfl_ok then VL_ERROR_SYSTEM else VL_OK)"

definition close_fd :: "int \<Rightarrow> vl_sockets \<Rightarrow> vl_sockets" where
  "close_fd fd so = so\<lparr>so_closed := fd # so_closed so\<rparr>"

text \<open>\<^verbatim>\<open>vl_socket_track\<close> as the last of several conditions, with \<^verbatim>\<open>close(fd)\<close> when one of them fails.\<close>

definition track_or_close :: "bool \<Rightarrow> bool \<Rightarrow> int \<Rightarrow> vl_sockets \<Rightarrow> bool \<times> vl_sockets" where
  "track_or_close ok calloc_ok fd so =
     (if \<not> ok then (False, close_fd fd so)
      else (case vl_socket_track calloc_ok fd so of
              (status, so1) \<Rightarrow> if status \<noteq> VL_OK then (False, close_fd fd so1) else (True, so1)))"

definition vl_socket_create_tcp :: "int \<Rightarrow> int \<Rightarrow> bool \<Rightarrow> bool \<Rightarrow> vl_sockets \<Rightarrow> (int + vl_status) \<times> vl_sockets" where
  "vl_socket_create_tcp fd getfl setfl_ok calloc_ok so =
     (if fd < 0 then (Inr VL_ERROR_SYSTEM, so)
      else (case track_or_close (vl_socket_set_nonblocking getfl setfl_ok fd = VL_OK) calloc_ok fd so of
              (ok, so1) \<Rightarrow> (if ok then Inl fd else Inr VL_ERROR_SYSTEM, so1)))"

text \<open>\<open>bound\<close>: for the port asked for, \<^verbatim>\<open>bind\<close>, \<^verbatim>\<open>listen\<close> and \<^verbatim>\<open>getsockname\<close> succeed and give this port.  \<open>bound_port\<close> is what the pointer
  points to, \<open>None\<close> when it is NULL.\<close>

definition vl_socket_listen_loopback ::
  "int \<Rightarrow> bool \<Rightarrow> int \<Rightarrow> bool \<Rightarrow> (nat \<Rightarrow> nat option) \<Rightarrow> bool \<Rightarrow> nat \<Rightarrow> int \<Rightarrow> nat option \<Rightarrow> vl_sockets \<Rightarrow>
     (int + vl_status) \<times> nat option \<times> vl_sockets" where
  "vl_socket_listen_loopback fd setsockopt_ok getfl setfl_ok bound calloc_ok port backlog bound_port so =
     (if backlog \<le> 0 \<or> bound_port = None then (Inr VL_ERROR_INVALID_ARGUMENT, bound_port, so)
      else if fd < 0 then (Inr VL_ERROR_SYSTEM, bound_port, so)
      else if \<not> setsockopt_ok \<or> vl_socket_set_nonblocking getfl setfl_ok fd \<noteq> VL_OK
      then (Inr VL_ERROR_SYSTEM, bound_port, close_fd fd so)
      else (case track_or_close (bound port \<noteq> None) calloc_ok fd so of
              (ok, so1) \<Rightarrow> if ok then (Inl fd, bound port, so1) else (Inr VL_ERROR_SYSTEM, bound_port, so1)))"

text \<open>\<open>connected\<close>: whether \<^verbatim>\<open>connect\<close> to a port succeeds or is in progress.\<close>

definition vl_socket_connect_loopback ::
  "int \<Rightarrow> int \<Rightarrow> bool \<Rightarrow> bool \<Rightarrow> (nat \<Rightarrow> bool) \<Rightarrow> bool \<Rightarrow> nat \<Rightarrow> vl_sockets \<Rightarrow> (int + vl_status) \<times> vl_sockets" where
  "vl_socket_connect_loopback fd getfl setfl_ok calloc_ok connected close_ok port so =
     (if port = 0 then (Inr VL_ERROR_INVALID_ARGUMENT, so)
      else if fd < 0 then (Inr VL_ERROR_SYSTEM, so)
      else (case track_or_close (vl_socket_set_nonblocking getfl setfl_ok fd = VL_OK) calloc_ok fd so of
              (ok, so1) \<Rightarrow>
                if \<not> ok then (Inr VL_ERROR_SYSTEM, so1)
                else if \<not> connected port then (Inr VL_ERROR_SYSTEM, snd (vl_socket_close close_ok fd so1))
                else (Inl fd, so1)))"

definition vl_socket_accept :: "int \<Rightarrow> bool \<Rightarrow> vl_sockets \<Rightarrow> (int + vl_status) \<times> vl_sockets" where
  "vl_socket_accept fd calloc_ok so =
     (if fd < 0 then (Inr VL_ERROR_SYSTEM, so)
      else (case track_or_close True calloc_ok fd so of
              (ok, so1) \<Rightarrow> (if ok then Inl fd else Inr VL_ERROR_SYSTEM, so1)))"

section \<open>Runs of the registry\<close>

datatype socket_op =
  Track bool int
| Claim int u64
| Release int u64
| Close bool int
| Create_tcp int int bool bool
| Listen int bool int bool "nat \<Rightarrow> nat option" bool nat int "nat option"
| Connect int int bool bool "nat \<Rightarrow> bool" bool nat
| Accept int bool

primrec socket_exec :: "socket_op \<Rightarrow> vl_sockets \<Rightarrow> vl_sockets" where
  "socket_exec (Track c fd) so = snd (vl_socket_track c fd so)"
| "socket_exec (Claim fd g) so = snd (vl_socket_claim fd g so)"
| "socket_exec (Release fd g) so = vl_socket_release fd g so"
| "socket_exec (Close c fd) so = snd (vl_socket_close c fd so)"
| "socket_exec (Create_tcp fd fl sf c) so = snd (vl_socket_create_tcp fd fl sf c so)"
| "socket_exec (Listen fd so_ok fl sf b c p n bp) so = snd (snd (vl_socket_listen_loopback fd so_ok fl sf b c p n bp so))"
| "socket_exec (Connect fd fl sf c con cl p) so = snd (vl_socket_connect_loopback fd fl sf c con cl p so)"
| "socket_exec (Accept fd c) so = snd (vl_socket_accept fd c so)"

section \<open>Slots\<close>

abbreviation sock_slot :: "vl_sockets \<Rightarrow> int \<Rightarrow> vl_socket_slot option" where
  "sock_slot so fd \<equiv> vl_socket_find_slot_locked fd so"

lemma find_upd_first:
  assumes "\<And>s. sl_fd (f s) = sl_fd s"
  shows "find (\<lambda>s. sl_fd s = fd') (upd_first fd f ss) = (if fd' = fd then map_option f (find (\<lambda>s. sl_fd s = fd) ss) else find (\<lambda>s. sl_fd s = fd') ss)"
  by (induction ss) (auto simp: assms)

lemma slot_upd [simp]:
  "(\<And>s. sl_fd (f s) = sl_fd s) \<Longrightarrow> sock_slot (upd_slot fd f so) fd' = (if fd' = fd then map_option f (sock_slot so fd) else sock_slot so fd')"
  by (simp add: vl_socket_find_slot_locked_def upd_slot_def find_upd_first)

lemma slot_closed [simp]: "sock_slot (so\<lparr>so_closed := x\<rparr>) fd = sock_slot so fd"
  by (simp add: vl_socket_find_slot_locked_def)

lemma slot_cons [simp]: "sock_slot (so\<lparr>so_slots := s # so_slots so\<rparr>) fd = (if sl_fd s = fd then Some s else sock_slot so fd)"
  by (simp add: vl_socket_find_slot_locked_def)

lemma slot_fd: "sock_slot so fd = Some s \<Longrightarrow> sl_fd s = fd"
  by (auto simp: vl_socket_find_slot_locked_def find_Some_iff)

lemma next_generation_less: "g \<noteq> UINT64_MAX \<Longrightarrow> g < next_generation g \<and> next_generation g = g + 1"
proof -
  assume "g \<noteq> UINT64_MAX"
  then have u: "unat g < 2 ^ 64 - 1" using usize_lt [of g] by (simp add: usize_eq_iff)
  then have "unat (g + 1) = Suc (unat g)" by (rule usize_unat_Suc)
  moreover from this have "g + 1 \<noteq> 0" by auto
  ultimately show ?thesis by (simp add: next_generation_def usize_less_iff)
qed

section \<open>A slot only moves on\<close>

text \<open>Between two states of one slot the generation does not fall, and a slot that is not in use comes into use only with a new
  generation.\<close>

definition moves_on :: "vl_socket_slot \<Rightarrow> vl_socket_slot \<Rightarrow> bool" where
  "moves_on s s' \<longleftrightarrow> sl_generation s \<le> sl_generation s' \<and> (sl_generation s' = sl_generation s \<and> sl_active s' \<longrightarrow> sl_active s)"

definition later :: "vl_sockets \<Rightarrow> vl_sockets \<Rightarrow> bool" where
  "later so so' \<longleftrightarrow> (\<forall>fd s. sock_slot so fd = Some s \<longrightarrow> (\<exists>s'. sock_slot so' fd = Some s' \<and> moves_on s s'))"

lemma moves_on_refl [simp]: "moves_on s s"
  by (simp add: moves_on_def)

lemma moves_on_trans: "moves_on a b \<Longrightarrow> moves_on b c \<Longrightarrow> moves_on a c"
  by (auto simp: moves_on_def)

lemma later_refl [simp]: "later so so"
  by (simp add: later_def)

lemma later_trans: "later a b \<Longrightarrow> later b c \<Longrightarrow> later a c"
  unfolding later_def by (meson moves_on_trans)

lemma later_closed [simp]: "later so (so'\<lparr>so_closed := x\<rparr>) \<longleftrightarrow> later so so'" "later so (close_fd fd so') \<longleftrightarrow> later so so'"
  by (simp_all add: later_def close_fd_def)

lemma later_upd:
  assumes "\<And>s. sl_fd (f s) = sl_fd s" and "\<And>s. sock_slot so fd = Some s \<Longrightarrow> moves_on s (f s)"
  shows "later so (upd_slot fd f so)"
  using assms by (auto simp: later_def)

lemma moves_on_track:
  "sl_generation s \<noteq> UINT64_MAX \<Longrightarrow> moves_on s (s\<lparr>sl_generation := next_generation (sl_generation s), sl_active := True\<rparr>)"
  using next_generation_less [of "sl_generation s"] by (auto simp: moves_on_def)

lemma track_later: "later so (snd (vl_socket_track c fd so))"
proof (cases "sock_slot so fd")
  case None
  then show ?thesis by (auto simp: vl_socket_track_def Let_def later_def)
next
  case (Some s)
  then show ?thesis by (auto simp: vl_socket_track_def intro!: later_upd moves_on_track)
qed

lemma claim_later: "later so (snd (vl_socket_claim fd g so))"
  by (auto simp: vl_socket_claim_def moves_on_def split: option.split intro!: later_upd)

lemma release_later: "later so (vl_socket_release fd g so)"
  by (auto simp: vl_socket_release_def moves_on_def split: option.split intro!: later_upd)

lemma close_slot:
  assumes "vl_socket_close c fd so = (VL_OK, so')"
  obtains s s' where "sock_slot so fd = Some s" "sl_active s" "sock_slot so' fd = Some s'" "\<not> sl_active s'"
    "sl_generation s \<le> sl_generation s'"
  using assms next_generation_less
  by (fastforce simp: vl_socket_close_def split: option.splits if_splits)

lemma close_later: "later so (snd (vl_socket_close c fd so))"
  using next_generation_less
  by (fastforce simp: vl_socket_close_def later_def moves_on_def split: option.split)

lemma track_or_close_later: "track_or_close ok c fd so = (b, so') \<Longrightarrow> later so so'"
  using track_later [of so c fd] by (auto simp: track_or_close_def split: prod.splits if_splits)

lemma connect_later: "later so (snd (vl_socket_connect_loopback fd fl sf c con cl p so))"
  by (auto simp: vl_socket_connect_loopback_def split: prod.split
      intro: track_or_close_later later_trans [OF track_or_close_later close_later])

lemma exec_later: "later so (socket_exec op so)"
  by (cases op) (auto simp: track_later claim_later release_later close_later connect_later vl_socket_create_tcp_def
      vl_socket_listen_loopback_def vl_socket_accept_def split: prod.split intro: track_or_close_later)

lemma run_later: "later so (fold socket_exec ops so)"
  by (induction ops arbitrary: so) (auto intro: later_trans exec_later)

section \<open>A claim is kept\<close>

definition claimed :: "int \<Rightarrow> u64 \<Rightarrow> vl_sockets \<Rightarrow> bool" where
  "claimed fd g so \<longleftrightarrow> (\<exists>s. sock_slot so fd = Some s \<and> sl_pending_generation s = g)"

lemma claimed_closed [simp]:
  "claimed fd g (so\<lparr>so_closed := x\<rparr>) \<longleftrightarrow> claimed fd g so" "claimed fd g (close_fd fd' so) \<longleftrightarrow> claimed fd g so"
  by (simp_all add: claimed_def close_fd_def)

lemma track_claimed: "claimed fd g so \<Longrightarrow> claimed fd g (snd (vl_socket_track c fd' so))"
  by (auto simp: claimed_def vl_socket_track_def Let_def split: option.split)

lemma close_claimed: "claimed fd g so \<Longrightarrow> claimed fd g (snd (vl_socket_close c fd' so))"
  by (auto simp: claimed_def vl_socket_close_def split: option.split)

lemma claim_claimed: "claimed fd g so \<Longrightarrow> g \<noteq> 0 \<Longrightarrow> claimed fd g (snd (vl_socket_claim fd' g' so))"
  by (auto simp: claimed_def vl_socket_claim_def split: option.split)

lemma release_claimed: "claimed fd g so \<Longrightarrow> (fd', g') \<noteq> (fd, g) \<Longrightarrow> claimed fd g (vl_socket_release fd' g' so)"
  by (auto simp: claimed_def vl_socket_release_def split: option.split)

lemma track_or_close_claimed: "track_or_close ok c fd' so = (b, so') \<Longrightarrow> claimed fd g so \<Longrightarrow> claimed fd g so'"
  using track_claimed [of fd g so c fd'] by (auto simp: track_or_close_def split: prod.splits if_splits)

lemma exec_claimed: "claimed fd g so \<Longrightarrow> g \<noteq> 0 \<Longrightarrow> op \<noteq> Release fd g \<Longrightarrow> claimed fd g (socket_exec op so)"
  by (cases op) (auto simp: track_claimed close_claimed claim_claimed release_claimed vl_socket_create_tcp_def
      vl_socket_listen_loopback_def vl_socket_connect_loopback_def vl_socket_accept_def split: prod.split
      intro: track_or_close_claimed close_claimed)

lemma run_claimed: "claimed fd g so \<Longrightarrow> g \<noteq> 0 \<Longrightarrow> Release fd g \<notin> set ops \<Longrightarrow> claimed fd g (fold socket_exec ops so)"
  by (induction ops arbitrary: so) (auto simp: exec_claimed)

lemma claim_ok:
  assumes "vl_socket_claim fd g so = (VL_OK, so1)"
  shows "claimed fd g so1" "g \<noteq> 0" "0 \<le> fd" "\<exists>s. sock_slot so1 fd = Some s \<and> sl_generation s = g"
  using assms by (auto simp: vl_socket_claim_def claimed_def split: option.splits if_splits)

lemma claimed_refuses: "claimed fd g so \<Longrightarrow> g \<noteq> 0 \<Longrightarrow> fst (vl_socket_claim fd g' so) \<noteq> VL_OK"
  by (auto simp: claimed_def vl_socket_claim_def split: option.split)

section \<open>No descriptor is leaked\<close>

text \<open>A descriptor the kernel gave is returned and tracked, or an error is returned and it is given back.\<close>

definition kept_or_closed :: "int \<Rightarrow> int + vl_status \<Rightarrow> vl_sockets \<Rightarrow> vl_sockets \<Rightarrow> bool" where
  "kept_or_closed fd r so so' \<longleftrightarrow>
     (r = Inl fd \<and> vl_socket_is_tracked fd so' \<and> so_closed so' = so_closed so) \<or>
     (r = Inr VL_ERROR_SYSTEM \<and> so_closed so' = fd # so_closed so)"

lemma so_closed_upd [simp]: "so_closed (upd_slot fd f so) = so_closed so"
  by (simp add: upd_slot_def)

lemma track_closed: "so_closed (snd (vl_socket_track c fd so)) = so_closed so"
  by (auto simp: vl_socket_track_def Let_def split: option.split)

lemma track_tracked: "vl_socket_track c fd so = (VL_OK, so') \<Longrightarrow> vl_socket_is_tracked fd so'"
  by (auto simp: vl_socket_track_def vl_socket_is_tracked_def Let_def split: option.splits if_splits)

lemma track_or_close_outcome:
  assumes "track_or_close ok c fd so = (b, so')"
  shows "if b then vl_socket_is_tracked fd so' \<and> so_closed so' = so_closed so else so_closed so' = fd # so_closed so"
  using assms track_closed [of c fd so] track_tracked [of c fd so]
  by (auto simp: track_or_close_def close_fd_def split: prod.splits if_splits)

lemma create_tcp_no_leak:
  "0 \<le> fd \<Longrightarrow> vl_socket_create_tcp fd fl sf c so = (r, so') \<Longrightarrow> kept_or_closed fd r so so'"
  using track_or_close_outcome by (fastforce simp: vl_socket_create_tcp_def kept_or_closed_def split: prod.splits if_splits)

lemma accept_no_leak: "0 \<le> fd \<Longrightarrow> vl_socket_accept fd c so = (r, so') \<Longrightarrow> kept_or_closed fd r so so'"
  using track_or_close_outcome by (fastforce simp: vl_socket_accept_def kept_or_closed_def split: prod.splits if_splits)

lemma listen_no_leak:
  assumes "0 \<le> fd" and "0 < n" and "vl_socket_listen_loopback fd so_ok fl sf b c p n (Some q) so = (r, q', so')"
  shows "kept_or_closed fd r so so'"
  using assms track_or_close_outcome
  by (fastforce simp: vl_socket_listen_loopback_def kept_or_closed_def close_fd_def split: prod.splits if_splits)

lemma connect_no_leak:
  assumes "0 \<le> fd" and "0 < p" and "vl_socket_connect_loopback fd fl sf c con True p so = (r, so')"
  shows "kept_or_closed fd r so so'"
proof -
  obtain ok so1 where t: "track_or_close (vl_socket_set_nonblocking fl sf fd = VL_OK) c fd so = (ok, so1)" by fastforce
  note o = track_or_close_outcome [OF t]
  show ?thesis using assms t o
    by (auto simp: vl_socket_connect_loopback_def kept_or_closed_def vl_socket_close_def vl_socket_is_tracked_def
        split: option.splits if_splits)
qed

section \<open>Requests on a descriptor that was closed\<close>

definition gone :: "int \<Rightarrow> u64 \<Rightarrow> vl_sockets \<Rightarrow> bool" where
  "gone fd g so \<longleftrightarrow> (\<exists>s. sock_slot so fd = Some s \<and> g \<le> sl_generation s \<and> (sl_generation s = g \<longrightarrow> \<not> sl_active s))"

lemma gone_later: "gone fd g so \<Longrightarrow> later so so' \<Longrightarrow> gone fd g so'"
proof -
  assume g: "gone fd g so" and l: "later so so'"
  from g obtain s where s: "sock_slot so fd = Some s" "g \<le> sl_generation s" "sl_generation s = g \<longrightarrow> \<not> sl_active s"
    by (auto simp: gone_def)
  with l obtain s' where s': "sock_slot so' fd = Some s'" "moves_on s s'" by (auto simp: later_def)
  show ?thesis unfolding gone_def using s s' by (intro exI [of _ s']) (auto simp: moves_on_def)
qed

lemma gone_stale: "gone fd g so \<Longrightarrow> vl_socket_request_is_stale False fd g so \<and> fst (vl_socket_claim fd g so) \<noteq> VL_OK"
  by (auto simp: gone_def vl_socket_request_is_stale_def vl_socket_claim_def)

lemma close_gone:
  assumes "sock_slot so fd = Some s" and "g \<le> sl_generation s" and "vl_socket_close c fd so = (VL_OK, so')"
  shows "gone fd g so'"
  using assms(3) by (rule close_slot) (use assms(1,2) in \<open>auto simp: gone_def\<close>)

text \<open>C31: A claim that succeeds holds the descriptor: until that claim is released no other request can claim the number, whatever
  is tracked, closed and opened in between.  And once the descriptor is closed the request is stale for good: however the
  number is used again, the request is recognised as stale and cannot be claimed.\<close>

theorem socket_request_stale:
  assumes "vl_socket_claim fd g so = (VL_OK, so1)"
  shows "(Release fd g \<notin> set ops \<longrightarrow> fst (vl_socket_claim fd g' (fold socket_exec ops so1)) \<noteq> VL_OK) \<and>
    (vl_socket_close c fd (fold socket_exec ops so1) = (VL_OK, so2) \<longrightarrow>
      vl_socket_request_is_stale False fd g (fold socket_exec ops' so2) \<and>
      fst (vl_socket_claim fd g (fold socket_exec ops' so2)) \<noteq> VL_OK)"
proof (intro conjI impI)
  note ok = claim_ok [OF assms]
  show "fst (vl_socket_claim fd g' (fold socket_exec ops so1)) \<noteq> VL_OK" if "Release fd g \<notin> set ops"
    using run_claimed [OF ok(1,2) that] ok(2) by (rule claimed_refuses)
  assume c: "vl_socket_close c fd (fold socket_exec ops so1) = (VL_OK, so2)"
  obtain s where "sock_slot (fold socket_exec ops so1) fd = Some s" "g \<le> sl_generation s"
    using ok(4) run_later [of so1 ops] by (auto simp: later_def moves_on_def)
  then have "gone fd g so2" using c by (rule close_gone)
  then have "gone fd g (fold socket_exec ops' so2)" using run_later by (rule gone_later)
  note stale = gone_stale [OF this]
  show "vl_socket_request_is_stale False fd g (fold socket_exec ops' so2)" using stale ..
  show "fst (vl_socket_claim fd g (fold socket_exec ops' so2)) \<noteq> VL_OK" using stale ..
qed

text \<open>Descriptor 7 is tracked and claimed, closed, and then opened again by \<^verbatim>\<open>accept4\<close>.\<close>

definition demo_sockets :: vl_sockets where
  "demo_sockets = snd (vl_socket_track True 7 \<lparr>so_slots = [], so_closed = []\<rparr>)"

lemmas socket_run = demo_sockets_def vl_socket_track_def vl_socket_claim_def vl_socket_close_def vl_socket_accept_def
  vl_socket_is_tracked_def track_or_close_def vl_socket_find_slot_locked_def upd_slot_def next_generation_def Let_def

theorem socket_request_stale_witness:
  "let so1 = snd (vl_socket_claim 7 1 demo_sockets); so2 = snd (vl_socket_close True 7 (fold socket_exec [Track True 8] so1));
       so3 = fold socket_exec [Release 7 1, Accept 7 True] so2
   in fst (vl_socket_claim 7 1 demo_sockets) = VL_OK \<and> vl_socket_is_tracked 7 so3 \<and>
      fst (vl_socket_claim 7 1 (fold socket_exec [Track True 8] so1)) \<noteq> VL_OK \<and>
      vl_socket_request_is_stale False 7 1 so3 \<and> fst (vl_socket_claim 7 1 so3) \<noteq> VL_OK"
proof -
  let ?so1 = "snd (vl_socket_claim 7 1 demo_sockets)"
  let ?so = "fold socket_exec [Track True 8] ?so1"
  let ?so2 = "snd (vl_socket_close True 7 ?so)"
  have a: "vl_socket_claim 7 1 demo_sockets = (VL_OK, ?so1)" by (simp add: socket_run)
  then have a1: "fst (vl_socket_claim 7 1 demo_sockets) = VL_OK" by (metis fst_conv)
  have b: "vl_socket_close True 7 ?so = (VL_OK, ?so2)" by (simp add: socket_run)
  have c: "vl_socket_is_tracked 7 (fold socket_exec [Release 7 1, Accept 7 True] ?so2)"
    by (simp add: socket_run vl_socket_release_def)
  have "Release 7 1 \<notin> set [Track True 8]" by simp
  with b c a1 show ?thesis
    using socket_request_stale [OF a, of "[Track True 8]" 1 True ?so2 "[Release 7 1, Accept 7 True]"]
    by (simp only: Let_def fst_conv simp_thms)
qed

end
