(* ===== verification/Http_Server.thy ===== *)
theory Http_Server
  imports Http Socket
begin

text \<open>
  The HTTP server: \<^verbatim>\<open>src/http/http_router.c\<close>, \<^verbatim>\<open>http_response.c\<close>, \<^verbatim>\<open>http_connection.c\<close> and
  \<^verbatim>\<open>http_server.c\<close>.  A call of \<^verbatim>\<open>vl_io_submit\<close> parks the connection's task until the operation is
  done; its answers are an argument, a list that is consumed call by call, and a function that
  needs more answers than there are has the value \<open>None\<close>: its task is still parked.  For a send an
  answer is the status and the number of bytes taken by the kernel, for a receive the status and the
  result with the bytes received, together with the value of \<^verbatim>\<open>shutdown_requested\<close> read after
  parsing them.  Handlers are functions of the application, stored in the routes; they get the request and the bytes its \<^verbatim>\<open>body\<close> points to.  The bytes given to
  the kernel are returned.  The array \<^verbatim>\<open>body\<close> of a response is its used part, so \<^verbatim>\<open>body_length\<close> is its
  length.
\<close>

section \<open>Responses\<close>

record vl_http_response =
  rs_status :: int
  rs_reason :: string
  rs_body :: string
  rs_keep_alive :: bool
  rs_chunked :: bool

definition vl_http_reason_phrase :: "int \<Rightarrow> string" where
  "vl_http_reason_phrase status =
     (if status = 200 then ''OK''
      else if status = 400 then ''Bad Request''
      else if status = 404 then ''Not Found''
      else if status = 413 then ''Payload Too Large''
      else if status = 431 then ''Request Header Fields Too Large''
      else if status = 500 then ''Internal Server Error''
      else ''OK'')"

definition vl_http_response_init :: vl_http_response where
  "vl_http_response_init =
     \<lparr>rs_status = 200, rs_reason = vl_http_reason_phrase 200, rs_body = [], rs_keep_alive = False, rs_chunked = False\<rparr>"

definition vl_http_response_set_status :: "vl_http_response \<Rightarrow> int \<Rightarrow> vl_status \<times> vl_http_response" where
  "vl_http_response_set_status response status =
     (if status < 100 \<or> status > 599 then (VL_ERROR_INVALID_ARGUMENT, response)
      else (VL_OK, response\<lparr>rs_status := status, rs_reason := vl_http_reason_phrase status\<rparr>))"

definition VL_HTTP_RESPONSE_BODY :: nat where "VL_HTTP_RESPONSE_BODY = 1024"

definition vl_http_response_set_body :: "vl_http_response \<Rightarrow> string option \<Rightarrow> nat \<Rightarrow> vl_status \<times> vl_http_response" where
  "vl_http_response_set_body response body len =
     (if (body = None \<and> len \<noteq> 0) \<or> len \<ge> VL_HTTP_RESPONSE_BODY then (VL_ERROR_INVALID_ARGUMENT, response)
      else (VL_OK, response\<lparr>rs_body := (case body of Some b \<Rightarrow> take len b | None \<Rightarrow> [])\<rparr>))"

text \<open>The loop sends the rest of the data until all of it has been taken.\<close>

type_synonym send_answers = "(vl_status \<times> int) list"

fun vl_http_send_all :: "send_answers \<Rightarrow> string \<Rightarrow> (vl_status \<times> string \<times> send_answers) option" where
  "vl_http_send_all answers [] = Some (VL_OK, [], answers)"
| "vl_http_send_all [] (x # xs) = None"
| "vl_http_send_all ((status, result) # answers) (x # xs) =
     (if status \<noteq> VL_OK \<or> result < 0 then Some (VL_ERROR_SYSTEM, [], answers)
      else map_option (\<lambda>(st, sent, rest). (st, take (nat result) (x # xs) @ sent, rest))
             (vl_http_send_all answers (drop (nat result) (x # xs))))"

definition signed_decimal :: "int \<Rightarrow> string" where
  "signed_decimal i = (if i < 0 then CHR ''-'' # decimal (nat (- i)) else decimal (nat i))"

abbreviation (input) crlf :: string where "crlf \<equiv> [CR, LF]"

definition response_head :: "vl_http_response \<Rightarrow> string" where
  "response_head r =
     ''HTTP/1.1 '' @ signed_decimal (rs_status r) @ '' '' @ rs_reason r @ crlf
     @ (if rs_chunked r then ''Transfer-Encoding: chunked'' @ crlf
        else ''Content-Length: '' @ decimal (length (rs_body r)) @ crlf)
     @ ''Connection: '' @ (if rs_keep_alive r then ''keep-alive'' else ''close'') @ crlf @ crlf"

text \<open>One send after the other, as long as they succeed.\<close>

fun send_parts :: "send_answers \<Rightarrow> string list \<Rightarrow> (vl_status \<times> string \<times> send_answers) option" where
  "send_parts answers [] = Some (VL_OK, [], answers)"
| "send_parts answers (part # parts) =
     (case vl_http_send_all answers part of
        None \<Rightarrow> None
      | Some (st, sent, rest) \<Rightarrow>
          if st \<noteq> VL_OK then Some (VL_ERROR_SYSTEM, sent, rest)
          else map_option (\<lambda>(st, sent', rest). (st, sent @ sent', rest)) (send_parts rest parts))"

definition body_parts :: "vl_http_response \<Rightarrow> string list" where
  "body_parts r =
     (if rs_chunked r
      then [hexadecimal (length (rs_body r)) @ crlf] @ (if rs_body r \<noteq> [] then [rs_body r] else []) @ [crlf @ ''0'' @ crlf @ crlf]
      else if rs_body r \<noteq> [] then [rs_body r] else [])"

definition vl_http_response_write :: "send_answers \<Rightarrow> vl_http_response \<Rightarrow> (vl_status \<times> string \<times> send_answers) option" where
  "vl_http_response_write answers response =
     (if length (response_head response) \<ge> 512 then Some (VL_ERROR_INVALID_ARGUMENT, [], answers)
      else if rs_chunked response \<and> length (hexadecimal (length (rs_body response)) @ crlf) \<ge> 32
      then map_option (\<lambda>(st, sent, rest). (if st = VL_OK then VL_ERROR_INVALID_ARGUMENT else VL_ERROR_SYSTEM, sent, rest))
             (vl_http_send_all answers (response_head response))
      else send_parts answers (response_head response # body_parts response))"

section \<open>Routes\<close>

type_synonym handler = "vl_http_request \<Rightarrow> string \<Rightarrow> vl_http_response \<Rightarrow> nat \<Rightarrow> vl_http_response"

record vl_http_route_entry =
  re_method :: string
  re_path :: string
  re_handler :: handler
  re_user_data :: nat

text \<open>\<open>hs_routes\<close> is the used part of the array, so \<^verbatim>\<open>route_count\<close> is its length.\<close>

record vl_http_server =
  hs_config :: vl_http_config
  hs_routes :: "vl_http_route_entry list"
  hs_active_connections :: usize
  hs_shutdown_requested :: bool

definition VL_HTTP_ROUTE_CAPACITY :: nat where "VL_HTTP_ROUTE_CAPACITY = 64"

definition vl_http_server_init ::
  "bool \<Rightarrow> vl_http_server option \<Rightarrow> vl_http_config option \<Rightarrow> vl_status \<times> vl_http_server option" where
  "vl_http_server_init calloc_ok server config =
     (if server \<noteq> None then (VL_ERROR_INVALID_ARGUMENT, server)
      else if \<not> calloc_ok then (VL_ERROR_OUT_OF_MEMORY, server)
      else
        let c = (case config of None \<Rightarrow> vl_http_config_default | Some c \<Rightarrow> c);
            c1 = (if hc_max_connections c = 0 then c\<lparr>hc_max_connections := VL_HTTP_DEFAULT_MAX_CONNECTIONS\<rparr> else c)
        in (VL_OK, Some \<lparr>hs_config = c1, hs_routes = [], hs_active_connections = 0, hs_shutdown_requested = False\<rparr>))"

definition vl_http_server_active_connections :: "vl_http_server option \<Rightarrow> usize" where
  "vl_http_server_active_connections server = (case server of None \<Rightarrow> 0 | Some s \<Rightarrow> hs_active_connections s)"

definition vl_http_route ::
  "vl_http_server option \<Rightarrow> string option \<Rightarrow> string option \<Rightarrow> handler option \<Rightarrow> nat \<Rightarrow> vl_status \<times> vl_http_server option" where
  "vl_http_route server method path handler user_data =
     (case (server, method, path, handler) of
        (Some s, Some m, Some p, Some h) \<Rightarrow>
          if length m \<ge> VL_HTTP_MAX_METHOD \<or> length p \<ge> VL_HTTP_MAX_PATH then (VL_ERROR_INVALID_ARGUMENT, server)
          else if length (hs_routes s) \<ge> VL_HTTP_ROUTE_CAPACITY then (VL_ERROR_OUT_OF_MEMORY, server)
          else (VL_OK, Some (s\<lparr>hs_routes := hs_routes s @
                  [\<lparr>re_method = m, re_path = p, re_handler = h, re_user_data = user_data\<rparr>]\<rparr>))
      | _ \<Rightarrow> (VL_ERROR_INVALID_ARGUMENT, server))"

definition vl_http_find_route :: "vl_http_server option \<Rightarrow> string option \<Rightarrow> string option \<Rightarrow> vl_http_route_entry option" where
  "vl_http_find_route server method path =
     (case (server, method, path) of
        (Some s, Some m, Some p) \<Rightarrow> find (\<lambda>route. re_method route = m \<and> re_path route = p) (hs_routes s)
      | _ \<Rightarrow> None)"

section \<open>Connections\<close>

definition vl_http_error_response :: "send_answers \<Rightarrow> int \<Rightarrow> (vl_status \<times> string \<times> send_answers) option" where
  "vl_http_error_response answers status =
     (let r0 = snd (vl_http_response_set_status vl_http_response_init status);
          r1 = snd (if status = 400 then vl_http_response_set_body r0 (Some ''Bad Request'') 11
                    else if status = 413 then vl_http_response_set_body r0 (Some ''Payload Too Large'') 17
                    else if status = 431 then vl_http_response_set_body r0 (Some ''Header Too Large'') 16
                    else vl_http_response_set_body r0 (Some ''Not Found'') 9)
      in vl_http_response_write answers r1)"

datatype recv_answer = Recv vl_status int string bool

fun vl_http_read_request ::
  "recv_answer list \<Rightarrow> send_answers \<Rightarrow> vl_http_parser \<Rightarrow> (vl_status \<times> vl_http_parser \<times> string \<times> send_answers) option" where
  "vl_http_read_request [] sends parser = None"
| "vl_http_read_request (Recv st result bytes shutdown # recvs) sends parser =
     (if st \<noteq> VL_OK then Some (VL_ERROR_SYSTEM, parser, [], sends)
      else if result \<le> 0 then Some (if result = 0 then VL_ERROR_CLOSED else VL_ERROR_SYSTEM, parser, [], sends)
      else
        (case vl_http_parser_feed parser (take (nat result) bytes) of
           (VL_HTTP_PARSE_COMPLETE, parser1) \<Rightarrow> Some (VL_OK, parser1, [], sends)
         | (VL_HTTP_PARSE_ERROR, parser1) \<Rightarrow>
             let code = vl_http_error_code (vl_http_parser_error (Some parser1)) in
             map_option (\<lambda>(st, sent, rest). (VL_ERROR_INVALID_ARGUMENT, parser1, sent, rest))
               (vl_http_error_response sends (if code = 0 then 400 else code))
         | (VL_HTTP_PARSE_NEED_MORE, parser1) \<Rightarrow>
             if shutdown then Some (VL_ERROR_CANCELLED, parser1, [], sends)
             else vl_http_read_request recvs sends parser1))"

text \<open>The bytes a handler finds through the \<^verbatim>\<open>body\<close> pointer of its request, which points into the parser's buffer.\<close>

definition request_bytes :: "vl_http_parser \<Rightarrow> vl_http_request \<Rightarrow> string" where
  "request_bytes parser request =
     (case (hr_body request, hp_buffer parser) of
        (Some offset, Some buffer) \<Rightarrow> take (hr_body_length request) (drop offset buffer)
      | _ \<Rightarrow> [])"

definition vl_http_connection_run ::
  "bool \<Rightarrow> vl_http_server option \<Rightarrow> recv_answer list \<Rightarrow> send_answers \<Rightarrow> int \<Rightarrow> (vl_status \<times> string) option" where
  "vl_http_connection_run malloc_ok server recvs sends fd =
     (case server of
        None \<Rightarrow> Some (VL_ERROR_INVALID_ARGUMENT, [])
      | Some s \<Rightarrow>
          if fd < 0 then Some (VL_ERROR_INVALID_ARGUMENT, [])
          else
            (case vl_http_read_request recvs sends (vl_http_parser_init malloc_ok (Some (hs_config s))) of
               None \<Rightarrow> None
             | Some (status, parser, sent, sends1) \<Rightarrow>
                 if status \<noteq> VL_OK
                 then Some (if status = VL_ERROR_INVALID_ARGUMENT then VL_OK else status, sent)
                 else
                   (case vl_http_parser_request (Some parser) of
                      None \<Rightarrow> Some (VL_ERROR_INVALID_STATE, sent)
                    | Some request \<Rightarrow>
                        (case vl_http_find_route server (Some (hr_method request)) (Some (hr_path request)) of
                           None \<Rightarrow> map_option (\<lambda>(st, out, rest). (st, out)) (vl_http_error_response sends1 404)
                         | Some route \<Rightarrow>
                             let response = re_handler route request (request_bytes parser request)
                                   (vl_http_response_init\<lparr>rs_keep_alive := hr_keep_alive request\<rparr>) (re_user_data route)
                             in map_option (\<lambda>(st, out, rest). (st, out)) (vl_http_response_write sends1 response)))))"

text \<open>The task of a connection answers the bytes it has written, the server and the registry of descriptors; \<open>close_ok\<close> is the
  kernel's answer to \<^verbatim>\<open>close\<close>.\<close>

definition vl_http_connection_task ::
  "bool \<Rightarrow> bool \<Rightarrow> recv_answer list \<Rightarrow> send_answers \<Rightarrow> int \<Rightarrow> vl_http_server \<Rightarrow> vl_sockets \<Rightarrow>
   (string \<times> vl_http_server \<times> vl_sockets) option" where
  "vl_http_connection_task malloc_ok close_ok recvs sends fd s so =
     map_option (\<lambda>(status, out).
         (out, s\<lparr>hs_active_connections := hs_active_connections s - 1\<rparr>, snd (vl_socket_close close_ok fd so)))
       (vl_http_connection_run malloc_ok (Some s) recvs sends fd)"

text \<open>\<open>spawn_ok\<close>: \<^verbatim>\<open>vl_spawn\<close> accepted the connection task.\<close>

definition vl_http_spawn_connection ::
  "bool \<Rightarrow> bool \<Rightarrow> vl_http_server option \<Rightarrow> int \<Rightarrow> vl_status \<times> vl_http_server option" where
  "vl_http_spawn_connection calloc_ok spawn_ok server fd =
     (case server of
        None \<Rightarrow> (VL_ERROR_INVALID_ARGUMENT, server)
      | Some s \<Rightarrow>
          if fd < 0 then (VL_ERROR_INVALID_ARGUMENT, server)
          else if hs_shutdown_requested s \<or> unat (hs_active_connections s) \<ge> hc_max_connections (hs_config s)
          then (VL_ERROR_CLOSED, server)
          else if \<not> calloc_ok then (VL_ERROR_OUT_OF_MEMORY, server)
          else
            let s1 = s\<lparr>hs_active_connections := hs_active_connections s + 1\<rparr> in
            if \<not> spawn_ok
            then (VL_ERROR_INVALID_STATE, Some (s1\<lparr>hs_active_connections := hs_active_connections s1 - 1\<rparr>))
            else (VL_OK, Some s1))"

definition vl_http_server_request_shutdown :: "vl_http_server option \<Rightarrow> vl_http_server option" where
  "vl_http_server_request_shutdown server = map_option (\<lambda>s. s\<lparr>hs_shutdown_requested := True\<rparr>) server"

text \<open>\<open>listen\<close> is the answer of \<^verbatim>\<open>vl_socket_listen_loopback\<close>.\<close>

definition vl_http_server_listen_loopback :: "int \<Rightarrow> vl_http_server option \<Rightarrow> int + vl_status" where
  "vl_http_server_listen_loopback listen server =
     (case server of
        None \<Rightarrow> Inr VL_ERROR_INVALID_ARGUMENT
      | Some s \<Rightarrow> if hs_shutdown_requested s then Inr VL_ERROR_INVALID_ARGUMENT else Inl listen)"

end
