(* ===== verification/Http_Service.thy ===== *)
theory Http_Service
  imports Http_Server "HOL-Library.Sublist"
begin

text \<open>
  What a client of the HTTP server observes: the bytes of a response arrive exactly and in order
  whatever the kernel takes at a time, the first matching route answers, and a request received in any
  pieces is answered with its handler's response or, when it is not acceptable, with the error.
\<close>

section \<open>Sending\<close>

lemma send_all_sent:
  assumes "vl_http_send_all answers data = Some (st, sent, rest)"
  shows "prefix sent data \<and> (st = VL_OK \<longrightarrow> sent = data) \<and> (st \<noteq> VL_OK \<longrightarrow> st = VL_ERROR_SYSTEM)"
  using assms
proof (induction answers data arbitrary: st sent rest rule: vl_http_send_all.induct)
  case (3 status result answers x xs)
  show ?case
  proof (cases "status \<noteq> VL_OK \<or> result < 0")
    case False
    then obtain st' sent' where s: "vl_http_send_all answers (drop (nat result) (x # xs)) = Some (st', sent', rest)"
        "st = st'" "sent = take (nat result) (x # xs) @ sent'"
      using "3.prems" by auto
    from "3.IH" [OF False s(1)] have IH: "prefix sent' (drop (nat result) (x # xs))" "st' = VL_OK \<longrightarrow> sent' = drop (nat result) (x # xs)"
        "st' \<noteq> VL_OK \<longrightarrow> st' = VL_ERROR_SYSTEM" by simp_all
    have "prefix sent (take (nat result) (x # xs) @ drop (nat result) (x # xs))" unfolding s(3) using IH(1) by (simp only: same_prefix_prefix)
    then show ?thesis using IH(2,3) s(2,3) by simp
  qed (use "3.prems" in auto)
qed auto

text \<open>A kernel that takes at least one byte each time.\<close>

definition willing :: "send_answers \<Rightarrow> bool" where
  "willing answers \<longleftrightarrow> list_all (\<lambda>(st, n). st = VL_OK \<and> 1 \<le> n) answers"

lemma send_all_willing:
  assumes "willing answers" "length data \<le> length answers"
  shows "\<exists>rest. vl_http_send_all answers data = Some (VL_OK, data, rest) \<and> willing rest \<and> length answers \<le> length rest + length data"
  using assms
proof (induction answers data rule: vl_http_send_all.induct)
  case (3 status result answers x xs)
  then have ok: "status = VL_OK" "1 \<le> result" "willing answers" by (simp_all add: willing_def)
  have "length (drop (nat result) (x # xs)) \<le> length answers" using "3.prems"(2) ok(2) by simp
  then obtain rest where "vl_http_send_all answers (drop (nat result) (x # xs)) = Some (VL_OK, drop (nat result) (x # xs), rest)"
      "willing rest" "length answers \<le> length rest + length (drop (nat result) (x # xs))"
    using "3.IH" ok by fastforce
  then show ?case using ok by auto
qed auto

lemma send_parts_sent:
  assumes "send_parts answers parts = Some (st, sent, rest)"
  shows "prefix sent (concat parts) \<and> (st = VL_OK \<longrightarrow> sent = concat parts) \<and> (st \<noteq> VL_OK \<longrightarrow> st = VL_ERROR_SYSTEM)"
  using assms
proof (induction answers parts arbitrary: st sent rest rule: send_parts.induct)
  case (2 answers part parts)
  then obtain st1 sent1 rest1 where 1: "vl_http_send_all answers part = Some (st1, sent1, rest1)" by (auto split: option.splits)
  note s = send_all_sent [OF 1]
  show ?case
  proof (cases "st1 = VL_OK")
    case True
    then obtain st2 sent2 where 3: "send_parts rest1 parts = Some (st2, sent2, rest)" "st = st2" "sent = sent1 @ sent2"
      using "2.prems" 1 by auto
    then show ?thesis using "2.IH" [OF 1 refl refl, of st2 sent2 rest] s True by simp
  next
    case False
    then have "st = VL_ERROR_SYSTEM" "sent = sent1" using "2.prems" 1 by simp_all
    then show ?thesis using s by (simp add: prefix_order.trans [OF _ prefixI])
  qed
qed simp

lemma send_parts_willing:
  assumes "willing answers" "length (concat parts) \<le> length answers"
  shows "\<exists>rest. send_parts answers parts = Some (VL_OK, concat parts, rest)"
  using assms
proof (induction parts arbitrary: answers)
  case (Cons part parts)
  then obtain rest where r: "vl_http_send_all answers part = Some (VL_OK, part, rest)" "willing rest" "length answers \<le> length rest + length part"
    using send_all_willing [of answers part] by auto
  moreover obtain rest' where "send_parts rest parts = Some (VL_OK, concat parts, rest')" using Cons r by fastforce
  ultimately show ?case by simp
qed simp

section \<open>Responses\<close>

text \<open>Responses made with the functions of the interface.\<close>

definition response_ok :: "vl_http_response \<Rightarrow> bool" where
  "response_ok r \<longleftrightarrow> 100 \<le> rs_status r \<and> rs_status r \<le> 599 \<and> rs_reason r = vl_http_reason_phrase (rs_status r)
     \<and> length (rs_body r) < VL_HTTP_RESPONSE_BODY"

definition wire :: "vl_http_response \<Rightarrow> string" where
  "wire r = response_head r @ concat (body_parts r)"

lemma response_ok_make:
  "response_ok vl_http_response_init"
  "response_ok r \<Longrightarrow> response_ok (snd (vl_http_response_set_status r status))"
  "response_ok r \<Longrightarrow> response_ok (snd (vl_http_response_set_body r body len))"
  "response_ok r \<Longrightarrow> response_ok (r\<lparr>rs_keep_alive := b\<rparr>)" "response_ok r \<Longrightarrow> response_ok (r\<lparr>rs_chunked := b\<rparr>)"
  by (auto simp: response_ok_def vl_http_response_init_def vl_http_response_set_status_def vl_http_response_set_body_def
      VL_HTTP_RESPONSE_BODY_def split: option.splits)

lemma reason_length: "length (vl_http_reason_phrase status) \<le> 31"
  by (simp add: vl_http_reason_phrase_def)

lemma head_fits:
  assumes "response_ok r"
  shows "length (response_head r) < 512"
proof -
  have "nat (rs_status r) < 10 ^ 3" using assms by (simp add: response_ok_def nat_less_iff)
  then have "length (decimal (nat (rs_status r))) \<le> 3" by (intro decimal_length) simp_all
  moreover have "length (decimal (length (rs_body r))) \<le> 4"
    using assms by (intro decimal_length) (simp_all add: response_ok_def VL_HTTP_RESPONSE_BODY_def)
  moreover have "length (rs_reason r) \<le> 31" using assms reason_length by (simp add: response_ok_def)
  ultimately show ?thesis using assms by (simp add: response_head_def signed_decimal_def response_ok_def)
qed

lemma hexadecimal_length: "0 < k \<Longrightarrow> n < 16 ^ k \<Longrightarrow> length (hexadecimal n) \<le> k"
proof (induction k arbitrary: n)
  case (Suc k)
  show ?case
  proof (cases "n < 16")
    case True
    then show ?thesis by (subst hexadecimal.simps) simp
  next
    case False
    then have "n div 16 < 16 ^ k" "k \<noteq> 0" using Suc.prems(2) by (auto simp: less_mult_imp_div_less mult.commute intro: gr0I)
    then show ?thesis using Suc.IH [of "n div 16"] False by (subst hexadecimal.simps) simp
  qed
qed simp

lemma response_write_parts:
  assumes "response_ok r"
  shows "vl_http_response_write answers r = send_parts answers (response_head r # body_parts r)"
proof -
  have "length (hexadecimal (length (rs_body r))) \<le> 3"
    using assms by (intro hexadecimal_length) (simp_all add: response_ok_def VL_HTTP_RESPONSE_BODY_def)
  then show ?thesis using head_fits [OF assms] by (simp add: vl_http_response_write_def)
qed

lemma response_written:
  assumes "response_ok r" "willing answers" "length (wire r) \<le> length answers"
  shows "\<exists>rest. vl_http_response_write answers r = Some (VL_OK, wire r, rest)"
  using send_parts_willing [OF assms(2), of "response_head r # body_parts r"] assms(3)
  by (simp add: response_write_parts [OF assms(1)] wire_def)

section \<open>Connections\<close>

lemma parse_head_keeps:
  assumes "vl_http_parse_head p buffer = (st, p')"
  shows "hp_complete p' = hp_complete p \<and> hp_error p' = hp_error p"
proof (cases "strstr_crlf buffer")
  case (Some n)
  obtain st1 line r1 where 1: "vl_http_parse_request_line (hp_config p) (take n buffer) (hp_request p) = (st1, line, r1)" by (metis prod_cases3)
  obtain st2 rest r2 where 2: "vl_http_parse_headers False (drop (n + 2) buffer) r1 = (st2, rest, r2)" by (metis prod_cases3)
  show ?thesis using assms Some 1 2 by (auto simp: vl_http_parse_head_def Let_def split: if_splits)
qed (use assms in \<open>simp add: vl_http_parse_head_def\<close>)

lemma feed_status:
  assumes "\<not> http_done p" "vl_http_parser_feed p data = (st, q)"
  shows "st = (if hp_error q \<noteq> VL_HTTP_ERROR_NONE then VL_HTTP_PARSE_ERROR
    else if hp_complete q then VL_HTTP_PARSE_COMPLETE else VL_HTTP_PARSE_NEED_MORE)"
proof -
  have p: "\<not> hp_complete p" "hp_error p = VL_HTTP_ERROR_NONE" using assms(1) by (simp_all add: http_done_def)
  show ?thesis
  proof (cases "hp_buffer p")
    case (Some old)
    let ?b = "old @ data"
    show ?thesis
    proof (cases "vl_http_find_header_end ?b")
      case None
      then show ?thesis using assms(2) p Some by (auto simp: vl_http_parser_feed_def vl_http_set_error_def feed_body_def Let_def split: if_splits)
    next
      case (Some he)
      obtain st3 p3 where h: "vl_http_parse_head (p\<lparr>hp_buffer := Some ?b, hp_header_end := he\<rparr>) ?b = (st3, p3)" by fastforce
      then show ?thesis
        using assms(2) p \<open>hp_buffer p = Some old\<close> Some parse_head_keeps [OF h]
        by (auto simp: vl_http_parser_feed_def vl_http_set_error_def feed_body_def Let_def split: if_splits)
    qed
  qed (use assms(2) p in \<open>auto simp: vl_http_parser_feed_def vl_http_set_error_def\<close>)
qed

abbreviation received :: "string \<Rightarrow> recv_answer" where
  "received piece \<equiv> Recv VL_OK (int (length piece)) piece False"

text \<open>Reading goes on until the request is complete or rejected.\<close>

lemma read_pieces:
  assumes "\<not> http_done p" "http_done (feeds p pieces)" "[] \<notin> set pieces"
  shows "\<exists>q. q = feeds p pieces \<and>
    vl_http_read_request (map received pieces) sends p =
     (if hp_error q = VL_HTTP_ERROR_NONE then Some (VL_OK, q, [], sends)
      else map_option (\<lambda>(st, sent, rest). (VL_ERROR_INVALID_ARGUMENT, q, sent, rest))
             (vl_http_error_response sends (vl_http_error_code (hp_error q))))"
  using assms
proof (induction pieces arbitrary: p)
  case (Cons c cs)
  obtain st q where q: "vl_http_parser_feed p c = (st, q)" by fastforce
  note st = feed_status [OF Cons.prems(1) q]
  have len: "\<not> int (length c) \<le> 0" using Cons.prems(3) by auto
  show ?case
  proof (cases "http_done q")
    case True
    then have "feeds p (c # cs) = q" using q feeds_done by simp
    moreover have "vl_http_error_code e \<noteq> 0" if "e \<noteq> VL_HTTP_ERROR_NONE" for e using that by (cases e) simp_all
    ultimately show ?thesis
      using True q st len by (intro exI [of _ q]) (auto simp: http_done_def vl_http_parser_error_def Let_def)
  next
    case False
    then have "vl_http_read_request (map received (c # cs)) sends p = vl_http_read_request (map received cs) sends q"
      using q st len by (auto simp: http_done_def)
    moreover have "feeds p (c # cs) = feeds q cs" using q by simp
    ultimately show ?thesis using Cons.IH [OF False] Cons.prems(2,3) by simp
  qed
qed simp

definition error_page :: "int \<Rightarrow> vl_http_response" where
  "error_page status =
     vl_http_response_init\<lparr>rs_status := status, rs_reason := vl_http_reason_phrase status,
       rs_body := (if status = 400 then ''Bad Request'' else if status = 413 then ''Payload Too Large''
                   else if status = 431 then ''Header Too Large'' else ''Not Found'')\<rparr>"

lemma error_response_page:
  "100 \<le> status \<Longrightarrow> status \<le> 599 \<Longrightarrow> vl_http_error_response answers status = vl_http_response_write answers (error_page status)"
  by (simp add: vl_http_error_response_def vl_http_response_set_status_def vl_http_response_set_body_def VL_HTTP_RESPONSE_BODY_def
      error_page_def Let_def)

lemma error_page_ok: "100 \<le> status \<Longrightarrow> status \<le> 599 \<Longrightarrow> response_ok (error_page status)"
  by (simp add: response_ok_def error_page_def VL_HTTP_RESPONSE_BODY_def)

lemma error_code_range: "e \<noteq> VL_HTTP_ERROR_NONE \<Longrightarrow> 100 \<le> vl_http_error_code e \<and> vl_http_error_code e \<le> 599"
  by (cases e) simp_all

lemma view_fields: "http_view p = (e, b, r, body) \<longleftrightarrow> hp_error p = e \<and> hp_complete p = b \<and> hp_request p = r \<and> http_body p = body"
  by (simp add: http_view_def)

lemma init_not_done: "\<not> http_done (vl_http_parser_init True config)"
  using init_fresh by (simp add: http_fresh_def)

lemma init_config: "hp_config (vl_http_parser_init True (Some c)) = http_clamp c"
  by (simp add: vl_http_parser_init_def Let_def)

lemma serve_request:
  assumes "sendable (http_clamp (hs_config s)) meth path minor hs body"
    "concat pieces = render meth path minor (hs @ [length_header body]) @ body" "[] \<notin> set pieces"
  shows "\<exists>q. vl_http_read_request (map received pieces) sends (vl_http_parser_init True (Some (hs_config s))) = Some (VL_OK, q, [], sends)
    \<and> vl_http_parser_request (Some q) = Some (sent_request meth path minor hs body)
    \<and> request_bytes q (sent_request meth path minor hs body) = body"
proof -
  let ?p = "vl_http_parser_init True (Some (hs_config s))"
  have "sendable (hp_config ?p) meth path minor hs body" using assms(1) by (simp add: init_config)
  from feed_rendered [OF this init_fresh init_fields] obtain q0 where q0:
      "vl_http_parser_feed ?p (concat pieces) = (VL_HTTP_PARSE_COMPLETE, q0)" "hp_request q0 = sent_request meth path minor hs body"
      "hp_error q0 = VL_HTTP_ERROR_NONE" "http_body q0 = Some body"
    using assms(2) by auto
  have len: "length (concat pieces) \<le> hp_capacity ?p" unfolding init_fields(2) init_config using assms(1,2) by (simp add: sendable_def)
  have "hp_complete q0" using q0(4) by (simp add: http_body_def split: if_splits)
  then have view: "http_view (feeds ?p pieces) = (VL_HTTP_ERROR_NONE, True, sent_request meth path minor hs body, Some body)"
    using feeds_view [OF init_fresh len] q0 by (simp add: view_fields http_view_def)
  then have "http_done (feeds ?p pieces)" by (simp add: view_fields http_done_def)
  note read = read_pieces [OF init_not_done this assms(3), of sends]
  have "parser_inv (feeds ?p pieces)" by (intro feeds_inv init_inv)
  then have "hr_body (hp_request (feeds ?p pieces)) = Some (hp_header_end (feeds ?p pieces))" "hp_buffer (feeds ?p pieces) \<noteq> None"
    using view by (auto simp: parser_inv_def parser_ok_def view_fields)
  then have "request_bytes (feeds ?p pieces) (sent_request meth path minor hs body) = body"
    using view by (auto simp: view_fields http_body_def request_bytes_def)
  then show ?thesis using read view by (auto simp: view_fields vl_http_parser_request_def)
qed

text \<open>A server with one route.\<close>

definition demo_server :: "handler \<Rightarrow> vl_http_server" where
  "demo_server h = \<lparr>hs_config = vl_http_config_default,
     hs_routes = [\<lparr>re_method = ''POST'', re_path = ''/a'', re_handler = h, re_user_data = 0\<rparr>],
     hs_active_connections = 0, hs_shutdown_requested = False\<rparr>"

section \<open>Properties\<close>

text \<open>C28: A response arrives exactly.  For a response made with the interface, whatever the kernel takes at a
  time, the bytes given to it are a prefix of the response's head and body, all of them when the call
  succeeds, and the only failure is a failed send; and if the kernel takes at least one byte each time, the
  call does return, with success.\<close>

theorem http_response_exact:
  assumes "response_ok r"
  shows "(\<forall>answers st out rest. vl_http_response_write answers r = Some (st, out, rest) \<longrightarrow>
      prefix out (wire r) \<and> (st = VL_OK \<and> out = wire r \<or> st = VL_ERROR_SYSTEM))
    \<and> (\<forall>answers. willing answers \<and> length (wire r) \<le> length answers \<longrightarrow>
      (\<exists>rest. vl_http_response_write answers r = Some (VL_OK, wire r, rest)))"
  using send_parts_sent [of _ "response_head r # body_parts r"] response_written [OF assms]
  by (fastforce simp: response_write_parts [OF assms] wire_def)

theorem http_response_exact_witness:
  "\<exists>rest. vl_http_response_write (replicate 100 (VL_OK, 7)) (error_page 404) = Some (VL_OK, wire (error_page 404), rest)"
proof -
  have "response_ok (error_page 404)" by (rule error_page_ok) simp_all
  moreover have "willing (replicate 100 (VL_OK, 7))" by (simp add: willing_def list_all_length)
  moreover have "length (wire (error_page 404)) \<le> length (replicate 100 (VL_OK, 7 :: int))"
    by (simp add: wire_def response_head_def body_parts_def error_page_def vl_http_response_init_def vl_http_reason_phrase_def
        signed_decimal_def decimal.simps)
  ultimately show ?thesis using http_response_exact by blast
qed

text \<open>C29: A request is answered by its handler.  A client sends a request within the limits, in any pieces, and
  the first matching route's handler, called with that request and the bytes of its body, makes a response with the interface; then, if the kernel takes at
  least one byte each time, the connection's task returns and has written exactly that response to the
  request that was sent.\<close>

theorem http_serves:
  assumes "sendable (http_clamp (hs_config s)) meth path minor hs body"
    "concat pieces = render meth path minor (hs @ [length_header body]) @ body" "[] \<notin> set pieces" "0 \<le> fd"
    "vl_http_find_route (Some s) (Some meth) (Some path) = Some route"
    "response = re_handler route (sent_request meth path minor hs body) body
       (vl_http_response_init\<lparr>rs_keep_alive := (minor = 1)\<rparr>) (re_user_data route)"
    "response_ok response" "willing sends" "length (wire response) \<le> length sends"
  shows "vl_http_connection_run True (Some s) (map received pieces) sends fd = Some (VL_OK, wire response)"
proof -
  obtain q where q: "vl_http_read_request (map received pieces) sends (vl_http_parser_init True (Some (hs_config s))) = Some (VL_OK, q, [], sends)"
      "vl_http_parser_request (Some q) = Some (sent_request meth path minor hs body)" "request_bytes q (sent_request meth path minor hs body) = body"
    using serve_request [OF assms(1-3)] by blast
  obtain rest where "vl_http_response_write sends response = Some (VL_OK, wire response, rest)"
    using response_written [OF assms(7-9)] by blast
  then show ?thesis
    using q assms(4,5) unfolding assms(6) by (simp add: vl_http_connection_run_def sent_request_def Let_def)
qed

theorem http_serves_witness:
  "vl_http_connection_run True (Some (demo_server (\<lambda>req bytes resp u. resp\<lparr>rs_body := bytes\<rparr>)))
     (map received [render ''POST'' ''/a'' 1 [(''Host'', ''x''), length_header ''hello''], ''hel'', ''lo'']) (replicate 200 (VL_OK, 5)) 3
   = Some (VL_OK, wire (vl_http_response_init\<lparr>rs_keep_alive := True, rs_body := ''hello''\<rparr>))"
proof (rule http_serves [where hs = "[(''Host'', ''x'')]" and body = "''hello''" and minor = 1 and meth = "''POST''" and path = "''/a''"])
  show "sendable (http_clamp (hs_config (demo_server (\<lambda>req bytes resp u. resp\<lparr>rs_body := bytes\<rparr>)))) ''POST'' ''/a'' 1 [(''Host'', ''x'')] ''hello''"
    by (simp add: sendable_def demo_server_def http_clamp_def vl_http_config_default_def http_limits plain_def header_plain_def
        header_ordinary_def render_line_def render_def render_header_def length_header_def decimal.simps isspace_def of_char_def
        tolower_def Let_def)
  show "[] \<notin> set [render ''POST'' ''/a'' 1 [(''Host'', ''x''), length_header ''hello''], ''hel'', ''lo'']" by (simp add: render_def)
  show "vl_http_find_route (Some (demo_server (\<lambda>req bytes resp u. resp\<lparr>rs_body := bytes\<rparr>))) (Some ''POST'') (Some ''/a'')
      = Some \<lparr>re_method = ''POST'', re_path = ''/a'', re_handler = (\<lambda>req bytes resp u. resp\<lparr>rs_body := bytes\<rparr>), re_user_data = 0\<rparr>"
    by (simp add: vl_http_find_route_def demo_server_def)
  show "response_ok (vl_http_response_init\<lparr>rs_keep_alive := True, rs_body := ''hello''\<rparr>)"
    by (simp add: response_ok_def vl_http_response_init_def VL_HTTP_RESPONSE_BODY_def)
  show "willing (replicate 200 (VL_OK, 5))" by (simp add: willing_def list_all_length)
  show "length (wire (vl_http_response_init\<lparr>rs_keep_alive := True, rs_body := ''hello''\<rparr>)) \<le> length (replicate 200 (VL_OK, 5 :: int))"
    by (simp add: wire_def response_head_def body_parts_def vl_http_response_init_def vl_http_reason_phrase_def
        signed_decimal_def decimal.simps)
qed simp_all

text \<open>C30: A request that is not acceptable is answered with the error.  If what arrives, within the size of the
  buffer, makes the parser report an error, the connection's task returns and has written the page of that
  error; if it is acceptable but no route matches, the page for 404.\<close>

theorem http_rejects:
  assumes "length (concat pieces) \<le> hp_capacity (vl_http_parser_init True (Some (hs_config s)))" "[] \<notin> set pieces" "0 \<le> fd"
    "q = snd (vl_http_parser_feed (vl_http_parser_init True (Some (hs_config s))) (concat pieces))" "http_done q"
    "status = (if hp_error q \<noteq> VL_HTTP_ERROR_NONE then vl_http_error_code (hp_error q) else 404)"
    "hp_error q = VL_HTTP_ERROR_NONE \<longrightarrow> vl_http_find_route (Some s) (Some (hr_method (hp_request q))) (Some (hr_path (hp_request q))) = None"
    "willing sends" "length (wire (error_page status)) \<le> length sends"
  shows "vl_http_connection_run True (Some s) (map received pieces) sends fd = Some (VL_OK, wire (error_page status))"
proof -
  let ?p = "vl_http_parser_init True (Some (hs_config s))"
  have view: "http_view (feeds ?p pieces) = http_view q" using feeds_view [OF init_fresh assms(1)] assms(4) by simp
  then have "http_done (feeds ?p pieces)" using assms(5) by (simp add: http_view_def http_done_def)
  from read_pieces [OF init_not_done this assms(2), of sends] obtain q' where q': "http_view q' = http_view q"
      "vl_http_read_request (map received pieces) sends ?p = (if hp_error q' = VL_HTTP_ERROR_NONE then Some (VL_OK, q', [], sends)
        else map_option (\<lambda>(st, sent, rest). (VL_ERROR_INVALID_ARGUMENT, q', sent, rest))
             (vl_http_error_response sends (vl_http_error_code (hp_error q'))))"
    using view by auto
  have same: "hp_error q' = hp_error q" "hp_complete q' = hp_complete q" "hp_request q' = hp_request q" using q'(1) by (simp_all add: http_view_def)
  have range: "100 \<le> status" "status \<le> 599" using assms(6) error_code_range by (auto split: if_splits)
  obtain rest where "vl_http_response_write sends (error_page status) = Some (VL_OK, wire (error_page status), rest)"
    using response_written [OF error_page_ok [OF range] assms(8,9)] by blast
  then have err: "vl_http_error_response sends status = Some (VL_OK, wire (error_page status), rest)"
    using error_response_page [OF range] by simp
  show ?thesis
  proof (cases "hp_error q = VL_HTTP_ERROR_NONE")
    case True
    then show ?thesis
      using q'(2) same assms(3,5,6,7) err by (simp add: vl_http_connection_run_def vl_http_parser_request_def http_done_def)
  next
    case False
    then show ?thesis using q'(2) same assms(3,6) err by (simp add: vl_http_connection_run_def)
  qed
qed

theorem http_rejects_witness:
  "vl_http_connection_run True (Some (demo_server (\<lambda>req bytes resp u. resp))) (map received [''X'', [CR, LF, CR, LF]]) (replicate 200 (VL_OK, 5)) 3
   = Some (VL_OK, wire (error_page 400))"
proof -
  let ?p = "vl_http_parser_init True (Some (hs_config (demo_server (\<lambda>req bytes resp u. resp))))"
  let ?q = "snd (vl_http_parser_feed ?p (concat [''X'', [CR, LF, CR, LF]]))"
  have cap: "length (concat [''X'', [CR, LF, CR, LF]]) \<le> hp_capacity ?p"
    by (simp add: vl_http_parser_init_def demo_server_def http_clamp_def vl_http_config_default_def http_limits Let_def)
  have e: "hp_error ?q = VL_HTTP_ERROR_BAD_REQUEST"
    by (simp add: vl_http_parser_feed_def vl_http_parser_init_def demo_server_def http_clamp_def vl_http_config_default_def http_limits
        Let_def vl_http_find_header_end_def vl_http_parse_head_def vl_http_parse_request_line_def vl_http_set_error_def vl_http_request_zero_def)
  have "length (wire (error_page 400)) \<le> length (replicate 200 (VL_OK, 5 :: int))"
    by (simp add: wire_def response_head_def body_parts_def error_page_def vl_http_response_init_def vl_http_reason_phrase_def
        signed_decimal_def decimal.simps)
  moreover have "willing (replicate 200 (VL_OK, 5))" by (simp add: willing_def list_all_length)
  moreover have "http_done ?q" using e by (simp add: http_done_def)
  ultimately show ?thesis using http_rejects [OF cap, of 3 ?q 400 "replicate 200 (VL_OK, 5)"] e by simp
qed

text \<open>Routes are found as registered.  A registration succeeds exactly when method and path fit and the
  table has room.  A successful registration adds exactly the new route: a lookup finds
  what it found before, and otherwise the new route if method and path match; a registration that is refused
  changes nothing; and there are never more routes than the table has room for.\<close>

theorem http_route_lookup:
  assumes "vl_http_route (Some s) (Some m) (Some p) (Some h) u = (st, Some s')" "length (hs_routes s) \<le> VL_HTTP_ROUTE_CAPACITY"
  shows "(st = VL_OK \<longleftrightarrow> length m < VL_HTTP_MAX_METHOD \<and> length p < VL_HTTP_MAX_PATH
        \<and> length (hs_routes s) < VL_HTTP_ROUTE_CAPACITY)
    \<and> length (hs_routes s') \<le> VL_HTTP_ROUTE_CAPACITY \<and> (st \<noteq> VL_OK \<longrightarrow> s' = s)
    \<and> (st = VL_OK \<longrightarrow> vl_http_find_route (Some s') (Some m') (Some p') =
        (case vl_http_find_route (Some s) (Some m') (Some p') of
           Some route \<Rightarrow> Some route
         | None \<Rightarrow> if m = m' \<and> p = p' then Some \<lparr>re_method = m, re_path = p, re_handler = h, re_user_data = u\<rparr> else None))"
proof -
  have "find P (xs @ ys) = (case find P xs of Some x \<Rightarrow> Some x | None \<Rightarrow> find P ys)" for P and xs ys :: "vl_http_route_entry list"
    by (induction xs) simp_all
  then show ?thesis using assms by (auto simp: vl_http_route_def vl_http_find_route_def split: if_splits option.split)
qed

theorem http_route_lookup_witness:
  "\<exists>s'. vl_http_route (Some (demo_server (\<lambda>req bytes resp u. resp))) (Some ''GET'') (Some ''/b'') (Some (\<lambda>req bytes resp u. resp)) 7 = (VL_OK, Some s')
     \<and> vl_http_find_route (Some s') (Some ''GET'') (Some ''/b'')
       = Some \<lparr>re_method = ''GET'', re_path = ''/b'', re_handler = (\<lambda>req bytes resp u. resp), re_user_data = 7\<rparr>"
proof -
  let ?s = "demo_server (\<lambda>req bytes resp u. resp)"
  obtain s' where s': "vl_http_route (Some ?s) (Some ''GET'') (Some ''/b'') (Some (\<lambda>req bytes resp u. resp)) 7 = (VL_OK, Some s')"
    by (simp add: vl_http_route_def demo_server_def http_limits VL_HTTP_ROUTE_CAPACITY_def)
  have "length (hs_routes ?s) \<le> VL_HTTP_ROUTE_CAPACITY" "vl_http_find_route (Some ?s) (Some ''GET'') (Some ''/b'') = None"
    by (simp_all add: vl_http_find_route_def demo_server_def VL_HTTP_ROUTE_CAPACITY_def)
  then show ?thesis using http_route_lookup [OF s', of "''GET''" "''/b''"] s' by simp
qed

end
