(* ===== verification/Memory_Base.thy ===== *)
theory Memory_Base
  imports Veloco_Prelude
begin

text \<open>
  The foundation of the allocator (\<^verbatim>\<open>src/memory\<close>): the state of \<^verbatim>\<open>memory_internal.h\<close>, byte memory with
  pointers stored in it, the size classes and the page heap.

  An address is a machine word and \<open>0\<close> is NULL.  The memory is split in three: the bytes of objects
  (\<open>ms_mem\<close>), in which the free lists keep their links; the object headers (\<open>ms_headers\<close>); and the
  span records (\<open>ms_spans\<close>).  That these do not overlap is a theorem on the layout of the spans.  The
  lists of spans and of large allocations, linked through fields of those records, are HOL lists.

  The answers of the kernel are an argument \<open>os\<close> of the operations; \<open>ms_mappings\<close> is what is mapped.
  The model is of the default build, without \<^verbatim>\<open>VELOCO_MEMORY_DEBUG\<close>.
\<close>

section \<open>State\<close>

type_synonym addr = usize
type_synonym byte = "8 word"
type_synonym u32 = "32 word"

abbreviation NULL :: addr where "NULL \<equiv> 0"

definition VL_SIZE_CLASS_COUNT :: nat where "VL_SIZE_CLASS_COUNT = 42"
definition VL_MEMORY_ALIGNMENT :: usize where "VL_MEMORY_ALIGNMENT = 16"
definition VL_CACHE_MAX :: usize where "VL_CACHE_MAX = 64"
definition VL_CACHE_REFILL :: nat where "VL_CACHE_REFILL = 32"
definition VL_MEMORY_MAX_P :: nat where "VL_MEMORY_MAX_P = 64"

definition VL_OBJECT_MAGIC :: u64 where "VL_OBJECT_MAGIC = 0x56454c4f434f4d45"
definition VL_OBJECT_ALLOCATED :: u32 where "VL_OBJECT_ALLOCATED = 1"
definition VL_OBJECT_FREE :: u32 where "VL_OBJECT_FREE = 2"
definition VL_OBJECT_SMALL :: u32 where "VL_OBJECT_SMALL = 1"
definition VL_OBJECT_LARGE :: u32 where "VL_OBJECT_LARGE = 2"

record vl_object_header =
  oh_magic :: u64
  oh_kind :: u32
  oh_state :: u32
  oh_requested_size :: usize
  oh_capacity :: usize
  oh_owner_p :: nat
  oh_reserved :: usize
  oh_span :: addr
  oh_mapping_base :: addr
  oh_mapping_size :: usize

text \<open>\<^verbatim>\<open>sizeof(vl_object_header_t)\<close>: eight words, two half words and the link of the large allocations.\<close>

definition header_size :: usize where "header_size = 80"

record vl_span =
  sp_mapping_base :: addr
  sp_mapping_size :: usize
  sp_class_index :: nat
  sp_capacity :: usize
  sp_object_stride :: usize
  sp_object_count :: usize
  sp_central_free_count :: usize
  sp_free_count :: usize
  sp_active_count :: usize
  sp_cached_count :: usize
  sp_owner_p :: nat
  sp_central_free :: addr

record vl_cache =
  vc_head :: addr
  vc_count :: usize

record vl_allocator_stats =
  as_active_bytes :: usize
  as_active_objects :: usize
  as_cache_hits :: usize
  as_central_refills :: usize
  as_mmap_calls :: usize
  as_mapped_bytes :: usize
  as_cross_p_frees :: usize

record vl_memory_state =
  ms_initialized :: bool
  ms_page_size :: usize
  ms_stats :: vl_allocator_stats
  ms_caches :: "nat \<Rightarrow> nat \<Rightarrow> vl_cache"
  ms_remote :: "nat \<Rightarrow> nat \<Rightarrow> vl_cache"
  ms_central :: "nat \<Rightarrow> addr list"
  ms_all_spans :: "addr list"
  ms_large_allocations :: "addr list"
  ms_mem :: "addr \<Rightarrow> byte"
  ms_headers :: "addr \<Rightarrow> vl_object_header"
  ms_spans :: "addr \<Rightarrow> vl_span"
  ms_mappings :: "(addr \<times> usize) list"

definition vl_allocator_stats_zero :: vl_allocator_stats where
  "vl_allocator_stats_zero = \<lparr>as_active_bytes = 0, as_active_objects = 0, as_cache_hits = 0, as_central_refills = 0,
     as_mmap_calls = 0, as_mapped_bytes = 0, as_cross_p_frees = 0\<rparr>"

definition vl_cache_zero :: vl_cache where
  "vl_cache_zero = \<lparr>vc_head = NULL, vc_count = 0\<rparr>"

text \<open>\<^verbatim>\<open>memset(&vl_memory_global, 0, ...)\<close>\<close>

definition clear_global :: "vl_memory_state \<Rightarrow> vl_memory_state" where
  "clear_global st = st\<lparr>ms_initialized := False, ms_page_size := 0, ms_stats := vl_allocator_stats_zero,
     ms_caches := (\<lambda>_ _. vl_cache_zero), ms_remote := (\<lambda>_ _. vl_cache_zero), ms_central := (\<lambda>_. []),
     ms_all_spans := [], ms_large_allocations := []\<rparr>"

definition upd_memory_stats :: "(vl_allocator_stats \<Rightarrow> vl_allocator_stats) \<Rightarrow> vl_memory_state \<Rightarrow> vl_memory_state" where
  "upd_memory_stats f st = st\<lparr>ms_stats := f (ms_stats st)\<rparr>"

definition upd_span :: "(vl_span \<Rightarrow> vl_span) \<Rightarrow> addr \<Rightarrow> vl_memory_state \<Rightarrow> vl_memory_state" where
  "upd_span f b st = st\<lparr>ms_spans := (ms_spans st)(b := f (ms_spans st b))\<rparr>"

definition upd_header :: "(vl_object_header \<Rightarrow> vl_object_header) \<Rightarrow> addr \<Rightarrow> vl_memory_state \<Rightarrow> vl_memory_state" where
  "upd_header f h st = st\<lparr>ms_headers := (ms_headers st)(h := f (ms_headers st h))\<rparr>"

definition vl_object_header_from_user :: "addr \<Rightarrow> addr" where
  "vl_object_header_from_user user = user - header_size"

definition vl_object_user_from_header :: "addr \<Rightarrow> addr" where
  "vl_object_user_from_header header = header + header_size"

section \<open>Pointers in memory\<close>

text \<open>A pointer is stored in eight bytes, the least significant first.\<close>

definition store_ptr :: "addr \<Rightarrow> addr \<Rightarrow> (addr \<Rightarrow> byte) \<Rightarrow> addr \<Rightarrow> byte" where
  "store_ptr a v m = (\<lambda>x. if x - a < 8 then ucast (drop_bit (8 * unat (x - a)) v) else m x)"

definition load_ptr :: "addr \<Rightarrow> (addr \<Rightarrow> byte) \<Rightarrow> addr" where
  "load_ptr a m = foldr (\<lambda>i v. push_bit (8 * i) (ucast (m (a + of_nat i))) OR v) [0..<8] 0"

lemma load_ptr_bit:
  assumes "n < 64"
  shows "bit (load_ptr a m) n \<longleftrightarrow> bit (m (a + of_nat (n div 8))) (n mod 8)"
proof -
  have step: "bit (push_bit (8 * i) (ucast (w :: byte)) :: usize) n \<longleftrightarrow> i = n div 8 \<and> bit w (n mod 8)" for i w
  proof -
    have "8 * i \<le> n \<and> n - 8 * i < 8 \<longleftrightarrow> i = n div 8" by auto
    moreover have "i = n div 8 \<Longrightarrow> n - 8 * i = n mod 8" by (simp add: minus_mult_div_eq_mod)
    moreover have "bit w k \<Longrightarrow> k < 8" for k using bit_imp_le_length [of w k] by simp
    ultimately show ?thesis using assms by (auto simp: bit_push_bit_iff bit_unsigned_iff)
  qed
  have "bit (foldr (\<lambda>i v. push_bit (8 * i) (ucast (m (a + of_nat i))) OR v) is 0 :: usize) n
      \<longleftrightarrow> n div 8 \<in> set is \<and> bit (m (a + of_nat (n div 8))) (n mod 8)" for "is"
    by (induction "is") (auto simp: bit_or_iff step)
  moreover have "n div 8 \<in> set [0..<8]" using assms by auto
  ultimately show ?thesis unfolding load_ptr_def by blast
qed

lemma load_store_ptr [simp]: "load_ptr a (store_ptr a v m) = v"
proof (rule bit_word_eqI)
  fix n assume n: "n < LENGTH(64)"
  then have i: "n div 8 < 8" by simp
  then have u: "unat (of_nat (n div 8) :: usize) = n div 8" by (simp add: unat_of_nat)
  then have "(of_nat (n div 8) :: usize) < 8" using i by (simp add: usize_less_iff)
  moreover have "8 * (n div 8) + n mod 8 = n" by simp
  moreover have "n mod 8 < 8" by simp
  ultimately show "bit (load_ptr a (store_ptr a v m)) n = bit v n"
    using n by (simp add: load_ptr_bit store_ptr_def u bit_unsigned_iff bit_drop_bit_eq)
qed

definition cells :: "addr \<Rightarrow> usize \<Rightarrow> nat set" where
  "cells a n = {unat a..<unat a + unat n}"

lemma cells_offset:
  assumes "unat a + unat n \<le> 2 ^ 64" "x - a < (n :: usize)"
  shows "unat x \<in> cells a n"
proof -
  have "unat (a + (x - a)) = unat a + unat (x - a)"
    using assms by (intro usize_unat_add) (simp add: usize_less_iff)
  then show ?thesis using assms by (simp add: cells_def usize_less_iff)
qed

lemma store_ptr_other:
  assumes "unat a + 8 \<le> 2 ^ 64" "unat x \<notin> cells a 8"
  shows "store_ptr a v m x = m x"
  using cells_offset [of a 8 x] assms by (auto simp: store_ptr_def)

lemma load_ptr_cong:
  assumes "unat a + 8 \<le> 2 ^ 64" "\<And>x. unat x \<in> cells a 8 \<Longrightarrow> m x = m' x"
  shows "load_ptr a m = load_ptr a m'"
proof (rule bit_word_eqI)
  fix n assume n: "n < LENGTH(64)"
  then have u: "unat (of_nat (n div 8) :: usize) = n div 8" and i: "n div 8 < 8" by (auto simp: unat_of_nat)
  then have "unat (a + of_nat (n div 8)) = unat a + n div 8"
    using assms(1) usize_unat_add [of a "of_nat (n div 8)"] by simp
  then have "unat (a + of_nat (n div 8)) \<in> cells a 8" using i by (simp add: cells_def)
  then show "bit (load_ptr a m) n = bit (load_ptr a m') n" using n assms(2) by (simp add: load_ptr_bit)
qed

section \<open>Size classes\<close>

definition vl_size_classes :: "usize list" where
  "vl_size_classes = [
     8, 16, 24, 32, 48, 64, 80, 96, 112, 128,
     160, 192, 224, 256, 320, 384, 448, 512, 640, 768,
     896, 1024, 1280, 1536, 1792, 2048, 2560, 3072, 3584, 4096,
     5120, 6144, 7168, 8192, 10240, 12288, 14336, 16384, 20480, 24576,
     28672, 32768]"

function size_class_search :: "usize \<Rightarrow> nat \<Rightarrow> nat \<Rightarrow> nat" where
  "size_class_search sz low high =
     (if low < high then
        let middle = low + (high - low) div 2 in
        if vl_size_classes ! middle < sz then size_class_search sz (middle + 1) high
        else size_class_search sz low middle
      else low)"
  by pat_completeness auto

termination size_class_search
  by (relation "measure (\<lambda>(sz, low, high). high - low)") auto

declare size_class_search.simps [simp del]

definition vl_size_class_index :: "usize \<Rightarrow> nat" where
  "vl_size_class_index sz = size_class_search sz 0 VL_SIZE_CLASS_COUNT"

definition vl_size_class_capacity :: "nat \<Rightarrow> usize" where
  "vl_size_class_capacity index = (if index < VL_SIZE_CLASS_COUNT then vl_size_classes ! index else 0)"

definition vl_size_class_count :: nat where
  "vl_size_class_count = VL_SIZE_CLASS_COUNT"

lemma size_classes_length [simp]: "length vl_size_classes = VL_SIZE_CLASS_COUNT"
  by (simp add: vl_size_classes_def VL_SIZE_CLASS_COUNT_def)

lemma size_classes_sorted: "sorted vl_size_classes"
  unfolding vl_size_classes_def by (simp only: sorted2 sorted1) simp

lemma size_classes_mono:
  "i \<le> j \<Longrightarrow> j < VL_SIZE_CLASS_COUNT \<Longrightarrow> vl_size_classes ! i \<le> vl_size_classes ! j"
  using sorted_nth_mono [OF size_classes_sorted] by simp

lemma search_correct:
  assumes "high \<le> VL_SIZE_CLASS_COUNT" "low \<le> high"
    "\<And>i. i < low \<Longrightarrow> vl_size_classes ! i < sz"
    "\<And>i. high \<le> i \<Longrightarrow> i < VL_SIZE_CLASS_COUNT \<Longrightarrow> sz \<le> vl_size_classes ! i"
  shows "size_class_search sz low high = length (takeWhile (\<lambda>c. c < sz) vl_size_classes)"
  using assms
proof (induction sz low high rule: size_class_search.induct)
  case (1 sz low high)
  show ?case
  proof (cases "low < high")
    case True
    define mid where "mid = low + (high - low) div 2"
    have mid: "low \<le> mid" "mid < high" "mid < VL_SIZE_CLASS_COUNT"
      using True "1.prems"(1) by (simp_all add: mid_def)
    show ?thesis
    proof (cases "vl_size_classes ! mid < sz")
      case small: True
      have "size_class_search sz (mid + 1) high = length (takeWhile (\<lambda>c. c < sz) vl_size_classes)"
      proof (rule "1.IH"(1) [OF True mid_def small "1.prems"(1)])
        show "vl_size_classes ! i < sz" if "i < mid + 1" for i
        proof -
          have "vl_size_classes ! i \<le> vl_size_classes ! mid" using that mid(3) by (intro size_classes_mono) simp_all
          then show ?thesis using small by (rule order_le_less_trans)
        qed
      qed (use mid "1.prems"(4) in auto)
      then show ?thesis using True small by (subst size_class_search.simps) (simp add: Let_def flip: mid_def)
    next
      case large: False
      have "size_class_search sz low mid = length (takeWhile (\<lambda>c. c < sz) vl_size_classes)"
      proof (rule "1.IH"(2) [OF True mid_def large _ mid(1) "1.prems"(3)])
        show "sz \<le> vl_size_classes ! i" if "mid \<le> i" "i < VL_SIZE_CLASS_COUNT" for i
          using size_classes_mono [OF that] large by (meson not_less order_trans)
      qed (use mid in auto)
      then show ?thesis using True large by (subst size_class_search.simps) (simp add: Let_def flip: mid_def)
    qed
  next
    case False
    then have eq: "low = high" using "1.prems"(2) by simp
    have "takeWhile (\<lambda>c. c < sz) vl_size_classes = take low vl_size_classes"
    proof (rule takeWhile_eq_take_P_nth)
      show "\<And>i. i < low \<Longrightarrow> i < length vl_size_classes \<Longrightarrow> vl_size_classes ! i < sz" by (rule "1.prems"(3))
      show "low < length vl_size_classes \<Longrightarrow> \<not> vl_size_classes ! low < sz" using "1.prems"(4) [of low] eq by simp
    qed
    then show ?thesis using False eq "1.prems"(1) by (subst size_class_search.simps) simp
  qed
qed

lemma index_takeWhile: "vl_size_class_index sz = length (takeWhile (\<lambda>c. c < sz) vl_size_classes)"
  unfolding vl_size_class_index_def by (rule search_correct) simp_all

lemma index_capacity:
  assumes "vl_size_class_index sz < VL_SIZE_CLASS_COUNT"
  shows "sz \<le> vl_size_class_capacity (vl_size_class_index sz)"
proof -
  have "\<not> vl_size_classes ! vl_size_class_index sz < sz"
    using assms unfolding index_takeWhile by (metis nth_length_takeWhile size_classes_length)
  then show ?thesis using assms by (simp add: vl_size_class_capacity_def)
qed

lemma capacity_bounds:
  assumes "c < VL_SIZE_CLASS_COUNT"
  shows "8 \<le> unat (vl_size_class_capacity c)" "unat (vl_size_class_capacity c) \<le> 32768"
proof -
  have "vl_size_classes ! 0 \<le> vl_size_classes ! c" "vl_size_classes ! c \<le> vl_size_classes ! 41"
    using assms size_classes_mono [of 0 c] size_classes_mono [of c 41] by (simp_all add: VL_SIZE_CLASS_COUNT_def)
  moreover have "vl_size_classes ! 0 = 8" "vl_size_classes ! 41 = 32768" by (simp_all add: vl_size_classes_def)
  ultimately show "8 \<le> unat (vl_size_class_capacity c)" "unat (vl_size_class_capacity c) \<le> 32768"
    using assms by (simp_all add: vl_size_class_capacity_def usize_le_iff)
qed

lemma below_index: "i < vl_size_class_index sz \<Longrightarrow> vl_size_classes ! i < sz"
  unfolding index_takeWhile by (metis nth_mem set_takeWhileD takeWhile_nth)

lemma index_le: "vl_size_class_index sz \<le> VL_SIZE_CLASS_COUNT"
  unfolding index_takeWhile using length_takeWhile_le [of _ vl_size_classes] by (metis size_classes_length)

lemma index_small: "vl_size_class_index sz < VL_SIZE_CLASS_COUNT \<longleftrightarrow> sz \<le> 32768"
proof
  assume lt: "vl_size_class_index sz < VL_SIZE_CLASS_COUNT"
  show "sz \<le> 32768" using index_capacity [OF lt] capacity_bounds [OF lt] by (simp add: usize_le_iff)
next
  assume le: "sz \<le> 32768"
  have "vl_size_classes ! 41 = 32768" by (simp add: vl_size_classes_def)
  then have "\<not> 41 < vl_size_class_index sz" using below_index [of 41 sz] le by auto
  then show "vl_size_class_index sz < VL_SIZE_CLASS_COUNT" by (simp add: VL_SIZE_CLASS_COUNT_def)
qed

text \<open>C32: The binary search for a size class gives what the linear search gives, the number of classes that are
  too small.  It is the count of classes for the sizes above \<^verbatim>\<open>VL_MEMORY_SMALL_MAX\<close>, and otherwise the least class
  that holds the size.\<close>

theorem size_class_least:
  "vl_size_class_index sz = length (takeWhile (\<lambda>c. c < sz) vl_size_classes)
   \<and> vl_size_class_index sz =
       (if 32768 < sz then VL_SIZE_CLASS_COUNT else (LEAST i. sz \<le> vl_size_class_capacity i))"
proof (cases "32768 < sz")
  case True
  then show ?thesis using index_small [of sz] index_le [of sz] by (auto simp: index_takeWhile not_le)
next
  case False
  then have lt: "vl_size_class_index sz < VL_SIZE_CLASS_COUNT" by (simp add: index_small)
  have "(LEAST i. sz \<le> vl_size_class_capacity i) = vl_size_class_index sz"
  proof (rule Least_equality)
    show "sz \<le> vl_size_class_capacity (vl_size_class_index sz)" by (rule index_capacity [OF lt])
    fix i assume i: "sz \<le> vl_size_class_capacity i"
    show "vl_size_class_index sz \<le> i"
    proof (rule ccontr)
      assume "\<not> vl_size_class_index sz \<le> i"
      then show False using below_index [of i sz] i lt by (simp add: vl_size_class_capacity_def not_le)
    qed
  qed
  then show ?thesis using False by (simp add: index_takeWhile)
qed

end
