(* ===== verification/Valloc.thy ===== *)
theory Valloc
  imports Memory_Base
begin

text \<open>
  The allocator: the page heap (\<^verbatim>\<open>page_heap.c\<close>), the spans of equal objects (\<^verbatim>\<open>span.c\<close>) and the operations
  of \<^verbatim>\<open>valloc.c\<close>.  Each operation between \<^verbatim>\<open>vl_memory_lock\<close> and \<^verbatim>\<open>vl_memory_unlock\<close> is one function on the
  state.  \<open>p\<close> is the thread's \<^verbatim>\<open>vl_memory_p_index\<close>.  The debug hooks do nothing in the default build.
\<close>

section \<open>The kernel\<close>

text \<open>
  \<open>os_mmap\<close> is the address at which the kernel maps so many bytes, given what is mapped, or \<open>None\<close> for
  \<^verbatim>\<open>MAP_FAILED\<close>; \<open>os_munmap\<close> tells whether it unmaps a region.
\<close>

record vl_os =
  os_page_size :: int
  os_mmap :: "(addr \<times> usize) list \<Rightarrow> usize \<Rightarrow> addr option"
  os_munmap :: "addr \<Rightarrow> usize \<Rightarrow> bool"

section \<open>Page heap\<close>

definition vl_page_heap_acquire :: "vl_os \<Rightarrow> usize \<Rightarrow> vl_memory_state \<Rightarrow> addr \<times> usize \<times> vl_memory_state" where
  "vl_page_heap_acquire os pages st =
     (if \<not> ms_initialized st \<or> pages = 0 \<or> pages > SIZE_MAX div ms_page_size st then (NULL, 0, st)
      else
        let bytes = pages * ms_page_size st in
        if as_mapped_bytes (ms_stats st) > SIZE_MAX - bytes then (NULL, 0, st)
        else (case os_mmap os (ms_mappings st) bytes of
                None \<Rightarrow> (NULL, 0, st)
              | Some mapping \<Rightarrow>
                  (mapping, bytes,
                   upd_memory_stats (\<lambda>s. s\<lparr>as_mmap_calls := as_mmap_calls s + 1, as_mapped_bytes := as_mapped_bytes s + bytes\<rparr>)
                     (st\<lparr>ms_mappings := (mapping, bytes) # ms_mappings st\<rparr>))))"

text \<open>
  A region that is unmapped leaves \<open>ms_mappings\<close>; what the model's memory holds at its addresses is meaningless from then on.
  An access to it faults in C, and the model has no faults.  The theorems about blocks and mappings speak only of
  addresses in \<open>ms_mappings\<close>.
\<close>

definition vl_page_heap_release :: "vl_os \<Rightarrow> addr \<Rightarrow> usize \<Rightarrow> vl_memory_state \<Rightarrow> vl_memory_state" where
  "vl_page_heap_release os mapping_base mapped_size st =
     (if mapping_base = NULL \<or> mapped_size = 0 then st
      else if \<not> os_munmap os mapping_base mapped_size then st
      else upd_memory_stats (\<lambda>s. s\<lparr>as_mapped_bytes :=
               (if as_mapped_bytes s \<ge> mapped_size then as_mapped_bytes s - mapped_size else 0)\<rparr>)
             (st\<lparr>ms_mappings := remove1 (mapping_base, mapped_size) (ms_mappings st)\<rparr>))"

section \<open>Spans\<close>

definition vl_memory_align_up :: "usize \<Rightarrow> usize \<Rightarrow> usize" where
  "vl_memory_align_up value alignment =
     (if alignment = 0 then 0
      else
        let remainder = value AND (alignment - 1) in
        if remainder = 0 then value
        else if value > SIZE_MAX - (alignment - remainder) then 0
        else value + alignment - remainder)"

definition vl_memory_current_p :: "nat \<Rightarrow> nat" where
  "vl_memory_current_p p = (if p < VL_MEMORY_MAX_P then p else 0)"

definition vl_memory_bind_p :: "nat \<Rightarrow> nat" where
  "vl_memory_bind_p p_index = (if p_index < VL_MEMORY_MAX_P then p_index else 0)"

definition vl_span_object_stride :: "usize \<Rightarrow> usize" where
  "vl_span_object_stride capacity = vl_memory_align_up (header_size + capacity) VL_MEMORY_ALIGNMENT"

definition vl_span_insert_central :: "addr \<Rightarrow> vl_memory_state \<Rightarrow> vl_memory_state" where
  "vl_span_insert_central span st =
     (let c = sp_class_index (ms_spans st span)
      in st\<lparr>ms_central := (ms_central st)(c := span # ms_central st c)\<rparr>)"

text \<open>One round of the loop of \<^verbatim>\<open>vl_span_create\<close>.\<close>

definition init_object :: "addr \<Rightarrow> nat \<Rightarrow> vl_memory_state \<Rightarrow> vl_memory_state" where
  "init_object span index st =
     (let sp = ms_spans st span;
          objects = sp_mapping_base sp + ms_page_size st;
          header = objects + of_nat index * sp_object_stride sp;
          st1 = upd_header (\<lambda>_. \<lparr>oh_magic = VL_OBJECT_MAGIC, oh_kind = VL_OBJECT_SMALL, oh_state = VL_OBJECT_FREE,
                   oh_requested_size = 0, oh_capacity = sp_capacity sp, oh_owner_p = sp_owner_p sp, oh_reserved = 0,
                   oh_span = span, oh_mapping_base = NULL, oh_mapping_size = 0\<rparr>) header st;
          user = vl_object_user_from_header header
      in upd_span (\<lambda>s. s\<lparr>sp_central_free := user\<rparr>) span
           (st1\<lparr>ms_mem := store_ptr user (sp_central_free sp) (ms_mem st1)\<rparr>))"

definition object_area :: "usize \<Rightarrow> usize" where
  "object_area stride = (if stride > (64 * 1024) div 2 then stride * 2 else 64 * 1024)"

definition vl_span_create :: "vl_os \<Rightarrow> nat \<Rightarrow> nat \<Rightarrow> addr option \<Rightarrow> vl_memory_state \<Rightarrow> vl_status \<times> addr option \<times> vl_memory_state" where
  "vl_span_create os p class_index out st =
     (if out = None \<or> out \<noteq> Some NULL \<or> class_index \<ge> VL_SIZE_CLASS_COUNT then (VL_ERROR_INVALID_ARGUMENT, out, st)
      else
        let capacity = vl_size_class_capacity class_index;
            stride = vl_span_object_stride capacity;
            object_pages = (object_area stride + ms_page_size st - 1) div ms_page_size st
        in if object_pages = 0 \<or> object_pages = SIZE_MAX then (VL_ERROR_INVALID_ARGUMENT, out, st)
           else
             (case vl_page_heap_acquire os (object_pages + 1) st of
                (span, mapping_size, st1) \<Rightarrow>
                  if span = NULL then (VL_ERROR_OUT_OF_MEMORY, out, st1)
                  else
                    let object_count = (mapping_size - ms_page_size st1) div stride;
                        st2 = upd_span (\<lambda>_. \<lparr>sp_mapping_base = span, sp_mapping_size = mapping_size,
                                sp_class_index = class_index, sp_capacity = capacity, sp_object_stride = stride,
                                sp_object_count = object_count, sp_central_free_count = 0, sp_free_count = 0,
                                sp_active_count = 0, sp_cached_count = 0, sp_owner_p = vl_memory_current_p p,
                                sp_central_free = NULL\<rparr>) span st1
                    in if object_count = 0 then (VL_ERROR_SYSTEM, out, vl_page_heap_release os span mapping_size st2)
                       else
                         let st3 = fold (init_object span) [0..<unat object_count] st2;
                             st4 = upd_span (\<lambda>s. s\<lparr>sp_central_free_count := object_count, sp_free_count := object_count\<rparr>) span st3;
                             st5 = st4\<lparr>ms_all_spans := span # ms_all_spans st4\<rparr>
                         in (VL_OK, Some span, vl_span_insert_central span st5)))"

definition vl_span_take_central :: "addr \<Rightarrow> vl_memory_state \<Rightarrow> addr \<times> vl_memory_state" where
  "vl_span_take_central span st =
     (if span = NULL \<or> sp_central_free (ms_spans st span) = NULL then (NULL, st)
      else
        let user = sp_central_free (ms_spans st span) in
        (user, upd_span (\<lambda>s. s\<lparr>sp_central_free := load_ptr user (ms_mem st),
                  sp_central_free_count := sp_central_free_count s - 1,
                  sp_cached_count := sp_cached_count s + 1\<rparr>) span st))"

definition vl_span_move_to_central :: "addr \<Rightarrow> addr \<Rightarrow> vl_memory_state \<Rightarrow> vl_memory_state" where
  "vl_span_move_to_central span user st =
     (if span = NULL \<or> user = NULL then st
      else upd_span (\<lambda>s. s\<lparr>sp_central_free := user, sp_central_free_count := sp_central_free_count s + 1,
               sp_cached_count := (if sp_cached_count s > 0 then sp_cached_count s - 1 else sp_cached_count s)\<rparr>) span
             (st\<lparr>ms_mem := store_ptr user (sp_central_free (ms_spans st span)) (ms_mem st)\<rparr>))"

definition vl_span_remove_from_central :: "addr \<Rightarrow> vl_memory_state \<Rightarrow> vl_memory_state" where
  "vl_span_remove_from_central span st =
     (let c = sp_class_index (ms_spans st span)
      in st\<lparr>ms_central := (ms_central st)(c := remove1 span (ms_central st c))\<rparr>)"

definition vl_span_remove_from_all :: "addr \<Rightarrow> vl_memory_state \<Rightarrow> vl_memory_state" where
  "vl_span_remove_from_all span st = st\<lparr>ms_all_spans := remove1 span (ms_all_spans st)\<rparr>"

definition vl_span_reclaim_if_empty :: "vl_os \<Rightarrow> addr \<Rightarrow> vl_memory_state \<Rightarrow> bool \<times> vl_memory_state" where
  "vl_span_reclaim_if_empty os span st =
     (let sp = ms_spans st span in
      if span = NULL \<or> sp_active_count sp \<noteq> 0 \<or> sp_cached_count sp \<noteq> 0
         \<or> sp_central_free_count sp \<noteq> sp_object_count sp then (False, st)
      else (True, vl_page_heap_release os (sp_mapping_base sp) (sp_mapping_size sp)
                    (vl_span_remove_from_all span (vl_span_remove_from_central span st))))"

record vl_memory_class_stats =
  cs_span_count :: usize
  cs_object_count :: usize
  cs_active_objects :: usize
  cs_free_objects :: usize

definition vl_span_class_stats :: "nat \<Rightarrow> vl_memory_state \<Rightarrow> vl_memory_class_stats" where
  "vl_span_class_stats class_index st =
     (let zero = \<lparr>cs_span_count = 0, cs_object_count = 0, cs_active_objects = 0, cs_free_objects = 0\<rparr> in
      if class_index \<ge> VL_SIZE_CLASS_COUNT then zero
      else fold (\<lambda>span out. let s = ms_spans st span in
              if sp_class_index s = class_index
              then \<lparr>cs_span_count = cs_span_count out + 1, cs_object_count = cs_object_count out + sp_object_count s,
                    cs_active_objects = cs_active_objects out + sp_active_count s,
                    cs_free_objects = cs_free_objects out + sp_free_count s\<rparr>
              else out) (ms_all_spans st) zero)"

section \<open>Starting and stopping\<close>

definition vl_allocator_init :: "vl_os \<Rightarrow> vl_memory_state \<Rightarrow> vl_status \<times> vl_memory_state" where
  "vl_allocator_init os st =
     (if ms_initialized st then (VL_OK, st)
      else
        let page_size = of_int (os_page_size os) :: usize in
        if os_page_size os \<le> 0 \<or> page_size AND (page_size - 1) \<noteq> 0 then (VL_ERROR_SYSTEM, st)
        else (VL_OK, (clear_global st)\<lparr>ms_initialized := True, ms_page_size := page_size\<rparr>))"

definition vl_memory_is_owner :: "vl_memory_state \<Rightarrow> bool" where
  "vl_memory_is_owner st = ms_initialized st"

definition vl_memory_ensure_initialized :: "vl_os \<Rightarrow> vl_memory_state \<Rightarrow> vl_status \<times> vl_memory_state" where
  "vl_memory_ensure_initialized os st =
     (if ms_initialized st then (if vl_memory_is_owner st then VL_OK else VL_ERROR_INVALID_STATE, st)
      else vl_allocator_init os st)"

definition vl_allocator_shutdown :: "vl_os \<Rightarrow> vl_memory_state \<Rightarrow> vl_memory_state" where
  "vl_allocator_shutdown os st =
     (if \<not> vl_memory_is_owner st then st
      else
        let st1 = fold (\<lambda>span s. vl_page_heap_release os (sp_mapping_base (ms_spans s span)) (sp_mapping_size (ms_spans s span)) s)
                    (ms_all_spans st) st;
            st2 = fold (\<lambda>large s. vl_page_heap_release os (oh_mapping_base (ms_headers s large)) (oh_mapping_size (ms_headers s large)) s)
                    (ms_large_allocations st1) st1
        in clear_global st2)"

definition vl_stats_can_allocate :: "usize \<Rightarrow> vl_memory_state \<Rightarrow> bool" where
  "vl_stats_can_allocate sz st \<longleftrightarrow>
     as_active_bytes (ms_stats st) \<le> SIZE_MAX - sz \<and> as_active_objects (ms_stats st) \<noteq> SIZE_MAX"

definition vl_allocator_get_stats :: "vl_memory_state \<Rightarrow> vl_allocator_stats" where
  "vl_allocator_get_stats st = (if \<not> ms_initialized st then vl_allocator_stats_zero else ms_stats st)"

definition vl_memory_get_class_stats ::
  "vl_os \<Rightarrow> nat \<Rightarrow> vl_memory_state \<Rightarrow> (vl_status \<times> vl_memory_class_stats option) \<times> vl_memory_state" where
  "vl_memory_get_class_stats os index st =
     (if index \<ge> VL_SIZE_CLASS_COUNT then ((VL_ERROR_INVALID_ARGUMENT, None), st)
      else (case vl_memory_ensure_initialized os st of
              (status, st1) \<Rightarrow>
                if status \<noteq> VL_OK then ((VL_ERROR_INVALID_STATE, None), st1)
                else ((VL_OK, Some (vl_span_class_stats index st1)), st1)))"

section \<open>Caches\<close>

text \<open>A pointer to a cache: into \<^verbatim>\<open>caches\<close> or into \<^verbatim>\<open>remote\<close>.\<close>

datatype cache_ref = Local nat nat | Remote nat nat

fun cache_at :: "vl_memory_state \<Rightarrow> cache_ref \<Rightarrow> vl_cache" where
  "cache_at st (Local p c) = ms_caches st p c"
| "cache_at st (Remote p c) = ms_remote st p c"

fun set_cache :: "cache_ref \<Rightarrow> vl_cache \<Rightarrow> vl_memory_state \<Rightarrow> vl_memory_state" where
  "set_cache (Local p c) v st = st\<lparr>ms_caches := (ms_caches st)(p := (ms_caches st p)(c := v))\<rparr>"
| "set_cache (Remote p c) v st = st\<lparr>ms_remote := (ms_remote st)(p := (ms_remote st p)(c := v))\<rparr>"

text \<open>\<open>user = cache->head; cache->head = *(void **)user; --cache->count;\<close>\<close>

definition unlink_head :: "cache_ref \<Rightarrow> vl_memory_state \<Rightarrow> addr \<times> vl_memory_state" where
  "unlink_head r st =
     (let user = vc_head (cache_at st r)
      in (user, set_cache r \<lparr>vc_head = load_ptr user (ms_mem st), vc_count = vc_count (cache_at st r) - 1\<rparr> st))"

text \<open>\<open>*(void **)user = cache->head; cache->head = user; ++cache->count;\<close>\<close>

definition link_head :: "cache_ref \<Rightarrow> addr \<Rightarrow> vl_memory_state \<Rightarrow> vl_memory_state" where
  "link_head r user st =
     set_cache r \<lparr>vc_head = user, vc_count = vc_count (cache_at st r) + 1\<rparr>
       (st\<lparr>ms_mem := store_ptr user (vc_head (cache_at st r)) (ms_mem st)\<rparr>)"

definition vl_find_refill_span :: "nat \<Rightarrow> vl_memory_state \<Rightarrow> addr" where
  "vl_find_refill_span class_index st =
     (case find (\<lambda>span. sp_central_free (ms_spans st span) \<noteq> NULL) (ms_central st class_index) of
        None \<Rightarrow> NULL | Some span \<Rightarrow> span)"

text \<open>
  The two loops of \<^verbatim>\<open>vl_refill_cache\<close>; \<open>left\<close> is \<^verbatim>\<open>VL_CACHE_REFILL - count\<close>, and they return what is left.
\<close>

fun refill_from_remote :: "nat \<Rightarrow> nat \<Rightarrow> nat \<Rightarrow> vl_memory_state \<Rightarrow> nat \<times> vl_memory_state" where
  "refill_from_remote 0 p c st = (0, st)"
| "refill_from_remote (Suc left) p c st =
     (if vc_head (cache_at st (Remote p c)) = NULL then (Suc left, st)
      else (case unlink_head (Remote p c) st of
              (user, st1) \<Rightarrow> refill_from_remote left p c (link_head (Local p c) user st1)))"

fun refill_from_span :: "nat \<Rightarrow> addr \<Rightarrow> nat \<Rightarrow> nat \<Rightarrow> vl_memory_state \<Rightarrow> nat \<times> vl_memory_state" where
  "refill_from_span 0 span p c st = (0, st)"
| "refill_from_span (Suc left) span p c st =
     (if sp_central_free (ms_spans st span) = NULL then (Suc left, st)
      else (case vl_span_take_central span st of
              (user, st1) \<Rightarrow> refill_from_span left span p c (link_head (Local p c) user st1)))"

definition vl_refill_cache :: "vl_os \<Rightarrow> nat \<Rightarrow> nat \<Rightarrow> vl_memory_state \<Rightarrow> vl_status \<times> vl_memory_state" where
  "vl_refill_cache os p class_index st =
     (let p_index = vl_memory_current_p p;
          span = vl_find_refill_span class_index st
      in case refill_from_remote VL_CACHE_REFILL p_index class_index st of
           (left, st1) \<Rightarrow>
             if left = 0 then (VL_OK, st1)
             else
               (case (if span = NULL then vl_span_create os p class_index (Some NULL) st1 else (VL_OK, Some span, st1)) of
                  (status, span1, st2) \<Rightarrow>
                    if status \<noteq> VL_OK then (VL_ERROR_OUT_OF_MEMORY, st2)
                    else
                      (case refill_from_span left (the span1) p_index class_index st2 of
                         (left1, st3) \<Rightarrow>
                           if left1 \<noteq> VL_CACHE_REFILL
                           then (VL_OK, upd_memory_stats (\<lambda>s. s\<lparr>as_central_refills := as_central_refills s + 1\<rparr>) st3)
                           else (VL_ERROR_OUT_OF_MEMORY, st3))))"

definition vl_cache_pop :: "vl_os \<Rightarrow> nat \<Rightarrow> nat \<Rightarrow> vl_memory_state \<Rightarrow> addr \<times> vl_memory_state" where
  "vl_cache_pop os p class_index st =
     (let r = Local (vl_memory_current_p p) class_index in
      case (if vc_head (cache_at st r) = NULL then vl_refill_cache os p class_index st else (VL_OK, st)) of
        (status, st1) \<Rightarrow>
          if status \<noteq> VL_OK then (NULL, st1)
          else
            (case unlink_head r st1 of
               (user, st2) \<Rightarrow>
                 (user, upd_span (\<lambda>s. s\<lparr>sp_cached_count := sp_cached_count s - 1, sp_free_count := sp_free_count s - 1,
                           sp_active_count := sp_active_count s + 1\<rparr>)
                          (oh_span (ms_headers st2 (vl_object_header_from_user user))) st2)))"

text \<open>The loop of \<^verbatim>\<open>vl_drain_cache\<close>, at most \<open>left\<close> rounds more.\<close>

fun drain_loop :: "vl_os \<Rightarrow> nat \<Rightarrow> cache_ref \<Rightarrow> vl_memory_state \<Rightarrow> vl_memory_state" where
  "drain_loop os 0 r st = st"
| "drain_loop os (Suc left) r st =
     (if vc_head (cache_at st r) = NULL then st
      else (case unlink_head r st of
              (user, st1) \<Rightarrow>
                let span = oh_span (ms_headers st (vl_object_header_from_user user))
                in drain_loop os left r (snd (vl_span_reclaim_if_empty os span (vl_span_move_to_central span user st1)))))"

definition vl_drain_cache :: "vl_os \<Rightarrow> nat \<Rightarrow> nat \<Rightarrow> vl_memory_state \<Rightarrow> vl_memory_state" where
  "vl_drain_cache os p class_index st = drain_loop os VL_CACHE_REFILL (Local (vl_memory_current_p p) class_index) st"

definition vl_cache_push :: "vl_os \<Rightarrow> nat \<Rightarrow> addr \<Rightarrow> addr \<Rightarrow> vl_memory_state \<Rightarrow> vl_memory_state" where
  "vl_cache_push os p header user st =
     (let current_p = vl_memory_current_p p;
          h = ms_headers st header;
          owner_p = (if oh_owner_p h < VL_MEMORY_MAX_P then oh_owner_p h else 0);
          c = sp_class_index (ms_spans st (oh_span h));
          r = (if current_p \<noteq> owner_p then Remote owner_p c else Local owner_p c);
          st1 = (if current_p \<noteq> owner_p then upd_memory_stats (\<lambda>s. s\<lparr>as_cross_p_frees := as_cross_p_frees s + 1\<rparr>) st else st);
          st2 = upd_span (\<lambda>s. s\<lparr>sp_cached_count := sp_cached_count s + 1, sp_free_count := sp_free_count s + 1,
                    sp_active_count := sp_active_count s - 1\<rparr>) (oh_span h) (link_head r user st1)
      in if vc_count (cache_at st2 r) > VL_CACHE_MAX then vl_drain_cache os p c st2 else st2)"

section \<open>Allocation\<close>

definition vl_initialize_header ::
  "nat \<Rightarrow> addr \<Rightarrow> u32 \<Rightarrow> usize \<Rightarrow> usize \<Rightarrow> addr \<Rightarrow> addr \<Rightarrow> usize \<Rightarrow> vl_memory_state \<Rightarrow> vl_memory_state" where
  "vl_initialize_header p header kind capacity requested span mapping_base mapping_size st =
     upd_header (\<lambda>_. \<lparr>oh_magic = VL_OBJECT_MAGIC, oh_kind = kind, oh_state = VL_OBJECT_ALLOCATED,
        oh_requested_size = requested, oh_capacity = capacity,
        oh_owner_p = (if span \<noteq> NULL then sp_owner_p (ms_spans st span) else vl_memory_current_p p), oh_reserved = 0,
        oh_span = span, oh_mapping_base = mapping_base, oh_mapping_size = mapping_size\<rparr>) header st"

definition vl_large_insert :: "addr \<Rightarrow> vl_memory_state \<Rightarrow> vl_memory_state" where
  "vl_large_insert header st = st\<lparr>ms_large_allocations := header # ms_large_allocations st\<rparr>"

definition vl_large_remove :: "addr \<Rightarrow> vl_memory_state \<Rightarrow> vl_memory_state" where
  "vl_large_remove header st = st\<lparr>ms_large_allocations := remove1 header (ms_large_allocations st)\<rparr>"

definition count_object :: "usize \<Rightarrow> vl_memory_state \<Rightarrow> vl_memory_state" where
  "count_object sz = upd_memory_stats (\<lambda>s. s\<lparr>as_active_bytes := as_active_bytes s + sz, as_active_objects := as_active_objects s + 1\<rparr>)"

definition vl_malloc_large :: "vl_os \<Rightarrow> nat \<Rightarrow> usize \<Rightarrow> vl_memory_state \<Rightarrow> addr \<times> vl_memory_state" where
  "vl_malloc_large os p sz st =
     (if sz > SIZE_MAX - header_size then (NULL, st)
      else
        let bytes = header_size + sz in
        if bytes > SIZE_MAX - (ms_page_size st - 1) then (NULL, st)
        else
          let pages = (bytes + ms_page_size st - 1) div ms_page_size st in
          if pages = 0 then (NULL, st)
          else
            (case vl_page_heap_acquire os pages st of
               (mapping, mapping_size, st1) \<Rightarrow>
                 if mapping = NULL then (NULL, st1)
                 else
                   let st2 = vl_initialize_header p mapping VL_OBJECT_LARGE sz sz NULL mapping mapping_size st1;
                       st3 = upd_header (\<lambda>h. h\<lparr>oh_owner_p := vl_memory_current_p p\<rparr>) mapping st2
                   in (vl_object_user_from_header mapping, count_object sz (vl_large_insert mapping st3))))"

definition vl_malloc :: "vl_os \<Rightarrow> nat \<Rightarrow> usize \<Rightarrow> vl_memory_state \<Rightarrow> addr \<times> vl_memory_state" where
  "vl_malloc os p size0 st =
     (let sz = (if size0 = 0 then 1 else size0) in
      case vl_memory_ensure_initialized os st of
        (status, st0) \<Rightarrow>
          if status \<noteq> VL_OK then (NULL, st0)
          else if \<not> vl_stats_can_allocate sz st0 then (NULL, st0)
          else
            let class_index = vl_size_class_index sz in
            if class_index \<ge> VL_SIZE_CLASS_COUNT then vl_malloc_large os p sz st0
            else
              let q = vl_memory_current_p p;
                  st1 = (if vc_head (cache_at st0 (Local q class_index)) \<noteq> NULL \<or> vc_head (cache_at st0 (Remote q class_index)) \<noteq> NULL
                         then upd_memory_stats (\<lambda>s. s\<lparr>as_cache_hits := as_cache_hits s + 1\<rparr>) st0 else st0)
              in case vl_cache_pop os p class_index st1 of
                   (user, st2) \<Rightarrow>
                     if user = NULL then (NULL, st2)
                     else
                       let header = vl_object_header_from_user user
                       in (user, count_object sz
                             (vl_initialize_header p header VL_OBJECT_SMALL (vl_size_class_capacity class_index) sz
                               (oh_span (ms_headers st2 header)) NULL 0 st2)))"

definition vl_free :: "vl_os \<Rightarrow> nat \<Rightarrow> addr \<Rightarrow> vl_memory_state \<Rightarrow> vl_memory_state" where
  "vl_free os p ptr st =
     (if ptr = NULL \<or> \<not> vl_memory_is_owner st then st
      else
        let header = vl_object_header_from_user ptr;
            h = ms_headers st header
        in if oh_magic h \<noteq> VL_OBJECT_MAGIC \<or> oh_state h \<noteq> VL_OBJECT_ALLOCATED then st
           else if as_active_objects (ms_stats st) = 0 \<or> as_active_bytes (ms_stats st) < oh_requested_size h then st
           else
             let st1 = upd_header (\<lambda>h. h\<lparr>oh_state := VL_OBJECT_FREE\<rparr>) header st;
                 st2 = upd_memory_stats (\<lambda>s. s\<lparr>as_active_bytes := as_active_bytes s - oh_requested_size h,
                           as_active_objects := as_active_objects s - 1\<rparr>) st1
             in if oh_kind h = VL_OBJECT_LARGE
                then vl_page_heap_release os (oh_mapping_base h) (oh_mapping_size h) (vl_large_remove header st2)
                else vl_cache_push os p header ptr st2)"

definition fill_bytes :: "addr \<Rightarrow> usize \<Rightarrow> byte \<Rightarrow> (addr \<Rightarrow> byte) \<Rightarrow> addr \<Rightarrow> byte" where
  "fill_bytes a n v m = (\<lambda>x. if x - a < n then v else m x)"

definition copy_bytes :: "addr \<Rightarrow> addr \<Rightarrow> usize \<Rightarrow> (addr \<Rightarrow> byte) \<Rightarrow> addr \<Rightarrow> byte" where
  "copy_bytes dest src n m = (\<lambda>x. if x - dest < n then m (src + (x - dest)) else m x)"

definition vl_calloc :: "vl_os \<Rightarrow> nat \<Rightarrow> usize \<Rightarrow> usize \<Rightarrow> vl_memory_state \<Rightarrow> addr \<times> vl_memory_state" where
  "vl_calloc os p num sz st =
     (if num \<noteq> 0 \<and> sz > SIZE_MAX div num then (NULL, st)
      else (case vl_malloc os p (num * sz) st of
              (ptr, st1) \<Rightarrow>
                if ptr \<noteq> NULL then (ptr, st1\<lparr>ms_mem := fill_bytes ptr (num * sz) 0 (ms_mem st1)\<rparr>) else (ptr, st1)))"

text \<open>
  \<^verbatim>\<open>vl_realloc\<close> gives up the lock before it calls \<^verbatim>\<open>vl_malloc\<close> and \<^verbatim>\<open>vl_free\<close>; here no other thread comes between.
\<close>

definition vl_realloc :: "vl_os \<Rightarrow> nat \<Rightarrow> addr \<Rightarrow> usize \<Rightarrow> vl_memory_state \<Rightarrow> addr \<times> vl_memory_state" where
  "vl_realloc os p ptr sz st =
     (if ptr = NULL then vl_malloc os p sz st
      else if sz = 0 then (NULL, vl_free os p ptr st)
      else if \<not> vl_memory_is_owner st then (NULL, st)
      else
        let header = vl_object_header_from_user ptr;
            h = ms_headers st header
        in if oh_magic h \<noteq> VL_OBJECT_MAGIC \<or> oh_state h \<noteq> VL_OBJECT_ALLOCATED then (NULL, st)
           else if sz \<le> oh_capacity h then
             if as_active_bytes (ms_stats st) < oh_requested_size h then (NULL, st)
             else
               let retained_bytes = as_active_bytes (ms_stats st) - oh_requested_size h in
               if retained_bytes > SIZE_MAX - sz then (NULL, st)
               else (ptr, upd_memory_stats (\<lambda>s. s\<lparr>as_active_bytes := retained_bytes + sz\<rparr>)
                            (upd_header (\<lambda>h. h\<lparr>oh_requested_size := sz\<rparr>) header st))
           else
             let copy_size = (if oh_requested_size h < sz then oh_requested_size h else sz) in
             case vl_malloc os p sz st of
               (replacement, st1) \<Rightarrow>
                 if replacement = NULL then (NULL, st1)
                 else (replacement,
                       vl_free os p ptr (st1\<lparr>ms_mem := copy_bytes replacement ptr copy_size (ms_mem st1)\<rparr>)))"

end
