(* ===== verification/Heap_Layout.thy ===== *)
theory Heap_Layout
  imports Valloc
begin

text \<open>
  The layout of the allocator's memory: mapped regions are disjoint, a span is a page for its record and an
  array of objects behind it, each a header and a block.  The lemmas of this theory give the addresses of the
  objects without wrap-around and show that blocks, headers and span records do not overlap.
\<close>

section \<open>Mapped regions\<close>

definition region_cells :: "addr \<times> usize \<Rightarrow> nat set" where
  "region_cells r = cells (fst r) (snd r)"

definition region_ok :: "usize \<Rightarrow> addr \<times> usize \<Rightarrow> bool" where
  "region_ok page r \<longleftrightarrow> fst r \<noteq> NULL \<and> snd r \<noteq> 0 \<and> unat (fst r) + unat (snd r) < 2 ^ 64 \<and> unat page dvd unat (fst r)"

definition maps_ok :: "usize \<Rightarrow> (addr \<times> usize) list \<Rightarrow> bool" where
  "maps_ok page ms \<longleftrightarrow> (\<forall>r \<in> set ms. region_ok page r)
     \<and> sorted_wrt (\<lambda>r s. region_cells r \<inter> region_cells s = {}) ms"

definition page_ok :: "usize \<Rightarrow> bool" where
  "page_ok page \<longleftrightarrow> page AND (page - 1) = 0 \<and> 4096 \<le> page \<and> page \<le> 2 ^ 24"

text \<open>
  What POSIX promises: the page size is the same for the whole run, and a new mapping starts on a page
  boundary, does not wrap around the address space, and overlaps nothing that is mapped.
\<close>

definition os_ok :: "usize \<Rightarrow> vl_os \<Rightarrow> bool" where
  "os_ok page os \<longleftrightarrow> page_ok page \<and> os_page_size os = int (unat page)
     \<and> (\<forall>ms n a. os_mmap os ms n = Some a \<longrightarrow> n \<noteq> 0 \<longrightarrow>
          region_ok page (a, n) \<and> (\<forall>r \<in> set ms. cells a n \<inter> region_cells r = {}))"

lemma page_ok_dvd: "page_ok page \<Longrightarrow> 16 dvd unat page"
proof -
  assume ok: "page_ok page"
  then have "page \<noteq> 0" by (auto simp: page_ok_def)
  then obtain k where k: "k < 64" "page = 2 ^ k"
    using usize_and_pred_zero [of page] ok by (auto simp: page_ok_def)
  have u: "unat page = 2 ^ k" using k by (simp add: usize_pow2_unat)
  have "4096 \<le> unat page" using ok by (simp add: page_ok_def usize_le_iff)
  then have "(2 :: nat) ^ 12 \<le> 2 ^ k" using u by simp
  then have "12 \<le> k" by (rule power_le_imp_le_exp [rotated]) simp
  then have "(2 :: nat) ^ 4 dvd 2 ^ k" by (intro le_imp_power_dvd) simp
  then show ?thesis using u by simp
qed

lemma page_ok_bounds: "page_ok page \<Longrightarrow> 4096 \<le> unat page \<and> unat page \<le> 16777216"
  by (simp add: page_ok_def usize_le_iff)

lemma maps_ok_disjoint:
  assumes "maps_ok page ms" "r \<in> set ms" "s \<in> set ms" "r \<noteq> s"
  shows "region_cells r \<inter> region_cells s = {}"
proof -
  obtain i j where ij: "i < length ms" "j < length ms" "r = ms ! i" "s = ms ! j"
    using assms(2,3) by (metis in_set_conv_nth)
  have "\<And>i j. i < j \<Longrightarrow> j < length ms \<Longrightarrow> region_cells (ms ! i) \<inter> region_cells (ms ! j) = {}"
    using assms(1) by (simp add: maps_ok_def sorted_wrt_iff_nth_less)
  then show ?thesis using ij assms(4) by (metis inf_commute linorder_neqE_nat)
qed

lemma maps_ok_base:
  assumes "maps_ok page ms" "(a, m) \<in> set ms" "(a, n) \<in> set ms"
  shows "m = n"
proof (rule ccontr)
  assume "m \<noteq> n"
  then have "region_cells (a, m) \<inter> region_cells (a, n) = {}" using maps_ok_disjoint [OF assms] by simp
  moreover have "region_ok page (a, m)" "region_ok page (a, n)" using assms by (auto simp: maps_ok_def)
  then have "unat a \<in> region_cells (a, m)" "unat a \<in> region_cells (a, n)"
    by (auto simp: region_ok_def region_cells_def cells_def unat_gt_0)
  ultimately show False by blast
qed

lemma maps_ok_remove: "maps_ok page ms \<Longrightarrow> maps_ok page (remove1 r ms)"
proof (induction ms)
  case (Cons s ms)
  have "set (remove1 r ms) \<subseteq> set ms" by (rule set_remove1_subset)
  then show ?case using Cons by (auto simp: maps_ok_def)
qed simp

lemma maps_ok_distinct: "maps_ok page ms \<Longrightarrow> distinct ms"
proof (induction ms)
  case (Cons r ms)
  have "region_cells r \<noteq> {}" using Cons.prems by (auto simp: maps_ok_def region_ok_def region_cells_def cells_def unat_gt_0)
  then show ?case using Cons by (fastforce simp: maps_ok_def)
qed simp

section \<open>Strides\<close>

lemma align16:
  assumes "unat v + 16 < 2 ^ 64"
  shows "16 dvd unat (vl_memory_align_up v 16)" "unat v \<le> unat (vl_memory_align_up v 16)"
    "unat (vl_memory_align_up v 16) < unat v + 16"
proof -
  define r where "r = v AND 15"
  have r: "unat r = unat v mod 16" using usize_and_mask [of 4 v] by (simp add: r_def)
  have s: "unat (16 - r) = 16 - unat r" using r by (subst usize_unat_sub) (simp_all add: usize_le_iff)
  have m: "unat (SIZE_MAX - (16 - r)) = 2 ^ 64 - 1 - unat (16 - r)"
    by (subst usize_unat_sub) (simp_all add: usize_le_iff s)
  have "\<not> v > SIZE_MAX - (16 - r)" using assms unfolding usize_less_iff m s by simp
  then have eq: "vl_memory_align_up v 16 = (if r = 0 then v else v + (16 - r))"
    by (simp add: vl_memory_align_up_def Let_def flip: r_def)
  have u: "unat (v + (16 - r)) = unat v + (16 - unat r)" using assms by (subst usize_unat_add) (simp_all add: s)
  have z: "r = 0 \<longleftrightarrow> unat v mod 16 = 0" using r by (simp add: usize_eq_iff)
  have d: "16 dvd unat v + (16 - unat v mod 16)" by presburger
  show "16 dvd unat (vl_memory_align_up v 16)" using eq u r z d by auto
  show "unat v \<le> unat (vl_memory_align_up v 16)" using eq u by auto
  show "unat (vl_memory_align_up v 16) < unat v + 16" using eq u r z by auto
qed

lemma stride_bounds:
  assumes "c < VL_SIZE_CLASS_COUNT"
  defines "s \<equiv> vl_span_object_stride (vl_size_class_capacity c)"
  shows "16 dvd unat s" "80 + unat (vl_size_class_capacity c) \<le> unat s" "unat s \<le> 32864" "0 < unat s"
proof -
  let ?v = "header_size + vl_size_class_capacity c"
  have v: "unat ?v = 80 + unat (vl_size_class_capacity c)"
    using capacity_bounds [OF assms(1)] by (subst usize_unat_add) (simp_all add: header_size_def)
  then have lt: "unat ?v + 16 < 2 ^ 64" using capacity_bounds [OF assms(1)] by simp
  have s: "s = vl_memory_align_up ?v 16" by (simp add: s_def vl_span_object_stride_def VL_MEMORY_ALIGNMENT_def)
  show "16 dvd unat s" "80 + unat (vl_size_class_capacity c) \<le> unat s" using align16 [OF lt] v s by simp_all
  then show "unat s \<le> 32864" "0 < unat s" using align16 [OF lt] v s capacity_bounds [OF assms(1)] by simp_all
qed

section \<open>Spans\<close>

definition slot :: "vl_memory_state \<Rightarrow> addr \<Rightarrow> nat \<Rightarrow> addr" where
  "slot st b i = vl_object_user_from_header (b + ms_page_size st + of_nat i * sp_object_stride (ms_spans st b))"

definition slots :: "vl_memory_state \<Rightarrow> addr \<Rightarrow> addr set" where
  "slots st b = slot st b ` {..<unat (sp_object_count (ms_spans st b))}"

definition all_slots :: "vl_memory_state \<Rightarrow> addr set" where
  "all_slots st = (\<Union>b \<in> set (ms_all_spans st). slots st b)"

definition span_ok :: "vl_memory_state \<Rightarrow> addr \<Rightarrow> bool" where
  "span_ok st b \<longleftrightarrow> (let s = ms_spans st b in
     sp_mapping_base s = b \<and> (b, sp_mapping_size s) \<in> set (ms_mappings st) \<and> sp_class_index s < VL_SIZE_CLASS_COUNT
     \<and> sp_capacity s = vl_size_class_capacity (sp_class_index s) \<and> sp_object_stride s = vl_span_object_stride (sp_capacity s)
     \<and> ms_page_size st \<le> sp_mapping_size s
     \<and> sp_object_count s = (sp_mapping_size s - ms_page_size st) div sp_object_stride s
     \<and> sp_object_count s \<noteq> 0 \<and> sp_owner_p s < VL_MEMORY_MAX_P)"

text \<open>The bytes of an object: its header and its block.\<close>

definition object_cells :: "vl_memory_state \<Rightarrow> addr \<Rightarrow> addr \<Rightarrow> nat set" where
  "object_cells st b u = {unat u - 80..<unat u + unat (sp_capacity (ms_spans st b))}"

lemma slot_facts:
  assumes "span_ok st b" "maps_ok (ms_page_size st) (ms_mappings st)" "i < unat (sp_object_count (ms_spans st b))"
  defines "s \<equiv> ms_spans st b"
  shows "unat (slot st b i) = unat b + unat (ms_page_size st) + i * unat (sp_object_stride s) + 80"
    "unat b + unat (ms_page_size st) + i * unat (sp_object_stride s) + unat (sp_object_stride s) \<le> unat b + unat (sp_mapping_size s)"
    "80 + unat (sp_capacity s) \<le> unat (sp_object_stride s)" "8 \<le> unat (sp_capacity s)" "unat (sp_capacity s) \<le> 32768"
    "16 dvd unat (sp_object_stride s)"
    "unat b + unat (sp_mapping_size s) < 2 ^ 64"
proof -
  let ?p = "unat (ms_page_size st)" and ?n = "unat (sp_mapping_size s)" and ?d = "unat (sp_object_stride s)"
  have ok: "(b, sp_mapping_size s) \<in> set (ms_mappings st)" "sp_class_index s < VL_SIZE_CLASS_COUNT"
    "sp_capacity s = vl_size_class_capacity (sp_class_index s)" "sp_object_stride s = vl_span_object_stride (sp_capacity s)"
    "?p \<le> ?n" "sp_object_count s = (sp_mapping_size s - ms_page_size st) div sp_object_stride s"
    using assms(1) by (auto simp: span_ok_def Let_def s_def usize_le_iff)
  show d: "80 + unat (sp_capacity s) \<le> ?d" "16 dvd ?d" using stride_bounds [OF ok(2)] ok by simp_all
  show "8 \<le> unat (sp_capacity s)" "unat (sp_capacity s) \<le> 32768" using capacity_bounds [OF ok(2)] ok by simp_all
  show fits: "unat b + ?n < 2 ^ 64" using assms(2) ok(1) by (auto simp: maps_ok_def region_ok_def)
  have count: "unat (sp_object_count s) = (?n - ?p) div ?d"
    using ok by (simp add: unat_div_distrib usize_unat_sub usize_le_iff)
  have "Suc i \<le> (?n - ?p) div ?d" using assms(3) count by (simp add: s_def)
  then have "Suc i * ?d \<le> (?n - ?p) div ?d * ?d" by (rule mult_le_mono1)
  also have "\<dots> \<le> ?n - ?p" by simp
  finally have le: "i * ?d + ?d \<le> ?n - ?p" by simp
  then show "unat b + ?p + i * ?d + ?d \<le> unat b + ?n" using ok(5) by simp
  have room: "unat b + ?p + i * ?d + 80 < 2 ^ 64" using le ok(5) fits d(1) by linarith
  have "i * ?d < 2 ^ 64" using room by linarith
  moreover have "i < 2 ^ 64" using \<open>Suc i \<le> _\<close> count usize_lt [of "sp_object_count s"] by linarith
  ultimately have mul: "unat (of_nat i * sp_object_stride s) = i * ?d"
    by (simp add: unat_mult_lem [THEN iffD1] unat_of_nat)
  have "unat (b + ms_page_size st) = unat b + ?p" using room by (intro usize_unat_add) linarith
  moreover have "unat (b + ms_page_size st + of_nat i * sp_object_stride s) = unat b + ?p + i * ?d"
    using room by (subst usize_unat_add) (simp_all add: calculation mul)
  ultimately have "unat (b + ms_page_size st + of_nat i * sp_object_stride s + 80) = unat b + ?p + i * ?d + 80"
    using room by (subst usize_unat_add) simp_all
  then show "unat (slot st b i) = unat b + ?p + i * ?d + 80"
    by (simp add: slot_def vl_object_user_from_header_def header_size_def s_def)
qed

definition header_ok :: "vl_memory_state \<Rightarrow> addr \<Rightarrow> addr \<Rightarrow> bool" where
  "header_ok st b u \<longleftrightarrow> (let h = ms_headers st (vl_object_header_from_user u) in
     oh_magic h = VL_OBJECT_MAGIC \<and> oh_kind h = VL_OBJECT_SMALL \<and> oh_span h = b
     \<and> oh_owner_p h = sp_owner_p (ms_spans st b) \<and> oh_capacity h = sp_capacity (ms_spans st b))"

definition large_ok :: "vl_memory_state \<Rightarrow> addr \<Rightarrow> bool" where
  "large_ok st l \<longleftrightarrow> (let h = ms_headers st l in
     oh_magic h = VL_OBJECT_MAGIC \<and> oh_kind h = VL_OBJECT_LARGE \<and> oh_state h = VL_OBJECT_ALLOCATED
     \<and> oh_mapping_base h = l \<and> (l, oh_mapping_size h) \<in> set (ms_mappings st)
     \<and> 80 + unat (oh_capacity h) \<le> unat (oh_mapping_size h)
     \<and> 0 < oh_requested_size h \<and> oh_requested_size h \<le> oh_capacity h)"

definition layout :: "vl_memory_state \<Rightarrow> bool" where
  "layout st \<longleftrightarrow> ms_initialized st \<and> page_ok (ms_page_size st) \<and> maps_ok (ms_page_size st) (ms_mappings st)
     \<and> distinct (ms_all_spans st @ ms_large_allocations st)
     \<and> (\<forall>c. ms_central st c = filter (\<lambda>b. sp_class_index (ms_spans st b) = c) (ms_all_spans st))
     \<and> (\<forall>b \<in> set (ms_all_spans st). span_ok st b \<and> (\<forall>u \<in> slots st b. header_ok st b u))
     \<and> (\<forall>l \<in> set (ms_large_allocations st). large_ok st l)"

lemma layoutD:
  assumes "layout st"
  shows "ms_initialized st" "page_ok (ms_page_size st)" "maps_ok (ms_page_size st) (ms_mappings st)"
    "distinct (ms_all_spans st @ ms_large_allocations st)"
    "\<And>c. ms_central st c = filter (\<lambda>b. sp_class_index (ms_spans st b) = c) (ms_all_spans st)"
    "\<And>b. b \<in> set (ms_all_spans st) \<Longrightarrow> span_ok st b"
    "\<And>b u. b \<in> set (ms_all_spans st) \<Longrightarrow> u \<in> slots st b \<Longrightarrow> header_ok st b u"
    "\<And>l. l \<in> set (ms_large_allocations st) \<Longrightarrow> large_ok st l"
  using assms by (auto simp: layout_def)

lemma finite_slots [simp]: "finite (slots st b)"
  by (simp add: slots_def)

lemma finite_all_slots [simp]: "finite (all_slots st)"
  by (simp add: all_slots_def)

section \<open>Nothing overlaps\<close>

lemma slot_object:
  assumes "span_ok st b" "maps_ok (ms_page_size st) (ms_mappings st)" "i < unat (sp_object_count (ms_spans st b))"
  shows "cells (slot st b i) 8 \<subseteq> object_cells st b (slot st b i)" "unat (slot st b i) + 8 \<le> 2 ^ 64" "slot st b i \<noteq> NULL"
    "object_cells st b (slot st b i) \<subseteq> region_cells (b, sp_mapping_size (ms_spans st b))"
proof -
  note f = slot_facts [OF assms]
  show "cells (slot st b i) 8 \<subseteq> object_cells st b (slot st b i)" using f(4) by (auto simp: cells_def object_cells_def)
  show "unat (slot st b i) + 8 \<le> 2 ^ 64" using f by linarith
  show "slot st b i \<noteq> NULL" using f(1) by auto
  show "object_cells st b (slot st b i) \<subseteq> region_cells (b, sp_mapping_size (ms_spans st b))"
    using f by (auto simp: object_cells_def region_cells_def cells_def)
qed

text \<open>An object lies in its span behind the page of the span record.\<close>

lemma slot_inside:
  assumes "layout st" "b \<in> set (ms_all_spans st)" "u \<in> slots st b"
  defines "s \<equiv> ms_spans st b"
  shows "16 dvd unat u" "unat b + unat (ms_page_size st) + 80 \<le> unat u"
    "unat u + unat (sp_capacity s) \<le> unat b + unat (sp_mapping_size s)"
    "8 \<le> unat (sp_capacity s)" "unat b + unat (sp_mapping_size s) < 2 ^ 64" "u \<noteq> NULL"
proof -
  note ok = layoutD(6) [OF assms(1,2)] layoutD(3) [OF assms(1)]
  obtain i where i: "i < unat (sp_object_count s)" "u = slot st b i" using assms(3) by (auto simp: slots_def s_def)
  note f = slot_facts [OF ok i(1) [unfolded s_def], folded s_def, folded i(2)]
  have "unat (ms_page_size st) dvd unat b"
    using layoutD(3) [OF assms(1)] ok(1) by (auto simp: maps_ok_def region_ok_def span_ok_def Let_def)
  then have "16 dvd unat b" using page_ok_dvd [OF layoutD(2) [OF assms(1)]] dvd_trans by blast
  then show "16 dvd unat u" unfolding f(1) using f(6) page_ok_dvd [OF layoutD(2) [OF assms(1)]]
    by (intro dvd_add) simp_all
  show "unat b + unat (ms_page_size st) + 80 \<le> unat u" "unat u + unat (sp_capacity s) \<le> unat b + unat (sp_mapping_size s)"
    "8 \<le> unat (sp_capacity s)" "unat b + unat (sp_mapping_size s) < 2 ^ 64"
    using f by linarith+
  then show "u \<noteq> NULL" by auto
qed

lemma object_in_region:
  assumes "layout st" "b \<in> set (ms_all_spans st)" "u \<in> slots st b"
  shows "object_cells st b u \<subseteq> region_cells (b, sp_mapping_size (ms_spans st b))"
  using slot_inside [OF assms] by (auto simp: object_cells_def region_cells_def cells_def)

lemma span_region:
  "layout st \<Longrightarrow> b \<in> set (ms_all_spans st) \<Longrightarrow> (b, sp_mapping_size (ms_spans st b)) \<in> set (ms_mappings st)"
  using layoutD(6) by (auto simp: span_ok_def Let_def)

lemma large_region:
  "layout st \<Longrightarrow> l \<in> set (ms_large_allocations st) \<Longrightarrow> (l, oh_mapping_size (ms_headers st l)) \<in> set (ms_mappings st)"
  using layoutD(8) by (auto simp: large_ok_def Let_def)

lemma spans_apart:
  assumes "layout st" "b \<in> set (ms_all_spans st)" "(a, n) \<in> set (ms_mappings st)" "a \<noteq> b"
  shows "region_cells (b, sp_mapping_size (ms_spans st b)) \<inter> region_cells (a, n) = {}"
  using maps_ok_disjoint [OF layoutD(3) [OF assms(1)] span_region [OF assms(1,2)] assms(3)] assms(4) by blast

lemma slot_span:
  assumes "layout st" "b \<in> set (ms_all_spans st)" "c \<in> set (ms_all_spans st)" "u \<in> slots st b" "u \<in> slots st c"
  shows "b = c"
proof (rule ccontr)
  assume "b \<noteq> c"
  have "unat u \<in> object_cells st b u" "unat u \<in> object_cells st c u"
    using slot_inside(4) [OF assms(1,2,4)] slot_inside(4) [OF assms(1,3,5)] by (auto simp: object_cells_def)
  then show False
    using object_in_region [OF assms(1,2,4)] object_in_region [OF assms(1,3,5)]
      spans_apart [OF assms(1,2) span_region [OF assms(1,3)]] \<open>b \<noteq> c\<close> by blast
qed

lemma slots_apart:
  assumes "span_ok st b" "maps_ok (ms_page_size st) (ms_mappings st)"
    "i < unat (sp_object_count (ms_spans st b))" "j < unat (sp_object_count (ms_spans st b))" "i \<noteq> j"
  shows "object_cells st b (slot st b i) \<inter> object_cells st b (slot st b j) = {}"
proof -
  let ?s = "ms_spans st b"
  note fi = slot_facts [OF assms(1-3)]
  note fj = slot_facts [OF assms(1,2,4)]
  have step: "x * unat (sp_object_stride ?s) + unat (sp_object_stride ?s) \<le> y * unat (sp_object_stride ?s)" if "x < y" for x y
    using mult_le_mono1 [of "Suc x" y "unat (sp_object_stride ?s)"] that by simp
  consider "i < j" | "j < i" using assms(5) by linarith
  then show ?thesis
  proof cases
    case 1
    then have "unat (slot st b i) + unat (sp_capacity ?s) \<le> unat (slot st b j) - 80" using step [OF 1] fi fj by linarith
    then show ?thesis by (auto simp: object_cells_def)
  next
    case 2
    then have "unat (slot st b j) + unat (sp_capacity ?s) \<le> unat (slot st b i) - 80" using step [OF 2] fi fj by linarith
    then show ?thesis by (auto simp: object_cells_def)
  qed
qed

lemma objects_apart:
  assumes "layout st" "b \<in> set (ms_all_spans st)" "c \<in> set (ms_all_spans st)" "u \<in> slots st b" "v \<in> slots st c" "u \<noteq> v"
  shows "object_cells st b u \<inter> object_cells st c v = {}"
proof (cases "b = c")
  case True
  obtain i j where "i < unat (sp_object_count (ms_spans st b))" "u = slot st b i"
      "j < unat (sp_object_count (ms_spans st b))" "v = slot st b j"
    using assms(4,5) True by (auto simp: slots_def)
  then show ?thesis
    using slots_apart [OF layoutD(6) [OF assms(1,2)] layoutD(3) [OF assms(1)], of i j] assms(6) True by auto
next
  case False
  then show ?thesis
    using object_in_region [OF assms(1,2,4)] object_in_region [OF assms(1,3,5)]
      spans_apart [OF assms(1,2) span_region [OF assms(1,3)]] by blast
qed

lemma card_slots:
  assumes "layout st" "b \<in> set (ms_all_spans st)"
  shows "card (slots st b) = unat (sp_object_count (ms_spans st b))"
proof -
  note ok = layoutD(6) [OF assms] layoutD(3) [OF assms(1)]
  have "inj_on (slot st b) {..<unat (sp_object_count (ms_spans st b))}"
  proof (rule inj_onI)
    fix i j assume i: "i \<in> {..<unat (sp_object_count (ms_spans st b))}" and j: "j \<in> {..<unat (sp_object_count (ms_spans st b))}"
      and eq: "slot st b i = slot st b j"
    have "unat (slot st b i) = unat (slot st b j)" using eq by simp
    then have "i * unat (sp_object_stride (ms_spans st b)) = j * unat (sp_object_stride (ms_spans st b))"
      using slot_facts(1) [OF ok] i j by simp
    moreover have "0 < unat (sp_object_stride (ms_spans st b))" using slot_facts(3) [OF ok, of i] i by simp
    ultimately show "i = j" by simp
  qed
  then show ?thesis by (simp add: slots_def card_image)
qed

lemma link_cells:
  assumes "layout st" "b \<in> set (ms_all_spans st)" "u \<in> slots st b"
  shows "cells u 8 \<subseteq> object_cells st b u" "unat u + 8 \<le> 2 ^ 64"
  using slot_inside [OF assms] by (auto simp: cells_def object_cells_def)

end
