(* ===== verification/Heap_Lists.thy ===== *)
theory Heap_Lists
  imports Heap_Layout
begin

text \<open>
  The free lists: every object of every span is at exactly one place, active or on one list, and the lists
  are linked through the first bytes of the objects on them.  One lemma moves an object from a place to
  another; the operations on caches and spans are instances of it.
\<close>

section \<open>Places\<close>

datatype place = Active | Central addr | Cached cache_ref

fun ref_class :: "cache_ref \<Rightarrow> nat" where
  "ref_class (Local p c) = c"
| "ref_class (Remote p c) = c"

fun ref_ok :: "cache_ref \<Rightarrow> bool" where
  "ref_ok (Local p c) \<longleftrightarrow> p < VL_MEMORY_MAX_P \<and> c < VL_SIZE_CLASS_COUNT"
| "ref_ok (Remote p c) \<longleftrightarrow> p < VL_MEMORY_MAX_P \<and> c < VL_SIZE_CLASS_COUNT"

fun head_at :: "vl_memory_state \<Rightarrow> place \<Rightarrow> addr" where
  "head_at st Active = NULL"
| "head_at st (Central b) = sp_central_free (ms_spans st b)"
| "head_at st (Cached r) = vc_head (cache_at st r)"

definition in_use :: "vl_memory_state \<Rightarrow> place \<Rightarrow> bool" where
  "in_use st pl \<longleftrightarrow> (case pl of Active \<Rightarrow> False | Central b \<Rightarrow> b \<in> set (ms_all_spans st) | Cached r \<Rightarrow> ref_ok r)"

text \<open>Where an object of span \<open>b\<close> may be.\<close>

definition place_ok :: "vl_memory_state \<Rightarrow> addr \<Rightarrow> place \<Rightarrow> bool" where
  "place_ok st b pl \<longleftrightarrow> (case pl of Active \<Rightarrow> True | Central b' \<Rightarrow> b' = b
     | Cached r \<Rightarrow> ref_ok r \<and> ref_class r = sp_class_index (ms_spans st b))"

definition is_cached :: "place \<Rightarrow> bool" where
  "is_cached pl \<longleftrightarrow> (case pl of Cached r \<Rightarrow> True | _ \<Rightarrow> False)"

primrec linked :: "(addr \<Rightarrow> byte) \<Rightarrow> addr \<Rightarrow> addr list \<Rightarrow> bool" where
  "linked m h [] \<longleftrightarrow> h = NULL"
| "linked m h (x # xs) \<longleftrightarrow> h = x \<and> x \<noteq> NULL \<and> linked m (load_ptr x m) xs"

lemma linked_head: "linked m h xs \<Longrightarrow> h \<noteq> NULL \<Longrightarrow> \<exists>ys. xs = h # ys \<and> linked m (load_ptr h m) ys"
  by (cases xs) auto

lemma linked_empty: "linked m NULL xs \<longleftrightarrow> xs = []"
  by (cases xs) auto

lemma linked_cong:
  "(\<And>x. x \<in> set xs \<Longrightarrow> load_ptr x m = load_ptr x m') \<Longrightarrow> linked m h xs = linked m' h xs"
  by (induction xs arbitrary: h) auto

text \<open>How many objects of a set are at places of a kind, as a machine word.\<close>

definition tally :: "addr set \<Rightarrow> (addr \<Rightarrow> place) \<Rightarrow> (place \<Rightarrow> bool) \<Rightarrow> usize" where
  "tally S loc P = of_nat (card {u \<in> S. P (loc u)})"

lemma tally_move:
  assumes "finite S" "u \<in> S"
  shows "tally S (loc(u := pl)) P = tally S loc P + of_bool (P pl) - of_bool (P (loc u))"
proof -
  let ?R = "{v \<in> S - {u}. P (loc v)}"
  have f: "finite ?R" using assms(1) by simp
  have "{v \<in> S. P ((loc(u := pl)) v)} = (if P pl then insert u ?R else ?R)" using assms(2) by auto
  moreover have "{v \<in> S. P (loc v)} = (if P (loc u) then insert u ?R else ?R)" using assms(2) by auto
  ultimately show ?thesis using f by (simp add: tally_def)
qed

lemma tally_other: "u \<notin> S \<Longrightarrow> tally S (loc(u := pl)) P = tally S loc P"
  unfolding tally_def by (rule arg_cong [where f = "\<lambda>A. of_nat (card A)"]) auto

definition free_lists :: "vl_memory_state \<Rightarrow> (addr \<Rightarrow> place) \<Rightarrow> (place \<Rightarrow> addr list) \<Rightarrow> bool" where
  "free_lists st loc F \<longleftrightarrow>
     (\<forall>pl. in_use st pl \<longrightarrow> linked (ms_mem st) (head_at st pl) (F pl))
   \<and> (\<forall>pl. pl \<noteq> Active \<longrightarrow> distinct (F pl) \<and> set (F pl) = {u \<in> all_slots st. loc u = pl})
   \<and> (\<forall>b \<in> set (ms_all_spans st). \<forall>u \<in> slots st b. place_ok st b (loc u))
   \<and> (\<forall>r. ref_ok r \<longrightarrow> vc_count (cache_at st r) = of_nat (length (F (Cached r))))
   \<and> (\<forall>b \<in> set (ms_all_spans st).
        sp_central_free_count (ms_spans st b) = tally (slots st b) loc (\<lambda>pl. pl = Central b)
      \<and> sp_cached_count (ms_spans st b) = tally (slots st b) loc is_cached
      \<and> sp_active_count (ms_spans st b) = tally (slots st b) loc (\<lambda>pl. pl = Active)
      \<and> sp_free_count (ms_spans st b) = tally (slots st b) loc (\<lambda>pl. pl \<noteq> Active))"

lemma free_listsD:
  assumes "free_lists st loc F"
  shows "\<And>pl. in_use st pl \<Longrightarrow> linked (ms_mem st) (head_at st pl) (F pl)"
    "\<And>pl. pl \<noteq> Active \<Longrightarrow> distinct (F pl)" "\<And>pl. pl \<noteq> Active \<Longrightarrow> set (F pl) = {u \<in> all_slots st. loc u = pl}"
    "\<And>b u. b \<in> set (ms_all_spans st) \<Longrightarrow> u \<in> slots st b \<Longrightarrow> place_ok st b (loc u)"
    "\<And>r. ref_ok r \<Longrightarrow> vc_count (cache_at st r) = of_nat (length (F (Cached r)))"
    "\<And>b. b \<in> set (ms_all_spans st) \<Longrightarrow> sp_central_free_count (ms_spans st b) = tally (slots st b) loc (\<lambda>pl. pl = Central b)"
    "\<And>b. b \<in> set (ms_all_spans st) \<Longrightarrow> sp_cached_count (ms_spans st b) = tally (slots st b) loc is_cached"
    "\<And>b. b \<in> set (ms_all_spans st) \<Longrightarrow> sp_active_count (ms_spans st b) = tally (slots st b) loc (\<lambda>pl. pl = Active)"
    "\<And>b. b \<in> set (ms_all_spans st) \<Longrightarrow> sp_free_count (ms_spans st b) = tally (slots st b) loc (\<lambda>pl. pl \<noteq> Active)"
  using assms by (auto simp: free_lists_def)

section \<open>States with the same layout\<close>

definition static :: "vl_span \<Rightarrow> addr \<times> usize \<times> nat \<times> usize \<times> usize \<times> usize \<times> nat" where
  "static s = (sp_mapping_base s, sp_mapping_size s, sp_class_index s, sp_capacity s, sp_object_stride s,
     sp_object_count s, sp_owner_p s)"

definition same_layout :: "vl_memory_state \<Rightarrow> vl_memory_state \<Rightarrow> bool" where
  "same_layout st st' \<longleftrightarrow> ms_initialized st' = ms_initialized st \<and> ms_page_size st' = ms_page_size st
     \<and> ms_central st' = ms_central st \<and> ms_all_spans st' = ms_all_spans st
     \<and> ms_large_allocations st' = ms_large_allocations st \<and> ms_headers st' = ms_headers st
     \<and> ms_mappings st' = ms_mappings st \<and> (\<forall>b. static (ms_spans st' b) = static (ms_spans st b))"

lemma same_layout_refl [simp]: "same_layout st st"
  by (simp add: same_layout_def)

lemma same_layout_trans: "same_layout st st' \<Longrightarrow> same_layout st' st'' \<Longrightarrow> same_layout st st''"
  by (simp add: same_layout_def)

lemma same_layoutD:
  assumes "same_layout st st'"
  shows "ms_page_size st' = ms_page_size st" "ms_all_spans st' = ms_all_spans st" "ms_mappings st' = ms_mappings st"
    "ms_headers st' = ms_headers st" "ms_large_allocations st' = ms_large_allocations st" "ms_initialized st' = ms_initialized st"
    "ms_central st' = ms_central st"
    "sp_class_index (ms_spans st' b) = sp_class_index (ms_spans st b)" "sp_capacity (ms_spans st' b) = sp_capacity (ms_spans st b)"
    "sp_object_count (ms_spans st' b) = sp_object_count (ms_spans st b)"
    "sp_object_stride (ms_spans st' b) = sp_object_stride (ms_spans st b)" "sp_owner_p (ms_spans st' b) = sp_owner_p (ms_spans st b)"
    "sp_mapping_base (ms_spans st' b) = sp_mapping_base (ms_spans st b)"
    "sp_mapping_size (ms_spans st' b) = sp_mapping_size (ms_spans st b)"
  using assms by (auto simp: same_layout_def static_def)

lemma same_slots:
  assumes "same_layout st st'"
  shows "slot st' b i = slot st b i" "slots st' b = slots st b" "all_slots st' = all_slots st"
    "object_cells st' b u = object_cells st b u" "in_use st' pl = in_use st pl" "place_ok st' b pl = place_ok st b pl"
proof -
  have slot: "slot st' b = slot st b" for b using same_layoutD [OF assms] by (auto simp: slot_def fun_eq_iff)
  then show "slot st' b i = slot st b i" by simp
  have slots: "slots st' b = slots st b" for b using same_layoutD [OF assms] slot by (simp add: slots_def)
  then show "slots st' b = slots st b" .
  show "all_slots st' = all_slots st" using same_layoutD [OF assms] slots by (simp add: all_slots_def)
  show "object_cells st' b u = object_cells st b u" "in_use st' pl = in_use st pl" "place_ok st' b pl = place_ok st b pl"
    using same_layoutD [OF assms] by (simp_all add: object_cells_def in_use_def place_ok_def split: place.split)
qed

lemma layout_same: "same_layout st st' \<Longrightarrow> layout st' = layout st"
  using same_layoutD [of st st'] same_slots [of st st']
  by (simp add: layout_def span_ok_def header_ok_def large_ok_def Let_def)

section \<open>Moving an object\<close>

text \<open>
  \<open>moved\<close> is what the state must look like after an object has left the head of one list, or was active, and
  has become the head of another list, or active.
\<close>

definition moved :: "vl_memory_state \<Rightarrow> vl_memory_state \<Rightarrow> addr \<Rightarrow> addr \<Rightarrow> place \<Rightarrow> place \<Rightarrow> bool" where
  "moved st st' b u pl pl' \<longleftrightarrow> same_layout st st'
     \<and> (\<forall>q. q \<noteq> Active \<longrightarrow> head_at st' q = (if q = pl' then u else if q = pl then load_ptr u (ms_mem st) else head_at st q))
     \<and> ms_mem st' = (if pl' = Active then ms_mem st else store_ptr u (head_at st pl') (ms_mem st))
     \<and> (\<forall>r. vc_count (cache_at st' r) = vc_count (cache_at st r) + of_bool (pl' = Cached r) - of_bool (pl = Cached r))
     \<and> (\<forall>b'. sp_central_free_count (ms_spans st' b') = sp_central_free_count (ms_spans st b')
              + of_bool (pl' = Central b') - of_bool (pl = Central b'))
     \<and> (\<forall>b'. sp_cached_count (ms_spans st' b') = sp_cached_count (ms_spans st b')
              + of_bool (b' = b \<and> is_cached pl') - of_bool (b' = b \<and> is_cached pl))
     \<and> (\<forall>b'. sp_active_count (ms_spans st' b') = sp_active_count (ms_spans st b')
              + of_bool (b' = b \<and> pl' = Active) - of_bool (b' = b \<and> pl = Active))
     \<and> (\<forall>b'. sp_free_count (ms_spans st' b') = sp_free_count (ms_spans st b')
              + of_bool (b' = b \<and> pl' \<noteq> Active) - of_bool (b' = b \<and> pl \<noteq> Active))"

lemma slot_of:
  assumes "layout st" "u \<in> all_slots st"
  obtains b where "b \<in> set (ms_all_spans st)" "u \<in> slots st b"
  using assms(2) by (auto simp: all_slots_def)

text \<open>Writing the link of one object changes no link of another.\<close>

lemma load_store_other:
  assumes "layout st" "u \<in> all_slots st" "v \<in> all_slots st" "u \<noteq> v"
  shows "load_ptr v (store_ptr u w m) = load_ptr v m"
proof -
  obtain b c where b: "b \<in> set (ms_all_spans st)" "u \<in> slots st b" and c: "c \<in> set (ms_all_spans st)" "v \<in> slots st c"
    using assms by (metis slot_of)
  have apart: "cells u 8 \<inter> cells v 8 = {}"
    using objects_apart [OF assms(1) b(1) c(1) b(2) c(2) assms(4)] link_cells(1) [OF assms(1) b] link_cells(1) [OF assms(1) c] by blast
  show ?thesis
  proof (rule load_ptr_cong [OF link_cells(2) [OF assms(1) c]])
    fix x :: addr assume "unat x \<in> cells v 8"
    then have "unat x \<notin> cells u 8" using apart by blast
    then show "store_ptr u w m x = m x" by (rule store_ptr_other [OF link_cells(2) [OF assms(1) b]])
  qed
qed

definition relist :: "addr \<Rightarrow> place \<Rightarrow> place \<Rightarrow> (place \<Rightarrow> addr list) \<Rightarrow> place \<Rightarrow> addr list" where
  "relist u pl pl' F = (\<lambda>q. if q = pl' then u # F q else if q = pl then tl (F q) else F q)"

lemma movedD:
  assumes "moved st st' b u pl pl'"
  shows "same_layout st st'"
    "\<And>q. q \<noteq> Active \<Longrightarrow> head_at st' q = (if q = pl' then u else if q = pl then load_ptr u (ms_mem st) else head_at st q)"
    "ms_mem st' = (if pl' = Active then ms_mem st else store_ptr u (head_at st pl') (ms_mem st))"
    "\<And>r. vc_count (cache_at st' r) = vc_count (cache_at st r) + of_bool (pl' = Cached r) - of_bool (pl = Cached r)"
  using assms unfolding moved_def by blast+

lemma list_at:
  assumes "free_lists st loc F" "in_use st pl" "u \<in> all_slots st" "loc u = pl" "head_at st pl = u" "u \<noteq> NULL"
  obtains ys where "F pl = u # ys" "linked (ms_mem st) (load_ptr u (ms_mem st)) ys" "u \<notin> set ys"
proof -
  have "pl \<noteq> Active" using assms(2) by (auto simp: in_use_def)
  then obtain ys where "F pl = u # ys" "linked (ms_mem st) (load_ptr u (ms_mem st)) ys" "distinct (F pl)"
    using linked_head [OF free_listsD(1) [OF assms(1,2)]] free_listsD(2) [OF assms(1)] assms(5,6) by metis
  then show ?thesis using that by simp
qed

lemma tallies_move:
  assumes "layout st" "free_lists st loc F" "b \<in> set (ms_all_spans st)" "u \<in> slots st b" "c \<in> set (ms_all_spans st)"
  shows "tally (slots st c) (loc(u := pl')) P = tally (slots st c) loc P + of_bool (c = b \<and> P pl') - of_bool (c = b \<and> P (loc u))"
proof (cases "c = b")
  case True
  then show ?thesis using tally_move [of "slots st b" u] assms(4) by simp
next
  case False
  then have "u \<notin> slots st c" using slot_span [OF assms(1,3,5,4)] by blast
  then show ?thesis using False by (simp add: tally_other)
qed

lemma move_linked:
  assumes lay: "layout st" and fl: "free_lists st loc F" and u: "u \<in> all_slots st" "u \<noteq> NULL" "loc u \<noteq> pl'"
    and mv: "moved st st' b u (loc u) pl'" and head: "loc u \<noteq> Active \<Longrightarrow> in_use st (loc u) \<and> head_at st (loc u) = u"
    and q: "in_use st q"
  shows "linked (ms_mem st') (head_at st' q) (relist u (loc u) pl' F q)"
proof -
  have na: "q \<noteq> Active" using q by (auto simp: in_use_def)
  have elems: "set (F q) = {v \<in> all_slots st. loc v = q}" using free_listsD(3) [OF fl na] .
  have load: "load_ptr v (ms_mem st') = load_ptr v (ms_mem st)" if "v \<in> all_slots st" "v \<noteq> u" for v
    using load_store_other [OF lay u(1) that(1)] that(2) movedD(3) [OF mv] by auto
  have keep: "linked (ms_mem st') h xs = linked (ms_mem st) h xs" if "set xs \<subseteq> all_slots st" "u \<notin> set xs" for h xs
    using that load by (intro linked_cong) blast
  consider "q = pl'" | "q = loc u" "q \<noteq> pl'" | "q \<noteq> pl'" "q \<noteq> loc u" by blast
  then show ?thesis
  proof cases
    case 1
    then have "pl' \<noteq> Active" "u \<notin> set (F q)" using na elems u(3) by auto
    moreover have "linked (ms_mem st) (head_at st q) (F q)" using free_listsD(1) [OF fl q] .
    ultimately show ?thesis
      using 1 keep [of "F q"] elems movedD(2) [OF mv na] movedD(3) [OF mv] u(2) by (auto simp: relist_def)
  next
    case 2
    then obtain ys where ys: "F q = u # ys" "linked (ms_mem st) (load_ptr u (ms_mem st)) ys" "u \<notin> set ys"
      using list_at [OF fl q u(1) _ _ u(2)] head na by metis
    then have "linked (ms_mem st') (load_ptr u (ms_mem st)) ys" using keep [of ys] elems by auto
    then show ?thesis using 2 ys movedD(2) [OF mv na] by (simp add: relist_def)
  next
    case 3
    then have "u \<notin> set (F q)" using elems by auto
    then show ?thesis using 3 keep [of "F q"] elems movedD(2) [OF mv na] free_listsD(1) [OF fl q] by (auto simp: relist_def)
  qed
qed

lemma move_lists:
  assumes lay: "layout st" and fl: "free_lists st loc F" and b: "b \<in> set (ms_all_spans st)" "u \<in> slots st b"
    and pl: "loc u \<noteq> pl'" "place_ok st b pl'" and mv: "moved st st' b u (loc u) pl'"
    and head: "loc u \<noteq> Active \<Longrightarrow> in_use st (loc u) \<and> head_at st (loc u) = u"
  shows "free_lists st' (loc(u := pl')) (relist u (loc u) pl' F)"
proof -
  let ?loc = "loc(u := pl')" and ?F = "relist u (loc u) pl' F"
  note same = same_slots [OF movedD(1) [OF mv]] same_layoutD [OF movedD(1) [OF mv]]
  have u: "u \<in> all_slots st" "u \<noteq> NULL" using b slot_inside(6) [OF lay b] by (auto simp: all_slots_def)
  have old: "\<exists>ys. F (loc u) = u # ys \<and> u \<notin> set ys" if "loc u \<noteq> Active"
    using list_at [OF fl _ u(1) refl _ u(2)] head that by metis
  have sets: "distinct (?F q) \<and> set (?F q) = {v \<in> all_slots st. ?loc v = q}" if na: "q \<noteq> Active" for q
  proof -
    have q: "distinct (F q)" "set (F q) = {v \<in> all_slots st. loc v = q}" using free_listsD(2,3) [OF fl that] .
    consider "q = pl'" | "q = loc u" "q \<noteq> pl'" | "q \<noteq> pl'" "q \<noteq> loc u" by blast
    then show ?thesis
    proof cases
      case 1
      then show ?thesis using q u(1) pl(1) by (auto simp: relist_def)
    next
      case 2
      then obtain ys where "F q = u # ys" "u \<notin> set ys" using old na by metis
      then have "set ys = {v \<in> all_slots st. loc v = q} - {u}" "distinct ys" using q by auto
      then show ?thesis using 2 \<open>F q = u # ys\<close> by (auto simp: relist_def)
    next
      case 3
      then show ?thesis using q by (auto simp: relist_def)
    qed
  qed
  have len: "vc_count (cache_at st' r) = of_nat (length (?F (Cached r)))" if "ref_ok r" for r
  proof -
    have "of_nat (length (tl (F (Cached r)))) = of_nat (length (F (Cached r))) - (1 :: usize)" if "loc u = Cached r"
      using old that by fastforce
    then show ?thesis using free_listsD(5) [OF fl that] movedD(4) [OF mv, of r] pl(1) by (auto simp: relist_def)
  qed
  have own: "\<And>c. loc u = Central c \<Longrightarrow> c = b" "\<And>c. pl' = Central c \<Longrightarrow> c = b"
    using pl(2) free_listsD(4) [OF fl b] by (auto simp: place_ok_def)
  have counts: "sp_central_free_count (ms_spans st' c) = tally (slots st c) ?loc (\<lambda>pl. pl = Central c)
      \<and> sp_cached_count (ms_spans st' c) = tally (slots st c) ?loc is_cached
      \<and> sp_active_count (ms_spans st' c) = tally (slots st c) ?loc (\<lambda>pl. pl = Active)
      \<and> sp_free_count (ms_spans st' c) = tally (slots st c) ?loc (\<lambda>pl. pl \<noteq> Active)" if c: "c \<in> set (ms_all_spans st)" for c
  proof -
    have "(pl' = Central c) = (c = b \<and> pl' = Central c)" "(loc u = Central c) = (c = b \<and> loc u = Central c)" using own by auto
    then show ?thesis
      using mv free_listsD(6-9) [OF fl c] tallies_move [OF lay fl b c, of pl'] unfolding moved_def by simp
  qed
  have "place_ok st c (?loc v)" if "c \<in> set (ms_all_spans st)" "v \<in> slots st c" for c v
    using that pl(2) free_listsD(4) [OF fl that] slot_span [OF lay b(1) that(1) b(2)] by auto
  then show ?thesis
    using sets len counts move_linked [OF lay fl u pl(1) mv head] unfolding free_lists_def same by blast
qed

end
