(* ===== verification/Heap_Moves.thy ===== *)
theory Heap_Moves
  imports Heap_Lists
begin

text \<open>
  The operations on caches and free lists keep the invariant of the lists and leave alone the memory that is
  in use: the active objects, and the mapped regions that are not spans.
\<close>

section \<open>Memory in use\<close>

definition owned :: "vl_memory_state \<Rightarrow> (addr \<Rightarrow> place) \<Rightarrow> nat set" where
  "owned st loc = (\<Union>b \<in> set (ms_all_spans st). \<Union>u \<in> {u \<in> slots st b. loc u = Active}. object_cells st b u)
     \<union> (\<Union>r \<in> {r \<in> set (ms_mappings st). fst r \<notin> set (ms_all_spans st)}. region_cells r)"

definition kept :: "nat set \<Rightarrow> vl_memory_state \<Rightarrow> vl_memory_state \<Rightarrow> bool" where
  "kept A st st' \<longleftrightarrow> (\<forall>x. unat x \<in> A \<longrightarrow> ms_mem st' x = ms_mem st x)"

lemma kept_refl [simp]: "kept A st st"
  by (simp add: kept_def)

lemma kept_trans: "kept A st st' \<Longrightarrow> kept A st' st'' \<Longrightarrow> kept A st st''"
  by (simp add: kept_def)

lemma kept_mono: "kept A st st' \<Longrightarrow> B \<subseteq> A \<Longrightarrow> kept B st st'"
  by (auto simp: kept_def)

lemma free_not_owned:
  assumes "layout st" "b \<in> set (ms_all_spans st)" "u \<in> slots st b" "loc u \<noteq> Active"
  shows "object_cells st b u \<inter> owned st loc = {}"
proof -
  have "object_cells st b u \<inter> object_cells st c v = {}" if "c \<in> set (ms_all_spans st)" "v \<in> slots st c" "loc v = Active" for c v
    using objects_apart [OF assms(1,2) that(1) assms(3) that(2)] assms(4) that(3) by auto
  moreover have "object_cells st b u \<inter> region_cells r = {}" if "r \<in> set (ms_mappings st)" "fst r \<notin> set (ms_all_spans st)" for r
  proof -
    have "fst r \<noteq> b" using that(2) assms(2) by auto
    then have "region_cells (b, sp_mapping_size (ms_spans st b)) \<inter> region_cells r = {}"
      using spans_apart [OF assms(1,2), of "fst r" "snd r"] that(1) by simp
    then show ?thesis using object_in_region [OF assms(1-3)] by blast
  qed
  ultimately show ?thesis unfolding owned_def by blast
qed

lemma same_owned: "same_layout st st' \<Longrightarrow> owned st' loc = owned st loc"
  using same_layoutD [of st st'] same_slots [of st st'] by (simp add: owned_def)

lemma owned_cong: "(\<And>u. u \<in> all_slots st \<Longrightarrow> (loc' u = Active) = (loc u = Active)) \<Longrightarrow> owned st loc' = owned st loc"
  unfolding owned_def all_slots_def by auto

lemma moved_kept:
  assumes "layout st" "b \<in> set (ms_all_spans st)" "u \<in> slots st b" "moved st st' b u pl pl'" "pl' = Active \<or> loc u \<noteq> Active"
  shows "kept (owned st loc) st st'"
proof (cases "pl' = Active")
  case True
  then show ?thesis using movedD(3) [OF assms(4)] by (simp add: kept_def)
next
  case False
  then have "cells u 8 \<inter> owned st loc = {}"
    using free_not_owned [where loc = loc, OF assms(1-3)] assms(5) link_cells(1) [OF assms(1-3)] by blast
  then show ?thesis
    using False movedD(3) [OF assms(4)] store_ptr_other [OF link_cells(2) [OF assms(1-3)]] unfolding kept_def by auto
qed

section \<open>Projections\<close>

lemma cache_at_set [simp]: "cache_at (set_cache r v st) r' = (if r' = r then v else cache_at st r')"
  by (cases r; cases r') auto

lemma set_cache_sel [simp]:
  "ms_initialized (set_cache r v st) = ms_initialized st" "ms_page_size (set_cache r v st) = ms_page_size st"
  "ms_stats (set_cache r v st) = ms_stats st" "ms_central (set_cache r v st) = ms_central st"
  "ms_all_spans (set_cache r v st) = ms_all_spans st" "ms_large_allocations (set_cache r v st) = ms_large_allocations st"
  "ms_mem (set_cache r v st) = ms_mem st" "ms_headers (set_cache r v st) = ms_headers st"
  "ms_spans (set_cache r v st) = ms_spans st" "ms_mappings (set_cache r v st) = ms_mappings st"
  by (cases r; simp)+

lemma cache_at_upd [simp]:
  "cache_at (st\<lparr>ms_mem := m\<rparr>) r = cache_at st r" "cache_at (st\<lparr>ms_spans := s\<rparr>) r = cache_at st r"
  "cache_at (st\<lparr>ms_stats := t\<rparr>) r = cache_at st r" "cache_at (st\<lparr>ms_headers := h\<rparr>) r = cache_at st r"
  "cache_at (st\<lparr>ms_mappings := g\<rparr>) r = cache_at st r" "cache_at (st\<lparr>ms_all_spans := a\<rparr>) r = cache_at st r"
  "cache_at (st\<lparr>ms_central := c\<rparr>) r = cache_at st r" "cache_at (st\<lparr>ms_large_allocations := l\<rparr>) r = cache_at st r"
  by (cases r; simp)+

lemma head_at_neq: "q \<noteq> Active \<Longrightarrow> (\<And>b. q = Central b \<Longrightarrow> P) \<Longrightarrow> (\<And>r. q = Cached r \<Longrightarrow> P) \<Longrightarrow> P"
  by (cases q) auto

section \<open>The five moves\<close>

lemmas move_defs = moved_def same_layout_def static_def link_head_def unlink_head_def upd_span_def Let_def is_cached_def

lemma relink_moved:
  assumes "unlink_head r st = (u, st1)" "r \<noteq> r'"
  shows "moved st (link_head r' u st1) b u (Cached r) (Cached r')"
  using assms by (auto simp: move_defs elim!: head_at_neq split: if_splits)

lemma take_moved:
  assumes "vl_span_take_central b st = (u, st1)" "b \<noteq> NULL" "head_at st (Central b) \<noteq> NULL"
  shows "moved st (link_head r u st1) b u (Central b) (Cached r)"
  using assms by (auto simp: move_defs vl_span_take_central_def elim!: head_at_neq split: if_splits)

lemma give_moved:
  assumes "unlink_head r st = (u, st1)" "b \<noteq> NULL" "u \<noteq> NULL" "sp_cached_count (ms_spans st b) > 0"
  shows "moved st (vl_span_move_to_central b u st1) b u (Cached r) (Central b)"
  using assms by (auto simp: move_defs vl_span_move_to_central_def elim!: head_at_neq split: if_splits)

lemma pop_moved:
  assumes "unlink_head r st = (u, st1)"
  shows "moved st (upd_span (\<lambda>s. s\<lparr>sp_cached_count := sp_cached_count s - 1, sp_free_count := sp_free_count s - 1,
      sp_active_count := sp_active_count s + 1\<rparr>) b st1) b u (Cached r) Active"
  using assms by (auto simp: move_defs elim!: head_at_neq split: if_splits)

lemma push_moved:
  "moved st (upd_span (\<lambda>s. s\<lparr>sp_cached_count := sp_cached_count s + 1, sp_free_count := sp_free_count s + 1,
      sp_active_count := sp_active_count s - 1\<rparr>) b (link_head r u st)) b u Active (Cached r)"
  by (auto simp: move_defs elim!: head_at_neq split: if_splits)

section \<open>The state of the objects\<close>

abbreviation header_of :: "vl_memory_state \<Rightarrow> addr \<Rightarrow> vl_object_header" where
  "header_of st u \<equiv> ms_headers st (vl_object_header_from_user u)"

definition states :: "vl_memory_state \<Rightarrow> (addr \<Rightarrow> place) \<Rightarrow> bool" where
  "states st loc \<longleftrightarrow> (\<forall>u \<in> all_slots st.
     if loc u = Active
     then oh_state (header_of st u) = VL_OBJECT_ALLOCATED \<and> 0 < oh_requested_size (header_of st u)
       \<and> oh_requested_size (header_of st u) \<le> oh_capacity (header_of st u)
     else oh_state (header_of st u) = VL_OBJECT_FREE)"

definition heap_at :: "vl_memory_state \<Rightarrow> (addr \<Rightarrow> place) \<Rightarrow> bool" where
  "heap_at st loc \<longleftrightarrow> layout st \<and> (\<exists>F. free_lists st loc F) \<and> states st loc"

definition active :: "vl_memory_state \<Rightarrow> (addr \<Rightarrow> place) \<Rightarrow> addr set" where
  "active st loc = {u \<in> all_slots st. loc u = Active}"

text \<open>What the movements of free objects leave as it is.\<close>

definition evolved :: "vl_memory_state \<Rightarrow> (addr \<Rightarrow> place) \<Rightarrow> vl_memory_state \<Rightarrow> (addr \<Rightarrow> place) \<Rightarrow> bool" where
  "evolved st loc st' loc' \<longleftrightarrow> heap_at st' loc' \<and> ms_page_size st' = ms_page_size st
     \<and> ms_large_allocations st' = ms_large_allocations st \<and> active st' loc' = active st loc
     \<and> (\<forall>u \<in> active st loc. header_of st' u = header_of st u)
     \<and> (\<forall>l \<in> set (ms_large_allocations st). ms_headers st' l = ms_headers st l)
     \<and> owned st loc \<subseteq> owned st' loc' \<and> kept (owned st loc) st st'
     \<and> as_active_bytes (ms_stats st') = as_active_bytes (ms_stats st)
     \<and> as_active_objects (ms_stats st') = as_active_objects (ms_stats st)"

lemma evolved_refl: "heap_at st loc \<Longrightarrow> evolved st loc st loc"
  by (simp add: evolved_def)

lemma evolved_trans:
  assumes "evolved st loc st1 loc1" "evolved st1 loc1 st2 loc2"
  shows "evolved st loc st2 loc2"
  using assms unfolding evolved_def by (auto intro: kept_trans kept_mono)

lemma evolved_heap: "evolved st loc st' loc' \<Longrightarrow> heap_at st' loc'"
  by (simp add: evolved_def)

definition shuffled :: "vl_memory_state \<Rightarrow> (addr \<Rightarrow> place) \<Rightarrow> vl_memory_state \<Rightarrow> (addr \<Rightarrow> place) \<Rightarrow> bool" where
  "shuffled st loc st' loc' \<longleftrightarrow> same_layout st st' \<and> heap_at st' loc' \<and> active st' loc' = active st loc
     \<and> kept (owned st loc) st st' \<and> ms_stats st' = ms_stats st"

lemma shuffled_refl: "heap_at st loc \<Longrightarrow> shuffled st loc st loc"
  by (simp add: shuffled_def)

lemma shuffled_owned:
  assumes "shuffled st loc st' loc'"
  shows "owned st' loc' = owned st loc"
proof -
  have "same_layout st st'" using assms by (simp add: shuffled_def)
  moreover have "(loc' u = Active) = (loc u = Active)" if "u \<in> all_slots st" for u
    using assms that same_slots(3) [OF calculation] by (auto simp: shuffled_def active_def)
  ultimately show ?thesis using same_owned [of st st' loc'] owned_cong [of st loc' loc] by simp
qed

lemma shuffled_trans:
  assumes "shuffled st loc st1 loc1" "shuffled st1 loc1 st2 loc2"
  shows "shuffled st loc st2 loc2"
  using assms shuffled_owned [OF assms(1)] unfolding shuffled_def by (auto intro: kept_trans same_layout_trans)

lemma shuffled_evolved: "shuffled st loc st' loc' \<Longrightarrow> evolved st loc st' loc'"
  using shuffled_owned [of st loc st' loc'] same_layoutD [of st st']
  by (auto simp: shuffled_def evolved_def)

lemma head_slot:
  assumes "heap_at st loc" "in_use st pl" "head_at st pl \<noteq> NULL"
  obtains b where "b \<in> set (ms_all_spans st)" "head_at st pl \<in> slots st b" "loc (head_at st pl) = pl"
proof -
  obtain F where F: "free_lists st loc F" using assms(1) by (auto simp: heap_at_def)
  have "pl \<noteq> Active" using assms(2) by (auto simp: in_use_def)
  moreover have "head_at st pl \<in> set (F pl)" using linked_head [OF free_listsD(1) [OF F assms(2)] assms(3)] by auto
  ultimately show ?thesis using free_listsD(3) [OF F] that by (auto simp: all_slots_def)
qed

lemma place_in_use: "place_ok st b pl \<Longrightarrow> b \<in> set (ms_all_spans st) \<Longrightarrow> pl \<noteq> Active \<Longrightarrow> in_use st pl"
  by (auto simp: place_ok_def in_use_def split: place.splits)

text \<open>An object that moves from the head of one list to another.\<close>

lemma shuffle_move:
  assumes hp: "heap_at st loc" and b: "b \<in> set (ms_all_spans st)" "u \<in> slots st b"
    and pl: "loc u \<noteq> Active" "pl' \<noteq> Active" "loc u \<noteq> pl'" "place_ok st b pl'" and head: "head_at st (loc u) = u"
    and mv: "moved st st' b u (loc u) pl'" and stats: "ms_stats st' = ms_stats st"
  shows "shuffled st loc st' (loc(u := pl'))"
proof -
  obtain F where lay: "layout st" and F: "free_lists st loc F" and sts: "states st loc" using hp by (auto simp: heap_at_def)
  have use_head: "in_use st (loc u) \<and> head_at st (loc u) = u"
    using place_in_use [OF free_listsD(4) [OF F b] b(1) pl(1)] head by simp
  have same: "same_layout st st'" using movedD(1) [OF mv] .
  have "free_lists st' (loc(u := pl')) (relist u (loc u) pl' F)"
    by (rule move_lists [OF lay F b pl(3,4) mv use_head])
  moreover have "states st' (loc(u := pl'))"
    using sts pl(1,2) same_layoutD(4) [OF same] by (auto simp: states_def same_slots(3) [OF same])
  moreover have "active st' (loc(u := pl')) = active st loc"
    using pl(1,2) by (auto simp: active_def same_slots(3) [OF same])
  moreover have "kept (owned st loc) st st'" using moved_kept [OF lay b mv] pl(1) by blast
  ultimately show ?thesis using same stats layout_same [OF same] lay by (auto simp: shuffled_def heap_at_def)
qed

section \<open>Refilling a cache\<close>

lemma unlink_stats [simp]: "ms_stats (snd (unlink_head r st)) = ms_stats st" "ms_stats (link_head r u st) = ms_stats st"
  by (simp_all add: unlink_head_def link_head_def Let_def)

lemma unlink_fst [simp]: "fst (unlink_head r st) = vc_head (cache_at st r)"
  by (simp add: unlink_head_def Let_def)

lemma link_spans [simp]: "ms_spans (link_head r u st) = ms_spans st" "ms_spans (snd (unlink_head r st)) = ms_spans st"
  by (simp_all add: link_head_def unlink_head_def Let_def)

lemma link_heads [simp]: "vc_head (cache_at (link_head r u st) r') = (if r' = r then u else vc_head (cache_at st r'))"
  by (simp add: link_head_def)

lemma refill_remote:
  assumes "heap_at st loc" "p < VL_MEMORY_MAX_P" "c < VL_SIZE_CLASS_COUNT" "refill_from_remote left p c st = (left', st')"
  shows "\<exists>loc'. shuffled st loc st' loc' \<and> left' \<le> left \<and> ms_spans st' = ms_spans st
    \<and> (vc_head (cache_at st (Local p c)) \<noteq> NULL \<or> left' < left \<longrightarrow> vc_head (cache_at st' (Local p c)) \<noteq> NULL)"
  using assms
proof (induction left arbitrary: st loc)
  case 0
  then show ?case using shuffled_refl by fastforce
next
  case (Suc left)
  show ?case
  proof (cases "vc_head (cache_at st (Remote p c)) = NULL")
    case True
    then show ?thesis using Suc.prems shuffled_refl by fastforce
  next
    case False
    let ?u = "vc_head (cache_at st (Remote p c))"
    obtain st1 where st1: "unlink_head (Remote p c) st = (?u, st1)" by (simp add: unlink_head_def Let_def)
    define st2 where "st2 = link_head (Local p c) ?u st1"
    have use_r: "in_use st (Cached (Remote p c))" using Suc.prems by (simp add: in_use_def)
    obtain b where b: "b \<in> set (ms_all_spans st)" "?u \<in> slots st b" "loc ?u = Cached (Remote p c)"
      using head_slot [OF Suc.prems(1) use_r] False by auto
    have "place_ok st b (Cached (Local p c))"
      using Suc.prems(1-3) free_listsD(4) [OF _ b(1,2)] b(3) by (fastforce simp: heap_at_def place_ok_def)
    moreover have "moved st st2 b ?u (loc ?u) (Cached (Local p c))"
      using relink_moved [OF st1, of "Local p c" b] b(3) by (simp add: st2_def)
    moreover have "ms_stats st2 = ms_stats st" using unlink_stats(1) [of "Remote p c" st] st1 by (simp add: st2_def)
    ultimately have sh: "shuffled st loc st2 (loc(?u := Cached (Local p c)))"
      using shuffle_move [OF Suc.prems(1) b(1,2)] b(3) by simp
    have rec: "refill_from_remote left p c st2 = (left', st')" using Suc.prems(4) False st1 by (simp add: st2_def)
    have sp: "ms_spans st2 = ms_spans st" using link_spans(2) [of "Remote p c" st] st1 by (simp add: st2_def)
    have hd: "vc_head (cache_at st2 (Local p c)) \<noteq> NULL" using False unfolding st2_def link_heads by simp
    have "heap_at st2 (loc(?u := Cached (Local p c)))" using sh by (simp add: shuffled_def)
    then obtain loc' where "shuffled st2 (loc(?u := Cached (Local p c))) st' loc'" "left' \<le> left" "ms_spans st' = ms_spans st2"
        "vc_head (cache_at st' (Local p c)) \<noteq> NULL"
      using Suc.IH [OF _ Suc.prems(2,3) rec] hd by blast
    then show ?thesis using shuffled_trans [OF sh] sp by fastforce
  qed
qed

lemma refill_span:
  assumes "heap_at st loc" "p < VL_MEMORY_MAX_P" "c < VL_SIZE_CLASS_COUNT" "refill_from_span left b p c st = (left', st')"
    "b \<in> set (ms_all_spans st)" "sp_class_index (ms_spans st b) = c"
  shows "\<exists>loc'. shuffled st loc st' loc' \<and> left' \<le> left
    \<and> (vc_head (cache_at st (Local p c)) \<noteq> NULL \<or> left' < left \<longrightarrow> vc_head (cache_at st' (Local p c)) \<noteq> NULL)
    \<and> (0 < left \<and> sp_central_free (ms_spans st b) \<noteq> NULL \<longrightarrow> left' < left)"
  using assms
proof (induction left arbitrary: st loc)
  case 0
  then show ?case using shuffled_refl by fastforce
next
  case (Suc left)
  show ?case
  proof (cases "sp_central_free (ms_spans st b) = NULL")
    case True
    then show ?thesis using Suc.prems shuffled_refl by fastforce
  next
    case False
    let ?u = "sp_central_free (ms_spans st b)"
    have lay: "layout st" using Suc.prems(1) by (simp add: heap_at_def)
    have use_b: "in_use st (Central b)" using Suc.prems(5) by (simp add: in_use_def)
    obtain b' where b': "b' \<in> set (ms_all_spans st)" "?u \<in> slots st b'" "loc ?u = Central b"
      using head_slot [OF Suc.prems(1) use_b] False by auto
    have "b' = b" using Suc.prems(1) free_listsD(4) [OF _ b'(1,2)] b'(3) by (fastforce simp: heap_at_def place_ok_def)
    note b = b' [unfolded this]
    have nb: "b \<noteq> NULL" using layoutD(3) [OF lay] span_region [OF lay b(1)] by (auto simp: maps_ok_def region_ok_def)
    obtain st1 where st1: "vl_span_take_central b st = (?u, st1)" using False nb by (simp add: vl_span_take_central_def Let_def)
    define st2 where "st2 = link_head (Local p c) ?u st1"
    have "place_ok st b (Cached (Local p c))" using Suc.prems(2,3,6) by (simp add: place_ok_def)
    moreover have mv: "moved st st2 b ?u (loc ?u) (Cached (Local p c))"
      using take_moved [OF st1 nb, of "Local p c"] False b(3) by (simp add: st2_def)
    moreover have "ms_stats st2 = ms_stats st"
      using st1 False nb by (auto simp: st2_def vl_span_take_central_def Let_def upd_span_def)
    ultimately have sh: "shuffled st loc st2 (loc(?u := Cached (Local p c)))"
      using shuffle_move [OF Suc.prems(1) b(1,2)] b(3) by simp
    have rec: "refill_from_span left b p c st2 = (left', st')" using Suc.prems(4) False st1 by (simp add: st2_def)
    have hd: "vc_head (cache_at st2 (Local p c)) \<noteq> NULL" using False unfolding st2_def link_heads by simp
    have "heap_at st2 (loc(?u := Cached (Local p c)))" "b \<in> set (ms_all_spans st2)" "sp_class_index (ms_spans st2 b) = c"
      using sh b(1) Suc.prems(6) same_layoutD [OF movedD(1) [OF mv]] by (simp_all add: shuffled_def)
    then obtain loc' where "shuffled st2 (loc(?u := Cached (Local p c))) st' loc'" "left' \<le> left"
        "vc_head (cache_at st' (Local p c)) \<noteq> NULL"
      using Suc.IH [OF _ Suc.prems(2,3) rec] hd by blast
    then show ?thesis using shuffled_trans [OF sh] by fastforce
  qed
qed

end
