(* ===== verification/Heap_Create.thy ===== *)
theory Heap_Create
  imports Heap_Moves
begin

text \<open>
  A new span: what the page heap hands out overlaps nothing, the loop of \<^verbatim>\<open>vl_span_create\<close> links all objects
  of the span, and the invariant holds with the new span added.
\<close>

section \<open>The page heap\<close>

lemma acquire_ok:
  assumes "os_ok (ms_page_size st) os" "maps_ok (ms_page_size st) (ms_mappings st)"
    "vl_page_heap_acquire os pages st = (a, n, st')"
  shows "a = NULL \<Longrightarrow> st' = st"
    "a \<noteq> NULL \<Longrightarrow> unat n = unat pages * unat (ms_page_size st)"
    "a \<noteq> NULL \<Longrightarrow> maps_ok (ms_page_size st) ((a, n) # ms_mappings st)"
    "a \<noteq> NULL \<Longrightarrow> st' = st\<lparr>ms_mappings := (a, n) # ms_mappings st, ms_stats := (ms_stats st)\<lparr>
        as_mmap_calls := as_mmap_calls (ms_stats st) + 1, as_mapped_bytes := as_mapped_bytes (ms_stats st) + n\<rparr>\<rparr>"
proof -
  let ?p = "ms_page_size st" and ?n = "pages * ms_page_size st"
  have p: "0 < unat ?p" using assms(1) page_ok_bounds by (fastforce simp: os_ok_def)
  have fresh: "region_ok ?p (b, ?n)" "\<forall>r \<in> set (ms_mappings st). cells b ?n \<inter> region_cells r = {}"
    if "os_mmap os (ms_mappings st) ?n = Some b" "?n \<noteq> 0" for b
    using assms(1) that unfolding os_ok_def by blast+
  have mul: "unat ?n = unat pages * unat ?p" if "\<not> pages > SIZE_MAX div ?p"
  proof -
    have "unat pages \<le> (2 ^ 64 - 1) div unat ?p" using that by (simp add: usize_less_iff unat_div_distrib not_less)
    then have "unat pages * unat ?p \<le> (2 ^ 64 - 1) div unat ?p * unat ?p" by (rule mult_le_mono1)
    also have "\<dots> \<le> 2 ^ 64 - 1" by simp
    finally have "unat pages * unat ?p < 2 ^ 64" by simp
    then show ?thesis by (simp add: unat_mult_lem [THEN iffD1])
  qed
  have nz: "?n \<noteq> 0" if "pages \<noteq> 0" "\<not> pages > SIZE_MAX div ?p"
  proof -
    have "0 < unat ?n" using mul [OF that(2)] that(1) p by (simp add: unat_gt_0)
    then show ?thesis by auto
  qed
  show "a = NULL \<Longrightarrow> st' = st"
    using assms(3) nz fresh(1) by (auto simp: vl_page_heap_acquire_def Let_def region_ok_def split: if_splits option.splits)
  assume a: "a \<noteq> NULL"
  then have facts: "pages \<noteq> 0" "\<not> pages > SIZE_MAX div ?p" "n = ?n" "os_mmap os (ms_mappings st) ?n = Some a"
    "st' = upd_memory_stats (\<lambda>s. s\<lparr>as_mmap_calls := as_mmap_calls s + 1, as_mapped_bytes := as_mapped_bytes s + n\<rparr>)
        (st\<lparr>ms_mappings := (a, n) # ms_mappings st\<rparr>)"
    using assms(3) by (auto simp: vl_page_heap_acquire_def Let_def split: if_splits option.splits)
  show "unat n = unat pages * unat ?p" using mul [OF facts(2)] facts(3) by simp
  show "maps_ok ?p ((a, n) # ms_mappings st)"
    using fresh [OF facts(4) nz [OF facts(1,2)]] facts(3) assms(2) by (auto simp: maps_ok_def region_cells_def)
  show "st' = st\<lparr>ms_mappings := (a, n) # ms_mappings st, ms_stats := (ms_stats st)\<lparr>
        as_mmap_calls := as_mmap_calls (ms_stats st) + 1, as_mapped_bytes := as_mapped_bytes (ms_stats st) + n\<rparr>\<rparr>"
    using facts(5) by (simp add: upd_memory_stats_def)
qed

section \<open>The size of a span\<close>

lemma round_up_pages:
  fixes A P :: nat
  assumes "0 < P"
  shows "A \<le> (A + P - 1) div P * P" "(A + P - 1) div P * P < A + P"
proof -
  have "(A + P - 1) div P * P + (A + P - 1) mod P = A + P - 1" by simp
  moreover have "(A + P - 1) mod P < P" using assms by simp
  ultimately show "A \<le> (A + P - 1) div P * P" "(A + P - 1) div P * P < A + P" using assms by linarith+
qed

lemma object_area_bounds:
  assumes "unat stride \<le> 32864" "0 < unat stride"
  shows "unat (object_area stride) \<le> 65728" "unat stride \<le> unat (object_area stride)"
proof -
  have "unat (stride * 2) = unat stride * 2" using assms by (simp add: unat_mult_lem [THEN iffD1])
  moreover have "stride > (64 * 1024) div 2 \<longleftrightarrow> unat stride > 32768"
    by (simp add: usize_less_iff unat_div_distrib)
  ultimately show "unat (object_area stride) \<le> 65728" "unat stride \<le> unat (object_area stride)"
    using assms by (auto simp: object_area_def)
qed

lemma span_pages:
  assumes "page_ok page" "unat stride \<le> 32864" "0 < unat stride"
  defines "pages \<equiv> (object_area stride + page - 1) div page"
  shows "pages \<noteq> 0" "pages \<noteq> SIZE_MAX" "unat (pages + 1) = unat pages + 1"
    "unat stride \<le> unat pages * unat page" "unat pages * unat page < 65728 + unat page"
proof -
  have p: "4096 \<le> unat page" "unat page \<le> 16777216" using page_ok_bounds [OF assms(1)] by auto
  note area = object_area_bounds [OF assms(2,3)]
  have sum: "unat (object_area stride + page) = unat (object_area stride) + unat page"
    using area p by (intro usize_unat_add) simp
  then have "object_area stride + page \<noteq> 0" using p by auto
  then have "unat (object_area stride + page - 1) = unat (object_area stride) + unat page - 1"
    using sum by (simp add: usize_unat_pred)
  then have u: "unat pages = (unat (object_area stride) + unat page - 1) div unat page"
    by (simp add: pages_def unat_div_distrib)
  note r = round_up_pages [of "unat page" "unat (object_area stride)", folded u]
  show "unat stride \<le> unat pages * unat page" using r p area by linarith
  show lt: "unat pages * unat page < 65728 + unat page" using r p area by linarith
  have "unat pages \<le> unat pages * unat page" using p by simp
  then have "unat pages < 16842944" using lt p by linarith
  then have small: "unat pages < 2 ^ 30" by simp
  show "pages \<noteq> 0" using \<open>unat stride \<le> unat pages * unat page\<close> assms(3) by auto
  show "pages \<noteq> SIZE_MAX" using small by auto
  show "unat (pages + 1) = unat pages + 1" using small by (subst usize_unat_Suc) simp_all
qed

section \<open>Linking the objects\<close>

lemma linked_store:
  assumes "linked m h xs" "\<And>x. x \<in> set xs \<Longrightarrow> load_ptr x (store_ptr u h m) = load_ptr x m" "u \<noteq> NULL"
  shows "linked (store_ptr u h m) u (u # xs)"
  using assms linked_cong [of xs "store_ptr u h m" m] by simp

lemma init_loop:
  assumes ok: "span_ok st b" "maps_ok (ms_page_size st) (ms_mappings st)"
    and start: "sp_central_free (ms_spans st b) = NULL" and k: "k \<le> unat (sp_object_count (ms_spans st b))"
  defines "s \<equiv> ms_spans st b"
  shows "\<exists>m hs c. fold (init_object b) [0..<k] st = st\<lparr>ms_mem := m, ms_headers := hs, ms_spans := (ms_spans st)(b := s\<lparr>sp_central_free := c\<rparr>)\<rparr>
    \<and> linked m c (rev (map (slot st b) [0..<k]))
    \<and> (\<forall>i < k. hs (vl_object_header_from_user (slot st b i)) = \<lparr>oh_magic = VL_OBJECT_MAGIC, oh_kind = VL_OBJECT_SMALL,
         oh_state = VL_OBJECT_FREE, oh_requested_size = 0, oh_capacity = sp_capacity s, oh_owner_p = sp_owner_p s,
         oh_reserved = 0, oh_span = b, oh_mapping_base = NULL, oh_mapping_size = 0\<rparr>)
    \<and> (\<forall>h. (\<forall>i < k. h \<noteq> vl_object_header_from_user (slot st b i)) \<longrightarrow> hs h = ms_headers st h)
    \<and> (\<forall>x. unat x \<notin> region_cells (b, sp_mapping_size s) \<longrightarrow> m x = ms_mem st x)"
  using k
proof (induction k)
  case 0
  have "s\<lparr>sp_central_free := NULL\<rparr> = ms_spans st b" using start by (cases "ms_spans st b") (simp add: s_def)
  then have eq: "st\<lparr>ms_mem := ms_mem st, ms_headers := ms_headers st, ms_spans := (ms_spans st)(b := s\<lparr>sp_central_free := NULL\<rparr>)\<rparr> = st"
    by simp
  then show ?case by (intro exI [of _ "ms_mem st"] exI [of _ "ms_headers st"] exI [of _ NULL]) (simp add: eq del: fun_upd_apply)
next
  case (Suc k)
  let ?u = "slot st b k" and ?init = "\<lparr>oh_magic = VL_OBJECT_MAGIC, oh_kind = VL_OBJECT_SMALL,
         oh_state = VL_OBJECT_FREE, oh_requested_size = 0, oh_capacity = sp_capacity s, oh_owner_p = sp_owner_p s,
         oh_reserved = 0, oh_span = b, oh_mapping_base = NULL, oh_mapping_size = 0\<rparr>"
  obtain m hs c where IH:
    "fold (init_object b) [0..<k] st = st\<lparr>ms_mem := m, ms_headers := hs, ms_spans := (ms_spans st)(b := s\<lparr>sp_central_free := c\<rparr>)\<rparr>"
    "linked m c (rev (map (slot st b) [0..<k]))" "\<forall>i < k. hs (vl_object_header_from_user (slot st b i)) = ?init"
    "\<forall>h. (\<forall>i < k. h \<noteq> vl_object_header_from_user (slot st b i)) \<longrightarrow> hs h = ms_headers st h"
    "\<forall>x. unat x \<notin> region_cells (b, sp_mapping_size s) \<longrightarrow> m x = ms_mem st x"
    using Suc by (metis (no_types, lifting) Suc_leD)
  have kk: "k < unat (sp_object_count (ms_spans st b))" using Suc.prems by simp
  note obj = slot_object [OF ok kk]
  have base: "sp_mapping_base s = b" using ok(1) by (simp add: span_ok_def Let_def s_def)
  have hdr: "b + ms_page_size st + of_nat k * sp_object_stride s = vl_object_header_from_user ?u"
    by (simp add: slot_def vl_object_header_from_user_def vl_object_user_from_header_def s_def)
  have usr: "vl_object_user_from_header (vl_object_header_from_user u) = u" for u
    by (simp add: vl_object_header_from_user_def vl_object_user_from_header_def)
  have step: "fold (init_object b) [0..<Suc k] st = st\<lparr>ms_mem := store_ptr ?u c m, ms_headers := hs(vl_object_header_from_user ?u := ?init),
      ms_spans := (ms_spans st)(b := s\<lparr>sp_central_free := ?u\<rparr>)\<rparr>"
    using IH(1) by (simp add: init_object_def Let_def upd_header_def upd_span_def base hdr usr)
  have other: "load_ptr (slot st b i) (store_ptr ?u c m) = load_ptr (slot st b i) m" if "i < k" for i
  proof (rule load_ptr_cong)
    have ik: "i < unat (sp_object_count (ms_spans st b))" using that kk by simp
    note obji = slot_object [OF ok ik]
    show "unat (slot st b i) + 8 \<le> 2 ^ 64" by (rule obji(2))
    fix x :: addr assume "unat x \<in> cells (slot st b i) 8"
    then have "unat x \<notin> cells ?u 8" using slots_apart [OF ok ik kk] that obji(1) obj(1) by blast
    then show "store_ptr ?u c m x = m x" by (rule store_ptr_other [OF obj(2)])
  qed
  have "load_ptr x (store_ptr ?u c m) = load_ptr x m" if "x \<in> set (rev (map (slot st b) [0..<k]))" for x
    using that other by auto
  then have "linked (store_ptr ?u c m) ?u (rev (map (slot st b) [0..<Suc k]))"
    using linked_store [OF IH(2) _ obj(3)] by simp
  moreover have "\<forall>i < Suc k. (hs(vl_object_header_from_user ?u := ?init)) (vl_object_header_from_user (slot st b i)) = ?init"
    using IH(3) by (auto simp: less_Suc_eq)
  moreover have "\<forall>h. (\<forall>i < Suc k. h \<noteq> vl_object_header_from_user (slot st b i)) \<longrightarrow>
      (hs(vl_object_header_from_user ?u := ?init)) h = ms_headers st h"
    using IH(4) by auto
  moreover have "\<forall>x. unat x \<notin> region_cells (b, sp_mapping_size s) \<longrightarrow> store_ptr ?u c m x = ms_mem st x"
  proof (intro allI impI)
    fix x :: addr assume x: "unat x \<notin> region_cells (b, sp_mapping_size s)"
    then have "unat x \<notin> cells ?u 8" using obj(1,4) by (auto simp: s_def)
    then show "store_ptr ?u c m x = ms_mem st x" using store_ptr_other [OF obj(2)] IH(5) x by auto
  qed
  ultimately show ?case unfolding step by blast
qed

section \<open>Adding a span\<close>

lemma fresh_base:
  assumes "maps_ok page ((b, n) # ms)"
  shows "(b, k) \<notin> set ms"
proof
  assume k: "(b, k) \<in> set ms"
  then have "k = n" using maps_ok_base [OF assms, of b k n] by simp
  then show False using k maps_ok_distinct [OF assms] by simp
qed

lemma header_addr: "80 \<le> unat u \<Longrightarrow> unat (vl_object_header_from_user u) = unat u - 80"
  unfolding vl_object_header_from_user_def header_size_def by (subst usize_unat_sub) (simp_all add: usize_le_iff)

lemma header_from_eq [simp]: "vl_object_header_from_user u = vl_object_header_from_user v \<longleftrightarrow> u = v"
  by (simp add: vl_object_header_from_user_def)

text \<open>The state with a new span \<open>b\<close> in the mapping \<open>(b, n)\<close>.\<close>

definition span_added :: "vl_memory_state \<Rightarrow> vl_memory_state \<Rightarrow> addr \<Rightarrow> usize \<Rightarrow> bool" where
  "span_added st st' b n \<longleftrightarrow> maps_ok (ms_page_size st) ((b, n) # ms_mappings st)
     \<and> ms_mappings st' = (b, n) # ms_mappings st \<and> ms_all_spans st' = b # ms_all_spans st
     \<and> ms_central st' = (ms_central st)(sp_class_index (ms_spans st' b) := b # ms_central st (sp_class_index (ms_spans st' b)))
     \<and> (\<forall>c. c \<noteq> b \<longrightarrow> ms_spans st' c = ms_spans st c) \<and> ms_page_size st' = ms_page_size st
     \<and> ms_large_allocations st' = ms_large_allocations st \<and> ms_initialized st' = ms_initialized st
     \<and> (\<forall>r. cache_at st' r = cache_at st r) \<and> span_ok st' b \<and> sp_mapping_size (ms_spans st' b) = n
     \<and> (\<forall>x. unat x \<notin> region_cells (b, n) \<longrightarrow> ms_mem st' x = ms_mem st x)
     \<and> (\<forall>h. (\<forall>u \<in> slots st' b. h \<noteq> vl_object_header_from_user u) \<longrightarrow> ms_headers st' h = ms_headers st h)
     \<and> (\<forall>u \<in> slots st' b. header_ok st' b u \<and> oh_state (header_of st' u) = VL_OBJECT_FREE)
     \<and> linked (ms_mem st') (sp_central_free (ms_spans st' b)) (rev (map (slot st' b) [0..<unat (sp_object_count (ms_spans st' b))]))
     \<and> sp_central_free_count (ms_spans st' b) = sp_object_count (ms_spans st' b)
     \<and> sp_free_count (ms_spans st' b) = sp_object_count (ms_spans st' b)
     \<and> sp_active_count (ms_spans st' b) = 0 \<and> sp_cached_count (ms_spans st' b) = 0
     \<and> as_active_bytes (ms_stats st') = as_active_bytes (ms_stats st)
     \<and> as_active_objects (ms_stats st') = as_active_objects (ms_stats st)"

lemma added_old:
  assumes "layout st" "span_added st st' b n" "c \<in> set (ms_all_spans st)"
  shows "c \<noteq> b" "ms_spans st' c = ms_spans st c" "slots st' c = slots st c" "object_cells st' c u = object_cells st c u"
    "region_cells (c, sp_mapping_size (ms_spans st c)) \<inter> region_cells (b, n) = {}"
proof -
  have maps: "maps_ok (ms_page_size st) ((b, n) # ms_mappings st)" using assms(2) by (simp add: span_added_def)
  show cb: "c \<noteq> b" using fresh_base [OF maps] span_region [OF assms(1,3)] by auto
  show sp: "ms_spans st' c = ms_spans st c" using assms(2) cb by (simp add: span_added_def)
  show "slots st' c = slots st c"
    using sp assms(2) by (simp add: slots_def slot_def [abs_def] span_added_def)
  show "object_cells st' c u = object_cells st c u" using sp by (simp add: object_cells_def)
  show "region_cells (c, sp_mapping_size (ms_spans st c)) \<inter> region_cells (b, n) = {}"
    using maps_ok_disjoint [OF maps, of "(c, sp_mapping_size (ms_spans st c))" "(b, n)"] span_region [OF assms(1,3)] cb by auto
qed

lemma added_new:
  assumes "span_added st st' b n" "u \<in> slots st' b"
  shows "object_cells st' b u \<subseteq> region_cells (b, n)" "unat (vl_object_header_from_user u) \<in> region_cells (b, n)"
    "unat u \<in> object_cells st' b u"
proof -
  have ok: "span_ok st' b" "maps_ok (ms_page_size st') (ms_mappings st')" "sp_mapping_size (ms_spans st' b) = n"
    using assms(1) by (simp_all add: span_added_def)
  obtain i where i: "i < unat (sp_object_count (ms_spans st' b))" "u = slot st' b i" using assms(2) by (auto simp: slots_def)
  note f = slot_facts [OF ok(1,2) i(1)]
  show "object_cells st' b u \<subseteq> region_cells (b, n)" using slot_object(4) [OF ok(1,2) i(1)] i(2) ok(3) by simp
  show "unat (vl_object_header_from_user u) \<in> region_cells (b, n)"
    using f ok(3) header_addr [of u] i(2) by (simp add: region_cells_def cells_def)
  show "unat u \<in> object_cells st' b u" using f(4) by (auto simp: object_cells_def)
qed

lemma added_slots_apart:
  assumes "layout st" "span_added st st' b n" "u \<in> slots st' b"
  shows "u \<notin> all_slots st"
proof
  assume "u \<in> all_slots st"
  then obtain c where c: "c \<in> set (ms_all_spans st)" "u \<in> slots st c" by (auto simp: all_slots_def)
  have "unat u \<in> region_cells (c, sp_mapping_size (ms_spans st c))"
    using object_in_region [OF assms(1) c] slot_inside(4) [OF assms(1) c] by (force simp: object_cells_def)
  then show False using added_old(5) [OF assms(1,2) c(1)] added_new [OF assms(2,3)] by blast
qed

lemma added_headers:
  assumes "layout st" "span_added st st' b n"
  shows "\<And>u. u \<in> all_slots st \<Longrightarrow> header_of st' u = header_of st u"
    "\<And>l. l \<in> set (ms_large_allocations st) \<Longrightarrow> ms_headers st' l = ms_headers st l"
proof -
  have same: "ms_headers st' h = ms_headers st h" if "\<And>u. u \<in> slots st' b \<Longrightarrow> h \<noteq> vl_object_header_from_user u" for h
    using assms(2) that unfolding span_added_def by blast
  show "header_of st' u = header_of st u" if "u \<in> all_slots st" for u
    using added_slots_apart [OF assms] that by (intro same) auto
  show "ms_headers st' l = ms_headers st l" if l: "l \<in> set (ms_large_allocations st)" for l
  proof (rule same)
    fix u assume u: "u \<in> slots st' b"
    have maps: "maps_ok (ms_page_size st) ((b, n) # ms_mappings st)" using assms(2) by (simp add: span_added_def)
    have reg: "(l, oh_mapping_size (ms_headers st l)) \<in> set (ms_mappings st)" using large_region [OF assms(1) l] .
    then have "l \<noteq> b" using fresh_base [OF maps] by auto
    then have "region_cells (l, oh_mapping_size (ms_headers st l)) \<inter> region_cells (b, n) = {}"
      using maps_ok_disjoint [OF maps, of "(l, oh_mapping_size (ms_headers st l))" "(b, n)"] reg by auto
    moreover have "unat l \<in> region_cells (l, oh_mapping_size (ms_headers st l))"
      using layoutD(8) [OF assms(1) l] by (auto simp: large_ok_def Let_def region_cells_def cells_def)
    ultimately show "l \<noteq> vl_object_header_from_user u" using added_new(2) [OF assms(2) u] by auto
  qed
qed

lemma addedD:
  assumes "span_added st st' b n"
  shows "maps_ok (ms_page_size st) ((b, n) # ms_mappings st)"
    "ms_mappings st' = (b, n) # ms_mappings st" "ms_all_spans st' = b # ms_all_spans st"
    "ms_central st' = (ms_central st)(sp_class_index (ms_spans st' b) := b # ms_central st (sp_class_index (ms_spans st' b)))"
    "ms_page_size st' = ms_page_size st" "ms_large_allocations st' = ms_large_allocations st" "ms_initialized st' = ms_initialized st"
    "\<And>r. cache_at st' r = cache_at st r" "span_ok st' b"
    "\<And>x. unat x \<notin> region_cells (b, n) \<Longrightarrow> ms_mem st' x = ms_mem st x"
    "\<And>u. u \<in> slots st' b \<Longrightarrow> header_ok st' b u" "\<And>u. u \<in> slots st' b \<Longrightarrow> oh_state (header_of st' u) = VL_OBJECT_FREE"
    "linked (ms_mem st') (sp_central_free (ms_spans st' b)) (rev (map (slot st' b) [0..<unat (sp_object_count (ms_spans st' b))]))"
    "sp_central_free_count (ms_spans st' b) = sp_object_count (ms_spans st' b)"
    "sp_free_count (ms_spans st' b) = sp_object_count (ms_spans st' b)"
    "sp_active_count (ms_spans st' b) = 0" "sp_cached_count (ms_spans st' b) = 0"
    "as_active_bytes (ms_stats st') = as_active_bytes (ms_stats st)" "as_active_objects (ms_stats st') = as_active_objects (ms_stats st)"
  using assms by (simp_all add: span_added_def)

lemma added_layout:
  assumes "layout st" "span_added st st' b n"
  shows "layout st'"
proof -
  note a = addedD [OF assms(2)]
  have b: "b \<notin> set (ms_all_spans st)" "b \<notin> set (ms_large_allocations st)"
    using fresh_base [OF a(1)] span_region [OF assms(1)] large_region [OF assms(1)] by blast+
  have "span_ok st' c" if c: "c \<in> set (ms_all_spans st)" for c
    using layoutD(6) [OF assms(1) c] unfolding span_ok_def Let_def added_old(2) [OF assms c] a(2,5) set_simps insert_iff by blast
  moreover have "header_ok st' c u" if c: "c \<in> set (ms_all_spans st)" "u \<in> slots st' c" for c u
  proof -
    have u: "u \<in> slots st c" "u \<in> all_slots st" using c added_old(3) [OF assms c(1)] by (auto simp: all_slots_def)
    show ?thesis using layoutD(7) [OF assms(1) c(1) u(1)]
      unfolding header_ok_def Let_def added_old(2) [OF assms c(1)] added_headers(1) [OF assms u(2)] .
  qed
  moreover have "large_ok st' l" if "l \<in> set (ms_large_allocations st)" for l
    using layoutD(8) [OF assms(1) that] unfolding large_ok_def Let_def added_headers(2) [OF assms that] a(2) by simp
  moreover have "ms_central st' c = filter (\<lambda>x. sp_class_index (ms_spans st' x) = c) (ms_all_spans st')" for c
  proof -
    have "filter (\<lambda>x. sp_class_index (ms_spans st' x) = c) (ms_all_spans st) = ms_central st c"
      unfolding layoutD(5) [OF assms(1)] using added_old(2) [OF assms] by (intro filter_cong) auto
    then show ?thesis unfolding a(3,4) by simp
  qed
  moreover have "distinct (ms_all_spans st' @ ms_large_allocations st')" using layoutD(4) [OF assms(1)] a(3,6) b by simp
  moreover have "maps_ok (ms_page_size st') (ms_mappings st')" "ms_initialized st'" "page_ok (ms_page_size st')"
    using a(1,2,5,7) layoutD(1,2) [OF assms(1)] by simp_all
  ultimately show ?thesis using a(3,6,9,11) unfolding layout_def by simp
qed

lemma added_free_lists:
  assumes lay: "layout st" and add: "span_added st st' b n" and fl: "free_lists st loc F"
  defines "loc' \<equiv> \<lambda>u. if u \<in> slots st' b then Central b else loc u"
  shows "\<exists>F'. free_lists st' loc' F'"
proof -
  note a = addedD [OF add]
  let ?new = "rev (map (slot st' b) [0..<unat (sp_object_count (ms_spans st' b))])"
  let ?F = "F(Central b := ?new)"
  note lay' = added_layout [OF lay add]
  have bin: "b \<in> set (ms_all_spans st')" using a(3) by simp
  have slots: "all_slots st' = slots st' b \<union> all_slots st"
    using a(3) added_old(3) [OF lay add] by (simp add: all_slots_def)
  have new: "set ?new = slots st' b" "distinct ?new"
    using card_slots [OF lay' bin] by (auto simp: slots_def atLeast0LessThan intro!: card_distinct)
  have old_loc: "loc' u = loc u" if "u \<in> all_slots st" for u
    using added_slots_apart [OF lay add] that by (auto simp: loc'_def)
  have notb: "loc u \<noteq> Central b" if "u \<in> all_slots st" for u
    using that free_listsD(4) [OF fl] added_old(1) [OF lay add] by (fastforce simp: all_slots_def place_ok_def)
  have load: "load_ptr u (ms_mem st') = load_ptr u (ms_mem st)" if u: "u \<in> all_slots st" for u
  proof -
    obtain c where c: "c \<in> set (ms_all_spans st)" "u \<in> slots st c" using u by (auto simp: all_slots_def)
    show ?thesis
    proof (rule load_ptr_cong [OF link_cells(2) [OF lay c]])
      fix x :: addr assume "unat x \<in> cells u 8"
      then have "unat x \<notin> region_cells (b, n)"
        using added_old(5) [OF lay add c(1)] link_cells(1) [OF lay c] object_in_region [OF lay c] by blast
      then show "ms_mem st' x = ms_mem st x" by (rule a(10))
    qed
  qed
  have sets: "distinct (?F pl) \<and> set (?F pl) = {u \<in> all_slots st'. loc' u = pl}" if "pl \<noteq> Active" for pl
  proof (cases "pl = Central b")
    case True
    then show ?thesis using new slots old_loc notb by (auto simp: loc'_def)
  next
    case False
    then show ?thesis using free_listsD(2,3) [OF fl that] slots added_slots_apart [OF lay add] by (auto simp: loc'_def)
  qed
  have lnk: "linked (ms_mem st') (head_at st' pl) (?F pl)" if use': "in_use st' pl" for pl
  proof (cases "pl = Central b")
    case True
    then show ?thesis using a(13) by simp
  next
    case False
    have na: "pl \<noteq> Active" and old: "in_use st pl" using use' False a(3) by (auto simp: in_use_def split: place.splits)
    have "head_at st' pl = head_at st pl" using old na a(8) added_old(2) [OF lay add] by (cases pl) (auto simp: in_use_def)
    moreover have "linked (ms_mem st') h (F pl) = linked (ms_mem st) h (F pl)" for h
      using free_listsD(3) [OF fl na] load by (intro linked_cong) auto
    ultimately show ?thesis using free_listsD(1) [OF fl old] False by simp
  qed
  have plc: "place_ok st' c (loc' u)" if "c \<in> set (ms_all_spans st')" "u \<in> slots st' c" for c u
  proof (cases "c = b")
    case True
    then show ?thesis using that by (simp add: loc'_def place_ok_def)
  next
    case False
    then have c: "c \<in> set (ms_all_spans st)" "u \<in> slots st c" using that a(3) added_old(3) [OF lay add] by auto
    then have eq: "loc' u = loc u" using old_loc by (auto simp: all_slots_def)
    show ?thesis using free_listsD(4) [OF fl c] unfolding place_ok_def added_old(2) [OF lay add c(1)] eq .
  qed
  have tal: "tally (slots st' b) loc' P = (if P (Central b) then sp_object_count (ms_spans st' b) else 0)" for P
  proof -
    have "{u \<in> slots st' b. P (loc' u)} = (if P (Central b) then slots st' b else {})" by (auto simp: loc'_def)
    then show ?thesis using card_slots [OF lay' bin] by (simp add: tally_def)
  qed
  have tal_old: "tally (slots st' c) loc' P = tally (slots st c) loc P" if c: "c \<in> set (ms_all_spans st)" for c P
  proof -
    have "loc' u = loc u" if "u \<in> slots st c" for u using old_loc [of u] that c by (auto simp: all_slots_def)
    then have "{u \<in> slots st' c. P (loc' u)} = {u \<in> slots st c. P (loc u)}"
      unfolding added_old(3) [OF lay add c] by (metis (mono_tags, lifting))
    then show ?thesis by (simp add: tally_def)
  qed
  have "sp_central_free_count (ms_spans st' c) = tally (slots st' c) loc' (\<lambda>pl. pl = Central c)
      \<and> sp_cached_count (ms_spans st' c) = tally (slots st' c) loc' is_cached
      \<and> sp_active_count (ms_spans st' c) = tally (slots st' c) loc' (\<lambda>pl. pl = Active)
      \<and> sp_free_count (ms_spans st' c) = tally (slots st' c) loc' (\<lambda>pl. pl \<noteq> Active)" if "c \<in> set (ms_all_spans st')" for c
  proof (cases "c = b")
    case True
    then show ?thesis using a(14-17) by (simp add: tal is_cached_def)
  next
    case False
    then have c: "c \<in> set (ms_all_spans st)" using that a(3) by auto
    show ?thesis using free_listsD(6-9) [OF fl c] tal_old [OF c] added_old(2) [OF lay add c] by simp
  qed
  then have "free_lists st' loc' ?F"
    using sets lnk plc a(8) free_listsD(5) [OF fl] unfolding free_lists_def by simp
  then show ?thesis by blast
qed

lemma owned_objectI:
  "b \<in> set (ms_all_spans st) \<Longrightarrow> u \<in> slots st b \<Longrightarrow> loc u = Active \<Longrightarrow> x \<in> object_cells st b u \<Longrightarrow> x \<in> owned st loc"
  by (auto simp: owned_def)

lemma owned_regionI:
  "r \<in> set (ms_mappings st) \<Longrightarrow> fst r \<notin> set (ms_all_spans st) \<Longrightarrow> x \<in> region_cells r \<Longrightarrow> x \<in> owned st loc"
  unfolding owned_def by blast

lemma span_ok_cong:
  assumes "static (ms_spans st' b) = static (ms_spans st b)" "ms_page_size st' = ms_page_size st" "ms_mappings st' = ms_mappings st"
  shows "span_ok st' b = span_ok st b"
  using assms by (simp add: span_ok_def static_def Let_def)

lemma span_ok_count: "span_ok st b \<Longrightarrow> sp_object_count (ms_spans st b) \<noteq> 0"
  unfolding span_ok_def Let_def by blast

lemma added_evolved:
  assumes hp: "heap_at st loc" and add: "span_added st st' b n"
  shows "evolved st loc st' (\<lambda>u. if u \<in> slots st' b then Central b else loc u)"
proof -
  let ?loc = "\<lambda>u. if u \<in> slots st' b then Central b else loc u"
  have lay: "layout st" and sts: "states st loc" using hp by (auto simp: heap_at_def)
  obtain F where F: "free_lists st loc F" using hp by (auto simp: heap_at_def)
  note a = addedD [OF add]
  have slots: "all_slots st' = slots st' b \<union> all_slots st" using a(3) added_old(3) [OF lay add] by (simp add: all_slots_def)
  have apart: "u \<notin> slots st' b" if "u \<in> all_slots st" for u using added_slots_apart [OF lay add] that by blast
  have "states st' ?loc"
    using sts slots apart a(12) added_headers(1) [OF lay add] by (simp add: states_def Ball_def)
  then have hp': "heap_at st' ?loc" using added_layout [OF lay add] added_free_lists [OF lay add F] by (simp add: heap_at_def)
  have act: "active st' ?loc = active st loc" using slots apart by (auto simp: active_def)
  have own: "owned st loc \<subseteq> owned st' ?loc"
  proof
    fix x assume "x \<in> owned st loc"
    then consider c u where "c \<in> set (ms_all_spans st)" "u \<in> slots st c" "loc u = Active" "x \<in> object_cells st c u"
      | r where "r \<in> set (ms_mappings st)" "fst r \<notin> set (ms_all_spans st)" "x \<in> region_cells r"
      by (auto simp: owned_def)
    then show "x \<in> owned st' ?loc"
    proof cases
      case (1 c u)
      then have "u \<notin> slots st' b" using apart by (auto simp: all_slots_def)
      then show ?thesis using 1 a(3) added_old(3,4) [OF lay add 1(1)] by (intro owned_objectI [of c _ u]) simp_all
    next
      case (2 r)
      then have "fst r \<noteq> b" using fresh_base [OF a(1), of "snd r"] by auto
      then show ?thesis using 2 a(2,3) by (intro owned_regionI [of r]) simp_all
    qed
  qed
  have reg: "region_cells (b, n) \<inter> owned st loc = {}"
  proof -
    have "region_cells (b, n) \<inter> object_cells st c u = {}" if c: "c \<in> set (ms_all_spans st)" "u \<in> slots st c" for c u
      using added_old(5) [OF lay add c(1)] object_in_region [OF lay c] by blast
    moreover have "region_cells (b, n) \<inter> region_cells r = {}" if "r \<in> set (ms_mappings st)" for r
      using maps_ok_disjoint [OF a(1), of "(b, n)" r] that fresh_base [OF a(1), of n] by auto
    ultimately show ?thesis unfolding owned_def by blast
  qed
  have "kept (owned st loc) st st'" using reg a(10) unfolding kept_def by blast
  then show ?thesis
    using hp' act own added_headers [OF lay add] a(5,6,18,19) by (auto simp: evolved_def active_def)
qed

section \<open>Creating a span\<close>

text \<open>The record of a new span, and the state before its objects are linked.\<close>

definition new_span :: "usize \<Rightarrow> nat \<Rightarrow> nat \<Rightarrow> addr \<Rightarrow> usize \<Rightarrow> vl_span" where
  "new_span page p c b n = \<lparr>sp_mapping_base = b, sp_mapping_size = n, sp_class_index = c,
     sp_capacity = vl_size_class_capacity c, sp_object_stride = vl_span_object_stride (vl_size_class_capacity c),
     sp_object_count = (n - page) div vl_span_object_stride (vl_size_class_capacity c), sp_central_free_count = 0,
     sp_free_count = 0, sp_active_count = 0, sp_cached_count = 0, sp_owner_p = vl_memory_current_p p, sp_central_free = NULL\<rparr>"

definition span_pages_for :: "usize \<Rightarrow> nat \<Rightarrow> usize" where
  "span_pages_for page c = (object_area (vl_span_object_stride (vl_size_class_capacity c)) + page - 1) div page"

lemma create_unfold:
  assumes "page_ok (ms_page_size st)" "c < VL_SIZE_CLASS_COUNT" "out = Some NULL"
    "vl_page_heap_acquire os (span_pages_for (ms_page_size st) c + 1) st = (b, n, st1)"
  shows "vl_span_create os p c out st =
    (if b = NULL then (VL_ERROR_OUT_OF_MEMORY, out, st1)
     else let s = new_span (ms_page_size st1) p c b n; st2 = upd_span (\<lambda>_. s) b st1 in
       if sp_object_count s = 0 then (VL_ERROR_SYSTEM, out, vl_page_heap_release os b n st2)
       else (VL_OK, Some b, vl_span_insert_central b
         (let st4 = upd_span (\<lambda>x. x\<lparr>sp_central_free_count := sp_object_count s, sp_free_count := sp_object_count s\<rparr>) b
              (fold (init_object b) [0..<unat (sp_object_count s)] st2)
          in st4\<lparr>ms_all_spans := b # ms_all_spans st4\<rparr>)))"
  using span_pages(1,2) [OF assms(1) stride_bounds(3,4) [OF assms(2)]] assms(2-4)
  by (simp add: vl_span_create_def new_span_def Let_def flip: span_pages_for_def)

lemma new_span_ok:
  assumes "page_ok page" "c < VL_SIZE_CLASS_COUNT" "unat n = unat (span_pages_for page c + 1) * unat page"
    "maps_ok page ((b, n) # ms)" "ms_spans st b = new_span page p c b n" "ms_page_size st = page" "ms_mappings st = (b, n) # ms"
  shows "span_ok st b" "sp_object_count (new_span page p c b n) \<noteq> 0"
proof -
  let ?s = "vl_span_object_stride (vl_size_class_capacity c)"
  note sb = stride_bounds [OF assms(2)]
  note pg = span_pages [OF assms(1) sb(3,4), folded span_pages_for_def]
  have un: "unat n = unat (span_pages_for page c) * unat page + unat page" using assms(3) pg(3) by simp
  then have le: "page \<le> n" by (simp add: usize_le_iff)
  have "unat ((n - page) div ?s) = unat (span_pages_for page c) * unat page div unat ?s"
    using un le by (simp add: unat_div_distrib usize_unat_sub)
  moreover have "0 < unat (span_pages_for page c) * unat page div unat ?s" using pg(4) sb(4) by (simp add: div_greater_zero_iff)
  ultimately have nz: "(n - page) div ?s \<noteq> 0" by (metis less_irrefl unat_0)
  then show "sp_object_count (new_span page p c b n) \<noteq> 0" by (simp add: new_span_def)
  show "span_ok st b"
    using nz le assms(2,5-7) by (simp add: span_ok_def Let_def new_span_def vl_memory_current_p_def VL_MEMORY_MAX_P_def)
qed

text \<open>The loop and what follows it turn the state before it into one with the span added.\<close>

lemma linked_added:
  assumes lay: "layout st" and c: "c < VL_SIZE_CLASS_COUNT" and maps: "maps_ok (ms_page_size st) ((b, n) # ms_mappings st)"
    and size: "unat n = unat (span_pages_for (ms_page_size st) c + 1) * unat (ms_page_size st)"
    and st1: "st1 = st\<lparr>ms_mappings := (b, n) # ms_mappings st, ms_stats := t\<rparr>"
    and t: "as_active_bytes t = as_active_bytes (ms_stats st)" "as_active_objects t = as_active_objects (ms_stats st)"
    and s: "s = new_span (ms_page_size st) p c b n"
    and st4: "st4 = upd_span (\<lambda>x. x\<lparr>sp_central_free_count := sp_object_count s, sp_free_count := sp_object_count s\<rparr>) b
              (fold (init_object b) [0..<unat (sp_object_count s)] (upd_span (\<lambda>_. s) b st1))"
  defines "st5 \<equiv> vl_span_insert_central b (st4\<lparr>ms_all_spans := b # ms_all_spans st4\<rparr>)"
  shows "span_added st st5 b n" "sp_class_index (ms_spans st5 b) = c"
proof -
  let ?st2 = "upd_span (\<lambda>_. s) b st1" and ?k = "unat (sp_object_count s)"
  have sp2: "ms_spans ?st2 b = s" by (simp add: upd_span_def)
  have ok: "span_ok ?st2 b" "maps_ok (ms_page_size ?st2) (ms_mappings ?st2)" "sp_central_free (ms_spans ?st2 b) = NULL"
    using new_span_ok(1) [OF layoutD(2) [OF lay] c size maps, where st = ?st2 and p = p] maps
    by (simp_all add: upd_span_def st1 s new_span_def)
  obtain m hs h where loop:
    "fold (init_object b) [0..<?k] ?st2 = ?st2\<lparr>ms_mem := m, ms_headers := hs, ms_spans := (ms_spans ?st2)(b := s\<lparr>sp_central_free := h\<rparr>)\<rparr>"
    "linked m h (rev (map (slot ?st2 b) [0..<?k]))"
    "\<forall>i < ?k. hs (vl_object_header_from_user (slot ?st2 b i)) = \<lparr>oh_magic = VL_OBJECT_MAGIC, oh_kind = VL_OBJECT_SMALL,
         oh_state = VL_OBJECT_FREE, oh_requested_size = 0, oh_capacity = sp_capacity s, oh_owner_p = sp_owner_p s,
         oh_reserved = 0, oh_span = b, oh_mapping_base = NULL, oh_mapping_size = 0\<rparr>"
    "\<forall>x. (\<forall>i < ?k. x \<noteq> vl_object_header_from_user (slot ?st2 b i)) \<longrightarrow> hs x = ms_headers ?st2 x"
    "\<forall>x. unat x \<notin> region_cells (b, sp_mapping_size s) \<longrightarrow> m x = ms_mem ?st2 x"
    using init_loop [OF ok, of ?k] unfolding sp2 by auto
  have st5: "st5 = st\<lparr>ms_mappings := (b, n) # ms_mappings st, ms_stats := t, ms_mem := m, ms_headers := hs,
      ms_spans := (ms_spans st)(b := s\<lparr>sp_central_free := h, sp_central_free_count := sp_object_count s, sp_free_count := sp_object_count s\<rparr>),
      ms_all_spans := b # ms_all_spans st, ms_central := (ms_central st)(c := b # ms_central st c)\<rparr>"
    unfolding st5_def st4 loop(1) by (simp add: vl_span_insert_central_def upd_span_def st1 s new_span_def Let_def)
  then show cls: "sp_class_index (ms_spans st5 b) = c" by (simp add: s new_span_def)
  have slot: "slot st5 b = slot ?st2 b" by (simp add: fun_eq_iff slot_def st5 upd_span_def st1)
  have cnt: "sp_object_count (ms_spans st5 b) = sp_object_count s" by (simp add: st5)
  then have slots: "slots st5 b = slot ?st2 b ` {..<?k}" by (simp add: slots_def slot)
  have "span_ok st5 b = span_ok ?st2 b" by (rule span_ok_cong) (simp_all add: st5 upd_span_def st1 static_def)
  then have "span_ok st5 b" using ok(1) by simp
  moreover have "header_ok st5 b u \<and> oh_state (header_of st5 u) = VL_OBJECT_FREE" if "u \<in> slots st5 b" for u
    using that loop(3) unfolding slots by (auto simp: header_ok_def Let_def st5)
  moreover have "ms_headers st5 x = ms_headers st x" if "\<forall>u \<in> slots st5 b. x \<noteq> vl_object_header_from_user u" for x
    using that loop(4) unfolding slots by (auto simp: st5 upd_span_def st1)
  moreover have "linked (ms_mem st5) (sp_central_free (ms_spans st5 b)) (rev (map (slot st5 b) [0..<unat (sp_object_count (ms_spans st5 b))]))"
    unfolding cnt slot using loop(2) by (simp add: st5)
  moreover have "ms_mem st5 x = ms_mem st x" if "unat x \<notin> region_cells (b, n)" for x
    using loop(5) that by (simp add: st5 upd_span_def st1 s new_span_def)
  moreover have "cache_at st5 r = cache_at st r" for r unfolding st5 by simp
  ultimately show "span_added st st5 b n"
    using maps t unfolding span_added_def by (simp add: st5 s new_span_def)
qed

text \<open>\<^verbatim>\<open>vl_span_create\<close> adds a span, or the kernel refuses and nothing changes.\<close>

lemma create_added:
  assumes hp: "heap_at st loc" and os: "os_ok (ms_page_size st) os" and c: "c < VL_SIZE_CLASS_COUNT"
    and cr: "vl_span_create os p c (Some NULL) st = (status, out, st')"
  shows "status = VL_OK \<and> (\<exists>b n. out = Some b \<and> span_added st st' b n \<and> sp_class_index (ms_spans st' b) = c)
    \<or> status = VL_ERROR_OUT_OF_MEMORY \<and> st' = st
      \<and> fst (vl_page_heap_acquire os (span_pages_for (ms_page_size st) c + 1) st) = NULL"
proof -
  have lay: "layout st" using hp by (auto simp: heap_at_def)
  obtain b n st1 where acq: "vl_page_heap_acquire os (span_pages_for (ms_page_size st) c + 1) st = (b, n, st1)"
    by (metis prod_cases3)
  note ac = acquire_ok [OF os layoutD(3) [OF lay] acq]
  note un = create_unfold [OF layoutD(2) [OF lay] c refl acq, of p, unfolded cr Let_def]
  show ?thesis
  proof (cases "b = NULL")
    case True
    then show ?thesis using un ac(1) acq by simp
  next
    case False
    note st1 = ac(4) [OF False]
    have page: "ms_page_size st1 = ms_page_size st" using st1 by simp
    note nz = new_span_ok(2) [OF layoutD(2) [OF lay] c ac(2,3) [OF False], where p = p and
        st = "st\<lparr>ms_mappings := (b, n) # ms_mappings st, ms_spans := \<lambda>_. new_span (ms_page_size st) p c b n\<rparr>", simplified]
    note la = linked_added [OF lay c ac(3,2) [OF False] st1 _ _ refl refl, of p]
    have "status = VL_OK" "out = Some b" using un False nz unfolding page by simp_all
    moreover have "span_added st st' b n \<and> sp_class_index (ms_spans st' b) = c"
      using un False nz la unfolding page by simp
    ultimately show ?thesis by blast
  qed
qed

lemma create_evolved:
  assumes hp: "heap_at st loc" and os: "os_ok (ms_page_size st) os" and c: "c < VL_SIZE_CLASS_COUNT"
    and cr: "vl_span_create os p c (Some NULL) st = (VL_OK, out, st')"
  obtains b loc' where "out = Some b" "evolved st loc st' loc'" "b \<in> set (ms_all_spans st')"
    "sp_class_index (ms_spans st' b) = c" "sp_central_free (ms_spans st' b) \<noteq> NULL" "\<And>r. cache_at st' r = cache_at st r"
proof -
  obtain b n where b: "out = Some b" "span_added st st' b n" "sp_class_index (ms_spans st' b) = c"
    using create_added [OF hp os c cr] by auto
  note a = addedD [OF b(2)]
  have "unat (sp_object_count (ms_spans st' b)) \<noteq> 0" using span_ok_count [OF a(9)] by (simp add: unat_eq_zero unat_gt_0)
  then have "sp_central_free (ms_spans st' b) \<noteq> NULL" using a(13) by (auto simp: linked_empty)
  then show ?thesis using that [OF b(1) added_evolved [OF hp b(2)]] a(3,8) b(3) by simp
qed

end
