(* ===== verification/Heap_Reuse.thy ===== *)
theory Heap_Reuse
  imports Heap_Create
begin

text \<open>
  Refilling and draining the caches: \<^verbatim>\<open>vl_refill_cache\<close> leaves an object in the cache unless the kernel refuses
  memory, \<^verbatim>\<open>vl_cache_pop\<close> hands one out, and \<^verbatim>\<open>vl_cache_push\<close> takes one back, gives objects back to their spans
  and empty spans back to the kernel.
\<close>

section \<open>Refill and pop\<close>

definition refused :: "vl_os \<Rightarrow> vl_memory_state \<Rightarrow> usize \<Rightarrow> bool" where
  "refused os st pages \<longleftrightarrow> fst (vl_page_heap_acquire os pages st) = NULL"

lemma current_p_lt [simp]: "vl_memory_current_p p < VL_MEMORY_MAX_P"
  by (simp add: vl_memory_current_p_def VL_MEMORY_MAX_P_def)

lemma refused_same:
  assumes "same_layout st st'" "as_mapped_bytes (ms_stats st') = as_mapped_bytes (ms_stats st)"
  shows "refused os st' pages = refused os st pages"
  using same_layoutD [OF assms(1)] assms(2)
  by (simp add: refused_def vl_page_heap_acquire_def Let_def split: option.split)

lemma find_refill:
  assumes "layout st" "vl_find_refill_span c st \<noteq> NULL"
  shows "vl_find_refill_span c st \<in> set (ms_all_spans st)" "sp_class_index (ms_spans st (vl_find_refill_span c st)) = c"
    "sp_central_free (ms_spans st (vl_find_refill_span c st)) \<noteq> NULL"
proof -
  obtain b where b: "find (\<lambda>span. sp_central_free (ms_spans st span) \<noteq> NULL) (ms_central st c) = Some b"
      "vl_find_refill_span c st = b"
    using assms(2) by (auto simp: vl_find_refill_span_def split: option.splits)
  then have "b \<in> set (ms_central st c)" "sp_central_free (ms_spans st b) \<noteq> NULL" by (auto simp: find_Some_iff)
  then show "vl_find_refill_span c st \<in> set (ms_all_spans st)" "sp_class_index (ms_spans st (vl_find_refill_span c st)) = c"
    "sp_central_free (ms_spans st (vl_find_refill_span c st)) \<noteq> NULL"
    using b(2) layoutD(5) [OF assms(1)] by auto
qed

lemma stats_evolved:
  assumes "heap_at st loc" "as_active_bytes t = as_active_bytes (ms_stats st)" "as_active_objects t = as_active_objects (ms_stats st)"
  shows "evolved st loc (st\<lparr>ms_stats := t\<rparr>) loc"
proof -
  have same: "same_layout st (st\<lparr>ms_stats := t\<rparr>)" by (simp add: same_layout_def)
  have head: "head_at (st\<lparr>ms_stats := t\<rparr>) pl = head_at st pl" for pl by (cases pl) simp_all
  have "free_lists (st\<lparr>ms_stats := t\<rparr>) loc F = free_lists st loc F" for F
    unfolding free_lists_def same_slots [OF same] head by simp
  moreover have "states (st\<lparr>ms_stats := t\<rparr>) loc = states st loc" unfolding states_def same_slots [OF same] by simp
  ultimately have "heap_at (st\<lparr>ms_stats := t\<rparr>) loc" using assms(1) layout_same [OF same] by (simp add: heap_at_def)
  then show ?thesis
    using assms(2,3) same_owned [OF same] by (simp add: evolved_def active_def same_slots [OF same] kept_def)
qed

lemma fill_from:
  assumes hp: "heap_at st loc" and c: "c < VL_SIZE_CLASS_COUNT" and b: "b \<in> set (ms_all_spans st)" "sp_class_index (ms_spans st b) = c"
    and p: "p < VL_MEMORY_MAX_P" and rf: "refill_from_span left b p c st = (left1, st1)"
    and ne: "left < VL_CACHE_REFILL \<and> vc_head (cache_at st (Local p c)) \<noteq> NULL
      \<or> left = VL_CACHE_REFILL \<and> sp_central_free (ms_spans st b) \<noteq> NULL"
  obtains loc1 where "evolved st loc st1 loc1" "left1 \<noteq> VL_CACHE_REFILL" "vc_head (cache_at st1 (Local p c)) \<noteq> NULL"
proof -
  obtain loc1 where l: "shuffled st loc st1 loc1" "left1 \<le> left"
      "vc_head (cache_at st (Local p c)) \<noteq> NULL \<or> left1 < left \<longrightarrow> vc_head (cache_at st1 (Local p c)) \<noteq> NULL"
      "0 < left \<and> sp_central_free (ms_spans st b) \<noteq> NULL \<longrightarrow> left1 < left"
    using refill_span [OF hp p c rf b] by blast
  have "left1 \<noteq> VL_CACHE_REFILL \<and> vc_head (cache_at st1 (Local p c)) \<noteq> NULL"
    using ne l(2-4) by (auto simp del: cache_at.simps simp: VL_CACHE_REFILL_def)
  then show ?thesis using that [OF shuffled_evolved [OF l(1)]] by blast
qed

lemma refill_finish:
  assumes ev: "evolved st loc st2 loc2" and c: "c < VL_SIZE_CLASS_COUNT" and p: "p < VL_MEMORY_MAX_P"
    and b: "b \<in> set (ms_all_spans st2)" "sp_class_index (ms_spans st2 b) = c" "sp_central_free (ms_spans st2 b) \<noteq> NULL"
    and left: "left \<le> VL_CACHE_REFILL" "left < VL_CACHE_REFILL \<longrightarrow> vc_head (cache_at st2 (Local p c)) \<noteq> NULL"
    and res: "(case refill_from_span left b p c st2 of (left1, st3) \<Rightarrow>
        if left1 \<noteq> VL_CACHE_REFILL then (VL_OK, upd_memory_stats (\<lambda>s. s\<lparr>as_central_refills := as_central_refills s + 1\<rparr>) st3)
        else (VL_ERROR_OUT_OF_MEMORY, st3)) = (status, st')"
  shows "status = VL_OK \<and> (\<exists>loc'. evolved st loc st' loc' \<and> vc_head (cache_at st' (Local p c)) \<noteq> NULL)"
proof -
  obtain left1 st3 where fs: "refill_from_span left b p c st2 = (left1, st3)" by fastforce
  have "left < VL_CACHE_REFILL \<and> vc_head (cache_at st2 (Local p c)) \<noteq> NULL
      \<or> left = VL_CACHE_REFILL \<and> sp_central_free (ms_spans st2 b) \<noteq> NULL"
    using left b(3) by (cases "left = VL_CACHE_REFILL") (simp_all del: cache_at.simps)
  then obtain loc3 where l3: "evolved st2 loc2 st3 loc3" "left1 \<noteq> VL_CACHE_REFILL" "vc_head (cache_at st3 (Local p c)) \<noteq> NULL"
    using fill_from [OF evolved_heap [OF ev] c b(1,2) p fs] by blast
  define t where "t = (ms_stats st3)\<lparr>as_central_refills := as_central_refills (ms_stats st3) + 1\<rparr>"
  have eq: "status = VL_OK" "st' = st3\<lparr>ms_stats := t\<rparr>" using res fs l3(2) by (simp_all add: upd_memory_stats_def t_def)
  have "evolved st3 loc3 st' loc3" unfolding eq(2) by (rule stats_evolved [OF evolved_heap [OF l3(1)]]) (simp_all add: t_def)
  then have "evolved st loc st' loc3" by (rule evolved_trans [OF evolved_trans [OF ev l3(1)]])
  moreover have "vc_head (cache_at st' (Local p c)) \<noteq> NULL" unfolding eq(2) cache_at_upd by (rule l3(3))
  ultimately show ?thesis using eq(1) by blast
qed

lemma refill_ok:
  assumes hp: "heap_at st loc" and os: "os_ok (ms_page_size st) os" and c: "c < VL_SIZE_CLASS_COUNT"
    and rf: "vl_refill_cache os p c st = (status, st')"
  shows "\<exists>loc'. evolved st loc st' loc' \<and> (status = VL_OK \<longrightarrow> vc_head (cache_at st' (Local (vl_memory_current_p p) c)) \<noteq> NULL)
    \<and> (status \<noteq> VL_OK \<longrightarrow> refused os st (span_pages_for (ms_page_size st) c + 1))"
proof -
  let ?q = "vl_memory_current_p p" and ?b = "vl_find_refill_span c st"
  have lay: "layout st" using hp by (simp add: heap_at_def)
  obtain left st1 where rem: "refill_from_remote VL_CACHE_REFILL ?q c st = (left, st1)" by fastforce
  obtain loc1 where l1: "shuffled st loc st1 loc1" "left \<le> VL_CACHE_REFILL" "ms_spans st1 = ms_spans st"
      "left < VL_CACHE_REFILL \<longrightarrow> vc_head (cache_at st1 (Local ?q c)) \<noteq> NULL"
    using refill_remote [OF hp current_p_lt c rem] by blast
  have hp1: "heap_at st1 loc1" and same: "same_layout st st1" and stats: "ms_stats st1 = ms_stats st"
    using l1(1) by (auto simp: shuffled_def)
  note ev1 = shuffled_evolved [OF l1(1)]
  show ?thesis
  proof (cases "left = 0")
    case True
    then have "status = VL_OK" "st' = st1" using rf rem by (auto simp: vl_refill_cache_def Let_def)
    then show ?thesis using ev1 l1(4) True by (auto simp: VL_CACHE_REFILL_def)
  next
    case left: False
    show ?thesis
    proof (cases "?b = NULL")
      case False
      have "?b \<in> set (ms_all_spans st1)" "sp_class_index (ms_spans st1 ?b) = c" "sp_central_free (ms_spans st1 ?b) \<noteq> NULL"
        using find_refill [OF lay False] l1(3) same_layoutD(2) [OF same] by simp_all
      note fin = refill_finish [OF ev1 c current_p_lt this l1(2,4)]
      show ?thesis using fin rf rem left False by (simp add: vl_refill_cache_def Let_def del: cache_at.simps)
    next
      case True
      obtain st2 span1 status2 where cr: "vl_span_create os p c (Some NULL) st1 = (status2, span1, st2)" by (metis prod_cases3)
      have os1: "os_ok (ms_page_size st1) os" using os same_layoutD(1) [OF same] by simp
      show ?thesis
      proof (cases "status2 = VL_OK")
        case ok: True
        obtain b loc2 where b: "span1 = Some b" "evolved st1 loc1 st2 loc2" "b \<in> set (ms_all_spans st2)" "sp_class_index (ms_spans st2 b) = c"
            "sp_central_free (ms_spans st2 b) \<noteq> NULL" "\<And>r. cache_at st2 r = cache_at st1 r"
          using create_evolved [OF hp1 os1 c cr [unfolded ok]] by blast
        note fin = refill_finish [OF evolved_trans [OF ev1 b(2)] c current_p_lt b(3-5) l1(2) l1(4) [folded b(6)]]
        show ?thesis using fin rf rem left True cr ok b(1) by (simp add: vl_refill_cache_def Let_def del: cache_at.simps)
      next
        case False
        then have "st2 = st1" "refused os st1 (span_pages_for (ms_page_size st1) c + 1)"
          using create_added [OF hp1 os1 c cr] by (auto simp: refused_def)
        moreover have "status \<noteq> VL_OK" "st' = st2" using rf rem left True cr False by (auto simp: vl_refill_cache_def Let_def)
        ultimately show ?thesis using ev1 refused_same [OF same] stats same_layoutD(1) [OF same] by auto
      qed
    qed
  qed
qed

text \<open>\<^verbatim>\<open>vl_cache_pop\<close> takes the head of the cache, which is then active.\<close>

lemma pop_ok:
  assumes hp: "heap_at st loc" and os: "os_ok (ms_page_size st) os" and c: "c < VL_SIZE_CLASS_COUNT"
    and pop: "vl_cache_pop os p c st = (u, st')"
  shows "u = NULL \<Longrightarrow> (\<exists>loc'. evolved st loc st' loc') \<and> refused os st (span_pages_for (ms_page_size st) c + 1)"
    "u \<noteq> NULL \<Longrightarrow> \<exists>st1 loc1 b. evolved st loc st1 loc1 \<and> b \<in> set (ms_all_spans st1) \<and> u \<in> slots st1 b
       \<and> sp_class_index (ms_spans st1 b) = c \<and> loc1 u = Cached (Local (vl_memory_current_p p) c)
       \<and> vc_head (cache_at st1 (Local (vl_memory_current_p p) c)) = u
       \<and> moved st1 st' b u (Cached (Local (vl_memory_current_p p) c)) Active \<and> ms_stats st' = ms_stats st1"
proof -
  let ?r = "Local (vl_memory_current_p p) c"
  obtain status st1 where st1: "(if vc_head (cache_at st ?r) = NULL then vl_refill_cache os p c st else (VL_OK, st)) = (status, st1)"
    by fastforce
  obtain loc1 where l1: "evolved st loc st1 loc1" "status = VL_OK \<longrightarrow> vc_head (cache_at st1 ?r) \<noteq> NULL"
      "status \<noteq> VL_OK \<longrightarrow> refused os st (span_pages_for (ms_page_size st) c + 1)"
  proof (cases "vc_head (cache_at st ?r) = NULL")
    case True
    then show ?thesis using refill_ok [OF hp os c] st1 that by fastforce
  next
    case False
    then have "status = VL_OK" "st1 = st" using st1 by auto
    then show ?thesis using that [of loc] evolved_refl [OF hp] False by simp
  qed
  have main: "vl_cache_pop os p c st = (if status \<noteq> VL_OK then (NULL, st1)
      else (case unlink_head ?r st1 of (user, st2) \<Rightarrow>
        (user, upd_span (\<lambda>s. s\<lparr>sp_cached_count := sp_cached_count s - 1, sp_free_count := sp_free_count s - 1,
            sp_active_count := sp_active_count s + 1\<rparr>) (oh_span (header_of st2 user)) st2)))"
    unfolding vl_cache_pop_def Let_def st1 by simp
  have found: "\<exists>b. b \<in> set (ms_all_spans st1) \<and> u \<in> slots st1 b \<and> sp_class_index (ms_spans st1 b) = c \<and> loc1 u = Cached ?r
      \<and> vc_head (cache_at st1 ?r) = u \<and> moved st1 st' b u (Cached ?r) Active \<and> ms_stats st' = ms_stats st1 \<and> u \<noteq> NULL"
    if ok: "status = VL_OK"
  proof -
    obtain st2 where un: "unlink_head ?r st1 = (vc_head (cache_at st1 ?r), st2)" by (simp add: unlink_head_def Let_def)
    have u: "u = vc_head (cache_at st1 ?r)" using pop main ok un by simp
    have hp1: "heap_at st1 loc1" using evolved_heap [OF l1(1)] .
    obtain b where b: "b \<in> set (ms_all_spans st1)" "u \<in> slots st1 b" "loc1 u = Cached ?r"
      using head_slot [OF hp1, of "Cached ?r"] l1(2) ok c by (auto simp: in_use_def u)
    have "oh_span (header_of st1 u) = b" using layoutD(7) [OF _ b(1,2)] hp1 by (simp add: heap_at_def header_ok_def Let_def)
    moreover have "ms_headers st2 = ms_headers st1" "ms_stats st2 = ms_stats st1" using un by (auto simp: unlink_head_def Let_def)
    ultimately have st': "st' = upd_span (\<lambda>s. s\<lparr>sp_cached_count := sp_cached_count s - 1, sp_free_count := sp_free_count s - 1,
            sp_active_count := sp_active_count s + 1\<rparr>) b st2" using pop main ok un u by simp
    have "moved st1 st' b u (Cached ?r) Active" unfolding st' using pop_moved [OF un [folded u]] .
    moreover have "sp_class_index (ms_spans st1 b) = c"
      using hp1 free_listsD(4) [OF _ b(1,2)] b(3) by (fastforce simp: heap_at_def place_ok_def)
    ultimately show ?thesis using b u l1(2) ok st' \<open>ms_stats st2 = ms_stats st1\<close> by (auto simp: upd_span_def)
  qed
  show "u = NULL \<Longrightarrow> (\<exists>loc'. evolved st loc st' loc') \<and> refused os st (span_pages_for (ms_page_size st) c + 1)"
    using found l1 main pop by (cases "status = VL_OK") auto
  show "u \<noteq> NULL \<Longrightarrow> \<exists>st1 loc1 b. evolved st loc st1 loc1 \<and> b \<in> set (ms_all_spans st1) \<and> u \<in> slots st1 b
       \<and> sp_class_index (ms_spans st1 b) = c \<and> loc1 u = Cached ?r \<and> vc_head (cache_at st1 ?r) = u
       \<and> moved st1 st' b u (Cached ?r) Active \<and> ms_stats st' = ms_stats st1"
    using found l1 main pop by (cases "status = VL_OK") auto
qed

section \<open>Giving spans back\<close>

lemma release_maps:
  "ms_mappings (vl_page_heap_release os a n st) = ms_mappings st
   \<or> ms_mappings (vl_page_heap_release os a n st) = remove1 (a, n) (ms_mappings st)"
  by (simp add: vl_page_heap_release_def upd_memory_stats_def)

lemma release_sel [simp]:
  "ms_initialized (vl_page_heap_release os a n st) = ms_initialized st" "ms_page_size (vl_page_heap_release os a n st) = ms_page_size st"
  "ms_central (vl_page_heap_release os a n st) = ms_central st" "ms_all_spans (vl_page_heap_release os a n st) = ms_all_spans st"
  "ms_large_allocations (vl_page_heap_release os a n st) = ms_large_allocations st"
  "ms_mem (vl_page_heap_release os a n st) = ms_mem st" "ms_headers (vl_page_heap_release os a n st) = ms_headers st"
  "ms_spans (vl_page_heap_release os a n st) = ms_spans st" "cache_at (vl_page_heap_release os a n st) r = cache_at st r"
  "as_active_bytes (ms_stats (vl_page_heap_release os a n st)) = as_active_bytes (ms_stats st)"
  "as_active_objects (ms_stats (vl_page_heap_release os a n st)) = as_active_objects (ms_stats st)"
  by (simp_all add: vl_page_heap_release_def upd_memory_stats_def)

lemma maps_kept:
  assumes "maps_ok page (ms_mappings st)"
  shows "maps_ok page (ms_mappings (vl_page_heap_release os a n st))"
    "r \<in> set (ms_mappings st) \<Longrightarrow> r \<noteq> (a, n) \<Longrightarrow> r \<in> set (ms_mappings (vl_page_heap_release os a n st))"
    "set (ms_mappings (vl_page_heap_release os a n st)) \<subseteq> set (ms_mappings st)"
  using release_maps [of os a n st] maps_ok_remove [OF assms, of "(a, n)"] assms set_remove1_subset [of "(a, n)" "ms_mappings st"]
  by (auto simp: set_remove1_eq [OF maps_ok_distinct [OF assms]])

text \<open>The state without the span \<open>b\<close>, whose objects are all on its own list.\<close>

definition span_removed :: "vl_memory_state \<Rightarrow> vl_memory_state \<Rightarrow> addr \<Rightarrow> bool" where
  "span_removed st st' b \<longleftrightarrow> ms_initialized st' = ms_initialized st \<and> ms_page_size st' = ms_page_size st
     \<and> ms_all_spans st' = remove1 b (ms_all_spans st)
     \<and> ms_central st' = (ms_central st)(sp_class_index (ms_spans st b) := remove1 b (ms_central st (sp_class_index (ms_spans st b))))
     \<and> ms_large_allocations st' = ms_large_allocations st \<and> ms_mem st' = ms_mem st \<and> ms_headers st' = ms_headers st
     \<and> ms_spans st' = ms_spans st \<and> (\<forall>r. cache_at st' r = cache_at st r)
     \<and> maps_ok (ms_page_size st) (ms_mappings st') \<and> set (ms_mappings st') \<subseteq> set (ms_mappings st)
     \<and> (\<forall>r \<in> set (ms_mappings st). r \<noteq> (b, sp_mapping_size (ms_spans st b)) \<longrightarrow> r \<in> set (ms_mappings st'))
     \<and> as_active_bytes (ms_stats st') = as_active_bytes (ms_stats st)
     \<and> as_active_objects (ms_stats st') = as_active_objects (ms_stats st)"

lemma removedD:
  assumes "span_removed st st' b"
  shows "ms_initialized st' = ms_initialized st" "ms_page_size st' = ms_page_size st"
    "ms_all_spans st' = remove1 b (ms_all_spans st)"
    "ms_central st' = (ms_central st)(sp_class_index (ms_spans st b) := remove1 b (ms_central st (sp_class_index (ms_spans st b))))"
    "ms_large_allocations st' = ms_large_allocations st" "ms_mem st' = ms_mem st" "ms_headers st' = ms_headers st"
    "ms_spans st' = ms_spans st" "\<And>r. cache_at st' r = cache_at st r"
    "maps_ok (ms_page_size st) (ms_mappings st')" "set (ms_mappings st') \<subseteq> set (ms_mappings st)"
    "\<And>r. r \<in> set (ms_mappings st) \<Longrightarrow> r \<noteq> (b, sp_mapping_size (ms_spans st b)) \<Longrightarrow> r \<in> set (ms_mappings st')"
    "as_active_bytes (ms_stats st') = as_active_bytes (ms_stats st)" "as_active_objects (ms_stats st') = as_active_objects (ms_stats st)"
  using assms by (simp_all add: span_removed_def)

lemma removed_slots:
  assumes "layout st" "span_removed st st' b" "b \<in> set (ms_all_spans st)"
  shows "set (ms_all_spans st') = set (ms_all_spans st) - {b}" "slots st' c = slots st c" "slot st' c i = slot st c i"
    "object_cells st' c u = object_cells st c u" "all_slots st' = all_slots st - slots st b"
proof -
  note r = removedD [OF assms(2)]
  show spans: "set (ms_all_spans st') = set (ms_all_spans st) - {b}"
    using r(3) layoutD(4) [OF assms(1)] by (simp add: set_remove1_eq)
  show sl: "slots st' c = slots st c" "slot st' c i = slot st c i" for c i using r(2,8) by (simp_all add: slots_def slot_def [abs_def])
  show "object_cells st' c u = object_cells st c u" using r(8) by (simp add: object_cells_def)
  have "slots st c \<inter> slots st b = {}" if "c \<in> set (ms_all_spans st)" "c \<noteq> b" for c
    using slot_span [OF assms(1) that(1) assms(3)] that(2) by blast
  then show "all_slots st' = all_slots st - slots st b" unfolding all_slots_def spans sl using assms(3) by blast
qed

lemma removed_layout:
  assumes lay: "layout st" and rem: "span_removed st st' b" and b: "b \<in> set (ms_all_spans st)"
  shows "layout st'"
proof -
  note r = removedD [OF rem]
  note sl = removed_slots [OF lay rem b]
  have "span_ok st' c" if c: "c \<in> set (ms_all_spans st')" for c
  proof -
    have c': "c \<in> set (ms_all_spans st)" "c \<noteq> b" using c sl(1) by auto
    have "(c, sp_mapping_size (ms_spans st c)) \<in> set (ms_mappings st')" using r(12) span_region [OF lay c'(1)] c'(2) by blast
    then show ?thesis using layoutD(6) [OF lay c'(1)] unfolding span_ok_def Let_def r(2,8) by blast
  qed
  moreover have "header_ok st' c u" if "c \<in> set (ms_all_spans st')" "u \<in> slots st' c" for c u
    using layoutD(7) [OF lay] that sl(1,2) unfolding header_ok_def Let_def r(7,8) by blast
  moreover have "large_ok st' l" if l: "l \<in> set (ms_large_allocations st)" for l
  proof -
    have "l \<noteq> b" using layoutD(4) [OF lay] l b by auto
    then have "(l, oh_mapping_size (ms_headers st l)) \<in> set (ms_mappings st')" using r(12) large_region [OF lay l] by blast
    then show ?thesis using layoutD(8) [OF lay l] unfolding large_ok_def Let_def r(7) by blast
  qed
  moreover have "ms_central st' c = filter (\<lambda>x. sp_class_index (ms_spans st' x) = c) (ms_all_spans st')" for c
    unfolding r(3,4,8) using layoutD(5) [OF lay] by (simp add: filter_remove1 remove1_idem)
  moreover have "distinct (ms_all_spans st' @ ms_large_allocations st')"
    using layoutD(4) [OF lay] r(3,5) sl(1) by auto
  moreover have "ms_initialized st'" "page_ok (ms_page_size st')" "maps_ok (ms_page_size st') (ms_mappings st')"
    using r(1,2,10) layoutD(1,2) [OF lay] by simp_all
  ultimately show ?thesis using r(5) unfolding layout_def by simp
qed

lemma removed_free_lists:
  assumes lay: "layout st" and rem: "span_removed st st' b" and b: "b \<in> set (ms_all_spans st)"
    and fl: "free_lists st loc F" and all_free: "\<And>u. u \<in> slots st b \<Longrightarrow> loc u = Central b"
  shows "free_lists st' loc (F(Central b := []))"
proof -
  note r = removedD [OF rem]
  note sl = removed_slots [OF lay rem b]
  let ?F = "F(Central b := [])"
  have only: "u \<in> slots st b" if "u \<in> all_slots st" "loc u = Central b" for u
    using that free_listsD(4) [OF fl] by (fastforce simp: all_slots_def place_ok_def)
  have sets: "distinct (?F pl) \<and> set (?F pl) = {u \<in> all_slots st'. loc u = pl}" if "pl \<noteq> Active" for pl
  proof (cases "pl = Central b")
    case True
    then show ?thesis using only sl(5) by auto
  next
    case False
    then show ?thesis using free_listsD(2,3) [OF fl that] all_free sl(5) by auto
  qed
  have lnk: "linked (ms_mem st') (head_at st' pl) (?F pl)" if use': "in_use st' pl" for pl
  proof -
    have old: "in_use st pl" "pl \<noteq> Central b" using use' sl(1) by (auto simp: in_use_def split: place.splits)
    have "head_at st' pl = head_at st pl" using r(8,9) by (cases pl) simp_all
    then show ?thesis using free_listsD(1) [OF fl old(1)] old(2) r(6) by simp
  qed
  have plc: "place_ok st' c (loc u)" if "c \<in> set (ms_all_spans st')" "u \<in> slots st' c" for c u
    using free_listsD(4) [OF fl, of c u] that sl(1,2) unfolding place_ok_def r(8) by blast
  show ?thesis
    using sets lnk plc free_listsD(5-9) [OF fl] r(9) sl(1) unfolding free_lists_def r(8) sl(2) by simp
qed

lemma removed_evolved:
  assumes hp: "heap_at st loc" and rem: "span_removed st st' b" and b: "b \<in> set (ms_all_spans st)"
    and all_free: "\<And>u. u \<in> slots st b \<Longrightarrow> loc u = Central b"
  shows "evolved st loc st' loc"
proof -
  have lay: "layout st" and sts: "states st loc" using hp by (auto simp: heap_at_def)
  obtain F where F: "free_lists st loc F" using hp by (auto simp: heap_at_def)
  note r = removedD [OF rem]
  note sl = removed_slots [OF lay rem b]
  have "states st' loc" using sts sl(5) unfolding states_def r(7) by blast
  then have hp': "heap_at st' loc"
    using removed_layout [OF lay rem b] removed_free_lists [OF lay rem b F all_free] by (auto simp: heap_at_def)
  have "owned st loc \<subseteq> owned st' loc"
  proof
    fix x assume "x \<in> owned st loc"
    then consider c u where "c \<in> set (ms_all_spans st)" "u \<in> slots st c" "loc u = Active" "x \<in> object_cells st c u"
      | m where "m \<in> set (ms_mappings st)" "fst m \<notin> set (ms_all_spans st)" "x \<in> region_cells m"
      by (auto simp: owned_def)
    then show "x \<in> owned st' loc"
    proof cases
      case (1 c u)
      then have "c \<noteq> b" using all_free by auto
      then show ?thesis using 1 sl(1,2,4) by (intro owned_objectI [of c _ u]) simp_all
    next
      case (2 m)
      then have "m \<noteq> (b, sp_mapping_size (ms_spans st b))" using b by auto
      then have "m \<in> set (ms_mappings st')" using r(12) 2(1) by blast
      then show ?thesis using 2 sl(1) by (intro owned_regionI [of m]) simp_all
    qed
  qed
  then show ?thesis
    using hp' r(2,5-7,13,14) sl(5) all_free by (auto simp: evolved_def active_def kept_def)
qed

lemma reclaim_ok:
  assumes hp: "heap_at st loc" and b: "b \<in> set (ms_all_spans st)"
  shows "evolved st loc (snd (vl_span_reclaim_if_empty os b st)) loc"
proof (cases "fst (vl_span_reclaim_if_empty os b st)")
  case False
  then have "snd (vl_span_reclaim_if_empty os b st) = st" by (auto simp: vl_span_reclaim_if_empty_def Let_def split: if_splits)
  then show ?thesis using evolved_refl [OF hp] by simp
next
  case True
  have lay: "layout st" using hp by (simp add: heap_at_def)
  obtain F where F: "free_lists st loc F" using hp by (auto simp: heap_at_def)
  let ?st1 = "vl_span_remove_from_all b (vl_span_remove_from_central b st)"
  let ?n = "sp_mapping_size (ms_spans st b)"
  have base: "sp_mapping_base (ms_spans st b) = b" using layoutD(6) [OF lay b] by (simp add: span_ok_def Let_def)
  have st': "snd (vl_span_reclaim_if_empty os b st) = vl_page_heap_release os b ?n ?st1"
    and full: "sp_central_free_count (ms_spans st b) = sp_object_count (ms_spans st b)"
    using True base by (auto simp: vl_span_reclaim_if_empty_def Let_def split: if_splits)
  have maps1: "ms_mappings ?st1 = ms_mappings st" by (simp add: vl_span_remove_from_all_def vl_span_remove_from_central_def Let_def)
  note mk = maps_kept [where st = ?st1 and page = "ms_page_size st" and os = os and a = b and n = ?n, unfolded maps1, OF layoutD(3) [OF lay]]
  have rem: "span_removed st (vl_page_heap_release os b ?n ?st1) b"
    using mk by (auto simp: span_removed_def vl_span_remove_from_all_def vl_span_remove_from_central_def Let_def)
  have "loc u = Central b" if u: "u \<in> slots st b" for u
  proof -
    let ?A = "{u \<in> slots st b. loc u = Central b}"
    have "card ?A \<le> card (slots st b)" by (intro card_mono) auto
    then have "card ?A < 2 ^ 64" using card_slots [OF lay b] usize_lt [of "sp_object_count (ms_spans st b)"] by simp
    then have "unat (of_nat (card ?A) :: usize) = card ?A" by (simp add: unat_of_nat)
    then have "card ?A = card (slots st b)"
      using full free_listsD(6) [OF F b] card_slots [OF lay b] by (simp add: tally_def)
    then have "?A = slots st b" by (intro card_subset_eq) auto
    then show ?thesis using u by blast
  qed
  then show ?thesis unfolding st' using removed_evolved [OF hp rem b] by blast
qed

section \<open>Drain and push\<close>

lemma cached_count_pos:
  assumes "layout st" "free_lists st loc F" "b \<in> set (ms_all_spans st)" "u \<in> slots st b" "is_cached (loc u)"
  shows "sp_cached_count (ms_spans st b) > 0"
proof -
  let ?A = "{u \<in> slots st b. is_cached (loc u)}"
  have "card ?A \<le> card (slots st b)" by (intro card_mono) auto
  then have "card ?A < 2 ^ 64" using card_slots [OF assms(1,3)] usize_lt [of "sp_object_count (ms_spans st b)"] by simp
  then have "unat (of_nat (card ?A) :: usize) = card ?A" by (simp add: unat_of_nat)
  moreover have "0 < card ?A" using assms(4,5) by (auto simp: card_gt_0_iff)
  ultimately show ?thesis using free_listsD(7) [OF assms(2,3)] by (simp add: tally_def usize_less_iff)
qed

lemma span_not_null: "layout st \<Longrightarrow> b \<in> set (ms_all_spans st) \<Longrightarrow> b \<noteq> NULL"
  using layoutD(3) [of st] span_region [of st b] by (auto simp: maps_ok_def region_ok_def)

lemma drain_ok:
  assumes "heap_at st loc" "ref_ok r"
  shows "\<exists>loc'. evolved st loc (drain_loop os left r st) loc'"
  using assms
proof (induction left arbitrary: st loc)
  case 0
  then show ?case using evolved_refl by fastforce
next
  case (Suc left)
  show ?case
  proof (cases "vc_head (cache_at st r) = NULL")
    case True
    then show ?thesis using Suc.prems evolved_refl by fastforce
  next
    case False
    let ?u = "vc_head (cache_at st r)"
    have lay: "layout st" using Suc.prems(1) by (simp add: heap_at_def)
    obtain F where F: "free_lists st loc F" using Suc.prems(1) by (auto simp: heap_at_def)
    obtain b where b: "b \<in> set (ms_all_spans st)" "?u \<in> slots st b" "loc ?u = Cached r"
      using head_slot [OF Suc.prems(1), of "Cached r"] Suc.prems(2) False by (auto simp: in_use_def)
    have span: "oh_span (header_of st ?u) = b" using layoutD(7) [OF lay b(1,2)] by (simp add: header_ok_def Let_def)
    obtain st1 where st1: "unlink_head r st = (?u, st1)" by (simp add: unlink_head_def Let_def)
    define st2 where "st2 = vl_span_move_to_central b ?u st1"
    have "sp_cached_count (ms_spans st b) > 0" using cached_count_pos [OF lay F b(1,2)] b(3) by (simp add: is_cached_def)
    then have mv: "moved st st2 b ?u (loc ?u) (Central b)"
      unfolding st2_def b(3) by (rule give_moved [OF st1 span_not_null [OF lay b(1)] False])
    moreover have "ms_stats st2 = ms_stats st"
      using st1 by (auto simp: st2_def vl_span_move_to_central_def upd_span_def unlink_head_def Let_def)
    ultimately have sh: "shuffled st loc st2 (loc(?u := Central b))"
      using b(3) by (intro shuffle_move [OF Suc.prems(1) b(1,2)]) (simp_all add: place_ok_def)
    have b2: "b \<in> set (ms_all_spans st2)" using b(1) same_layoutD(2) [OF movedD(1) [OF mv]] by simp
    let ?st3 = "snd (vl_span_reclaim_if_empty os b st2)"
    have ev: "evolved st loc ?st3 (loc(?u := Central b))"
      using reclaim_ok [OF _ b2] sh by (intro evolved_trans [OF shuffled_evolved [OF sh]]) (simp add: shuffled_def)
    have eq: "drain_loop os (Suc left) r st = drain_loop os left r ?st3" using False st1 span by (simp add: st2_def Let_def)
    obtain loc' where "evolved ?st3 (loc(?u := Central b)) (drain_loop os left r ?st3) loc'"
      using Suc.IH [OF evolved_heap [OF ev] Suc.prems(2)] by blast
    then show ?thesis unfolding eq using evolved_trans [OF ev] by blast
  qed
qed

text \<open>
  \<^verbatim>\<open>vl_cache_push\<close> on a state in which the object is still active but already marked as free.
\<close>

lemma push_ok:
  assumes lay: "layout st" and fl: "free_lists st loc F" and b: "b \<in> set (ms_all_spans st)" "u \<in> slots st b"
    and act: "loc u = Active" and sts: "\<And>pl. pl \<noteq> Active \<Longrightarrow> states st (loc(u := pl))"
  shows "\<exists>st1 loc1 loc'. same_layout st st1 \<and> heap_at st1 loc1 \<and> active st1 loc1 = active st loc - {u}
    \<and> owned st1 loc1 \<subseteq> owned st loc \<and> owned st loc - object_cells st b u \<subseteq> owned st1 loc1 \<and> kept (owned st1 loc1) st st1
    \<and> as_active_bytes (ms_stats st1) = as_active_bytes (ms_stats st) \<and> as_active_objects (ms_stats st1) = as_active_objects (ms_stats st)
    \<and> evolved st1 loc1 (vl_cache_push os p (vl_object_header_from_user u) u st) loc'"
proof -
  let ?h = "header_of st u" and ?c = "sp_class_index (ms_spans st b)"
  have h: "oh_span ?h = b" "oh_owner_p ?h < VL_MEMORY_MAX_P" "?c < VL_SIZE_CLASS_COUNT"
    using layoutD(6) [OF lay b(1)] layoutD(7) [OF lay b] by (simp_all add: header_ok_def span_ok_def Let_def)
  define r where "r = (if vl_memory_current_p p \<noteq> oh_owner_p ?h then Remote (oh_owner_p ?h) ?c else Local (oh_owner_p ?h) ?c)"
  define st0 where "st0 = (if vl_memory_current_p p \<noteq> oh_owner_p ?h
      then upd_memory_stats (\<lambda>s. s\<lparr>as_cross_p_frees := as_cross_p_frees s + 1\<rparr>) st else st)"
  define st1 where "st1 = upd_span (\<lambda>s. s\<lparr>sp_cached_count := sp_cached_count s + 1, sp_free_count := sp_free_count s + 1,
      sp_active_count := sp_active_count s - 1\<rparr>) b (link_head r u st0)"
  let ?loc = "loc(u := Cached r)"
  have r: "ref_ok r" "ref_class r = ?c" using h by (auto simp: r_def)
  have same0: "same_layout st st0" by (simp add: st0_def same_layout_def upd_memory_stats_def)
  have mem0: "ms_mem st0 = ms_mem st" by (simp add: st0_def upd_memory_stats_def)
  have head0: "head_at st0 pl = head_at st pl" for pl by (cases pl) (simp_all add: st0_def upd_memory_stats_def)
  have cache0: "cache_at st0 q = cache_at st q" "ms_spans st0 = ms_spans st" for q by (simp_all add: st0_def upd_memory_stats_def)
  have mv0: "moved st0 st1 b u Active (Cached r)" unfolding st1_def by (rule push_moved)
  have mv: "moved st st1 b u (loc u) (Cached r)"
    using mv0 same_layout_trans [OF same0] unfolding act moved_def head0 mem0 cache0 by blast
  have same: "same_layout st st1" using movedD(1) [OF mv] .
  have "free_lists st1 ?loc (relist u (loc u) (Cached r) F)"
    using r act by (intro move_lists [OF lay fl b _ _ mv]) (simp_all add: place_ok_def)
  moreover have "states st1 ?loc"
    using sts [of "Cached r"] unfolding states_def same_slots(3) [OF same] same_layoutD(4) [OF same] by simp
  ultimately have hp: "heap_at st1 ?loc" using lay layout_same [OF same] by (auto simp: heap_at_def)
  have slots: "active st1 ?loc = active st loc - {u}" by (auto simp: active_def same_slots(3) [OF same])
  have own: "owned st1 ?loc = owned st ?loc" by (rule same_owned [OF same])
  have sub: "owned st ?loc \<subseteq> owned st loc" by (auto simp: owned_def split: if_splits)
  have sup: "owned st loc - object_cells st b u \<subseteq> owned st ?loc"
  proof -
    have "c = b" if "c \<in> set (ms_all_spans st)" "u \<in> slots st c" for c using slot_span [OF lay that(1) b(1) that(2) b(2)] .
    then show ?thesis by (fastforce simp: owned_def)
  qed
  have kp: "kept (owned st ?loc) st st1" using moved_kept [OF lay b mv, of ?loc] by simp
  have push: "vl_cache_push os p (vl_object_header_from_user u) u st
      = (if vc_count (cache_at st1 r) > VL_CACHE_MAX then vl_drain_cache os p ?c st1 else st1)"
    using h by (simp add: vl_cache_push_def Let_def r_def [symmetric] st0_def [symmetric] st1_def) (simp add: r_def st0_def st1_def)
  obtain loc2 where "evolved st1 ?loc (vl_drain_cache os p ?c st1) loc2"
    using drain_ok [OF hp, of "Local (vl_memory_current_p p) ?c" os VL_CACHE_REFILL] h(3) by (auto simp: vl_drain_cache_def)
  then have "\<exists>loc'. evolved st1 ?loc (vl_cache_push os p (vl_object_header_from_user u) u st) loc'"
    using evolved_refl [OF hp] unfolding push by (cases "vc_count (cache_at st1 r) > VL_CACHE_MAX") auto
  moreover have "as_active_bytes (ms_stats st1) = as_active_bytes (ms_stats st)" "as_active_objects (ms_stats st1) = as_active_objects (ms_stats st)"
    by (simp_all add: st1_def st0_def upd_span_def upd_memory_stats_def)
  ultimately show ?thesis using same hp slots own sub sup kp by metis
qed

end
