(* ===== verification/Heap_Alloc.thy ===== *)
theory Heap_Alloc
  imports Heap_Reuse
begin

text \<open>
  Allocation and release as operations on the map of live blocks: \<open>live\<close> gives the requested size of every
  block handed out.  The invariant \<open>heap_ok\<close> says that the lists and headers are in order and the statistics exact.
\<close>

section \<open>Live blocks\<close>

definition live_at :: "vl_memory_state \<Rightarrow> addr \<Rightarrow> bool" where
  "live_at st u \<longleftrightarrow> u \<in> all_slots st \<and> oh_state (header_of st u) = VL_OBJECT_ALLOCATED
     \<or> vl_object_header_from_user u \<in> set (ms_large_allocations st)"

definition live :: "vl_memory_state \<Rightarrow> addr \<Rightarrow> usize option" where
  "live st u = (if live_at st u then Some (oh_requested_size (header_of st u)) else None)"

definition counted :: "vl_memory_state \<Rightarrow> bool" where
  "counted st \<longleftrightarrow> unat (as_active_objects (ms_stats st)) = card (dom (live st))
     \<and> unat (as_active_bytes (ms_stats st)) = (\<Sum>u \<in> dom (live st). unat (the (live st u)))"

definition heap_ok :: "vl_memory_state \<Rightarrow> bool" where
  "heap_ok st \<longleftrightarrow> (\<exists>loc. heap_at st loc) \<and> counted st"

text \<open>The bytes of a block up to its capacity, with its header.\<close>

definition extent :: "vl_memory_state \<Rightarrow> addr \<Rightarrow> nat set" where
  "extent st u = {unat u - 80..<unat u + unat (oh_capacity (header_of st u))}"

text \<open>The blocks that live in both states have the same header and the same contents.\<close>

definition intact :: "vl_memory_state \<Rightarrow> vl_memory_state \<Rightarrow> bool" where
  "intact st st' \<longleftrightarrow> (\<forall>u \<in> dom (live st) \<inter> dom (live st'). header_of st' u = header_of st u
     \<and> (\<forall>x. unat x \<in> extent st u \<longrightarrow> ms_mem st' x = ms_mem st x))"

lemma state_values [simp]: "VL_OBJECT_FREE \<noteq> VL_OBJECT_ALLOCATED" "VL_OBJECT_ALLOCATED \<noteq> VL_OBJECT_FREE"
  "VL_OBJECT_SMALL \<noteq> VL_OBJECT_LARGE" "VL_OBJECT_LARGE \<noteq> VL_OBJECT_SMALL"
  by (simp_all add: VL_OBJECT_FREE_def VL_OBJECT_ALLOCATED_def VL_OBJECT_SMALL_def VL_OBJECT_LARGE_def)

lemma from_to_header [simp]: "vl_object_header_from_user (vl_object_user_from_header h) = h"
  "vl_object_user_from_header (vl_object_header_from_user u) = u"
  by (simp_all add: vl_object_header_from_user_def vl_object_user_from_header_def)

lemma live_dom:
  assumes "heap_at st loc"
  shows "dom (live st) = active st loc \<union> vl_object_user_from_header ` set (ms_large_allocations st)"
proof -
  have "u \<in> all_slots st \<Longrightarrow> oh_state (header_of st u) = VL_OBJECT_ALLOCATED \<longleftrightarrow> loc u = Active" for u
    using assms by (auto simp: heap_at_def states_def split: if_splits)
  moreover have "vl_object_header_from_user u \<in> A \<longleftrightarrow> u \<in> vl_object_user_from_header ` A" for u A
    by (metis from_to_header image_iff)
  ultimately show ?thesis by (auto simp: live_def live_at_def active_def dom_def)
qed

lemma finite_live [simp]: "finite (dom (live st))"
proof -
  have "dom (live st) \<subseteq> all_slots st \<union> vl_object_user_from_header ` set (ms_large_allocations st)"
    by (auto simp: live_def live_at_def dom_def image_iff split: if_splits) (metis from_to_header(2))
  then show ?thesis by (rule finite_subset) simp
qed

lemma small_not_large:
  assumes "layout st" "u \<in> all_slots st"
  shows "vl_object_header_from_user u \<notin> set (ms_large_allocations st)"
proof
  let ?l = "vl_object_header_from_user u"
  assume l: "?l \<in> set (ms_large_allocations st)"
  obtain b where b: "b \<in> set (ms_all_spans st)" "u \<in> slots st b" using assms(2) by (auto simp: all_slots_def)
  have "?l \<noteq> b" using layoutD(4) [OF assms(1)] l b(1) by auto
  then have "region_cells (b, sp_mapping_size (ms_spans st b)) \<inter> region_cells (?l, oh_mapping_size (ms_headers st ?l)) = {}"
    using spans_apart [OF assms(1) b(1) large_region [OF assms(1) l]] by simp
  moreover have "unat ?l \<in> region_cells (?l, oh_mapping_size (ms_headers st ?l))"
    using layoutD(8) [OF assms(1) l] by (simp add: large_ok_def Let_def region_cells_def cells_def)
  moreover have "unat ?l \<in> region_cells (b, sp_mapping_size (ms_spans st b))"
    using slot_inside [OF assms(1) b] header_addr [of u] by (simp add: region_cells_def cells_def) linarith
  ultimately show False by blast
qed

text \<open>Where a live block lies.\<close>

lemma live_cases:
  assumes "heap_at st loc" "u \<in> dom (live st)"
  obtains (small) b where "b \<in> set (ms_all_spans st)" "u \<in> slots st b" "loc u = Active" "extent st u = object_cells st b u"
      "oh_kind (header_of st u) = VL_OBJECT_SMALL"
    | (large) l where "l \<in> set (ms_large_allocations st)" "u = vl_object_user_from_header l" "unat u = unat l + 80"
      "extent st u \<subseteq> region_cells (l, oh_mapping_size (ms_headers st l))" "oh_kind (header_of st u) = VL_OBJECT_LARGE"
      "unat l + unat (oh_mapping_size (ms_headers st l)) < 2 ^ 64"
proof -
  have lay: "layout st" using assms(1) by (simp add: heap_at_def)
  consider "u \<in> active st loc" | l where "l \<in> set (ms_large_allocations st)" "u = vl_object_user_from_header l"
    using assms(2) unfolding live_dom [OF assms(1)] by auto
  then show ?thesis
  proof cases
    case 1
    then obtain b where b: "b \<in> set (ms_all_spans st)" "u \<in> slots st b" "loc u = Active" by (auto simp: active_def all_slots_def)
    then show ?thesis using small layoutD(7) [OF lay b(1,2)] by (simp add: extent_def object_cells_def header_ok_def Let_def)
  next
    case 2
    have ok: "large_ok st l" using layoutD(8) [OF lay 2(1)] .
    have fits: "unat l + unat (oh_mapping_size (ms_headers st l)) < 2 ^ 64"
      using layoutD(3) [OF lay] large_region [OF lay 2(1)] by (auto simp: maps_ok_def region_ok_def)
    have "80 + unat (oh_capacity (ms_headers st l)) \<le> unat (oh_mapping_size (ms_headers st l))"
      using ok by (simp add: large_ok_def Let_def)
    moreover from this have "unat u = unat l + 80"
      unfolding 2(2) vl_object_user_from_header_def header_size_def using fits by (subst usize_unat_add) simp_all
    ultimately show ?thesis
      using large [OF 2] ok fits 2(2) by (simp add: extent_def region_cells_def cells_def large_ok_def Let_def)
  qed
qed

lemma live_header:
  assumes "heap_at st loc" "u \<in> dom (live st)"
  shows "oh_magic (header_of st u) = VL_OBJECT_MAGIC" "oh_state (header_of st u) = VL_OBJECT_ALLOCATED"
    "0 < oh_requested_size (header_of st u)" "oh_requested_size (header_of st u) \<le> oh_capacity (header_of st u)"
    "live st u = Some (oh_requested_size (header_of st u))"
proof -
  have lay: "layout st" and sts: "states st loc" using assms(1) by (auto simp: heap_at_def)
  show "live st u = Some (oh_requested_size (header_of st u))" using assms(2) by (auto simp: live_def split: if_splits)
  have "oh_magic (header_of st u) = VL_OBJECT_MAGIC \<and> oh_state (header_of st u) = VL_OBJECT_ALLOCATED
      \<and> 0 < oh_requested_size (header_of st u) \<and> oh_requested_size (header_of st u) \<le> oh_capacity (header_of st u)"
    using assms
  proof (cases rule: live_cases)
    case (small b)
    have "u \<in> all_slots st" using small by (auto simp: all_slots_def)
    then show ?thesis using sts small(3) layoutD(7) [OF lay small(1,2)] by (auto simp: states_def header_ok_def Let_def)
  next
    case (large l)
    then show ?thesis using layoutD(8) [OF lay large(1)] by (simp add: large_ok_def Let_def)
  qed
  then show "oh_magic (header_of st u) = VL_OBJECT_MAGIC" "oh_state (header_of st u) = VL_OBJECT_ALLOCATED"
    "0 < oh_requested_size (header_of st u)" "oh_requested_size (header_of st u) \<le> oh_capacity (header_of st u)" by blast+
qed

section \<open>Blocks do not overlap\<close>

lemma extent_inside:
  assumes "heap_at st loc" "u \<in> dom (live st)"
  shows "16 dvd unat u" "80 \<le> unat u" "unat u + unat (oh_capacity (header_of st u)) < 2 ^ 64"
    "\<exists>r \<in> set (ms_mappings st). extent st u \<subseteq> region_cells r" "extent st u \<subseteq> owned st loc"
    "b \<in> set (ms_all_spans st) \<Longrightarrow> extent st u \<inter> {unat b..<unat b + unat (ms_page_size st)} = {}"
proof -
  have lay: "layout st" using assms(1) by (simp add: heap_at_def)
  have span_page: "{unat c..<unat c + unat (ms_page_size st)} \<subseteq> region_cells (c, sp_mapping_size (ms_spans st c))"
    if "c \<in> set (ms_all_spans st)" for c
    using layoutD(6) [OF lay that] by (auto simp: span_ok_def Let_def region_cells_def cells_def usize_le_iff)
  have "16 dvd unat u \<and> 80 \<le> unat u \<and> unat u + unat (oh_capacity (header_of st u)) < 2 ^ 64
    \<and> (\<exists>r \<in> set (ms_mappings st). extent st u \<subseteq> region_cells r) \<and> extent st u \<subseteq> owned st loc
    \<and> (b \<in> set (ms_all_spans st) \<longrightarrow> extent st u \<inter> {unat b..<unat b + unat (ms_page_size st)} = {})"
    using assms
  proof (cases rule: live_cases)
    case (small c)
    note f = slot_inside [OF lay small(1,2)]
    have cap: "oh_capacity (header_of st u) = sp_capacity (ms_spans st c)"
      using layoutD(7) [OF lay small(1,2)] by (simp add: header_ok_def Let_def)
    have "extent st u \<inter> {unat b..<unat b + unat (ms_page_size st)} = {}" if b: "b \<in> set (ms_all_spans st)"
    proof (cases "b = c")
      case True
      then show ?thesis using f(2) by (auto simp: extent_def)
    next
      case False
      then show ?thesis
        using small(4) object_in_region [OF lay small(1,2)] span_page [OF b] spans_apart [OF lay small(1) span_region [OF lay b]] by blast
    qed
    moreover have "extent st u \<subseteq> owned st loc" using small(4) owned_objectI [where loc = loc, OF small(1-3)] by blast
    ultimately show ?thesis
      using f cap small(4) object_in_region [OF lay small(1,2)] span_region [OF lay small(1)] by auto
  next
    case (large l)
    have reg: "(l, oh_mapping_size (ms_headers st l)) \<in> set (ms_mappings st)" using large_region [OF lay large(1)] .
    have "l \<notin> set (ms_all_spans st)" using layoutD(4) [OF lay] large(1) by auto
    then have own: "extent st u \<subseteq> owned st loc" using large(4) owned_regionI [OF reg] by fastforce
    have "extent st u \<inter> {unat b..<unat b + unat (ms_page_size st)} = {}" if b: "b \<in> set (ms_all_spans st)"
      using spans_apart [OF lay b reg] \<open>l \<notin> _\<close> b span_page [OF b] large(4) by blast
    moreover have "unat (ms_page_size st) dvd unat l"
      using layoutD(3) [OF lay] reg by (auto simp: maps_ok_def region_ok_def)
    then have "16 dvd unat l" using page_ok_dvd [OF layoutD(2) [OF lay]] dvd_trans by blast
    then have "16 dvd unat u" using large(3) by simp
    moreover have "unat u + unat (oh_capacity (header_of st u)) \<le> unat l + unat (oh_mapping_size (ms_headers st l))"
      using layoutD(8) [OF lay large(1)] large(2,3) by (simp add: large_ok_def Let_def)
    ultimately show ?thesis using large(3,4,6) reg own by auto
  qed
  then show "16 dvd unat u" "80 \<le> unat u" "unat u + unat (oh_capacity (header_of st u)) < 2 ^ 64"
    "\<exists>r \<in> set (ms_mappings st). extent st u \<subseteq> region_cells r" "extent st u \<subseteq> owned st loc"
    "b \<in> set (ms_all_spans st) \<Longrightarrow> extent st u \<inter> {unat b..<unat b + unat (ms_page_size st)} = {}" by blast+
qed

lemma extents_apart:
  assumes "heap_at st loc" "u \<in> dom (live st)" "v \<in> dom (live st)" "u \<noteq> v"
  shows "extent st u \<inter> extent st v = {}"
proof -
  have lay: "layout st" using assms(1) by (simp add: heap_at_def)
  have mixed: "extent st x \<inter> extent st y = {}"
    if "b \<in> set (ms_all_spans st)" "x \<in> slots st b" "extent st x = object_cells st b x"
      "l \<in> set (ms_large_allocations st)" "extent st y \<subseteq> region_cells (l, oh_mapping_size (ms_headers st l))" for b l x y
  proof -
    have "l \<noteq> b" using layoutD(4) [OF lay] that(1,4) by auto
    then show ?thesis
      using spans_apart [OF lay that(1) large_region [OF lay that(4)]] object_in_region [OF lay that(1,2)] that(3,5) by blast
  qed
  show ?thesis
    using assms(1,2)
  proof (cases rule: live_cases)
    case u: (small b)
    show ?thesis
      using assms(1,3)
    proof (cases rule: live_cases)
      case v: (small c)
      then show ?thesis using objects_apart [OF lay u(1) v(1) u(2) v(2) assms(4)] u(4) by simp
    next
      case (large l)
      then show ?thesis using mixed [OF u(1,2,4)] by blast
    qed
  next
    case u: (large l)
    show ?thesis
      using assms(1,3)
    proof (cases rule: live_cases)
      case (small c)
      then show ?thesis using mixed u(1,4) by blast
    next
      case v: (large k)
      then have "k \<noteq> l" using u(2) assms(4) by auto
      then show ?thesis
        using maps_ok_disjoint [OF layoutD(3) [OF lay] large_region [OF lay u(1)] large_region [OF lay v(1)]] u(4) v(4) by blast
    qed
  qed
qed

section \<open>Counting\<close>

lemma counted_insert:
  assumes "counted st" "live st u = None" "live st' = (live st)(u \<mapsto> n)"
    "as_active_objects (ms_stats st) \<noteq> SIZE_MAX" "as_active_bytes (ms_stats st) \<le> SIZE_MAX - n"
    "as_active_objects (ms_stats st') = as_active_objects (ms_stats st) + 1"
    "as_active_bytes (ms_stats st') = as_active_bytes (ms_stats st) + n"
  shows "counted st'"
proof -
  have u: "u \<notin> dom (live st)" using assms(2) by auto
  have "unat (as_active_objects (ms_stats st) + 1) = Suc (unat (as_active_objects (ms_stats st)))"
    using assms(4) usize_lt [of "as_active_objects (ms_stats st)"] by (intro usize_unat_Suc) (auto simp: usize_eq_iff)
  moreover have "unat (as_active_bytes (ms_stats st) + n) = unat (as_active_bytes (ms_stats st)) + unat n"
  proof (rule usize_unat_add)
    have "unat (SIZE_MAX - n) = 2 ^ 64 - 1 - unat n" 
      using usize_lt [of n] by (subst usize_unat_sub) (simp_all add: usize_le_iff)
    then show "unat (as_active_bytes (ms_stats st)) + unat n < 2 ^ 64"
      using assms(5) usize_lt [of n] by (simp add: usize_le_iff)
  qed
  moreover have "(\<Sum>v \<in> dom (live st). unat (the (live st' v))) = (\<Sum>v \<in> dom (live st). unat (the (live st v)))"
    using u assms(3) by (intro sum.cong) auto
  ultimately show ?thesis using assms(1,3,6,7) u by (simp add: counted_def)
qed

lemma counted_live:
  assumes "counted st" "live st u = Some n"
  shows "as_active_objects (ms_stats st) \<noteq> 0" "n \<le> as_active_bytes (ms_stats st)"
    "(\<Sum>v \<in> dom (live st). unat (the (live st v))) = unat n + (\<Sum>v \<in> dom (live st) - {u}. unat (the (live st v)))"
proof -
  have u: "u \<in> dom (live st)" using assms(2) by auto
  show sum: "(\<Sum>v \<in> dom (live st). unat (the (live st v))) = unat n + (\<Sum>v \<in> dom (live st) - {u}. unat (the (live st v)))"
    using u assms(2) by (simp add: sum.remove)
  show "as_active_objects (ms_stats st) \<noteq> 0"
  proof
    assume "as_active_objects (ms_stats st) = 0"
    then have "card (dom (live st)) = 0" using assms(1) by (simp add: counted_def)
    then show False using u by (simp add: card_eq_0_iff)
  qed
  show "n \<le> as_active_bytes (ms_stats st)" using assms(1) sum by (simp add: counted_def usize_le_iff)
qed

lemma counted_delete:
  assumes "counted st" "live st u = Some n" "live st' = (live st)(u := None)"
    "as_active_objects (ms_stats st') = as_active_objects (ms_stats st) - 1"
    "as_active_bytes (ms_stats st') = as_active_bytes (ms_stats st) - n"
  shows "counted st'"
proof -
  have "(\<Sum>v \<in> dom (live st) - {u}. unat (the (live st' v))) = (\<Sum>v \<in> dom (live st) - {u}. unat (the (live st v)))"
    using assms(3) by (intro sum.cong) auto
  moreover have "u \<in> dom (live st)" using assms(2) by auto
  ultimately show ?thesis
    using assms(1,3-5) counted_live [OF assms(1,2)] by (simp add: counted_def usize_unat_sub usize_unat_pred)
qed

section \<open>Writing headers\<close>

lemma header_layout:
  fixes t :: vl_allocator_stats
  assumes lay: "layout st" and b: "b \<in> set (ms_all_spans st)" "u \<in> slots st b"
    and h: "oh_magic h = VL_OBJECT_MAGIC" "oh_kind h = VL_OBJECT_SMALL" "oh_span h = b"
      "oh_owner_p h = sp_owner_p (ms_spans st b)" "oh_capacity h = sp_capacity (ms_spans st b)"
  defines "st' \<equiv> st\<lparr>ms_headers := (ms_headers st)(vl_object_header_from_user u := h), ms_stats := t\<rparr>"
  shows "layout st'" "free_lists st' loc F = free_lists st loc F" "all_slots st' = all_slots st" "owned st' loc = owned st loc"
    "kept A st st'"
proof -
  have slot: "slot st' = slot st" "slots st' = slots st" by (simp_all add: fun_eq_iff slots_def slot_def st'_def)
  have sel: "ms_all_spans st' = ms_all_spans st" "ms_mappings st' = ms_mappings st" "ms_spans st' = ms_spans st"
    "ms_mem st' = ms_mem st" "ms_central st' = ms_central st" "ms_page_size st' = ms_page_size st"
    "ms_initialized st' = ms_initialized st" "ms_large_allocations st' = ms_large_allocations st" "cache_at st' r = cache_at st r" for r
    by (simp_all add: st'_def)
  show all: "all_slots st' = all_slots st" unfolding all_slots_def slot sel ..
  have obj: "object_cells st' = object_cells st" by (simp add: fun_eq_iff object_cells_def st'_def)
  show "owned st' loc = owned st loc" unfolding owned_def slot obj sel ..
  have hd: "head_at st' pl = head_at st pl" for pl by (cases pl) (simp_all add: st'_def)
  have "in_use st' pl = in_use st pl" "place_ok st' c pl = place_ok st c pl" for c pl
    unfolding in_use_def place_ok_def sel by simp_all
  then show "free_lists st' loc F = free_lists st loc F" unfolding free_lists_def slot all hd sel by simp
  show "kept A st st'" by (simp add: kept_def st'_def)
  have "header_ok st' c v" if "c \<in> set (ms_all_spans st)" "v \<in> slots st c" for c v
    using layoutD(7) [OF lay that] h slot_span [OF lay b(1) that(1) b(2)] that(2) by (auto simp: header_ok_def Let_def st'_def)
  moreover have "large_ok st' l" if "l \<in> set (ms_large_allocations st)" for l
  proof -
    have "l \<noteq> vl_object_header_from_user u" using small_not_large [OF lay, of u] that b by (auto simp: all_slots_def)
    then show ?thesis using layoutD(8) [OF lay that] by (simp add: large_ok_def st'_def)
  qed
  moreover have "span_ok st' c = span_ok st c" for c by (rule span_ok_cong) (simp_all add: st'_def)
  ultimately show "layout st'" using lay unfolding layout_def slot sel by simp
qed

lemma evolved_live:
  assumes "heap_at st loc" "evolved st loc st' loc'"
  shows "live st' = live st" "intact st st'" "counted st' = counted st"
proof -
  have hp': "heap_at st' loc'" and act: "active st' loc' = active st loc" and lg: "ms_large_allocations st' = ms_large_allocations st"
    and hs: "\<And>u. u \<in> active st loc \<Longrightarrow> header_of st' u = header_of st u"
      "\<And>l. l \<in> set (ms_large_allocations st) \<Longrightarrow> ms_headers st' l = ms_headers st l"
    and kp: "kept (owned st loc) st st'"
    using assms(2) by (auto simp: evolved_def)
  have dom: "dom (live st') = dom (live st)" using live_dom [OF assms(1)] live_dom [OF hp'] act lg by simp
  have hdr: "header_of st' u = header_of st u" if "u \<in> dom (live st)" for u
    using that hs unfolding live_dom [OF assms(1)] by auto
  show "live st' = live st"
  proof
    fix u show "live st' u = live st u"
      using live_header(5) [OF assms(1), of u] live_header(5) [OF hp', of u] dom hdr [of u] by (cases "u \<in> dom (live st)") (auto simp: domIff)
  qed
  then show "counted st' = counted st" using assms(2) by (simp add: counted_def evolved_def)
  show "intact st st'" using hdr kp extent_inside(5) [OF assms(1)] unfolding intact_def kept_def by blast
qed

lemma intact_trans:
  assumes "intact st st1" "intact st1 st2" "dom (live st) \<inter> dom (live st2) \<subseteq> dom (live st1)"
  shows "intact st st2"
proof -
  have "header_of st2 u = header_of st u \<and> (\<forall>x. unat x \<in> extent st u \<longrightarrow> ms_mem st2 x = ms_mem st x)"
    if u: "u \<in> dom (live st)" "u \<in> dom (live st2)" for u
  proof -
    have u1: "u \<in> dom (live st1)" using assms(3) u by blast
    have h: "header_of st1 u = header_of st u" "header_of st2 u = header_of st1 u"
      using assms(1,2) u u1 unfolding intact_def by blast+
    then have "extent st1 u = extent st u" by (simp add: extent_def)
    then show ?thesis using h assms(1,2) u u1 unfolding intact_def by auto
  qed
  then show ?thesis unfolding intact_def by blast
qed

section \<open>Small blocks\<close>

text \<open>A free object at the head of a cache becomes active and gets its header.\<close>

lemma take_object:
  assumes hp: "heap_at st loc" and b: "b \<in> set (ms_all_spans st)" "u \<in> slots st b" "loc u = Cached r" "ref_ok r"
    and head: "vc_head (cache_at st r) = u" and mv: "moved st st1 b u (Cached r) Active"
    and st2: "st2 = vl_initialize_header p (vl_object_header_from_user u) VL_OBJECT_SMALL (sp_capacity (ms_spans st b)) n b NULL 0 st1"
    and n: "0 < n" "n \<le> sp_capacity (ms_spans st b)"
  shows "heap_at st2 (loc(u := Active))" "live st u = None" "live st2 = (live st)(u \<mapsto> n)" "intact st st2" "ms_stats st2 = ms_stats st1"
proof -
  have lay: "layout st" and sts: "states st loc" using hp by (auto simp: heap_at_def)
  obtain F where F: "free_lists st loc F" using hp by (auto simp: heap_at_def)
  have same: "same_layout st st1" using movedD(1) [OF mv] .
  have lay1: "layout st1" using lay layout_same [OF same] by simp
  have fl1: "free_lists st1 (loc(u := Active)) (relist u (loc u) Active F)"
    using b(3,4) head mv by (intro move_lists [OF lay F b(1,2)]) (simp_all add: place_ok_def in_use_def)
  define h where "h = \<lparr>oh_magic = VL_OBJECT_MAGIC, oh_kind = VL_OBJECT_SMALL, oh_state = VL_OBJECT_ALLOCATED,
      oh_requested_size = n, oh_capacity = sp_capacity (ms_spans st b), oh_owner_p = sp_owner_p (ms_spans st1 b), oh_reserved = 0,
      oh_span = b, oh_mapping_base = NULL, oh_mapping_size = 0\<rparr>"
  have eq: "st2 = st1\<lparr>ms_headers := (ms_headers st1)(vl_object_header_from_user u := h), ms_stats := ms_stats st1\<rparr>"
    using span_not_null [OF lay b(1)] by (simp add: st2 vl_initialize_header_def upd_header_def h_def)
  have b1: "b \<in> set (ms_all_spans st1)" "u \<in> slots st1 b" using b same_layoutD(2) [OF same] same_slots(2) [OF same] by simp_all
  note hl = header_layout [OF lay1 b1, where h = h and t = "ms_stats st1", folded eq]
  have hh: "oh_magic h = VL_OBJECT_MAGIC" "oh_kind h = VL_OBJECT_SMALL" "oh_span h = b"
    "oh_owner_p h = sp_owner_p (ms_spans st1 b)" "oh_capacity h = sp_capacity (ms_spans st1 b)"
    using same_layoutD(9) [OF same] by (simp_all add: h_def)
  have slots: "all_slots st2 = all_slots st" using hl(3) [OF hh] same_slots(3) [OF same] by simp
  have hdr: "header_of st2 v = (if v = u then h else header_of st v)" for v
    using same_layoutD(4) [OF same] by (simp add: eq)
  have "states st2 (loc(u := Active))"
    using sts n b(3) by (auto simp: states_def slots hdr h_def)
  then show hp2: "heap_at st2 (loc(u := Active))" using hl(1,2) [OF hh] fl1 by (auto simp: heap_at_def)
  have uin: "u \<in> all_slots st" using b by (auto simp: all_slots_def)
  have "u \<notin> dom (live st)"
    using uin b(3) small_not_large [OF lay uin] sts by (auto simp: live_def live_at_def states_def dom_def split: if_splits)
  then show none: "live st u = None" by auto
  have large: "ms_large_allocations st2 = ms_large_allocations st" using same_layoutD(5) [OF same] by (simp add: eq)
  show "live st2 = (live st)(u \<mapsto> n)"
  proof
    fix v show "live st2 v = ((live st)(u \<mapsto> n)) v"
      using uin hdr [of v] large slots by (cases "v = u") (simp_all add: live_def live_at_def h_def)
  qed
  have mem: "ms_mem st2 = ms_mem st" using movedD(3) [OF mv] by (simp add: eq)
  then show "intact st st2" using none hdr by (auto simp: intact_def mem domIff)
  show "ms_stats st2 = ms_stats st1" by (simp add: eq)
qed

text \<open>The object of a small block goes back to a cache.\<close>

lemma give_object:
  assumes hp: "heap_at st loc" and b: "b \<in> set (ms_all_spans st)" "u \<in> slots st b" "loc u = Active"
    and st1: "st1 = st\<lparr>ms_headers := (ms_headers st)(vl_object_header_from_user u := (header_of st u)\<lparr>oh_state := VL_OBJECT_FREE\<rparr>), ms_stats := t\<rparr>"
    and st2: "st2 = vl_cache_push os p (vl_object_header_from_user u) u st1"
  shows "\<exists>loc2. heap_at st2 loc2" "live st2 = (live st)(u := None)" "intact st st2"
    "as_active_bytes (ms_stats st2) = as_active_bytes t" "as_active_objects (ms_stats st2) = as_active_objects t"
    "ms_page_size st2 = ms_page_size st"
proof -
  have lay: "layout st" and sts: "states st loc" using hp by (auto simp: heap_at_def)
  obtain F where F: "free_lists st loc F" using hp by (auto simp: heap_at_def)
  let ?h = "(header_of st u)\<lparr>oh_state := VL_OBJECT_FREE\<rparr>"
  have hh: "oh_magic ?h = VL_OBJECT_MAGIC" "oh_kind ?h = VL_OBJECT_SMALL" "oh_span ?h = b"
    "oh_owner_p ?h = sp_owner_p (ms_spans st b)" "oh_capacity ?h = sp_capacity (ms_spans st b)"
    using layoutD(7) [OF lay b(1,2)] by (simp_all add: header_ok_def Let_def)
  note hl = header_layout [OF lay b(1,2) hh, where t = t, folded st1]
  have b1: "b \<in> set (ms_all_spans st1)" "u \<in> slots st1 b" using b by (simp_all add: st1 slots_def slot_def [abs_def])
  have hdr: "header_of st1 v = (if v = u then ?h else header_of st v)" for v by (simp add: st1)
  have F1: "free_lists st1 loc F" using F hl(2) by simp
  have "states st1 (loc(u := pl))" if "pl \<noteq> Active" for pl
    using sts that by (auto simp: states_def hl(3) hdr)
  then obtain st3 loc3 loc2 where p: "same_layout st1 st3" "heap_at st3 loc3" "active st3 loc3 = active st1 loc - {u}"
      "owned st1 loc - object_cells st1 b u \<subseteq> owned st3 loc3" "kept (owned st3 loc3) st1 st3"
      "as_active_bytes (ms_stats st3) = as_active_bytes (ms_stats st1)" "as_active_objects (ms_stats st3) = as_active_objects (ms_stats st1)"
      "evolved st3 loc3 st2 loc2"
    using push_ok [where loc = loc and F = F, OF hl(1) F1 b1 b(3), of os p] unfolding st2 by metis
  note ev = evolved_live [OF p(2,8)]
  show "\<exists>loc2. heap_at st2 loc2" using evolved_heap [OF p(8)] by blast
  have dom3: "dom (live st3) = dom (live st) - {u}"
  proof -
    have "u \<notin> vl_object_user_from_header ` set (ms_large_allocations st)"
    proof -
      have "u \<in> all_slots st" using b by (auto simp: all_slots_def)
      then have "vl_object_header_from_user u \<notin> set (ms_large_allocations st)" by (rule small_not_large [OF lay])
      then show ?thesis by auto
    qed
    moreover have "active st1 loc = active st loc" by (simp add: active_def hl(3))
    moreover have "ms_large_allocations st3 = ms_large_allocations st" using same_layoutD(5) [OF p(1)] by (simp add: st1)
    ultimately show ?thesis unfolding live_dom [OF p(2)] live_dom [OF hp] using p(3) by auto
  qed
  have hdr3: "header_of st3 v = header_of st v" if "v \<noteq> u" for v using that hdr same_layoutD(4) [OF p(1)] by simp
  have live3: "live st3 = (live st)(u := None)"
  proof
    fix v show "live st3 v = ((live st)(u := None)) v"
    proof (cases "v \<in> dom (live st3)")
      case True
      then have "v \<in> dom (live st)" "v \<noteq> u" using dom3 by auto
      then show ?thesis using live_header(5) [OF hp] live_header(5) [OF p(2) True] hdr3 by simp
    next
      case False
      then have "v = u \<or> v \<notin> dom (live st)" using dom3 by auto
      then show ?thesis using False by (auto simp: domIff)
    qed
  qed
  then show "live st2 = (live st)(u := None)" using ev(1) by simp
  have "intact st st3"
    unfolding intact_def
  proof (intro ballI conjI allI impI)
    fix v and x :: addr assume v: "v \<in> dom (live st) \<inter> dom (live st3)"
    then have vu: "v \<noteq> u" using dom3 by auto
    then show "header_of st3 v = header_of st v" by (rule hdr3)
    assume x: "unat x \<in> extent st v"
    have ud: "u \<in> dom (live st)" unfolding live_dom [OF hp] using b by (auto simp: active_def all_slots_def)
    have "extent st u = object_cells st b u"
      using layoutD(7) [OF lay b(1,2)] by (simp add: extent_def object_cells_def header_ok_def Let_def)
    then have "unat x \<notin> object_cells st1 b u"
      using extents_apart [OF hp _ ud vu] v x by (auto simp: object_cells_def st1)
    moreover have "unat x \<in> owned st1 loc" using extent_inside(5) [OF hp] v x hl(4) by blast
    ultimately have "ms_mem st3 x = ms_mem st1 x" using p(4,5) unfolding kept_def by blast
    then show "ms_mem st3 x = ms_mem st x" by (simp add: st1)
  qed
  then show "intact st st2" using intact_trans [OF _ ev(2)] ev(1) by auto
  show "as_active_bytes (ms_stats st2) = as_active_bytes t" "as_active_objects (ms_stats st2) = as_active_objects t"
    using p(6-8) by (simp_all add: evolved_def st1)
  show "ms_page_size st2 = ms_page_size st" using p(8) same_layoutD(1) [OF p(1)] by (simp add: evolved_def st1)
qed

end
