(* ===== verification/Heap.thy ===== *)
theory Heap
  imports Heap_Alloc
begin

text \<open>
  The operations of \<^verbatim>\<open>valloc.c\<close> on the map of live blocks, and the runs of the allocator: any sequence of
  allocations, releases and writes of the clients into their blocks.
\<close>

section \<open>Large blocks\<close>

lemma large_added:
  assumes hp: "heap_at st loc" and maps: "maps_ok (ms_page_size st) ((a, n) # ms_mappings st)"
    and st': "st' = st\<lparr>ms_mappings := (a, n) # ms_mappings st, ms_headers := (ms_headers st)(a := h), ms_stats := t,
      ms_large_allocations := a # ms_large_allocations st\<rparr>"
    and h: "oh_magic h = VL_OBJECT_MAGIC" "oh_kind h = VL_OBJECT_LARGE" "oh_state h = VL_OBJECT_ALLOCATED"
      "oh_mapping_base h = a" "oh_mapping_size h = n" "80 + unat (oh_capacity h) \<le> unat n"
      "0 < oh_requested_size h" "oh_requested_size h \<le> oh_capacity h"
  shows "heap_at st' loc" "live st (vl_object_user_from_header a) = None"
    "live st' = (live st)(vl_object_user_from_header a \<mapsto> oh_requested_size h)" "intact st st'"
proof -
  have lay: "layout st" and sts: "states st loc" using hp by (auto simp: heap_at_def)
  obtain F where F: "free_lists st loc F" using hp by (auto simp: heap_at_def)
  have slot: "slot st' = slot st" "slots st' = slots st" by (simp_all add: fun_eq_iff slots_def slot_def st')
  have sel: "ms_all_spans st' = ms_all_spans st" "ms_spans st' = ms_spans st" "ms_mem st' = ms_mem st" "ms_central st' = ms_central st"
    "ms_page_size st' = ms_page_size st" "ms_initialized st' = ms_initialized st" "cache_at st' r = cache_at st r"
    "ms_mappings st' = (a, n) # ms_mappings st" "ms_large_allocations st' = a # ms_large_allocations st" for r
    by (simp_all add: st')
  have all: "all_slots st' = all_slots st" unfolding all_slots_def slot sel ..
  have notb: "a \<notin> set (ms_all_spans st)" "a \<notin> set (ms_large_allocations st)"
    using fresh_base [OF maps] span_region [OF lay] large_region [OF lay] by blast+
  have nota: "vl_object_header_from_user u \<noteq> a" if uin: "u \<in> all_slots st" for u
  proof
    assume eq: "vl_object_header_from_user u = a"
    obtain b where b: "b \<in> set (ms_all_spans st)" "u \<in> slots st b" using uin by (auto simp: all_slots_def)
    have "(b, sp_mapping_size (ms_spans st b)) \<noteq> (a, n)" using b(1) notb by auto
    then have "region_cells (b, sp_mapping_size (ms_spans st b)) \<inter> region_cells (a, n) = {}"
      using maps_ok_disjoint [OF maps, of "(b, sp_mapping_size (ms_spans st b))" "(a, n)"] span_region [OF lay b(1)] by simp
    moreover have "unat a \<in> region_cells (a, n)" using h(6) by (simp add: region_cells_def cells_def)
    moreover have "unat a \<in> region_cells (b, sp_mapping_size (ms_spans st b))"
      using slot_inside [OF lay b] header_addr [of u] eq by (simp add: region_cells_def cells_def) linarith
    ultimately show False by blast
  qed
  have hdr: "header_of st' u = header_of st u" if "u \<in> all_slots st" for u using nota [OF that] by (simp add: st')
  have lhdr: "ms_headers st' l = ms_headers st l" if "l \<in> set (ms_large_allocations st)" for l using that notb by (auto simp: st')
  have "span_ok st' c" if "c \<in> set (ms_all_spans st)" for c
    using layoutD(6) [OF lay that] unfolding span_ok_def Let_def sel set_simps insert_iff by blast
  moreover have "header_ok st' c u" if "c \<in> set (ms_all_spans st)" "u \<in> slots st c" for c u
  proof -
    have "u \<in> all_slots st" using that by (auto simp: all_slots_def)
    then show ?thesis using layoutD(7) [OF lay that] hdr unfolding header_ok_def Let_def sel by simp
  qed
  moreover have "large_ok st' l" if "l \<in> set (ms_large_allocations st)" for l
    using layoutD(8) [OF lay that] unfolding large_ok_def Let_def lhdr [OF that] sel set_simps insert_iff by blast
  moreover have "large_ok st' a" using h by (simp add: large_ok_def Let_def st')
  moreover have "distinct (ms_all_spans st @ a # ms_large_allocations st)" using layoutD(4) [OF lay] notb by simp
  ultimately have lay': "layout st'" using layoutD [OF lay] maps unfolding layout_def slot sel by simp
  have hd: "head_at st' pl = head_at st pl" for pl by (cases pl) (simp_all add: st')
  have "in_use st' pl = in_use st pl" "place_ok st' c pl = place_ok st c pl" for c pl unfolding in_use_def place_ok_def sel by simp_all
  then have "free_lists st' loc F" using F unfolding free_lists_def slot all hd sel by simp
  moreover have "states st' loc" using sts hdr unfolding states_def all by simp
  ultimately show hp': "heap_at st' loc" using lay' by (auto simp: heap_at_def)
  let ?u = "vl_object_user_from_header a"
  have new: "?u \<notin> all_slots st" using nota [of ?u] by auto
  then show none: "live st ?u = None" using notb by (simp add: live_def live_at_def)
  show "live st' = (live st)(?u \<mapsto> oh_requested_size h)"
  proof
    fix v
    have "vl_object_header_from_user v = a \<longleftrightarrow> v = ?u" by auto
    then show "live st' v = ((live st)(?u \<mapsto> oh_requested_size h)) v"
      using new hdr [of v] by (cases "v = ?u") (auto simp: live_def live_at_def all, auto simp: st')
  qed
  have "header_of st' v = header_of st v" if "v \<in> dom (live st)" for v
    using that none by (cases "v = ?u") (auto simp: st')
  then show "intact st st'" by (simp add: intact_def sel)
qed

lemma large_removed:
  assumes hp: "heap_at st loc" and l: "l \<in> set (ms_large_allocations st)"
    and st': "st' = vl_page_heap_release os l (oh_mapping_size (ms_headers st l))
      (st\<lparr>ms_headers := (ms_headers st)(l := h), ms_stats := t, ms_large_allocations := remove1 l (ms_large_allocations st)\<rparr>)"
  shows "heap_at st' loc" "live st' = (live st)(vl_object_user_from_header l := None)" "intact st st'"
proof -
  have lay: "layout st" and sts: "states st loc" using hp by (auto simp: heap_at_def)
  obtain F where F: "free_lists st loc F" using hp by (auto simp: heap_at_def)
  let ?n = "oh_mapping_size (ms_headers st l)" and ?u = "vl_object_user_from_header l"
  let ?st1 = "st\<lparr>ms_headers := (ms_headers st)(l := h), ms_stats := t, ms_large_allocations := remove1 l (ms_large_allocations st)\<rparr>"
  have sel: "ms_all_spans st' = ms_all_spans st" "ms_spans st' = ms_spans st" "ms_mem st' = ms_mem st" "ms_central st' = ms_central st"
    "ms_page_size st' = ms_page_size st" "ms_initialized st' = ms_initialized st" "cache_at st' r = cache_at st r"
    "ms_large_allocations st' = remove1 l (ms_large_allocations st)" "ms_headers st' = (ms_headers st)(l := h)" for r
    by (simp_all add: st')
  have slot: "slot st' = slot st" "slots st' = slots st" by (simp_all add: fun_eq_iff slots_def slot_def sel)
  have all: "all_slots st' = all_slots st" unfolding all_slots_def slot sel ..
  have mk: "maps_ok (ms_page_size st) (ms_mappings st')" "\<And>r. r \<in> set (ms_mappings st) \<Longrightarrow> r \<noteq> (l, ?n) \<Longrightarrow> r \<in> set (ms_mappings st')"
    using maps_kept [where st = ?st1 and page = "ms_page_size st" and os = os and a = l and n = ?n] layoutD(3) [OF lay] by (simp_all add: st')
  have hdr: "header_of st' u = header_of st u" if "u \<in> all_slots st" for u
    using small_not_large [OF lay that] l by (auto simp: sel)
  have notb: "l \<notin> set (ms_all_spans st)" "distinct (ms_large_allocations st)" using layoutD(4) [OF lay] l by auto
  have "span_ok st' c" if c: "c \<in> set (ms_all_spans st)" for c
  proof -
    have "(c, sp_mapping_size (ms_spans st c)) \<in> set (ms_mappings st')" using mk(2) span_region [OF lay c] c notb by auto
    then show ?thesis using layoutD(6) [OF lay c] unfolding span_ok_def Let_def sel by blast
  qed
  moreover have "header_ok st' c u" if "c \<in> set (ms_all_spans st)" "u \<in> slots st c" for c u
  proof -
    have "u \<in> all_slots st" using that by (auto simp: all_slots_def)
    then show ?thesis using layoutD(7) [OF lay that] hdr unfolding header_ok_def Let_def sel(2) by simp
  qed
  moreover have "large_ok st' k" if k: "k \<in> set (ms_large_allocations st')" for k
  proof -
    have k': "k \<in> set (ms_large_allocations st)" "k \<noteq> l" using k notb(2) by (auto simp: sel)
    have "(k, oh_mapping_size (ms_headers st k)) \<in> set (ms_mappings st')" using mk(2) large_region [OF lay k'(1)] k'(2) by auto
    then show ?thesis using layoutD(8) [OF lay k'(1)] k'(2) by (simp add: large_ok_def Let_def sel)
  qed
  moreover have "distinct (ms_all_spans st' @ ms_large_allocations st')" 
    using layoutD(4) [OF lay] unfolding sel distinct_append set_remove1_eq [OF notb(2)] by (simp add: distinct_remove1) blast
  ultimately have lay': "layout st'" using layoutD(1,2,5) [OF lay] mk(1) unfolding layout_def slot sel(1-7) by blast
  have hd: "head_at st' pl = head_at st pl" for pl by (cases pl) (simp_all add: sel)
  have "in_use st' pl = in_use st pl" "place_ok st' c pl = place_ok st c pl" for c pl unfolding in_use_def place_ok_def sel by simp_all
  then have "free_lists st' loc F" using F unfolding free_lists_def slot all hd sel by simp
  moreover have "states st' loc" using sts hdr unfolding states_def all by simp
  ultimately show hp': "heap_at st' loc" using lay' by (auto simp: heap_at_def)
  have new: "?u \<notin> all_slots st" using small_not_large [OF lay, of ?u] l by auto
  have larges: "set (ms_large_allocations st') = set (ms_large_allocations st) - {l}" using notb(2) by (simp add: sel)
  show lv: "live st' = (live st)(?u := None)"
  proof
    fix v
    show "live st' v = ((live st)(?u := None)) v"
    proof (cases "v = ?u")
      case True
      then show ?thesis using new larges by (simp add: live_def live_at_def all)
    next
      case False
      then have "vl_object_header_from_user v \<noteq> l" by auto
      then have "header_of st' v = header_of st v" by (simp add: sel)
      then show ?thesis using False \<open>vl_object_header_from_user v \<noteq> l\<close> larges by (simp add: live_def live_at_def all)
    qed
  qed
  have "header_of st' v = header_of st v" if "v \<in> dom (live st')" for v
    using that lv by (cases "v = ?u") (auto simp: sel)
  then show "intact st st'" by (simp add: intact_def sel)
qed

section \<open>Allocation\<close>

lemma stats_only:
  "heap_at (st\<lparr>ms_stats := t\<rparr>) loc = heap_at st loc" "live (st\<lparr>ms_stats := t\<rparr>) = live st"
  "intact st0 (st\<lparr>ms_stats := t\<rparr>) = intact st0 st" "intact (st\<lparr>ms_stats := t\<rparr>) st0 = intact st st0"
proof -
  have same: "same_layout st (st\<lparr>ms_stats := t\<rparr>)" by (simp add: same_layout_def)
  have head: "head_at (st\<lparr>ms_stats := t\<rparr>) pl = head_at st pl" for pl by (cases pl) simp_all
  have "free_lists (st\<lparr>ms_stats := t\<rparr>) loc F = free_lists st loc F" for F
    unfolding free_lists_def same_slots [OF same] head by simp
  moreover have "states (st\<lparr>ms_stats := t\<rparr>) loc = states st loc" unfolding states_def same_slots [OF same] by simp
  ultimately show "heap_at (st\<lparr>ms_stats := t\<rparr>) loc = heap_at st loc" using layout_same [OF same] by (simp add: heap_at_def)
  show lv: "live (st\<lparr>ms_stats := t\<rparr>) = live st" by (simp add: fun_eq_iff live_def live_at_def same_slots(3) [OF same])
  show "intact st0 (st\<lparr>ms_stats := t\<rparr>) = intact st0 st" "intact (st\<lparr>ms_stats := t\<rparr>) st0 = intact st st0"
    by (simp_all add: intact_def lv extent_def)
qed

text \<open>The pages a request needs from the kernel, if it needs any.\<close>

definition pages_needed :: "usize \<Rightarrow> usize \<Rightarrow> usize" where
  "pages_needed page n = (if vl_size_class_index n < VL_SIZE_CLASS_COUNT then span_pages_for page (vl_size_class_index n) + 1
     else (header_size + n + page - 1) div page)"

definition too_large :: "usize \<Rightarrow> usize \<Rightarrow> bool" where
  "too_large page n \<longleftrightarrow> n > SIZE_MAX - header_size \<or> header_size + n > SIZE_MAX - (page - 1)"

lemma malloc_small:
  assumes hp: "heap_at st loc" and os: "os_ok (ms_page_size st) os" and c: "vl_size_class_index n < VL_SIZE_CLASS_COUNT" and n: "0 < n"
    and pop: "vl_cache_pop os p (vl_size_class_index n) st = (u, st2)" and u: "u \<noteq> NULL"
    and st3: "st3 = vl_initialize_header p (vl_object_header_from_user u) VL_OBJECT_SMALL (vl_size_class_capacity (vl_size_class_index n)) n
      (oh_span (header_of st2 u)) NULL 0 st2"
  shows "\<exists>loc3. heap_at st3 loc3" "live st u = None" "live st3 = (live st)(u \<mapsto> n)" "intact st st3"
    "as_active_bytes (ms_stats st3) = as_active_bytes (ms_stats st)" "as_active_objects (ms_stats st3) = as_active_objects (ms_stats st)"
    "ms_page_size st3 = ms_page_size st"
proof -
  let ?c = "vl_size_class_index n" and ?r = "Local (vl_memory_current_p p) (vl_size_class_index n)"
  obtain st1 loc1 b where p: "evolved st loc st1 loc1" "b \<in> set (ms_all_spans st1)" "u \<in> slots st1 b" "sp_class_index (ms_spans st1 b) = ?c"
      "loc1 u = Cached ?r" "vc_head (cache_at st1 ?r) = u" "moved st1 st2 b u (Cached ?r) Active" "ms_stats st2 = ms_stats st1"
    using pop_ok(2) [OF hp os c pop u] by blast
  have hp1: "heap_at st1 loc1" and lay1: "layout st1" using evolved_heap [OF p(1)] by (auto simp: heap_at_def)
  have same: "same_layout st1 st2" using movedD(1) [OF p(7)] .
  have span: "oh_span (header_of st2 u) = b"
    using layoutD(7) [OF lay1 p(2,3)] same_layoutD(4) [OF same] by (simp add: header_ok_def Let_def)
  have cap: "vl_size_class_capacity ?c = sp_capacity (ms_spans st1 b)"
    using layoutD(6) [OF lay1 p(2)] p(4) by (simp add: span_ok_def Let_def)
  have le: "n \<le> sp_capacity (ms_spans st1 b)" using index_capacity [OF c] cap by simp
  have ref: "ref_ok ?r" using c by simp
  note tk = take_object [OF hp1 p(2,3,5) ref p(6,7) st3 [unfolded span cap] n le]
  note ev = evolved_live [OF hp p(1)]
  show "\<exists>loc3. heap_at st3 loc3" using tk(1) by blast
  show "live st u = None" "live st3 = (live st)(u \<mapsto> n)" using tk(2,3) ev(1) by simp_all
  show "intact st st3" using intact_trans [OF ev(2) tk(4)] ev(1) by auto
  show "as_active_bytes (ms_stats st3) = as_active_bytes (ms_stats st)" "as_active_objects (ms_stats st3) = as_active_objects (ms_stats st)"
    using tk(5) p(1,8) by (simp_all add: evolved_def)
  show "ms_page_size st3 = ms_page_size st"
    using p(1) same_layoutD(1) [OF same] by (simp add: st3 vl_initialize_header_def upd_header_def evolved_def)
qed

lemma large_pages:
  assumes "page_ok page" "\<not> too_large page n"
  shows "unat (header_size + n) = 80 + unat n" "80 + unat n \<le> unat ((header_size + n + page - 1) div page) * unat page"
proof -
  have p: "4096 \<le> unat page" using page_ok_bounds [OF assms(1)] by simp
  have "unat (SIZE_MAX - header_size) = 2 ^ 64 - 1 - 80" by (subst usize_unat_sub) (simp_all add: usize_le_iff header_size_def)
  then have "unat n \<le> 2 ^ 64 - 1 - 80" using assms(2) by (simp add: too_large_def usize_less_iff not_less)
  then show b: "unat (header_size + n) = 80 + unat n" by (subst usize_unat_add) (simp_all add: header_size_def)
  have pm: "unat (page - 1) = unat page - 1" using p by (intro usize_unat_pred) auto
  have "unat (SIZE_MAX - (page - 1)) = 2 ^ 64 - 1 - (unat page - 1)"
    using usize_lt [of page] by (subst usize_unat_sub) (simp_all add: usize_le_iff pm)
  then have room: "80 + unat n + (unat page - 1) \<le> 2 ^ 64 - 1"
    using assms(2) b p usize_lt [of page] by (simp add: too_large_def usize_less_iff not_less) linarith
  have "unat (header_size + n + (page - 1)) = 80 + unat n + (unat page - 1)" using room b pm by (subst usize_unat_add) simp_all
  then have "unat (header_size + n + page - 1) = 80 + unat n + unat page - 1" using p by (simp add: add_diff_eq)
  then show "80 + unat n \<le> unat ((header_size + n + page - 1) div page) * unat page"
    using round_up_pages(1) [of "unat page" "80 + unat n"] p by (simp add: unat_div_distrib)
qed

lemma malloc_large_unfold:
  "vl_malloc_large os p n st =
    (let pages = (header_size + n + ms_page_size st - 1) div ms_page_size st in
     if too_large (ms_page_size st) n \<or> pages = 0 then (NULL, st)
     else case vl_page_heap_acquire os pages st of (a, k, st1) \<Rightarrow>
       if a = NULL then (NULL, st1)
       else (vl_object_user_from_header a, count_object n (vl_large_insert a (upd_header (\<lambda>h. h\<lparr>oh_owner_p := vl_memory_current_p p\<rparr>) a
              (vl_initialize_header p a VL_OBJECT_LARGE n n NULL a k st1)))))"
  unfolding vl_malloc_large_def too_large_def Let_def by simp

lemma malloc_large:
  assumes hp: "heap_at st loc" and os: "os_ok (ms_page_size st) os" and n: "0 < n"
    and m: "vl_malloc_large os p n st = (u, st')"
  shows "u = NULL \<Longrightarrow> st' = st \<and> (too_large (ms_page_size st) n \<or> refused os st ((header_size + n + ms_page_size st - 1) div ms_page_size st))"
    "u \<noteq> NULL \<Longrightarrow> heap_at st' loc \<and> live st u = None \<and> live st' = (live st)(u \<mapsto> n) \<and> intact st st' \<and> ms_page_size st' = ms_page_size st
       \<and> as_active_bytes (ms_stats st') = as_active_bytes (ms_stats st) + n \<and> as_active_objects (ms_stats st') = as_active_objects (ms_stats st) + 1"
proof -
  have lay: "layout st" using hp by (simp add: heap_at_def)
  let ?P = "ms_page_size st" and ?pages = "(header_size + n + ms_page_size st - 1) div ms_page_size st"
  obtain a k st1 where acq: "vl_page_heap_acquire os ?pages st = (a, k, st1)" by (metis prod_cases3)
  note ac = acquire_ok [OF os layoutD(3) [OF lay] acq]
  have main: "if too_large ?P n \<or> a = NULL then u = NULL \<and> st' = st
      else u = vl_object_user_from_header a \<and> heap_at st' loc \<and> live st u = None \<and> live st' = (live st)(u \<mapsto> n) \<and> intact st st'
       \<and> ms_page_size st' = ms_page_size st \<and> as_active_bytes (ms_stats st') = as_active_bytes (ms_stats st) + n
       \<and> as_active_objects (ms_stats st') = as_active_objects (ms_stats st) + 1"
  proof (cases "too_large ?P n")
    case True
    then show ?thesis using m by (simp add: malloc_large_unfold)
  next
    case False
    note lp = large_pages [OF layoutD(2) [OF lay] False]
    have nz: "?pages \<noteq> 0" using lp(2) by auto
    show ?thesis
    proof (cases "a = NULL")
      case True
      then show ?thesis using m False nz acq ac(1) by (simp add: malloc_large_unfold)
    next
      case a: False
      define h where "h = \<lparr>oh_magic = VL_OBJECT_MAGIC, oh_kind = VL_OBJECT_LARGE, oh_state = VL_OBJECT_ALLOCATED,
        oh_requested_size = n, oh_capacity = n, oh_owner_p = vl_memory_current_p p, oh_reserved = 0,
        oh_span = NULL, oh_mapping_base = a, oh_mapping_size = k\<rparr>"
      define t where "t = (ms_stats st1)\<lparr>as_active_bytes := as_active_bytes (ms_stats st1) + n, as_active_objects := as_active_objects (ms_stats st1) + 1\<rparr>"
      have st': "u = vl_object_user_from_header a" "st' = st\<lparr>ms_mappings := (a, k) # ms_mappings st, ms_headers := (ms_headers st)(a := h),
          ms_stats := t, ms_large_allocations := a # ms_large_allocations st\<rparr>"
        using m False nz acq a ac(4) [OF a]
        by (auto simp: malloc_large_unfold vl_initialize_header_def upd_header_def vl_large_insert_def
            count_object_def upd_memory_stats_def h_def t_def)
      have "80 + unat n \<le> unat k" using lp(2) ac(2) [OF a] by simp
      then show ?thesis
        using large_added [OF hp ac(3) [OF a] st'(2)] n False a st'(1) ac(4) [OF a] by (simp add: h_def st'(2) t_def)
    qed
  qed
  moreover have "vl_object_user_from_header a \<noteq> NULL" if "\<not> too_large ?P n" "a \<noteq> NULL"
  proof -
    have "unat a + unat k < 2 ^ 64" using ac(3) [OF that(2)] by (simp add: maps_ok_def region_ok_def)
    moreover have "80 \<le> unat k" using large_pages(2) [OF layoutD(2) [OF lay] that(1)] ac(2) [OF that(2)] by simp
    ultimately have "unat (vl_object_user_from_header a) = unat a + 80"
      unfolding vl_object_user_from_header_def header_size_def by (subst usize_unat_add) simp_all
    then show ?thesis by auto
  qed
  ultimately show "u = NULL \<Longrightarrow> st' = st \<and> (too_large ?P n \<or> refused os st ?pages)"
    "u \<noteq> NULL \<Longrightarrow> heap_at st' loc \<and> live st u = None \<and> live st' = (live st)(u \<mapsto> n) \<and> intact st st' \<and> ms_page_size st' = ms_page_size st
       \<and> as_active_bytes (ms_stats st') = as_active_bytes (ms_stats st) + n \<and> as_active_objects (ms_stats st') = as_active_objects (ms_stats st) + 1"
    using acq by (auto simp: refused_def split: if_splits)
qed

lemma initialized_ensure:
  "ms_initialized st \<Longrightarrow> vl_memory_ensure_initialized os st = (VL_OK, st)"
  by (simp add: vl_memory_ensure_initialized_def vl_memory_is_owner_def)

definition at_least_one :: "usize \<Rightarrow> usize" where
  "at_least_one n = (if n = 0 then 1 else n)"

lemma malloc_ok:
  assumes ok: "heap_ok st" and os: "os_ok (ms_page_size st) os" and m: "vl_malloc os p n st = (u, st')"
  shows "heap_ok st' \<and> intact st st' \<and> ms_page_size st' = ms_page_size st
    \<and> (u = NULL \<longrightarrow> live st' = live st \<and> (\<not> vl_stats_can_allocate (at_least_one n) st \<or> too_large (ms_page_size st) (at_least_one n)
          \<or> refused os st (pages_needed (ms_page_size st) (at_least_one n))))
    \<and> (u \<noteq> NULL \<longrightarrow> live st u = None \<and> live st' = (live st)(u \<mapsto> at_least_one n))"
proof -
  obtain loc where hp: "heap_at st loc" and cnt: "counted st" using ok by (auto simp: heap_ok_def)
  have ini: "ms_initialized st" using hp layoutD(1) by (auto simp: heap_at_def)
  let ?n = "at_least_one n" and ?c = "vl_size_class_index (at_least_one n)" and ?q = "vl_memory_current_p p"
  have n: "0 < ?n" by (simp add: at_least_one_def word_gt_0)
  define hit where "hit = (vc_head (cache_at st (Local ?q ?c)) \<noteq> NULL \<or> vc_head (cache_at st (Remote ?q ?c)) \<noteq> NULL)"
  define t where "t = (if hit then (ms_stats st)\<lparr>as_cache_hits := as_cache_hits (ms_stats st) + 1\<rparr> else ms_stats st)"
  have mal: "vl_malloc os p n st = (if \<not> vl_stats_can_allocate ?n st then (NULL, st)
      else if ?c \<ge> VL_SIZE_CLASS_COUNT then vl_malloc_large os p ?n st
      else case vl_cache_pop os p ?c (st\<lparr>ms_stats := t\<rparr>) of (user, st2) \<Rightarrow>
        if user = NULL then (NULL, st2)
        else (user, count_object ?n (vl_initialize_header p (vl_object_header_from_user user) VL_OBJECT_SMALL (vl_size_class_capacity ?c) ?n
               (oh_span (header_of st2 user)) NULL 0 st2)))"
    unfolding vl_malloc_def Let_def at_least_one_def [symmetric] initialized_ensure [OF ini] t_def
    by (simp add: upd_memory_stats_def hit_def)
  have t: "as_active_bytes t = as_active_bytes (ms_stats st)" "as_active_objects t = as_active_objects (ms_stats st)"
    "as_mapped_bytes t = as_mapped_bytes (ms_stats st)" by (simp_all add: t_def)
  let ?st1 = "st\<lparr>ms_stats := t\<rparr>"
  have hp1: "heap_at ?st1 loc" using hp by (simp add: stats_only)
  have os1: "os_ok (ms_page_size ?st1) os" using os by simp
  consider (full) "\<not> vl_stats_can_allocate ?n st" | (large) "vl_stats_can_allocate ?n st" "?c \<ge> VL_SIZE_CLASS_COUNT"
    | (small) "vl_stats_can_allocate ?n st" "?c < VL_SIZE_CLASS_COUNT" by linarith
  then show ?thesis
  proof cases
    case full
    then show ?thesis using m mal ok by (simp add: intact_def)
  next
    case large
    note ml = malloc_large [OF hp os n, of p u st']
    have eq: "vl_malloc_large os p ?n st = (u, st')" using large m mal by simp
    have pg: "pages_needed (ms_page_size st) ?n = (header_size + ?n + ms_page_size st - 1) div ms_page_size st"
      using large(2) by (simp add: pages_needed_def)
    show ?thesis
    proof (cases "u = NULL")
      case True
      then show ?thesis using ml(1) [OF eq] ok pg by (simp add: intact_def)
    next
      case False
      have "counted st'" using large(1) ml(2) [OF eq False] by (intro counted_insert [OF cnt, of u _ ?n]) (auto simp: vl_stats_can_allocate_def)
      then show ?thesis using ml(2) [OF eq False] False by (auto simp: heap_ok_def)
    qed
  next
    case small
    obtain user st2 where pop: "vl_cache_pop os p ?c ?st1 = (user, st2)" by fastforce
    show ?thesis
    proof (cases "user = NULL")
      case True
      then have eq: "u = NULL" "st' = st2" using m mal small pop by simp_all
      obtain loc2 where ev: "evolved ?st1 loc st2 loc2" and rf: "refused os ?st1 (span_pages_for (ms_page_size st) ?c + 1)"
        using pop_ok(1) [OF hp1 os1 small(2) pop] True by auto
      have "refused os st (span_pages_for (ms_page_size st) ?c + 1)"
        using rf refused_same [of st ?st1 os] t(3) by (simp add: same_layout_def)
      moreover have "counted ?st1" using cnt t by (simp add: counted_def stats_only)
      ultimately show ?thesis
        using evolved_live [OF hp1 ev] evolved_heap [OF ev] ev eq small(2) by (auto simp: heap_ok_def stats_only pages_needed_def evolved_def)
    next
      case False
      define st3 where "st3 = vl_initialize_header p (vl_object_header_from_user user) VL_OBJECT_SMALL (vl_size_class_capacity ?c) ?n
               (oh_span (header_of st2 user)) NULL 0 st2"
      note ms = malloc_small [OF hp1 os1 small(2) n pop False st3_def, unfolded stats_only]
      define t3 where "t3 = (ms_stats st3)\<lparr>as_active_bytes := as_active_bytes (ms_stats st3) + ?n, as_active_objects := as_active_objects (ms_stats st3) + 1\<rparr>"
      have "(user, st3\<lparr>ms_stats := t3\<rparr>) = (u, st')"
        using m unfolding mal pop using small False by (auto simp: st3_def t3_def count_object_def upd_memory_stats_def)
      then have eq: "u = user" "st' = st3\<lparr>ms_stats := t3\<rparr>" by simp_all
      have "counted st'"
        using small(1) ms t unfolding eq by (intro counted_insert [OF cnt ms(2)]) (simp_all add: stats_only vl_stats_can_allocate_def t3_def)
      then show ?thesis using ms False eq by (auto simp: heap_ok_def stats_only)
    qed
  qed
qed

section \<open>Release\<close>

lemma free_ok:
  assumes ok: "heap_ok st" and u: "live st u = Some n"
  shows "heap_ok (vl_free os p u st) \<and> intact st (vl_free os p u st) \<and> live (vl_free os p u st) = (live st)(u := None)
    \<and> ms_page_size (vl_free os p u st) = ms_page_size st"
proof -
  obtain loc where hp: "heap_at st loc" and cnt: "counted st" using ok by (auto simp: heap_ok_def)
  have lay: "layout st" using hp by (simp add: heap_at_def)
  have dom: "u \<in> dom (live st)" using u by auto
  note h = live_header [OF hp dom]
  have nn: "u \<noteq> NULL" using extent_inside(2) [OF hp dom] by auto
  have n: "oh_requested_size (header_of st u) = n" using h(5) u by simp
  let ?h = "(header_of st u)\<lparr>oh_state := VL_OBJECT_FREE\<rparr>"
  define t where "t = (ms_stats st)\<lparr>as_active_bytes := as_active_bytes (ms_stats st) - n, as_active_objects := as_active_objects (ms_stats st) - 1\<rparr>"
  let ?st1 = "st\<lparr>ms_headers := (ms_headers st)(vl_object_header_from_user u := ?h), ms_stats := t\<rparr>"
  have guard: "as_active_objects (ms_stats st) \<noteq> 0" "n \<le> as_active_bytes (ms_stats st)"
    using counted_live(1,2) [OF cnt u] .
  have eq: "vl_free os p u st = (if oh_kind (header_of st u) = VL_OBJECT_LARGE
      then vl_page_heap_release os (oh_mapping_base (header_of st u)) (oh_mapping_size (header_of st u)) (vl_large_remove (vl_object_header_from_user u) ?st1)
      else vl_cache_push os p (vl_object_header_from_user u) u ?st1)"
    using nn h(1,2) guard n layoutD(1) [OF lay]
    by (simp add: vl_free_def Let_def vl_memory_is_owner_def upd_header_def upd_memory_stats_def t_def not_less)
  show ?thesis
    using hp dom
  proof (cases rule: live_cases)
    case (small b)
    have push: "vl_free os p u st = vl_cache_push os p (vl_object_header_from_user u) u ?st1" using eq small(5) by simp
    note g = give_object [OF hp small(1-3) refl push]
    have "counted (vl_free os p u st)" using g(4,5) by (intro counted_delete [OF cnt u g(2)]) (simp_all add: t_def)
    then show ?thesis using g by (auto simp: heap_ok_def)
  next
    case (large l)
    have hl: "vl_object_header_from_user u = l" using large(2) by simp
    have base: "oh_mapping_base (ms_headers st l) = l" using layoutD(8) [OF lay large(1)] by (simp add: large_ok_def Let_def)
    have rel: "vl_free os p u st = vl_page_heap_release os l (oh_mapping_size (ms_headers st l))
        (st\<lparr>ms_headers := (ms_headers st)(l := ?h), ms_stats := t, ms_large_allocations := remove1 l (ms_large_allocations st)\<rparr>)"
      using eq large(5) base by (simp add: hl vl_large_remove_def)
    note g = large_removed [OF hp large(1) rel, folded large(2)]
    have "counted (vl_free os p u st)" by (rule counted_delete [OF cnt u g(2)]) (simp_all add: rel t_def)
    then show ?thesis using g by (auto simp: heap_ok_def rel)
  qed
qed

end
