(* ===== verification/Heap_Runs.thy ===== *)
theory Heap_Runs
  imports Heap
begin

text \<open>
  Runs of the allocator, with clients that write into their blocks, and the properties of
  \<^verbatim>\<open>vl_malloc\<close>, \<^verbatim>\<open>vl_free\<close> and \<^verbatim>\<open>vl_realloc\<close> in every state a run can reach.
\<close>

section \<open>Writes of the clients\<close>

lemma cells_extent:
  assumes "heap_at st loc" "live st u = Some n"
  shows "cells u n \<subseteq> extent st u" "unat u + unat n < 2 ^ 64" "cells u (oh_capacity (header_of st u)) \<subseteq> extent st u"
proof -
  have u: "u \<in> dom (live st)" using assms(2) by auto
  have "n \<le> oh_capacity (header_of st u)" using live_header(4,5) [OF assms(1) u] assms(2) by simp
  then show "cells u n \<subseteq> extent st u" "unat u + unat n < 2 ^ 64"
    using extent_inside(3) [OF assms(1) u] by (auto simp: cells_def extent_def usize_le_iff)
  show "cells u (oh_capacity (header_of st u)) \<subseteq> extent st u" by (auto simp: cells_def extent_def)
qed

lemma write_ok:
  assumes hp: "heap_at st loc" and u: "u \<in> dom (live st)" and m: "\<And>x. unat x \<notin> extent st u \<Longrightarrow> m x = ms_mem st x"
  shows "heap_at (st\<lparr>ms_mem := m\<rparr>) loc" "live (st\<lparr>ms_mem := m\<rparr>) = live st" "counted (st\<lparr>ms_mem := m\<rparr>) = counted st"
proof -
  let ?st = "st\<lparr>ms_mem := m\<rparr>"
  have lay: "layout st" and sts: "states st loc" using hp by (auto simp: heap_at_def)
  obtain F where F: "free_lists st loc F" using hp by (auto simp: heap_at_def)
  have same: "same_layout st ?st" by (simp add: same_layout_def)
  have head: "head_at ?st pl = head_at st pl" for pl by (cases pl) simp_all
  have load: "load_ptr v m = load_ptr v (ms_mem st)" if v: "v \<in> all_slots st" "loc v \<noteq> Active" for v
  proof -
    obtain b where b: "b \<in> set (ms_all_spans st)" "v \<in> slots st b" using v(1) by (auto simp: all_slots_def)
    show ?thesis
    proof (rule load_ptr_cong [OF link_cells(2) [OF lay b]])
      fix x :: addr assume "unat x \<in> cells v 8"
      then have "unat x \<notin> extent st u"
        using free_not_owned [where loc = loc, OF lay b v(2)] link_cells(1) [OF lay b] extent_inside(5) [OF hp u] by blast
      then show "m x = ms_mem st x" by (rule m)
    qed
  qed
  have "linked m h (F pl) = linked (ms_mem st) h (F pl)" if "in_use st pl" for pl h
  proof -
    have "pl \<noteq> Active" using that by (auto simp: in_use_def)
    then show ?thesis using free_listsD(3) [OF F] load by (intro linked_cong) auto
  qed
  then have "free_lists ?st loc F" using F unfolding free_lists_def same_slots [OF same] head by simp
  moreover have "states ?st loc" using sts unfolding states_def same_slots [OF same] by simp
  ultimately show "heap_at ?st loc" using lay layout_same [OF same] by (auto simp: heap_at_def)
  show lv: "live ?st = live st" by (simp add: fun_eq_iff live_def live_at_def same_slots(3) [OF same])
  then show "counted ?st = counted st" by (simp add: counted_def)
qed

lemma offset_extent:
  assumes "heap_at st loc" "live st u = Some n" "unat x \<notin> extent st u" "k \<le> n"
  shows "\<not> x - u < k"
proof
  assume "x - u < k"
  then have "x - u < n" using assms(4) by simp
  then have "unat x \<in> cells u n" using cells_offset [of u n x] cells_extent(2) [OF assms(1,2)] by simp
  then show False using cells_extent(1) [OF assms(1,2)] assms(3) by blast
qed

section \<open>\<^verbatim>\<open>vl_calloc\<close> and \<^verbatim>\<open>vl_realloc\<close>\<close>

definition same_block :: "vl_memory_state \<Rightarrow> vl_memory_state \<Rightarrow> addr \<Rightarrow> bool" where
  "same_block st st' u \<longleftrightarrow> header_of st' u = header_of st u \<and> (\<forall>x. unat x \<in> extent st u \<longrightarrow> ms_mem st' x = ms_mem st x)"

lemma intact_blocks: "intact st st' \<longleftrightarrow> (\<forall>u \<in> dom (live st) \<inter> dom (live st'). same_block st st' u)"
  by (simp add: intact_def same_block_def)

lemma same_block_trans: "same_block st st1 u \<Longrightarrow> same_block st1 st2 u \<Longrightarrow> same_block st st2 u"
  by (auto simp: same_block_def extent_def)

lemma same_block_write:
  assumes "heap_at st loc" "u \<in> dom (live st)" "v \<in> dom (live st)" "u \<noteq> v" "\<And>x. unat x \<notin> extent st u \<Longrightarrow> m x = ms_mem st x"
  shows "same_block st (st\<lparr>ms_mem := m\<rparr>) v"
  using extents_apart [OF assms(1-4)] assms(5) by (auto simp: same_block_def)

lemma calloc_ok:
  assumes ok: "heap_ok st" and os: "os_ok (ms_page_size st) os" and c: "vl_calloc os p num sz st = (u, st')"
  shows "heap_ok st' \<and> intact st st' \<and> ms_page_size st' = ms_page_size st \<and> (u = NULL \<longrightarrow> live st' = live st)
    \<and> (u \<noteq> NULL \<longrightarrow> unat num * unat sz < 2 ^ 64 \<and> live st u = None \<and> live st' = (live st)(u \<mapsto> at_least_one (num * sz))
       \<and> (\<forall>i < unat num * unat sz. ms_mem st' (u + of_nat i) = 0))"
proof (cases "num \<noteq> 0 \<and> sz > SIZE_MAX div num")
  case True
  then show ?thesis using c ok by (simp add: vl_calloc_def intact_def)
next
  case False
  obtain v st1 where m: "vl_malloc os p (num * sz) st = (v, st1)" by fastforce
  note mo = malloc_ok [OF ok os m]
  show ?thesis
  proof (cases "v = NULL")
    case True
    then show ?thesis using c False m mo by (auto simp: vl_calloc_def)
  next
    case nn: False
    let ?k = "num * sz"
    have eq: "u = v" "st' = st1\<lparr>ms_mem := fill_bytes v ?k 0 (ms_mem st1)\<rparr>" using c False m nn by (auto simp: vl_calloc_def)
    have mul: "unat ?k = unat num * unat sz" "unat num * unat sz < 2 ^ 64"
    proof -
      have "unat num * unat sz < 2 ^ 64"
      proof (cases "num = 0")
        case nz: False
        then have "unat sz \<le> (2 ^ 64 - 1) div unat num" using False by (simp add: usize_less_iff unat_div_distrib not_less)
        then have "unat sz * unat num \<le> (2 ^ 64 - 1) div unat num * unat num" by (rule mult_le_mono1)
        also have "\<dots> \<le> 2 ^ 64 - 1" by simp
        finally show ?thesis by (simp add: mult.commute)
      qed simp
      then show "unat ?k = unat num * unat sz" "unat num * unat sz < 2 ^ 64" by (simp_all add: unat_mult_lem [THEN iffD1])
    qed
    obtain loc where hp: "heap_at st1 loc" using mo by (auto simp: heap_ok_def)
    have lv: "live st1 v = Some (at_least_one ?k)" using mo nn by simp
    have out: "fill_bytes v ?k 0 (ms_mem st1) x = ms_mem st1 x" if "unat x \<notin> extent st1 v" for x
      using offset_extent [OF hp lv that, of ?k] by (auto simp: fill_bytes_def at_least_one_def)
    have vd: "v \<in> dom (live st1)" using lv by auto
    note w = write_ok [OF hp vd out, folded eq(2)]
    have "intact st st'"
      unfolding intact_blocks
    proof
      fix x assume x: "x \<in> dom (live st) \<inter> dom (live st')"
      have "live st v = None" using mo nn by blast
      then have "x \<noteq> v" using x by auto
      then have "same_block st1 st' x" using same_block_write [OF hp vd _ _ out] w(2) x by (auto simp: eq(2))
      moreover have "same_block st st1 x" using mo x w(2) unfolding intact_blocks by auto
      ultimately show "same_block st st' x" by (rule same_block_trans [rotated])
    qed
    moreover have "ms_mem st' (u + of_nat i) = 0" if "i < unat num * unat sz" for i
    proof -
      have "unat (of_nat i :: usize) = i" using that mul(2) by (simp add: unat_of_nat)
      then have "(of_nat i :: usize) < ?k" using that mul(1) by (simp add: usize_less_iff)
      then show ?thesis by (simp add: eq fill_bytes_def)
    qed
    ultimately show ?thesis using mo w hp nn mul(2) by (auto simp: eq heap_ok_def)
  qed
qed

text \<open>A block that is resized in place.\<close>

lemma resize_ok:
  assumes hp: "heap_at st loc" and u: "u \<in> dom (live st)" and n: "0 < n" "n \<le> oh_capacity (header_of st u)"
    and st': "st' = st\<lparr>ms_headers := (ms_headers st)(vl_object_header_from_user u := (header_of st u)\<lparr>oh_requested_size := n\<rparr>), ms_stats := t\<rparr>"
  shows "heap_at st' loc" "live st' = (live st)(u \<mapsto> n)"
proof -
  have lay: "layout st" and sts: "states st loc" using hp by (auto simp: heap_at_def)
  obtain F where F: "free_lists st loc F" using hp by (auto simp: heap_at_def)
  let ?h = "(header_of st u)\<lparr>oh_requested_size := n\<rparr>"
  have slot: "slot st' = slot st" "slots st' = slots st" by (simp_all add: fun_eq_iff slots_def slot_def st')
  have sel: "ms_all_spans st' = ms_all_spans st" "ms_mappings st' = ms_mappings st" "ms_spans st' = ms_spans st"
    "ms_mem st' = ms_mem st" "ms_central st' = ms_central st" "ms_page_size st' = ms_page_size st"
    "ms_initialized st' = ms_initialized st" "ms_large_allocations st' = ms_large_allocations st" "cache_at st' r = cache_at st r" for r
    by (simp_all add: st')
  have all: "all_slots st' = all_slots st" unfolding all_slots_def slot sel ..
  have hdr: "header_of st' v = (if v = u then ?h else header_of st v)" for v by (simp add: st')
  have hd: "head_at st' pl = head_at st pl" for pl by (cases pl) (simp_all add: sel)
  have "span_ok st' c = span_ok st c" for c by (rule span_ok_cong) (simp_all add: sel)
  moreover have "header_ok st' c v = header_ok st c v" for c v unfolding header_ok_def Let_def hdr sel by simp
  moreover have "large_ok st' l" if "l \<in> set (ms_large_allocations st)" for l
  proof (cases "l = vl_object_header_from_user u")
    case True
    then show ?thesis using layoutD(8) [OF lay that] n by (simp add: large_ok_def Let_def st')
  next
    case False
    then show ?thesis using layoutD(8) [OF lay that] by (simp add: large_ok_def Let_def st')
  qed
  ultimately have "layout st'" using lay unfolding layout_def slot sel by simp
  moreover have "in_use st' pl = in_use st pl" "place_ok st' c pl = place_ok st c pl" for c pl unfolding in_use_def place_ok_def sel by simp_all
  then have "free_lists st' loc F" using F unfolding free_lists_def slot all hd sel by simp
  moreover have "states st' loc" using sts n unfolding states_def all hdr by auto
  ultimately show "heap_at st' loc" by (auto simp: heap_at_def)
  show "live st' = (live st)(u \<mapsto> n)"
  proof
    fix v
    have "live_at st u" using u by (auto simp: live_def split: if_splits)
    moreover have "live_at st' v = live_at st v" unfolding live_at_def all hdr sel by simp
    ultimately show "live st' v = ((live st)(u \<mapsto> n)) v" by (simp add: live_def hdr)
  qed
qed

lemma counted_resize:
  assumes "counted st" "live st u = Some k" "live st' = (live st)(u \<mapsto> n)"
    "as_active_objects (ms_stats st') = as_active_objects (ms_stats st)"
    "as_active_bytes (ms_stats st') = as_active_bytes (ms_stats st) - k + n" "\<not> as_active_bytes (ms_stats st) - k > SIZE_MAX - n"
  shows "counted st'"
proof -
  note c = counted_live [OF assms(1,2)]
  have u: "u \<in> dom (live st)" using assms(2) by auto
  have "(\<Sum>v \<in> dom (live st) - {u}. unat (the (live st' v))) = (\<Sum>v \<in> dom (live st) - {u}. unat (the (live st v)))"
    using assms(3) by (intro sum.cong) auto
  then have sum: "(\<Sum>v \<in> dom (live st). unat (the (live st' v))) = unat n + (\<Sum>v \<in> dom (live st) - {u}. unat (the (live st v)))"
    using u assms(3) by (simp add: sum.remove)
  have sub: "unat (as_active_bytes (ms_stats st) - k) = unat (as_active_bytes (ms_stats st)) - unat k" using c(2) by (rule usize_unat_sub)
  have "unat (SIZE_MAX - n) = 2 ^ 64 - 1 - unat n" using usize_lt [of n] by (subst usize_unat_sub) (simp_all add: usize_le_iff)
  then have "unat (as_active_bytes (ms_stats st) - k) + unat n < 2 ^ 64"
    using assms(6) usize_lt [of n] by (simp add: usize_less_iff not_less)
  then have "unat (as_active_bytes (ms_stats st) - k + n) = unat (as_active_bytes (ms_stats st)) - unat k + unat n"
    using sub by (simp add: usize_unat_add)
  then show ?thesis using assms(1,3-5) u sum c(3) by (simp add: counted_def insert_absorb)
qed

text \<open>What \<^verbatim>\<open>vl_realloc\<close> does to a live block of \<open>k\<close> bytes.\<close>

definition reallocated :: "vl_memory_state \<Rightarrow> vl_memory_state \<Rightarrow> addr \<Rightarrow> usize \<Rightarrow> addr \<Rightarrow> usize \<Rightarrow> bool" where
  "reallocated st st' u k r n \<longleftrightarrow> live st' = (live st)(u := None, r \<mapsto> n) \<and> (r = u \<or> live st r = None)
     \<and> (\<forall>i < min (unat k) (unat n). ms_mem st' (r + of_nat i) = ms_mem st (u + of_nat i))
     \<and> (\<forall>v \<in> dom (live st) - {u}. same_block st st' v)"

lemma realloc_moves:
  assumes ok: "heap_ok st" and os: "os_ok (ms_page_size st) os" and u: "live st u = Some k" and n: "n \<noteq> 0"
    and m: "vl_malloc os p n st = (r, st1)" and r: "r \<noteq> NULL" and c: "c = (if k < n then k else n)"
  defines "st2 \<equiv> st1\<lparr>ms_mem := copy_bytes r u c (ms_mem st1)\<rparr>"
  shows "heap_ok (vl_free os p u st2)" "reallocated st (vl_free os p u st2) u k r n" "ms_page_size (vl_free os p u st2) = ms_page_size st"
proof -
  note mo = malloc_ok [OF ok os m]
  have lv1: "live st1 = (live st)(r \<mapsto> n)" "live st r = None" "intact st st1" "heap_ok st1" using mo r n by (auto simp: at_least_one_def)
  have ru: "r \<noteq> u" using lv1(2) u by auto
  obtain loc where hp1: "heap_at st1 loc" using lv1(4) by (auto simp: heap_ok_def)
  have rd: "r \<in> dom (live st1)" "live st1 r = Some n" using lv1(1) by auto
  have cn: "c \<le> n" "unat c = min (unat k) (unat n)" unfolding c by (auto simp: usize_less_iff usize_le_iff)
  have out: "copy_bytes r u c (ms_mem st1) x = ms_mem st1 x" if "unat x \<notin> extent st1 r" for x
    using offset_extent [OF hp1 rd(2) that cn(1)] by (simp add: copy_bytes_def)
  note w = write_ok [OF hp1 rd(1) out, folded st2_def]
  have ok2: "heap_ok st2" using w(1,3) lv1(4) by (auto simp: heap_ok_def)
  have lv2: "live st2 u = Some k" using w(2) lv1(1) ru u by simp
  note fr = free_ok [OF ok2 lv2, of os p]
  show "heap_ok (vl_free os p u st2)" using fr by blast
  show "ms_page_size (vl_free os p u st2) = ms_page_size st" using fr mo by (simp add: st2_def)
  have lv3: "live (vl_free os p u st2) = (live st)(u := None, r \<mapsto> n)" using fr w(2) lv1(1) ru by auto
  have "ms_mem (vl_free os p u st2) (r + of_nat i) = ms_mem st (u + of_nat i)" if i: "i < min (unat k) (unat n)" for i
  proof -
    have ui: "unat (of_nat i :: usize) = i" using i usize_lt [of n] by (simp add: unat_of_nat)
    have inb: "unat (v + of_nat i) \<in> cells v l" if "unat v + unat l < 2 ^ 64" "i < unat l" for v l :: usize
      using usize_unat_add [of v "of_nat i"] that ui by (simp add: cells_def)
    have "unat (r + of_nat i) \<in> extent st2 r"
      using inb [of r n] cells_extent [OF w(1), of r n] w(2) rd(2) i by auto
    then have "ms_mem (vl_free os p u st2) (r + of_nat i) = ms_mem st2 (r + of_nat i)"
      using fr lv3 ru w(2) rd unfolding intact_blocks same_block_def by auto
    also have "\<dots> = ms_mem st1 (u + of_nat i)"
      using i ui cn(2) by (simp add: st2_def copy_bytes_def usize_less_iff)
    also have "\<dots> = ms_mem st (u + of_nat i)"
    proof -
      obtain loc0 where hp: "heap_at st loc0" using ok by (auto simp: heap_ok_def)
      have "unat (u + of_nat i) \<in> extent st u" using inb [of u k] cells_extent [OF hp u] i by auto
      moreover have "u \<in> dom (live st) \<inter> dom (live st1)" using u lv1(1) ru by auto
      ultimately show ?thesis using lv1(3) unfolding intact_blocks same_block_def by blast
    qed
    finally show ?thesis .
  qed
  moreover have "same_block st (vl_free os p u st2) v" if v: "v \<in> dom (live st) - {u}" for v
  proof -
    have "v \<noteq> r" using v lv1(2) by auto
    then have "same_block st1 st2 v" using same_block_write [OF hp1 rd(1) _ _ out, of v] v lv1(1) by (auto simp: st2_def)
    moreover have "same_block st st1 v" using lv1(1,3) v unfolding intact_blocks by auto
    moreover have "same_block st2 (vl_free os p u st2) v" using fr lv3 w(2) lv1(1) v \<open>v \<noteq> r\<close> unfolding intact_blocks by auto
    ultimately show ?thesis by (blast intro: same_block_trans)
  qed
  ultimately show "reallocated st (vl_free os p u st2) u k r n" using lv3 lv1(2) by (simp add: reallocated_def)
qed

lemma realloc_ok:
  assumes ok: "heap_ok st" and os: "os_ok (ms_page_size st) os" and u: "live st u = Some k" and n: "n \<noteq> 0"
    and re: "vl_realloc os p u n st = (r, st')"
  shows "heap_ok st' \<and> ms_page_size st' = ms_page_size st \<and> (r = NULL \<longrightarrow> live st' = live st \<and> intact st st') \<and> (r \<noteq> NULL \<longrightarrow> reallocated st st' u k r n)"
proof -
  obtain loc where hp: "heap_at st loc" and cnt: "counted st" using ok by (auto simp: heap_ok_def)
  have ini: "ms_initialized st" using hp layoutD(1) by (auto simp: heap_at_def)
  have ud: "u \<in> dom (live st)" using u by auto
  note h = live_header [OF hp ud]
  have req: "oh_requested_size (header_of st u) = k" using h(5) u by simp
  have nn: "u \<noteq> NULL" using extent_inside(2) [OF hp ud] by auto
  show ?thesis
  proof (cases "n \<le> oh_capacity (header_of st u)")
    case True
    define t where "t = (ms_stats st)\<lparr>as_active_bytes := as_active_bytes (ms_stats st) - k + n\<rparr>"
    define st1 where "st1 = st\<lparr>ms_headers := (ms_headers st)(vl_object_header_from_user u := (header_of st u)\<lparr>oh_requested_size := n\<rparr>), ms_stats := t\<rparr>"
    have eq: "(r, st') = (if as_active_bytes (ms_stats st) - k > SIZE_MAX - n then (NULL, st) else (u, st1))"
      using re [unfolded vl_realloc_def Let_def] True nn n h(1,2) ini counted_live(2) [OF cnt u]
      by (auto simp: vl_memory_is_owner_def req st1_def t_def upd_header_def upd_memory_stats_def not_less split: if_splits)
    show ?thesis
    proof (cases "as_active_bytes (ms_stats st) - k > SIZE_MAX - n")
      case True
      then show ?thesis using eq ok by (simp add: intact_def)
    next
      case False
      have n0: "0 < n" using n by (simp add: word_gt_0)
      note rs = resize_ok [OF hp ud n0 True st1_def]
      have "counted st1" by (rule counted_resize [OF cnt u rs(2) _ _ False]) (simp_all add: st1_def t_def)
      moreover have "reallocated st st1 u k u n"
        using rs(2) by (auto simp: reallocated_def same_block_def) (simp_all add: st1_def)
      ultimately show ?thesis using eq False rs(1) nn by (auto simp: heap_ok_def st1_def)
    qed
  next
    case False
    obtain v st1 where m: "vl_malloc os p n st = (v, st1)" by fastforce
    have eq: "(r, st') = (if v = NULL then (NULL, st1)
        else (v, vl_free os p u (st1\<lparr>ms_mem := copy_bytes v u (if k < n then k else n) (ms_mem st1)\<rparr>)))"
      using re [unfolded vl_realloc_def Let_def req] False nn n h(1,2) ini m by (auto simp: vl_memory_is_owner_def split: if_splits)
    show ?thesis
    proof (cases "v = NULL")
      case True
      then show ?thesis using eq malloc_ok [OF ok os m] by simp
    next
      case nv: False
      then show ?thesis using eq realloc_moves [OF ok os u n m nv refl] by simp
    qed
  qed
qed

section \<open>Runs\<close>

inductive heap_reach :: "usize \<Rightarrow> vl_memory_state \<Rightarrow> bool" for page where
  reach_init: "\<not> ms_initialized st \<Longrightarrow> maps_ok page (ms_mappings st) \<Longrightarrow> os_ok page os \<Longrightarrow>
     vl_allocator_init os st = (VL_OK, st') \<Longrightarrow> heap_reach page st'"
| reach_malloc: "heap_reach page st \<Longrightarrow> os_ok page os \<Longrightarrow> vl_malloc os p n st = (u, st') \<Longrightarrow> heap_reach page st'"
| reach_calloc: "heap_reach page st \<Longrightarrow> os_ok page os \<Longrightarrow> vl_calloc os p m n st = (u, st') \<Longrightarrow> heap_reach page st'"
| reach_realloc: "heap_reach page st \<Longrightarrow> os_ok page os \<Longrightarrow> u = NULL \<or> live st u \<noteq> None \<Longrightarrow>
     vl_realloc os p u n st = (r, st') \<Longrightarrow> heap_reach page st'"
| reach_free: "heap_reach page st \<Longrightarrow> os_ok page os \<Longrightarrow> u = NULL \<or> live st u \<noteq> None \<Longrightarrow> heap_reach page (vl_free os p u st)"
| reach_write: "heap_reach page st \<Longrightarrow> live st u = Some n \<Longrightarrow> unat a \<in> cells u n \<Longrightarrow>
     heap_reach page (st\<lparr>ms_mem := (ms_mem st)(a := v)\<rparr>)"

lemma allocator_init_ok:
  assumes "\<not> ms_initialized st" "maps_ok page (ms_mappings st)" "os_ok page os" "vl_allocator_init os st = (VL_OK, st')"
  shows "heap_ok st' \<and> ms_page_size st' = page \<and> live st' = Map.empty"
proof -
  have "of_int (os_page_size os) = page" using assms(3) by (simp add: os_ok_def)
  then have st': "st' = (clear_global st)\<lparr>ms_initialized := True, ms_page_size := page\<rparr>"
    using assms(1,4) by (auto simp: vl_allocator_init_def Let_def split: if_splits)
  have cache: "cache_at st' r = vl_cache_zero" for r by (cases r) (simp_all add: st' clear_global_def)
  have sel: "ms_all_spans st' = []" "ms_large_allocations st' = []" "ms_central st' = (\<lambda>_. [])" "ms_initialized st'"
    "ms_page_size st' = page" "ms_mappings st' = ms_mappings st" "ms_stats st' = vl_allocator_stats_zero"
    by (simp_all add: st' clear_global_def)
  have slots: "all_slots st' = {}" by (simp add: all_slots_def sel)
  have "layout st'" using assms(2,3) by (simp add: layout_def sel os_ok_def)
  moreover have "free_lists st' (\<lambda>_. Active) (\<lambda>_. [])"
    unfolding free_lists_def slots sel cache by (auto simp: in_use_def cache vl_cache_zero_def sel split: place.splits)
  moreover have "states st' (\<lambda>_. Active)" by (simp add: states_def slots)
  ultimately have "heap_at st' (\<lambda>_. Active)" by (auto simp: heap_at_def)
  moreover have "live st' = Map.empty" by (simp add: fun_eq_iff live_def live_at_def slots sel)
  moreover from this have "counted st'" by (simp add: counted_def sel vl_allocator_stats_zero_def)
  ultimately show ?thesis using sel(5) by (auto simp: heap_ok_def)
qed

lemma free_null: "vl_free os p NULL st = st"
  by (simp add: vl_free_def)

lemma reach_ok: "heap_reach page st \<Longrightarrow> heap_ok st \<and> ms_page_size st = page"
proof (induction rule: heap_reach.induct)
  case (reach_init st os st')
  then show ?case using allocator_init_ok by blast
next
  case (reach_malloc st os p n u st')
  then show ?case using malloc_ok by metis
next
  case (reach_calloc st os p m n u st')
  then show ?case using calloc_ok by metis
next
  case (reach_realloc st os u p n r st')
  consider "u = NULL" | "n = 0" "u \<noteq> NULL" | k where "live st u = Some k" "n \<noteq> 0" using reach_realloc.hyps(3) by blast
  then show ?case
  proof cases
    case 1
    then show ?thesis using reach_realloc malloc_ok by (metis vl_realloc_def)
  next
    case 2
    then have "st' = vl_free os p u st" "live st u \<noteq> None" using reach_realloc.hyps by (auto simp: vl_realloc_def)
    then show ?thesis using free_ok reach_realloc.IH by auto
  next
    case 3
    then show ?thesis using realloc_ok reach_realloc by metis
  qed
next
  case (reach_free st os u p)
  then show ?case using free_ok free_null by (cases "u = NULL") auto
next
  case (reach_write st u n a v)
  then obtain loc where hp: "heap_at st loc" by (auto simp: heap_ok_def)
  define m where "m = (ms_mem st)(a := v)"
  have out: "m x = ms_mem st x" if "unat x \<notin> extent st u" for x
    using that cells_extent(1) [OF hp reach_write.hyps(2)] reach_write.hyps(3) by (auto simp: m_def)
  have "u \<in> dom (live st)" using reach_write.hyps(2) by auto
  note w = write_ok [OF hp this out]
  then show ?case unfolding m_def [symmetric] using reach_write.IH by (auto simp: heap_ok_def)
qed

end
