(* ===== verification/Heap_Facts.thy ===== *)
theory Heap_Facts
  imports Heap_Runs
begin

text \<open>
  What the allocator promises its clients, in every state a run can reach, and one promise it does not keep.
  The witnesses run it on a kernel that hands out one mapping per 4 GiB of address space.
\<close>

section \<open>A kernel for the examples\<close>

definition demo_os :: vl_os where
  "demo_os = \<lparr>os_page_size = 4096,
     os_mmap = (\<lambda>ms n. if n \<le> 0x10000000 \<and> length ms < 16
        \<and> list_all (\<lambda>r. unat (fst r) + unat (snd r) \<le> 0x100000000 * Suc (length ms)) ms
        then Some (of_nat (0x100000000 * Suc (length ms))) else None),
     os_munmap = (\<lambda>_ _. True)\<rparr>"

lemma demo_os_ok: "os_ok 4096 demo_os"
proof -
  have "region_ok 4096 (a, n) \<and> (\<forall>r \<in> set ms. cells a n \<inter> region_cells r = {})"
    if a: "os_mmap demo_os ms n = Some a" and n: "n \<noteq> 0" for ms a n
  proof -
    let ?k = "0x100000000 * Suc (length ms)"
    have le: "n \<le> 0x10000000" "length ms < 16" "list_all (\<lambda>r. unat (fst r) + unat (snd r) \<le> ?k) ms" "a = of_nat ?k"
      using a by (auto simp: demo_os_def split: if_splits)
    have ua: "unat a = ?k" using le(2) unfolding le(4) unat_of_nat by simp
    have un: "unat n \<le> 0x10000000" using le(1) by (simp add: usize_le_iff)
    have "a \<noteq> NULL" using ua by (metis mult_eq_0_iff nat.distinct(1) unat_0 zero_neq_numeral)
    moreover have "(4096 :: nat) dvd ?k" by (rule dvd_mult2) simp
    moreover have "unat a + unat n < 2 ^ 64" using ua un le(2) by simp
    ultimately have "region_ok 4096 (a, n)" using n by (simp add: region_ok_def ua)
    moreover have "cells a n \<inter> region_cells r = {}" if "r \<in> set ms" for r
      using le(3) that ua by (fastforce simp: list_all_iff cells_def region_cells_def)
    ultimately show ?thesis by blast
  qed
  moreover have "page_ok 4096" by (simp add: page_ok_def)
  ultimately show ?thesis by (simp add: os_ok_def demo_os_def)
qed

definition demo_memory :: vl_memory_state where
  "demo_memory = \<lparr>ms_initialized = False, ms_page_size = 0, ms_stats = vl_allocator_stats_zero,
     ms_caches = (\<lambda>_ _. vl_cache_zero), ms_remote = (\<lambda>_ _. vl_cache_zero), ms_central = (\<lambda>_. []), ms_all_spans = [],
     ms_large_allocations = [], ms_mem = (\<lambda>_. 0),
     ms_headers = (\<lambda>_. \<lparr>oh_magic = 0, oh_kind = 0, oh_state = 0, oh_requested_size = 0, oh_capacity = 0, oh_owner_p = 0,
       oh_reserved = 0, oh_span = NULL, oh_mapping_base = NULL, oh_mapping_size = 0\<rparr>),
     ms_spans = (\<lambda>_. new_span 4096 0 0 0 0), ms_mappings = []\<rparr>"

definition demo_start :: vl_memory_state where
  "demo_start = snd (vl_allocator_init demo_os demo_memory)"

text \<open>Two blocks of their own mappings, the second by another P.\<close>

definition demo_two :: vl_memory_state where
  "demo_two = snd (vl_malloc demo_os 1 50000 (snd (vl_malloc demo_os 0 40000 demo_start)))"

lemma start_reach: "heap_reach 4096 demo_start"
proof (rule reach_init [of demo_memory 4096 demo_os])
  show "vl_allocator_init demo_os demo_memory = (VL_OK, demo_start)"
    by (simp add: demo_start_def vl_allocator_init_def demo_os_def demo_memory_def Let_def)
qed (simp_all add: demo_memory_def maps_ok_def demo_os_ok)

lemma start_sel: "ms_initialized demo_start" "ms_page_size demo_start = 4096" "ms_mappings demo_start = []" "ms_all_spans demo_start = []"
  "ms_stats demo_start = vl_allocator_stats_zero" "ms_large_allocations demo_start = []" "ms_central demo_start = (\<lambda>_. [])"
  by (simp_all add: demo_start_def vl_allocator_init_def demo_os_def demo_memory_def Let_def clear_global_def)

lemma start_live: "live demo_start = Map.empty"
  by (simp add: fun_eq_iff live_def live_at_def all_slots_def start_sel)

lemma large_index: "vl_size_class_index 40000 = 42" "vl_size_class_index 50000 = 42" "vl_size_class_index 60000 = 42"
  unfolding index_takeWhile vl_size_classes_def by simp_all

lemma area_div: "(44175 :: usize) div 4096 = 10" "(54175 :: usize) div 4096 = 13" "(64175 :: usize) div 4096 = 15"
  "(SIZE_MAX :: usize) div 4096 = 4503599627370495"
  by code_simp+

lemmas large_run = vl_malloc_def vl_malloc_large_def vl_memory_ensure_initialized_def vl_memory_is_owner_def
  vl_stats_can_allocate_def vl_page_heap_acquire_def upd_memory_stats_def upd_header_def vl_large_insert_def
  vl_initialize_header_def count_object_def vl_allocator_stats_zero_def header_size_def VL_SIZE_CLASS_COUNT_def
  vl_object_header_from_user_def vl_object_user_from_header_def

definition demo_one :: vl_memory_state where
  "demo_one = snd (vl_malloc demo_os 0 40000 demo_start)"

lemma one_run: "vl_malloc demo_os 0 40000 demo_start = (0x100000050, demo_one)" "ms_initialized demo_one" "ms_page_size demo_one = 4096"
  "ms_mappings demo_one = [(0x100000000, 40960)]" "as_active_bytes (ms_stats demo_one) = 40000"
  "as_active_objects (ms_stats demo_one) = 1" "as_mapped_bytes (ms_stats demo_one) = 40960"
  "oh_magic (ms_headers demo_one 0x100000000) = VL_OBJECT_MAGIC" "oh_state (ms_headers demo_one 0x100000000) = VL_OBJECT_ALLOCATED"
  "oh_capacity (ms_headers demo_one 0x100000000) = 40000"
proof -
  show "vl_malloc demo_os 0 40000 demo_start = (0x100000050, demo_one)"
    by (simp add: demo_one_def prod_eq_iff) (simp add: large_run start_sel large_index area_div demo_os_def Let_def)
qed (simp_all add: demo_one_def, (simp add: large_run start_sel large_index area_div demo_os_def Let_def)+)

lemma two_run: "vl_malloc demo_os 1 50000 demo_one = (0x200000050, demo_two)"
  by (simp add: demo_two_def demo_one_def [symmetric] prod_eq_iff)
    (simp add: large_run one_run large_index area_div demo_os_def Let_def)

lemma one_reach: "heap_reach 4096 demo_one" "live demo_one = [0x100000050 \<mapsto> 40000]"
proof -
  show "heap_reach 4096 demo_one" by (rule reach_malloc [OF start_reach demo_os_ok one_run(1)])
  show "live demo_one = [0x100000050 \<mapsto> 40000]"
    using malloc_ok [OF conjunct1 [OF reach_ok [OF start_reach]] _ one_run(1)] start_sel(2) demo_os_ok
    by (simp add: start_live at_least_one_def)
qed

lemma two_reach: "heap_reach 4096 demo_two" "live demo_two = [0x100000050 \<mapsto> 40000, 0x200000050 \<mapsto> 50000]"
proof -
  show "heap_reach 4096 demo_two" by (rule reach_malloc [OF one_reach(1) demo_os_ok two_run])
  show "live demo_two = [0x100000050 \<mapsto> 40000, 0x200000050 \<mapsto> 50000]"
    using malloc_ok [OF conjunct1 [OF reach_ok [OF one_reach(1)]] _ two_run] one_run(3) demo_os_ok
    by (simp add: one_reach(2) at_least_one_def)
qed

section \<open>The promises\<close>

text \<open>C3: In every state a run of \<^verbatim>\<open>vl_malloc\<close>, \<^verbatim>\<open>vl_calloc\<close>, \<^verbatim>\<open>vl_realloc\<close>, \<^verbatim>\<open>vl_free\<close> and writes of the
  clients to their own blocks can reach, a block that was handed out and not freed starts on a 16-byte boundary,
  lies with its header inside one mapping, and overlaps no other such block, no header of one and no page that
  describes a span; and the statistics count exactly these blocks and the bytes asked for.\<close>

theorem allocator_blocks_apart:
  assumes reach: "heap_reach page st"
  shows "unat (as_active_objects (vl_allocator_get_stats st)) = card (dom (live st))
    \<and> unat (as_active_bytes (vl_allocator_get_stats st)) = (\<Sum>u \<in> dom (live st). unat (the (live st u)))
    \<and> (\<forall>u n. live st u = Some n \<longrightarrow> 16 dvd unat u \<and> 0 < n \<and> cells u n \<subseteq> extent st u
        \<and> (\<exists>r \<in> set (ms_mappings st). extent st u \<subseteq> region_cells r)
        \<and> (\<forall>b \<in> set (ms_all_spans st). extent st u \<inter> cells b (ms_page_size st) = {})
        \<and> (\<forall>v \<in> dom (live st) - {u}. extent st u \<inter> extent st v = {}))"
proof -
  obtain loc where hp: "heap_at st loc" and cnt: "counted st" using reach_ok [OF reach] by (auto simp: heap_ok_def)
  have ini: "ms_initialized st" using hp layoutD(1) by (auto simp: heap_at_def)
  have "16 dvd unat u \<and> 0 < n \<and> cells u n \<subseteq> extent st u \<and> (\<exists>r \<in> set (ms_mappings st). extent st u \<subseteq> region_cells r)
        \<and> (\<forall>b \<in> set (ms_all_spans st). extent st u \<inter> cells b (ms_page_size st) = {})
        \<and> (\<forall>v \<in> dom (live st) - {u}. extent st u \<inter> extent st v = {})" if u: "live st u = Some n" for u n
  proof -
    have d: "u \<in> dom (live st)" using u by auto
    have "\<forall>v \<in> dom (live st) - {u}. extent st u \<inter> extent st v = {}" using extents_apart [OF hp d] by blast
    then show ?thesis
      using extent_inside [OF hp d] cells_extent(1) [OF hp u] live_header(3,5) [OF hp d] u by (simp add: cells_def)
  qed
  then show ?thesis using cnt ini by (simp add: counted_def vl_allocator_get_stats_def)
qed

theorem allocator_blocks_apart_witness:
  "live demo_two 0x100000050 = Some 40000 \<and> live demo_two 0x200000050 = Some 50000
   \<and> extent demo_two 0x100000050 \<inter> extent demo_two 0x200000050 = {}
   \<and> unat (as_active_objects (vl_allocator_get_stats demo_two)) = card (dom (live demo_two))"
  using allocator_blocks_apart [OF two_reach(1)] by (simp add: two_reach(2))

text \<open>C4: \<^verbatim>\<open>vl_malloc\<close> implements the map from blocks to sizes: it adds one block, that was not there, of the size asked for
  (one byte when asked for none), and leaves the bytes and the header of every other block as they are; or it returns
  \<^verbatim>\<open>NULL\<close> and changes no block at all, which it does only when the counters or the address space cannot hold the request,
  or the kernel does not give the pages for it.\<close>

theorem malloc_refines:
  assumes "heap_reach page st" "os_ok page os" "vl_malloc os p n st = (u, st')"
  shows "if u = NULL then live st' = live st \<and> (\<forall>v \<in> dom (live st). same_block st st' v)
         \<and> (\<not> vl_stats_can_allocate (at_least_one n) st \<or> too_large page (at_least_one n) \<or> refused os st (pages_needed page (at_least_one n)))
       else live st u = None \<and> live st' = (live st)(u \<mapsto> at_least_one n) \<and> (\<forall>v \<in> dom (live st). same_block st st' v)"
proof -
  have "heap_ok st" "os_ok (ms_page_size st) os" "ms_page_size st = page" using assms reach_ok by auto
  note m = malloc_ok [OF this(1,2) assms(3), unfolded this(3)]
  have "dom (live st) \<inter> dom (live st') = dom (live st)" using m by auto
  then show ?thesis using m unfolding intact_blocks by auto
qed

theorem malloc_refines_witness:
  "live demo_two = (live demo_one)(0x200000050 \<mapsto> 50000) \<and> same_block demo_one demo_two 0x100000050"
  using malloc_refines [OF one_reach(1) demo_os_ok two_run] by (simp add: one_reach(2) at_least_one_def)

text \<open>C5: \<^verbatim>\<open>vl_free\<close> of a block takes it out of the map from blocks to sizes and leaves the bytes and the header of every other block
  as they are, whatever the caches, the spans and the kernel do underneath; \<^verbatim>\<open>vl_free(NULL)\<close> and a second \<^verbatim>\<open>vl_free\<close> of
  a block whose header still says that it is free, and is still mapped, change nothing.\<close>

theorem free_refines:
  assumes "heap_reach page st" "live st u = Some n"
  shows "live (vl_free os p u st) = (live st)(u := None)
    \<and> (\<forall>v \<in> dom (live st) - {u}. same_block st (vl_free os p u st) v)
    \<and> vl_free os p NULL st = st
    \<and> (oh_state (header_of (vl_free os p u st) u) = VL_OBJECT_FREE \<longrightarrow> vl_free os q u (vl_free os p u st) = vl_free os p u st)"
proof -
  have f: "intact st (vl_free os p u st)" "live (vl_free os p u st) = (live st)(u := None)"
    using free_ok [OF conjunct1 [OF reach_ok [OF assms(1)]] assms(2), of os p] by auto
  have "same_block st (vl_free os p u st) v" if "v \<in> dom (live st) - {u}" for v
    using f that unfolding intact_blocks by auto
  moreover have "vl_free os q u (vl_free os p u st) = vl_free os p u st" if "oh_state (header_of (vl_free os p u st) u) = VL_OBJECT_FREE"
    using that by (simp add: vl_free_def [of os q] Let_def)
  ultimately show ?thesis using f(2) free_null by blast
qed

theorem free_refines_witness:
  "live (vl_free demo_os 0 0x200000050 demo_two) = [0x100000050 \<mapsto> 40000] \<and> same_block demo_two (vl_free demo_os 0 0x200000050 demo_two) 0x100000050"
  using free_refines [OF two_reach(1), of "0x200000050" 50000 demo_os 0 0] by (auto simp: two_reach(2) fun_eq_iff)

text \<open>C33: \<^verbatim>\<open>vl_realloc\<close> of a block to a new size other than zero gives a block of that size that holds the bytes of the old one, as many as both
  have, at the old address or at one where no block was; or it returns \<^verbatim>\<open>NULL\<close> and the old block and its bytes stay.
  Every other block stays as it is.\<close>

theorem realloc_keeps_contents:
  assumes "heap_reach page st" "os_ok page os" "live st u = Some k" "n \<noteq> 0" "vl_realloc os p u n st = (r, st')"
  shows "if r = NULL then live st' = live st \<and> (\<forall>v \<in> dom (live st). same_block st st' v)
    else live st' = (live st)(u := None, r \<mapsto> n) \<and> (r = u \<or> live st r = None)
     \<and> (\<forall>i < min (unat k) (unat n). ms_mem st' (r + of_nat i) = ms_mem st (u + of_nat i))
     \<and> (\<forall>v \<in> dom (live st) - {u}. same_block st st' v)"
  using realloc_ok [OF conjunct1 [OF reach_ok [OF assms(1)]] _ assms(3-5)] reach_ok [OF assms(1)] assms(2)
  by (auto simp: reallocated_def intact_blocks)

lemma one_realloc: "fst (vl_realloc demo_os 0 0x100000050 60000 demo_one) = 0x200000050"
proof -
  have "fst (vl_malloc demo_os 0 60000 demo_one) = 0x200000050"
    by (simp add: large_run one_run large_index area_div demo_os_def Let_def)
  then show ?thesis
    by (simp add: vl_realloc_def Let_def vl_object_header_from_user_def header_size_def one_run vl_memory_is_owner_def)
      (auto split: prod.split)
qed

theorem realloc_keeps_contents_witness:
  "case vl_realloc demo_os 0 0x100000050 60000 demo_one of (r, st') \<Rightarrow> live st' = [0x200000050 \<mapsto> 60000]
     \<and> ms_mem st' (0x200000050 + 39999) = ms_mem demo_one (0x100000050 + 39999)"
proof -
  obtain st' where st': "vl_realloc demo_os 0 0x100000050 60000 demo_one = (0x200000050, st')" using one_realloc by (metis prod.collapse)
  have "live demo_one 0x100000050 = Some 40000" by (simp add: one_reach(2))
  note re = realloc_keeps_contents [OF one_reach(1) demo_os_ok this _ st']
  have "live st' = [0x200000050 \<mapsto> 60000]" using re by (simp add: one_reach(2) fun_eq_iff)
  moreover have "\<forall>i < 40000. ms_mem st' (0x200000050 + of_nat i) = ms_mem demo_one (0x100000050 + of_nat i)" using re by simp
  from this [rule_format, of 39999] have "ms_mem st' (0x200000050 + 39999) = ms_mem demo_one (0x100000050 + 39999)" by simp
  ultimately show ?thesis unfolding st' by simp
qed

lemma unat_tally:
  assumes "layout st" "b \<in> set (ms_all_spans st)"
  shows "unat (tally (slots st b) loc P) = card {u \<in> slots st b. P (loc u)}"
proof -
  have "card {u \<in> slots st b. P (loc u)} \<le> card (slots st b)" by (rule card_mono) auto
  then have "card {u \<in> slots st b. P (loc u)} < 2 ^ 64"
    using card_slots [OF assms] usize_lt [of "sp_object_count (ms_spans st b)"] by simp
  then show ?thesis by (simp add: tally_def unat_of_nat)
qed

lemma slot_live:
  assumes "heap_at st loc" "b \<in> set (ms_all_spans st)" "u \<in> slots st b"
  shows "u \<in> dom (live st) \<longleftrightarrow> loc u = Active"
proof -
  have lay: "layout st" and u: "u \<in> all_slots st" using assms by (auto simp: heap_at_def all_slots_def)
  have "u \<notin> vl_object_user_from_header ` set (ms_large_allocations st)"
    using small_not_large [OF lay u] by auto
  then show ?thesis using u by (simp add: live_dom [OF assms(1)] active_def)
qed

text \<open>C34: The counters of every span agree with its objects: as many objects as there are slots in its mapping, each either
  handed out or free, each free one either in the span's own list or in a cache; the span's list links, through the
  objects' own bytes, as many of its objects as its counter says; and as many objects are handed out as blocks live in it.\<close>

theorem span_accounting:
  assumes "heap_reach page st" "b \<in> set (ms_all_spans st)"
  shows "unat (sp_object_count (ms_spans st b)) = unat (sp_active_count (ms_spans st b)) + unat (sp_free_count (ms_spans st b))
    \<and> unat (sp_free_count (ms_spans st b)) = unat (sp_central_free_count (ms_spans st b)) + unat (sp_cached_count (ms_spans st b))
    \<and> unat (sp_active_count (ms_spans st b)) = card (slots st b \<inter> dom (live st))
    \<and> (\<exists>us. linked (ms_mem st) (sp_central_free (ms_spans st b)) us \<and> distinct us \<and> set us \<subseteq> slots st b - dom (live st)
         \<and> length us = unat (sp_central_free_count (ms_spans st b)))"
proof -
  obtain loc F where hp: "heap_at st loc" and F: "free_lists st loc F" and lay: "layout st"
    using reach_ok [OF assms(1)] by (auto simp: heap_ok_def heap_at_def)
  note b = assms(2) and fl = free_listsD [OF F]
  let ?at = "\<lambda>P. {u \<in> slots st b. P (loc u)}"
  have split: "card (?at P) = card (?at Q) + card (?at R)"
    if "\<And>u. u \<in> slots st b \<Longrightarrow> P (loc u) \<longleftrightarrow> Q (loc u) \<or> R (loc u)" "\<And>u. u \<in> slots st b \<Longrightarrow> \<not> (Q (loc u) \<and> R (loc u))" for P Q R
    using that by (subst card_Un_disjoint [symmetric]) (auto intro!: arg_cong [where f = card])
  have ok: "loc u = Active \<or> loc u = Central b \<or> is_cached (loc u)" if "u \<in> slots st b" for u
    using fl(4) [OF b that] by (auto simp: place_ok_def is_cached_def split: place.splits)
  have set: "set (F (Central b)) = ?at (\<lambda>pl. pl = Central b)"
  proof -
    have "u \<in> slots st b" if "u \<in> all_slots st" "loc u = Central b" for u
      using that fl(4) [of _ u] by (fastforce simp: all_slots_def place_ok_def)
    then show ?thesis using fl(3) [of "Central b"] b by (auto simp: all_slots_def)
  qed
  have 1: "card (slots st b) = card (?at (\<lambda>pl. pl = Active)) + card (?at (\<lambda>pl. pl \<noteq> Active))"
    using split [of "\<lambda>_. True" "\<lambda>pl. pl = Active" "\<lambda>pl. pl \<noteq> Active"] by simp
  have 2: "card (?at (\<lambda>pl. pl \<noteq> Active)) = card (?at (\<lambda>pl. pl = Central b)) + card (?at is_cached)"
    using ok by (intro split) (auto simp: is_cached_def)
  have 3: "?at (\<lambda>pl. pl = Active) = slots st b \<inter> dom (live st)" using slot_live [OF hp b] by auto
  have link: "linked (ms_mem st) (sp_central_free (ms_spans st b)) (F (Central b))"
    using fl(1) [of "Central b"] b by (simp add: in_use_def)
  have dist: "distinct (F (Central b))" using fl(2) by simp
  have sub: "set (F (Central b)) \<subseteq> slots st b - dom (live st)"
  proof
    fix u assume "u \<in> set (F (Central b))"
    then have "u \<in> slots st b" "loc u = Central b" by (simp_all add: set)
    then show "u \<in> slots st b - dom (live st)" using slot_live [OF hp b, of u] by simp
  qed
  have len: "length (F (Central b)) = card (?at (\<lambda>pl. pl = Central b))"
    using distinct_card [OF dist] by (simp add: set)
  show ?thesis
    unfolding fl(6-9) [OF b] unat_tally [OF lay b] card_slots [OF lay b, symmetric] 3 [symmetric]
    using 1 2 link dist sub len by (intro conjI exI [of _ "F (Central b)"]) simp_all
qed

text \<open>A span in use: the first small block.\<close>

lemma refill_spans: "ms_all_spans (snd (refill_from_span k b q c st)) = ms_all_spans st"
proof (induction k arbitrary: st)
  case (Suc k)
  have "ms_all_spans (link_head (Local q c) u (snd (vl_span_take_central b st))) = ms_all_spans st" for u
    by (simp add: link_head_def vl_span_take_central_def upd_span_def Let_def)
  then show ?case using Suc.IH by (simp add: case_prod_unfold)
qed simp

definition demo_small :: vl_memory_state where
  "demo_small = snd (vl_malloc demo_os 0 30000 demo_start)"

lemma small_class: "vl_size_class_index 30000 = 41" "span_pages_for 4096 41 = 17"
proof -
  show "vl_size_class_index 30000 = 41" unfolding index_takeWhile vl_size_classes_def by simp
  show "span_pages_for 4096 41 = 17" by code_simp
qed

lemma small_acquire: "fst (vl_page_heap_acquire demo_os 18 demo_start) \<noteq> NULL"
  by (simp add: vl_page_heap_acquire_def start_sel area_div demo_os_def Let_def vl_allocator_stats_zero_def)

lemma start_caches: "ms_caches demo_start = (\<lambda>_ _. vl_cache_zero)" "ms_remote demo_start = (\<lambda>_ _. vl_cache_zero)"
  by (simp_all add: demo_start_def vl_allocator_init_def demo_os_def demo_memory_def Let_def clear_global_def)

lemma small_spans: "\<exists>b. ms_all_spans demo_small = [b]"
proof -
  obtain loc where hp: "heap_at demo_start loc" using reach_ok [OF start_reach] by (auto simp: heap_ok_def)
  obtain status out st where cr: "vl_span_create demo_os 0 41 (Some NULL) demo_start = (status, out, st)" by (cases rule: prod_cases3)
  have os: "os_ok (ms_page_size demo_start) demo_os" using demo_os_ok by (simp add: start_sel)
  obtain b n where "status = VL_OK" "out = Some b" "span_added demo_start st b n"
    using create_added [OF hp os _ cr] small_acquire by (auto simp: start_sel small_class VL_SIZE_CLASS_COUNT_def)
  then have cr: "vl_span_create demo_os 0 41 (Some NULL) demo_start = (VL_OK, Some b, st)" "ms_all_spans st = [b]"
    using cr by (simp_all add: span_added_def start_sel)
  have rem: "refill_from_remote VL_CACHE_REFILL 0 41 demo_start = (32, demo_start)"
    by (simp add: VL_CACHE_REFILL_def eval_nat_numeral start_caches vl_cache_zero_def)
  have "ms_all_spans (snd (vl_refill_cache demo_os 0 41 demo_start)) = [b]"
    using refill_spans [of 32 b 0 41 st] cr rem
    by (simp add: vl_refill_cache_def vl_memory_current_p_def VL_MEMORY_MAX_P_def vl_find_refill_span_def start_sel
        upd_memory_stats_def Let_def case_prod_unfold)
  then have "ms_all_spans (snd (vl_cache_pop demo_os 0 41 demo_start)) = [b]"
    by (simp add: vl_cache_pop_def vl_memory_current_p_def VL_MEMORY_MAX_P_def start_caches vl_cache_zero_def
        unlink_head_def upd_span_def Let_def case_prod_unfold)
  then have "ms_all_spans demo_small = [b]"
    by (simp add: demo_small_def vl_malloc_def initialized_ensure start_sel vl_stats_can_allocate_def vl_allocator_stats_zero_def
        small_class VL_SIZE_CLASS_COUNT_def vl_memory_current_p_def VL_MEMORY_MAX_P_def start_caches vl_cache_zero_def
        count_object_def upd_memory_stats_def vl_initialize_header_def upd_header_def Let_def case_prod_unfold)
  then show ?thesis by blast
qed

theorem span_accounting_witness:
  "\<exists>b. ms_all_spans demo_small = [b]
     \<and> unat (sp_object_count (ms_spans demo_small b)) = unat (sp_active_count (ms_spans demo_small b)) + unat (sp_free_count (ms_spans demo_small b))
     \<and> unat (sp_active_count (ms_spans demo_small b)) = card (slots demo_small b \<inter> dom (live demo_small))"
proof -
  obtain b where b: "ms_all_spans demo_small = [b]" using small_spans by blast
  have "heap_reach 4096 demo_small" unfolding demo_small_def by (rule reach_malloc [OF start_reach demo_os_ok prod.collapse [symmetric]])
  then show ?thesis using span_accounting [of 4096 demo_small b] b by auto
qed

section \<open>An allocation that fails with a free object at hand\<close>


lemma refill_remote_one:
  assumes "vc_head (cache_at st (Remote q c)) = u" "u \<noteq> NULL" "load_ptr u (ms_mem st) = NULL" "vc_head (cache_at st (Local q c)) = NULL"
  obtains st' where "refill_from_remote VL_CACHE_REFILL q c st = (31, st')" "vc_head (cache_at st' (Local q c)) = u"
    "ms_stats st' = ms_stats st" "ms_initialized st' = ms_initialized st" "ms_page_size st' = ms_page_size st"
    "ms_mappings st' = ms_mappings st"
proof -
  obtain v st1 where un: "unlink_head (Remote q c) st = (v, st1)" by fastforce
  have v: "v = u" and st1: "st1 = set_cache (Remote q c) \<lparr>vc_head = NULL, vc_count = vc_count (cache_at st (Remote q c)) - 1\<rparr> st"
    using un assms(1,3) by (auto simp: unlink_head_def Let_def)
  let ?st = "link_head (Local q c) u st1"
  have "refill_from_remote (Suc 31) q c st = refill_from_remote 31 q c ?st"
    unfolding refill_from_remote.simps un using v assms(1,2) by simp
  also have "\<dots> = refill_from_remote (Suc 30) q c ?st" by simp
  also have "\<dots> = (31, ?st)" unfolding refill_from_remote.simps by (simp add: st1 link_head_def)
  finally have "refill_from_remote VL_CACHE_REFILL q c st = (31, ?st)" by (simp add: VL_CACHE_REFILL_def)
  then show ?thesis by (rule that) (simp_all add: st1 link_head_def)
qed

text \<open>C35: \<^verbatim>\<open>vl_refill_cache\<close> reports that memory is exhausted as soon as the kernel gives no new span, even when it has just
  moved an object from the remote list into the cache: \<^verbatim>\<open>vl_malloc\<close> then returns \<^verbatim>\<open>NULL\<close> although the object fits the
  request, and the very next call, with the kernel still refusing, returns that object.\<close>

theorem malloc_fails_with_free_object:
  assumes "ms_initialized st" "os_ok (ms_page_size st) os" "maps_ok (ms_page_size st) (ms_mappings st)" "vl_stats_can_allocate (at_least_one n) st"
    "vl_size_class_index (at_least_one n) = c" "c < VL_SIZE_CLASS_COUNT" "vl_memory_current_p p = q"
    "vc_head (ms_caches st q c) = NULL" "vc_head (ms_remote st q c) = u" "u \<noteq> NULL" "load_ptr u (ms_mem st) = NULL"
    "vl_find_refill_span c st = NULL" "refused os st (pages_needed (ms_page_size st) (at_least_one n))"
  shows "fst (vl_malloc os p n st) = NULL \<and> fst (vl_malloc os p n (snd (vl_malloc os p n st))) = u"
proof -
  note ini = assms(1) and os = assms(2) and maps = assms(3) and room = assms(4) and cls = assms(5,6) and q = assms(7)
    and head = assms(8-11) and none = assms(12) and ref = assms(13)
  define t where "t = upd_memory_stats (\<lambda>s. s\<lparr>as_cache_hits := as_cache_hits s + 1\<rparr>) st"
  have t: "ms_caches t = ms_caches st" "ms_remote t = ms_remote st" "ms_mem t = ms_mem st" "vl_find_refill_span c t = NULL"
    "ms_initialized t" "ms_page_size t = ms_page_size st" "ms_mappings t = ms_mappings st"
    "as_mapped_bytes (ms_stats t) = as_mapped_bytes (ms_stats st)"
    "as_active_bytes (ms_stats t) = as_active_bytes (ms_stats st)" "as_active_objects (ms_stats t) = as_active_objects (ms_stats st)"
    using ini none by (simp_all add: t_def upd_memory_stats_def vl_find_refill_span_def)
  obtain st' where re: "refill_from_remote VL_CACHE_REFILL q c t = (31, st')" "vc_head (cache_at st' (Local q c)) = u"
    and sel: "ms_stats st' = ms_stats t" "ms_initialized st'" "ms_page_size st' = ms_page_size st" "ms_mappings st' = ms_mappings st"
    by (rule refill_remote_one [of t q c u]) (use head t in auto)
  obtain a k st1 where acq: "vl_page_heap_acquire os (span_pages_for (ms_page_size st') c + 1) st' = (a, k, st1)" by (cases rule: prod_cases3)
  have "refused os st' (span_pages_for (ms_page_size st') c + 1) = refused os st (span_pages_for (ms_page_size st) c + 1)"
    using sel t(8) ini by (simp add: refused_def vl_page_heap_acquire_def Let_def split: option.split)
  then have a: "a = NULL" using ref cls acq by (simp add: refused_def pages_needed_def)
  then have "st1 = st'" using acquire_ok(1) [OF _ _ acq] os maps sel by simp
  then have "vl_span_create os p c (Some NULL) st' = (VL_ERROR_OUT_OF_MEMORY, Some NULL, st')"
    using create_unfold [OF _ cls(2) refl acq] os a by (simp add: os_ok_def sel)
  then have "vl_refill_cache os p c t = (VL_ERROR_OUT_OF_MEMORY, st')"
    by (simp add: vl_refill_cache_def t(4) q re(1))
  then have pop: "vl_cache_pop os p c t = (NULL, st')" using head(1) by (simp add: vl_cache_pop_def Let_def t(1) q)
  have 1: "vl_malloc os p n st = (NULL, st')"
    unfolding vl_malloc_def Let_def at_least_one_def [symmetric] initialized_ensure [OF ini]
    using room cls q head(2,3) pop by (simp add: t_def)
  have fits: "vl_stats_can_allocate (at_least_one n) st'" using room sel(1) t(9,10) by (simp add: vl_stats_can_allocate_def)
  have "fst (vl_malloc os p n st') = u"
    unfolding vl_malloc_def Let_def at_least_one_def [symmetric] initialized_ensure [OF sel(2)]
    using fits re(2) cls q head(3)
    by (simp add: vl_cache_pop_def unlink_head_def upd_memory_stats_def Let_def)
  then show ?thesis using 1 by simp
qed

theorem malloc_fails_with_free_object_witness:
  "let os = demo_os\<lparr>os_mmap := \<lambda>_ _. None\<rparr>; st = demo_start\<lparr>ms_remote := \<lambda>_ _. \<lparr>vc_head = 0x100001050, vc_count = 1\<rparr>\<rparr>
   in fst (vl_malloc os 0 30000 st) = NULL \<and> fst (vl_malloc os 0 30000 (snd (vl_malloc os 0 30000 st))) = 0x100001050"
proof -
  let ?os = "demo_os\<lparr>os_mmap := \<lambda>_ _. None\<rparr>"
  let ?st = "demo_start\<lparr>ms_remote := \<lambda>_ _. \<lparr>vc_head = 0x100001050, vc_count = 1\<rparr>\<rparr>"
  have "ms_mem demo_start = (\<lambda>_. 0)" by (simp add: demo_start_def vl_allocator_init_def demo_os_def demo_memory_def Let_def clear_global_def)
  then have "load_ptr 0x100001050 (ms_mem ?st) = NULL" by (simp add: load_ptr_def upt_rec)
  moreover have "os_ok (ms_page_size ?st) ?os" using demo_os_ok by (simp add: os_ok_def start_sel)
  moreover have "refused ?os ?st k" for k by (simp add: refused_def vl_page_heap_acquire_def Let_def)
  moreover have "vl_stats_can_allocate 30000 ?st" by (simp add: vl_stats_can_allocate_def start_sel vl_allocator_stats_zero_def)
  ultimately have "fst (vl_malloc ?os 0 30000 ?st) = NULL \<and> fst (vl_malloc ?os 0 30000 (snd (vl_malloc ?os 0 30000 ?st))) = 0x100001050"
    using small_class(1)
    by (intro malloc_fails_with_free_object [where c = 41 and q = 0])
      (simp_all add: start_sel maps_ok_def at_least_one_def VL_SIZE_CLASS_COUNT_def vl_memory_current_p_def VL_MEMORY_MAX_P_def
        start_caches vl_cache_zero_def vl_find_refill_span_def)
  then show ?thesis by (simp only: Let_def)
qed

end
