(* ===== verification/Arena.thy ===== *)
theory Arena
  imports Heap_Facts
begin

text \<open>
  \<^verbatim>\<open>src/memory/arena.c\<close>: regions that only grow, block by block, and are given back all at once.  The list of blocks is a
  HOL list, with each block's record beside its address; \<^verbatim>\<open>calloc\<close> of the implementation is an argument.
\<close>

section \<open>Definitions\<close>

definition VL_ARENA_DEFAULT_BLOCK_SIZE :: usize where
  "VL_ARENA_DEFAULT_BLOCK_SIZE = 64 * 1024"

record vl_arena_block =
  ab_base :: addr
  ab_mapping_size :: usize
  ab_capacity :: usize
  ab_used :: usize

record vl_arena_impl =
  ar_block_size :: usize
  ar_blocks :: "vl_arena_block list"

record vl_arena =
  arena_impl :: "vl_arena_impl option"

definition vl_arena_block_data :: "vl_memory_state \<Rightarrow> vl_arena_block \<Rightarrow> addr" where
  "vl_arena_block_data st block = ab_base block + ms_page_size st"

definition vl_arena_new_block ::
  "vl_os \<Rightarrow> vl_arena_impl \<Rightarrow> usize \<Rightarrow> vl_memory_state \<Rightarrow> vl_arena_block option \<times> vl_arena_impl \<times> vl_memory_state" where
  "vl_arena_new_block os impl minimum_capacity st =
     (let capacity = (if ar_block_size impl > minimum_capacity then ar_block_size impl else minimum_capacity) in
      if capacity > SIZE_MAX - (ms_page_size st - 1) then (None, impl, st)
      else
        let object_pages = (capacity + ms_page_size st - 1) div ms_page_size st in
        if object_pages = 0 \<or> object_pages = SIZE_MAX then (None, impl, st)
        else
          (case vl_page_heap_acquire os (object_pages + 1) st of
             (block, mapping_size, st1) \<Rightarrow>
               if block = NULL then (None, impl, st1)
               else
                 let b = \<lparr>ab_base = block, ab_mapping_size = mapping_size,
                           ab_capacity = mapping_size - ms_page_size st1, ab_used = 0\<rparr>
                 in (Some b, impl\<lparr>ar_blocks := b # ar_blocks impl\<rparr>, st1)))"

definition vl_arena_release_head_block ::
  "vl_os \<Rightarrow> vl_arena_impl \<Rightarrow> vl_arena_block \<Rightarrow> vl_memory_state \<Rightarrow> vl_arena_impl \<times> vl_memory_state" where
  "vl_arena_release_head_block os impl block st =
     ((case ar_blocks impl of
         [] \<Rightarrow> impl
       | b # bs \<Rightarrow> if ab_base b = ab_base block then impl\<lparr>ar_blocks := bs\<rparr> else impl),
      vl_page_heap_release os (ab_base block) (ab_mapping_size block) st)"

definition vl_arena_init ::
  "bool \<Rightarrow> vl_os \<Rightarrow> vl_arena option \<Rightarrow> usize \<Rightarrow> vl_memory_state \<Rightarrow> vl_status \<times> vl_arena option \<times> vl_memory_state" where
  "vl_arena_init calloc_ok os arena block_size st =
     (case arena of
        None \<Rightarrow> (VL_ERROR_INVALID_ARGUMENT, arena, st)
      | Some a \<Rightarrow>
          if arena_impl a \<noteq> None then (VL_ERROR_INVALID_ARGUMENT, arena, st)
          else
            (case vl_memory_ensure_initialized os st of
               (status, st1) \<Rightarrow>
                 if status \<noteq> VL_OK then (VL_ERROR_INVALID_STATE, arena, st1)
                 else
                   let block_size1 = (if block_size = 0 then VL_ARENA_DEFAULT_BLOCK_SIZE else block_size) in
                   if block_size1 > SIZE_MAX - ms_page_size st1 then (VL_ERROR_INVALID_ARGUMENT, arena, st1)
                   else if \<not> calloc_ok then (VL_ERROR_OUT_OF_MEMORY, arena, st1)
                   else (VL_OK, Some (a\<lparr>arena_impl := Some \<lparr>ar_block_size = block_size1, ar_blocks = []\<rparr>\<rparr>), st1)))"

definition arena_align :: "addr \<Rightarrow> usize \<Rightarrow> addr" where
  "arena_align current alignment = (current + alignment - 1) AND NOT (alignment - 1)"

text \<open>The last two lines of \<^verbatim>\<open>vl_arena_alloc\<close>; \<open>block\<close> is the head of the list.\<close>

definition arena_take ::
  "vl_arena_impl \<Rightarrow> vl_arena_block \<Rightarrow> usize \<Rightarrow> usize \<Rightarrow> vl_memory_state \<Rightarrow> addr \<times> vl_arena_impl \<times> vl_memory_state" where
  "arena_take impl block offset sz st =
     (vl_arena_block_data st block + offset,
      impl\<lparr>ar_blocks := block\<lparr>ab_used := offset + sz\<rparr> # tl (ar_blocks impl)\<rparr>, st)"

text \<open>What \<^verbatim>\<open>vl_arena_alloc\<close> does when the first block is full.\<close>

definition arena_grow ::
  "vl_os \<Rightarrow> vl_arena_impl \<Rightarrow> usize \<Rightarrow> usize \<Rightarrow> vl_memory_state \<Rightarrow> addr \<times> vl_arena_impl \<times> vl_memory_state" where
  "arena_grow os impl sz alignment st =
     (if sz > SIZE_MAX - alignment then (NULL, impl, st)
      else
        (case vl_arena_new_block os impl (sz + alignment) st of
           (None, impl1, st1) \<Rightarrow> (NULL, impl1, st1)
         | (Some block, impl1, st1) \<Rightarrow>
             let base = vl_arena_block_data st1 block in
             if base > SIZE_MAX - (alignment - 1) then (NULL, vl_arena_release_head_block os impl1 block st1)
             else
               let offset = arena_align base alignment - base in
               if offset > ab_capacity block \<or> sz > ab_capacity block - offset
               then (NULL, vl_arena_release_head_block os impl1 block st1)
               else arena_take impl1 block offset sz st1))"

text \<open>\<^verbatim>\<open>vl_arena_alloc\<close> from the point where it has a block.\<close>

definition arena_place ::
  "vl_os \<Rightarrow> vl_arena_impl \<Rightarrow> vl_arena_block \<Rightarrow> bool \<Rightarrow> usize \<Rightarrow> usize \<Rightarrow> vl_memory_state \<Rightarrow> addr \<times> vl_arena_impl \<times> vl_memory_state" where
  "arena_place os impl block new_block sz alignment st =
     (let base = vl_arena_block_data st block;
          fail = (NULL, if new_block then vl_arena_release_head_block os impl block st else (impl, st))
      in if ab_used block > SIZE_MAX - base then fail
         else
           let current = base + ab_used block in
           if current > SIZE_MAX - (alignment - 1) then fail
           else
             let offset = arena_align current alignment - base in
             if offset > ab_capacity block \<or> sz > ab_capacity block - offset
             then arena_grow os impl sz alignment st
             else arena_take impl block offset sz st)"

definition vl_arena_alloc ::
  "vl_os \<Rightarrow> vl_arena option \<Rightarrow> usize \<Rightarrow> usize \<Rightarrow> vl_memory_state \<Rightarrow> addr \<times> vl_arena option \<times> vl_memory_state" where
  "vl_arena_alloc os arena sz alignment st =
     (case arena of
        None \<Rightarrow> (NULL, arena, st)
      | Some a \<Rightarrow>
          if sz = 0 \<or> alignment = 0 \<or> alignment AND (alignment - 1) \<noteq> 0 then (NULL, arena, st)
          else
            (case arena_impl a of
               None \<Rightarrow> (NULL, arena, st)
             | Some impl \<Rightarrow>
                 (case vl_memory_ensure_initialized os st of
                    (status, st1) \<Rightarrow>
                      if status \<noteq> VL_OK then (NULL, arena, st1)
                      else
                        (case (case ar_blocks impl of
                                 block # _ \<Rightarrow> arena_place os impl block False sz alignment st1
                               | [] \<Rightarrow>
                                   if sz > SIZE_MAX - alignment then (NULL, impl, st1)
                                   else (case vl_arena_new_block os impl (sz + alignment) st1 of
                                           (None, impl1, st2) \<Rightarrow> (NULL, impl1, st2)
                                         | (Some block, impl1, st2) \<Rightarrow> arena_place os impl1 block True sz alignment st2)) of
                           (ptr, impl1, st2) \<Rightarrow> (ptr, Some (a\<lparr>arena_impl := Some impl1\<rparr>), st2)))))"

definition vl_arena_reset :: "vl_os \<Rightarrow> vl_arena option \<Rightarrow> vl_memory_state \<Rightarrow> vl_arena option \<times> vl_memory_state" where
  "vl_arena_reset os arena st =
     (case arena of
        None \<Rightarrow> (arena, st)
      | Some a \<Rightarrow>
          if \<not> vl_memory_is_owner st then (arena, st)
          else
            (case arena_impl a of
               None \<Rightarrow> (arena, st)
             | Some impl \<Rightarrow>
                 (Some (a\<lparr>arena_impl := Some (impl\<lparr>ar_blocks := []\<rparr>)\<rparr>),
                  fold (\<lambda>block s. vl_page_heap_release os (ab_base block) (ab_mapping_size block) s) (ar_blocks impl) st)))"

definition vl_arena_destroy :: "vl_os \<Rightarrow> vl_arena option \<Rightarrow> vl_memory_state \<Rightarrow> vl_arena option \<times> vl_memory_state" where
  "vl_arena_destroy os arena st =
     (case arena of
        None \<Rightarrow> (arena, st)
      | Some a \<Rightarrow>
          if \<not> vl_memory_is_owner st then (arena, st)
          else if arena_impl a = None then (arena, st)
          else (case vl_arena_reset os arena st of
                  (arena1, st1) \<Rightarrow> (map_option (\<lambda>a. a\<lparr>arena_impl := None\<rparr>) arena1, st1)))"

section \<open>Alignment\<close>

lemma and_not_minus: "(w :: usize) AND NOT m = w - (w AND m)"
proof -
  have "w - (w AND m) = w AND NOT (w AND m)" by (rule disjunctive_diff) (simp add: bit_and_iff)
  also have "\<dots> = w AND NOT m" by (rule bit_word_eqI) (auto simp: bit_and_iff bit_or_iff bit_not_iff)
  finally show ?thesis by simp
qed

lemma arena_align_bounds:
  fixes x al :: usize
  assumes "al \<noteq> 0" "al AND (al - 1) = 0" "unat x + unat al \<le> 2 ^ 64"
  shows "unat al dvd unat (arena_align x al)" "unat x \<le> unat (arena_align x al)" "unat (arena_align x al) < unat x + unat al"
proof -
  obtain k where k: "k < 64" "al = 2 ^ k" using usize_and_pred_zero [OF assms(1,2)] by blast
  have al: "unat al = 2 ^ k" using k by (simp add: usize_pow2_unat)
  let ?w = "x + al - 1"
  have w: "unat ?w = unat x + unat al - 1"
  proof -
    have eq: "x + al - 1 = x + (al - 1)" by simp
    show ?thesis unfolding eq using assms usize_unat_add [of x "al - 1"] usize_unat_pred [OF assms(1)] usize_unat_pos [of al] by simp
  qed
  have m: "unat (?w AND (al - 1)) = unat ?w mod 2 ^ k" unfolding k(2) by (rule usize_and_mask [OF k(1)])
  have u: "unat (arena_align x al) = unat ?w - unat ?w mod 2 ^ k"
    unfolding arena_align_def and_not_minus by (subst usize_unat_sub) (simp_all add: usize_le_iff m)
  show "unat al dvd unat (arena_align x al)" unfolding u al by (simp add: minus_mod_eq_mult_div)
  have "unat ?w mod 2 ^ k < 2 ^ k" "unat ?w + 1 = unat x + 2 ^ k" using w al by simp_all
  then show "unat x \<le> unat (arena_align x al)" "unat (arena_align x al) < unat x + unat al" unfolding u al by linarith+
qed

lemma request_fits:
  fixes sz al :: usize
  assumes "\<not> sz > SIZE_MAX - al"
  shows "unat (sz + al) = unat sz + unat al"
proof -
  have "unat (SIZE_MAX - al) = 2 ^ 64 - 1 - unat al" by (subst usize_unat_sub) (use usize_lt [of al] in \<open>simp_all add: usize_le_iff\<close>)
  then show ?thesis using assms usize_lt [of al] by (intro usize_unat_add) (simp add: usize_less_iff not_less)
qed

lemma alignment_max:
  fixes al :: usize
  assumes "al \<noteq> 0"
  shows "x > SIZE_MAX - (al - 1) \<longleftrightarrow> unat x + unat al > 2 ^ 64"
proof -
  have "unat (SIZE_MAX - (al - 1)) = 2 ^ 64 - 1 - (unat al - 1)"
    using usize_lt [of al] assms by (subst usize_unat_sub) (simp_all add: usize_le_iff usize_unat_pred)
  moreover have "0 < unat al" using assms by (simp add: unat_gt_0)
  ultimately show ?thesis unfolding usize_less_iff using usize_lt [of al] by linarith
qed

section \<open>Mappings beside the heap\<close>

text \<open>A mapping that belongs to neither a span nor a large block can come and go.\<close>

lemma mapping_changed:
  assumes hp: "heap_at st loc" and maps: "maps_ok (ms_page_size st) ms"
    and sp: "\<And>b. b \<in> set (ms_all_spans st) \<Longrightarrow> (b, sp_mapping_size (ms_spans st b)) \<in> set ms"
    and la: "\<And>l. l \<in> set (ms_large_allocations st) \<Longrightarrow> (l, oh_mapping_size (ms_headers st l)) \<in> set ms"
    and st': "st' = st\<lparr>ms_mappings := ms, ms_stats := t\<rparr>"
  shows "heap_at st' loc" "live st' = live st" "intact st st'"
proof -
  have lay: "layout st" and sts: "states st loc" using hp by (auto simp: heap_at_def)
  obtain F where F: "free_lists st loc F" using hp by (auto simp: heap_at_def)
  have slot: "slot st' = slot st" "slots st' = slots st" by (simp_all add: fun_eq_iff slots_def slot_def st')
  have sel: "ms_all_spans st' = ms_all_spans st" "ms_spans st' = ms_spans st" "ms_mem st' = ms_mem st" "ms_central st' = ms_central st"
    "ms_page_size st' = ms_page_size st" "ms_initialized st' = ms_initialized st" "cache_at st' r = cache_at st r"
    "ms_mappings st' = ms" "ms_large_allocations st' = ms_large_allocations st" "ms_headers st' = ms_headers st" for r
    by (simp_all add: st')
  have all: "all_slots st' = all_slots st" unfolding all_slots_def slot sel ..
  have "span_ok st' c" if "c \<in> set (ms_all_spans st)" for c
    using layoutD(6) [OF lay that] sp [OF that] unfolding span_ok_def Let_def sel by blast
  moreover have "header_ok st' c u" if "c \<in> set (ms_all_spans st)" "u \<in> slots st c" for c u
    using layoutD(7) [OF lay that] unfolding header_ok_def Let_def sel by simp
  moreover have "large_ok st' l" if "l \<in> set (ms_large_allocations st)" for l
    using layoutD(8) [OF lay that] la [OF that] unfolding large_ok_def Let_def sel by blast
  ultimately have lay': "layout st'" using layoutD(1,2,4,5) [OF lay] maps unfolding layout_def slot sel by simp
  have hd: "head_at st' pl = head_at st pl" for pl by (cases pl) (simp_all add: st')
  have "in_use st' pl = in_use st pl" "place_ok st' c pl = place_ok st c pl" for c pl unfolding in_use_def place_ok_def sel by simp_all
  then have "free_lists st' loc F" using F unfolding free_lists_def slot all hd sel by simp
  moreover have "states st' loc" using sts unfolding states_def all sel by simp
  ultimately show "heap_at st' loc" using lay' by (auto simp: heap_at_def)
  show "live st' = live st" by (simp add: fun_eq_iff live_def live_at_def all sel)
  show "intact st st'" by (simp add: intact_def sel)
qed

section \<open>The invariant\<close>

definition block_ok :: "vl_memory_state \<Rightarrow> vl_arena_block \<Rightarrow> bool" where
  "block_ok st b \<longleftrightarrow> (ab_base b, ab_mapping_size b) \<in> set (ms_mappings st) \<and> ms_page_size st \<le> ab_mapping_size b
     \<and> ab_capacity b = ab_mapping_size b - ms_page_size st \<and> ab_used b \<le> ab_capacity b
     \<and> ab_base b \<notin> set (ms_all_spans st) \<and> ab_base b \<notin> set (ms_large_allocations st)"

definition arena_ok :: "vl_memory_state \<Rightarrow> vl_arena_impl \<Rightarrow> bool" where
  "arena_ok st impl \<longleftrightarrow> (\<forall>b \<in> set (ar_blocks impl). block_ok st b) \<and> distinct (map ab_base (ar_blocks impl))"

text \<open>The bytes the arena has handed out, with the padding between them.\<close>

definition block_cells :: "usize \<Rightarrow> vl_arena_block \<Rightarrow> nat set" where
  "block_cells page b = {unat (ab_base b) + unat page..<unat (ab_base b) + unat page + unat (ab_used b)}"

definition handed_out :: "usize \<Rightarrow> vl_arena_impl \<Rightarrow> nat set" where
  "handed_out page impl = (\<Union>b \<in> set (ar_blocks impl). block_cells page b)"

lemma block_bounds:
  assumes "layout st" "block_ok st b"
  shows "unat (ab_base b) + unat (ms_page_size st) + unat (ab_capacity b) < 2 ^ 64"
    "unat (vl_arena_block_data st b) = unat (ab_base b) + unat (ms_page_size st)"
    "unat (ab_base b) + unat (ms_page_size st) + unat (ab_capacity b) = unat (ab_base b) + unat (ab_mapping_size b)"
    "block_cells (ms_page_size st) b \<subseteq> region_cells (ab_base b, ab_mapping_size b)" "unat (ab_used b) \<le> unat (ab_capacity b)"
proof -
  have r: "unat (ab_base b) + unat (ab_mapping_size b) < 2 ^ 64"
    using assms layoutD(3) [OF assms(1)] by (auto simp: block_ok_def maps_ok_def region_ok_def)
  have c: "unat (ab_capacity b) = unat (ab_mapping_size b) - unat (ms_page_size st)" "unat (ms_page_size st) \<le> unat (ab_mapping_size b)"
    using assms(2) by (auto simp: block_ok_def usize_le_iff usize_unat_sub)
  show "unat (ab_base b) + unat (ms_page_size st) + unat (ab_capacity b) < 2 ^ 64"
    "unat (ab_base b) + unat (ms_page_size st) + unat (ab_capacity b) = unat (ab_base b) + unat (ab_mapping_size b)"
    using r c by simp_all
  show "unat (vl_arena_block_data st b) = unat (ab_base b) + unat (ms_page_size st)"
    unfolding vl_arena_block_data_def using r c by (intro usize_unat_add) simp
  show u: "unat (ab_used b) \<le> unat (ab_capacity b)" using assms(2) unfolding block_ok_def usize_le_iff by blast
  then show "block_cells (ms_page_size st) b \<subseteq> region_cells (ab_base b, ab_mapping_size b)"
    using c by (auto simp: block_cells_def region_cells_def cells_def)
qed

lemma blocks_apart:
  assumes "layout st" "block_ok st b" "block_ok st c" "ab_base b \<noteq> ab_base c"
  shows "region_cells (ab_base b, ab_mapping_size b) \<inter> region_cells (ab_base c, ab_mapping_size c) = {}"
  using assms by (intro maps_ok_disjoint [OF layoutD(3) [OF assms(1)]]) (auto simp: block_ok_def)

section \<open>New blocks\<close>

lemma new_block_pages:
  fixes cap page :: usize
  assumes "page_ok page" "\<not> cap > SIZE_MAX - (page - 1)" "cap \<noteq> 0"
  defines "k \<equiv> (cap + page - 1) div page"
  shows "k \<noteq> 0" "k \<noteq> SIZE_MAX" "unat cap + unat page \<le> unat (k + 1) * unat page" "unat (k + 1) = unat k + 1"
proof -
  have p: "4096 \<le> unat page" using page_ok_bounds [OF assms(1)] by simp
  have p0: "page \<noteq> 0" using p by auto
  have "unat (SIZE_MAX - (page - 1)) = 2 ^ 64 - 1 - (unat page - 1)"
    using usize_lt [of page] p0 by (subst usize_unat_sub) (simp_all add: usize_le_iff usize_unat_pred)
  then have c: "unat cap + (unat page - 1) < 2 ^ 64" using assms(2) p usize_lt [of page] by (simp add: usize_less_iff not_less)
  have "cap + page - 1 = cap + (page - 1)" by simp
  then have "unat (cap + page - 1) = unat cap + unat page - 1"
    using c p usize_unat_add [of cap "page - 1"] usize_unat_pred [OF p0] by (simp only:)
  then have k: "unat k = (unat cap + unat page - 1) div unat page" by (simp add: k_def unat_div_distrib)
  have up: "unat cap \<le> unat k * unat page" using round_up_pages(1) [of "unat page" "unat cap"] p k by simp
  moreover have "unat cap \<noteq> 0" using assms(3) by (simp add: unat_eq_zero)
  ultimately have "unat k \<noteq> 0" by (metis le_zero_eq mult_eq_0_iff)
  then show "k \<noteq> 0" by auto
  have "unat k * 4096 \<le> unat k * unat page" using p by simp
  also have "\<dots> < 2 ^ 64 + unat page" using round_up_pages(2) [of "unat page" "unat cap"] p k usize_lt [of cap] by simp
  also have "\<dots> \<le> 2 ^ 64 + 16777216" using page_ok_bounds [OF assms(1)] by simp
  finally have lt: "unat k + 1 < 2 ^ 64" by simp
  then show "k \<noteq> SIZE_MAX" by auto
  show k1: "unat (k + 1) = unat k + 1" using lt usize_unat_Suc [of k] by simp
  show "unat cap + unat page \<le> unat (k + 1) * unat page" using up k1 by simp
qed

lemma new_block_ok:
  assumes hp: "heap_at st loc" and os: "os_ok (ms_page_size st) os" and ok: "arena_ok st impl"
    and m: "minimum \<noteq> 0" and nb: "vl_arena_new_block os impl minimum st = (out, impl1, st1)"
  shows "out = None \<Longrightarrow> impl1 = impl \<and> st1 = st"
    "out = Some b \<Longrightarrow> heap_at st1 loc \<and> live st1 = live st \<and> intact st st1 \<and> ms_page_size st1 = ms_page_size st
       \<and> as_active_bytes (ms_stats st1) = as_active_bytes (ms_stats st) \<and> as_active_objects (ms_stats st1) = as_active_objects (ms_stats st)
       \<and> ms_mappings st1 = (ab_base b, ab_mapping_size b) # ms_mappings st
       \<and> impl1 = impl\<lparr>ar_blocks := b # ar_blocks impl\<rparr> \<and> arena_ok st1 impl1 \<and> ab_used b = 0 \<and> unat minimum \<le> unat (ab_capacity b)"
proof -
  have lay: "layout st" using hp by (simp add: heap_at_def)
  note maps = layoutD(3) [OF lay]
  define cap where "cap = (if ar_block_size impl > minimum then ar_block_size impl else minimum)"
  have cap: "cap \<noteq> 0" "unat minimum \<le> unat cap" using m by (auto simp: cap_def usize_less_iff)
  define k where "k = (cap + ms_page_size st - 1) div ms_page_size st"
  obtain a n st2 where acq: "vl_page_heap_acquire os (k + 1) st = (a, n, st2)" by (cases rule: prod_cases3)
  note aq = acquire_ok [OF os maps acq]
  let ?b = "\<lparr>ab_base = a, ab_mapping_size = n, ab_capacity = n - ms_page_size st2, ab_used = 0\<rparr>"
  have eq: "(out, impl1, st1) = (if cap > SIZE_MAX - (ms_page_size st - 1) \<or> k = 0 \<or> k = SIZE_MAX then (None, impl, st)
      else if a = NULL then (None, impl, st2) else (Some ?b, impl\<lparr>ar_blocks := ?b # ar_blocks impl\<rparr>, st2))"
    unfolding nb [symmetric] vl_arena_new_block_def Let_def cap_def [symmetric] k_def [symmetric] acq prod.case by simp
  then show "out = None \<Longrightarrow> impl1 = impl \<and> st1 = st" using aq(1) by (auto split: if_splits)
  assume "out = Some b"
  then have big: "\<not> cap > SIZE_MAX - (ms_page_size st - 1)" and a: "a \<noteq> NULL" and b: "b = ?b"
    and impl1: "impl1 = impl\<lparr>ar_blocks := b # ar_blocks impl\<rparr>" and st1: "st1 = st2"
    using eq by (auto split: if_splits)
  note pg = new_block_pages [OF layoutD(2) [OF lay] big cap(1), folded k_def]
  note aq = aq(2-4) [OF a]
  have page: "ms_page_size st1 = ms_page_size st" using aq(3) st1 by simp
  have "(ba, sp_mapping_size (ms_spans st ba)) \<in> set ((a, n) # ms_mappings st)" if "ba \<in> set (ms_all_spans st)" for ba
    using span_region [OF lay that] by simp
  moreover have "(l, oh_mapping_size (ms_headers st l)) \<in> set ((a, n) # ms_mappings st)" if "l \<in> set (ms_large_allocations st)" for l
    using large_region [OF lay that] by simp
  ultimately have hp1: "heap_at st1 loc" "live st1 = live st" "intact st st1"
    using mapping_changed [OF hp aq(2), of st1] aq(3) unfolding st1 by blast+
  have fresh: "a \<notin> set (ms_all_spans st)" "a \<notin> set (ms_large_allocations st)" "\<And>c. c \<in> set (ar_blocks impl) \<Longrightarrow> ab_base c \<noteq> a"
    using fresh_base [OF aq(2)] span_region [OF lay] large_region [OF lay] ok by (auto simp: arena_ok_def block_ok_def)
  have n: "unat cap + unat (ms_page_size st) \<le> unat n" using aq(1) pg(3) by simp
  then have ps: "ms_page_size st \<le> n" by (simp add: usize_le_iff)
  have capb: "unat (ab_capacity b) = unat n - unat (ms_page_size st)" using ps page st1 by (simp add: b usize_unat_sub)
  have "block_ok st1 b" using fresh ps page by (simp add: block_ok_def b st1 aq(3))
  moreover have "block_ok st1 c" if "c \<in> set (ar_blocks impl)" for c
  proof -
    have "block_ok st c" using ok that by (simp add: arena_ok_def)
    then show ?thesis by (auto simp: block_ok_def st1 aq(3))
  qed
  ultimately have "arena_ok st1 impl1" using ok fresh(3) by (auto simp: arena_ok_def impl1 b)
  then show "heap_at st1 loc \<and> live st1 = live st \<and> intact st st1 \<and> ms_page_size st1 = ms_page_size st
       \<and> as_active_bytes (ms_stats st1) = as_active_bytes (ms_stats st) \<and> as_active_objects (ms_stats st1) = as_active_objects (ms_stats st)
       \<and> ms_mappings st1 = (ab_base b, ab_mapping_size b) # ms_mappings st
       \<and> impl1 = impl\<lparr>ar_blocks := b # ar_blocks impl\<rparr> \<and> arena_ok st1 impl1 \<and> ab_used b = 0 \<and> unat minimum \<le> unat (ab_capacity b)"
    using hp1 page impl1 n capb cap(2) by (simp add: st1 aq(3)) (simp add: b)
qed

section \<open>Allocation\<close>

definition regions :: "vl_arena_impl \<Rightarrow> (addr \<times> usize) list" where
  "regions impl = map (\<lambda>b. (ab_base b, ab_mapping_size b)) (ar_blocks impl)"

text \<open>What a successful allocation does to an arena.\<close>

definition arena_gave :: "vl_memory_state \<Rightarrow> vl_arena_impl \<Rightarrow> addr \<Rightarrow> usize \<Rightarrow> usize \<Rightarrow> vl_arena_impl \<Rightarrow> bool" where
  "arena_gave st impl q n al impl' \<longleftrightarrow> unat al dvd unat q \<and> cells q n \<inter> handed_out (ms_page_size st) impl = {}
     \<and> handed_out (ms_page_size st) impl \<union> cells q n \<subseteq> handed_out (ms_page_size st) impl' \<and> arena_ok st impl'
     \<and> (\<exists>b \<in> set (ar_blocks impl'). cells q n \<subseteq> block_cells (ms_page_size st) b)"

lemma take_ok:
  fixes al sz :: usize
  assumes lay: "layout st" and ok: "arena_ok st impl" and bs: "ar_blocks impl = b # bs"
    and al: "al \<noteq> 0" "al AND (al - 1) = 0" and sz: "sz \<noteq> 0"
  defines "base \<equiv> vl_arena_block_data st b"
  defines "offset \<equiv> arena_align (base + ab_used b) al - base"
  assumes high: "\<not> base + ab_used b > SIZE_MAX - (al - 1)" and room: "\<not> (offset > ab_capacity b \<or> sz > ab_capacity b - offset)"
    and t: "arena_take impl b offset sz st = (q, impl', st')"
  shows "q \<noteq> NULL" "st' = st" "arena_gave st impl q sz al impl'" "regions impl' = regions impl"
proof -
  have b: "block_ok st b" using ok bs by (simp add: arena_ok_def)
  note bb = block_bounds [OF lay b, folded base_def]
  have cur: "unat (base + ab_used b) = unat base + unat (ab_used b)" using bb by (intro usize_unat_add) simp
  have fit: "unat (base + ab_used b) + unat al \<le> 2 ^ 64" using high alignment_max [OF al(1)] by (simp only: not_less)
  note aa = arena_align_bounds [OF al fit]
  have off: "unat offset = unat (arena_align (base + ab_used b) al) - unat base" unfolding offset_def
    using aa(2) cur by (intro usize_unat_sub) (simp add: usize_le_iff)
  have cap: "unat offset \<le> unat (ab_capacity b)" using room by (simp add: usize_less_iff not_less)
  then have "unat (ab_capacity b - offset) = unat (ab_capacity b) - unat offset" by (intro usize_unat_sub) (simp add: usize_le_iff)
  then have lim: "unat offset + unat sz \<le> unat (ab_capacity b)" using room cap by (simp add: usize_less_iff not_less)
  have q: "q = base + offset" "impl' = impl\<lparr>ar_blocks := b\<lparr>ab_used := offset + sz\<rparr> # bs\<rparr>" and st': "st' = st"
    using t bs by (auto simp: arena_take_def base_def)
  have uq: "unat q = unat base + unat offset" using lim bb unfolding q(1) by (intro usize_unat_add) simp
  then have uq': "unat q = unat (arena_align (base + ab_used b) al)" using off aa(2) cur by simp
  show "st' = st" by (rule st')
  show "q \<noteq> NULL"
  proof
    assume "q = NULL"
    then have "unat base = 0" using uq by simp
    then show False using bb(2) page_ok_bounds [OF layoutD(2) [OF lay]] by simp
  qed
  show "regions impl' = regions impl" using q(2) bs by (simp add: regions_def)
  have os: "unat (offset + sz) = unat offset + unat sz" using lim usize_lt [of "ab_capacity b"] by (intro usize_unat_add) simp
  have ge: "unat (ab_used b) \<le> unat offset" using off aa(2) cur by simp
  let ?b = "b\<lparr>ab_used := offset + sz\<rparr>" and ?p = "ms_page_size st"
  have "block_ok st ?b" using b os lim by (simp add: block_ok_def) (simp add: usize_le_iff)
  then have ok': "arena_ok st impl'" using ok bs q(2) by (simp add: arena_ok_def)
  have grow: "block_cells ?p b \<subseteq> block_cells ?p ?b" using os ge by (auto simp: block_cells_def)
  have inb: "cells q sz \<subseteq> block_cells ?p ?b" using uq os bb(2) by (auto simp: cells_def block_cells_def)
  have "cells q sz \<inter> block_cells ?p b = {}" using uq bb(2) ge by (auto simp: cells_def block_cells_def)
  moreover have "cells q sz \<inter> block_cells ?p c = {}" if c: "c \<in> set bs" for c
  proof -
    have "ab_base c \<in> ab_base ` set bs" using c by (rule imageI)
    moreover have "ab_base b \<notin> ab_base ` set bs" using ok bs by (simp add: arena_ok_def)
    ultimately have "ab_base c \<noteq> ab_base b" by metis
    moreover have "block_ok st c" using ok bs c by (simp add: arena_ok_def)
    ultimately have cok: "block_ok st c" "ab_base c \<noteq> ab_base b" by blast+
    have "cells q sz \<subseteq> region_cells (ab_base b, ab_mapping_size b)" using inb block_bounds(4) [OF lay \<open>block_ok st ?b\<close>] by simp
    moreover have "block_cells ?p c \<subseteq> region_cells (ab_base c, ab_mapping_size c)" using block_bounds(4) [OF lay cok(1)] .
    ultimately show ?thesis using blocks_apart [OF lay b cok(1) cok(2) [symmetric]] by blast
  qed
  ultimately show "arena_gave st impl q sz al impl'"
    using aa(1) uq' grow inb ok' bs q(2) by (auto simp: arena_gave_def handed_out_def)
qed

text \<open>A block made for a request has room for it, wherever it lies.\<close>

lemma fresh_block_fits:
  fixes al sz :: usize
  assumes lay: "layout st" and b: "block_ok st b" and used: "ab_used b = 0"
    and al: "al \<noteq> 0" "al AND (al - 1) = 0" and sz: "\<not> sz > SIZE_MAX - al" and cap: "unat (sz + al) \<le> unat (ab_capacity b)"
  defines "base \<equiv> vl_arena_block_data st b"
  defines "offset \<equiv> arena_align base al - base"
  shows "\<not> base > SIZE_MAX - (al - 1)" "\<not> (offset > ab_capacity b \<or> sz > ab_capacity b - offset)"
proof -
  note bb = block_bounds [OF lay b, folded base_def]
  have c: "unat sz + unat al \<le> unat (ab_capacity b)" using cap request_fits [OF sz] by simp
  then have fit: "unat base + unat al \<le> 2 ^ 64" using bb(1,2) by simp
  then show "\<not> base > SIZE_MAX - (al - 1)" using alignment_max [OF al(1)] by (simp only: not_less)
  note aa = arena_align_bounds [OF al fit]
  have off: "unat offset = unat (arena_align base al) - unat base" unfolding offset_def
    using aa(2) by (intro usize_unat_sub) (simp add: usize_le_iff)
  then have lt: "unat offset < unat al" using aa(2,3) by simp
  then have "unat (ab_capacity b - offset) = unat (ab_capacity b) - unat offset" using c by (intro usize_unat_sub) (simp add: usize_le_iff)
  then show "\<not> (offset > ab_capacity b \<or> sz > ab_capacity b - offset)" using lt c by (simp add: usize_less_iff not_less)
qed

text \<open>The outcome of an allocation, and the frame it keeps.\<close>

definition arena_served ::
  "vl_memory_state \<Rightarrow> vl_arena_impl \<Rightarrow> usize \<Rightarrow> usize \<Rightarrow> addr \<times> vl_arena_impl \<times> vl_memory_state \<Rightarrow> bool" where
  "arena_served st impl sz al out \<longleftrightarrow> (case out of (q, impl', st') \<Rightarrow>
     if q = NULL then impl' = impl \<and> st' = st
     else arena_gave st' impl q sz al impl' \<and> heap_ok st' \<and> live st' = live st \<and> intact st st' \<and> ms_page_size st' = ms_page_size st
       \<and> (\<exists>rs. ms_mappings st' = rs @ ms_mappings st \<and> regions impl' = rs @ regions impl))"

lemma new_block_served:
  assumes ok: "heap_ok st" and os: "os_ok (ms_page_size st) os" and ar: "arena_ok st impl"
    and al: "al \<noteq> 0" "al AND (al - 1) = 0" and sz: "sz \<noteq> 0" "\<not> sz > SIZE_MAX - al"
    and nb: "vl_arena_new_block os impl (sz + al) st = (Some b, impl1, st1)"
  defines "base \<equiv> vl_arena_block_data st1 b"
  shows "\<not> base > SIZE_MAX - (al - 1)"
    "\<not> (arena_align base al - base > ab_capacity b \<or> sz > ab_capacity b - (arena_align base al - base))"
    "ab_used b = 0" "arena_served st impl sz al (arena_take impl1 b (arena_align base al - base) sz st1)"
proof -
  obtain loc where hp: "heap_at st loc" and cnt: "counted st" using ok by (auto simp: heap_ok_def)
  have nz: "sz + al \<noteq> 0" using request_fits [OF sz(2)] sz(1) usize_unat_pos [of sz] by auto
  note n = new_block_ok(2) [OF hp os ar nz nb refl]
  have lay: "layout st1" using n by (simp add: heap_at_def)
  have b: "block_ok st1 b" "ab_used b = 0" using n by (auto simp: arena_ok_def)
  show fits: "\<not> base > SIZE_MAX - (al - 1)"
    "\<not> (arena_align base al - base > ab_capacity b \<or> sz > ab_capacity b - (arena_align base al - base))"
    using fresh_block_fits [OF lay b al sz(2)] n by (auto simp: base_def)
  show "ab_used b = 0" by (rule b(2))
  obtain q impl' st' where t: "arena_take impl1 b (arena_align base al - base) sz st1 = (q, impl', st')" by (cases rule: prod_cases3)
  have bs: "ar_blocks impl1 = b # ar_blocks impl" "arena_ok st1 impl1" using n by auto
  note tk = take_ok [OF lay bs(2,1) al sz(1), folded base_def, unfolded b(2), simplified, OF _ _ t]
  have "handed_out (ms_page_size st1) impl1 = handed_out (ms_page_size st1) impl" using bs(1) b(2) by (auto simp: handed_out_def block_cells_def)
  then have "arena_gave st1 impl q sz al impl'" using tk(3) fits by (simp add: arena_gave_def)
  moreover have "heap_ok st1" using n cnt by (auto simp: heap_ok_def counted_def)
  moreover have "regions impl' = (ab_base b, ab_mapping_size b) # regions impl" using tk(4) fits bs(1) by (simp add: regions_def)
  ultimately show "arena_served st impl sz al (arena_take impl1 b (arena_align base al - base) sz st1)"
    using tk(1,2) fits n unfolding t arena_served_def by simp
qed

lemma grow_served:
  assumes ok: "heap_ok st" and os: "os_ok (ms_page_size st) os" and ar: "arena_ok st impl"
    and al: "al \<noteq> 0" "al AND (al - 1) = 0" and sz: "sz \<noteq> 0"
  shows "arena_served st impl sz al (arena_grow os impl sz al st)"
proof (cases "sz > SIZE_MAX - al")
  case True
  then show ?thesis by (simp add: arena_grow_def arena_served_def)
next
  case fits: False
  obtain out impl1 st1 where nb: "vl_arena_new_block os impl (sz + al) st = (out, impl1, st1)" by (cases rule: prod_cases3)
  show ?thesis
  proof (cases out)
    case None
    obtain loc where hp: "heap_at st loc" using ok by (auto simp: heap_ok_def)
    have "sz + al \<noteq> 0" using request_fits [OF fits] sz usize_unat_pos [of sz] by auto
    then have "impl1 = impl \<and> st1 = st" using new_block_ok(1) [OF hp os ar _ nb None] by blast
    then show ?thesis using None nb fits by (simp add: arena_grow_def arena_served_def)
  next
    case (Some b)
    note n = new_block_served [OF ok os ar al sz fits nb [unfolded Some]]
    show ?thesis using n(1,2,4) fits Some nb by (simp add: arena_grow_def Let_def)
  qed
qed

lemma place_served:
  assumes ok: "heap_ok st" and os: "os_ok (ms_page_size st) os" and ar: "arena_ok st impl" and bs: "ar_blocks impl = b # bs"
    and al: "al \<noteq> 0" "al AND (al - 1) = 0" and sz: "sz \<noteq> 0"
  shows "arena_served st impl sz al (arena_place os impl b False sz al st)"
proof -
  have lay: "layout st" using ok by (auto simp: heap_ok_def heap_at_def)
  let ?base = "vl_arena_block_data st b"
  let ?off = "arena_align (?base + ab_used b) al - ?base"
  obtain q impl' st' where t: "arena_take impl b ?off sz st = (q, impl', st')" by (cases rule: prod_cases3)
  note tk = take_ok [OF lay ar bs al sz _ _ t]
  have "arena_served st impl sz al (q, impl', st')" if "\<not> ?base + ab_used b > SIZE_MAX - (al - 1)"
    "\<not> (?off > ab_capacity b \<or> sz > ab_capacity b - ?off)"
    using tk [OF that] ok by (simp add: arena_served_def intact_def)
  then show ?thesis
    using grow_served [OF ok os ar al sz] t by (simp add: arena_place_def Let_def arena_served_def)
qed

lemma alloc_served:
  assumes ok: "heap_ok st" and os: "os_ok (ms_page_size st) os" and ar: "arena_ok st impl"
    and out: "vl_arena_alloc os (Some \<lparr>arena_impl = Some impl\<rparr>) sz al st = (q, arena', st')"
  shows "\<exists>impl'. arena' = Some \<lparr>arena_impl = Some impl'\<rparr> \<and> arena_served st impl sz al (q, impl', st')"
    "q \<noteq> NULL \<Longrightarrow> sz \<noteq> 0 \<and> al \<noteq> 0 \<and> al AND (al - 1) = 0"
proof -
  have lay: "layout st" using ok by (auto simp: heap_ok_def heap_at_def)
  note ini = initialized_ensure [OF layoutD(1) [OF lay]]
  show args: "q \<noteq> NULL \<Longrightarrow> sz \<noteq> 0 \<and> al \<noteq> 0 \<and> al AND (al - 1) = 0"
    using out by (simp add: vl_arena_alloc_def split: if_splits)
  show "\<exists>impl'. arena' = Some \<lparr>arena_impl = Some impl'\<rparr> \<and> arena_served st impl sz al (q, impl', st')"
  proof (cases "sz = 0 \<or> al = 0 \<or> al AND (al - 1) \<noteq> 0")
    case True
    then show ?thesis using out by (auto simp: vl_arena_alloc_def arena_served_def)
  next
    case args: False
    define r where "r = (case ar_blocks impl of block # _ \<Rightarrow> arena_place os impl block False sz al st
        | [] \<Rightarrow> if sz > SIZE_MAX - al then (NULL, impl, st)
            else (case vl_arena_new_block os impl (sz + al) st of
                    (None, impl1, st2) \<Rightarrow> (NULL, impl1, st2)
                  | (Some block, impl1, st2) \<Rightarrow> arena_place os impl1 block True sz al st2))"
    have eq: "(q, arena', st') = (case r of (ptr, impl1, st2) \<Rightarrow> (ptr, Some \<lparr>arena_impl = Some impl1\<rparr>, st2))"
      using out args unfolding vl_arena_alloc_def ini r_def by simp
    have "arena_served st impl sz al r"
    proof (cases "ar_blocks impl")
      case (Cons b bs)
      then show ?thesis using place_served [OF ok os ar Cons, of al sz] args by (simp add: r_def)
    next
      case Nil
      have "r = arena_grow os impl sz al st"
      proof (cases "sz > SIZE_MAX - al")
        case True
        then show ?thesis using Nil by (simp add: r_def arena_grow_def)
      next
        case fits: False
        obtain out impl1 st1 where nb: "vl_arena_new_block os impl (sz + al) st = (out, impl1, st1)" by (cases rule: prod_cases3)
        show ?thesis
        proof (cases out)
          case None
          then show ?thesis using Nil nb fits by (simp add: r_def arena_grow_def)
        next
          case (Some b)
          note n = new_block_served [OF ok os ar _ _ _ fits nb [unfolded Some]]
          show ?thesis using n(1-3) args fits Some nb Nil by (simp add: r_def arena_grow_def arena_place_def Let_def)
        qed
      qed
      then show ?thesis using grow_served [OF ok os ar, of al sz] args by simp
    qed
    then show ?thesis using eq by (cases r) auto
  qed
qed

section \<open>Giving the blocks back\<close>

abbreviation release_block :: "vl_os \<Rightarrow> vl_arena_block \<Rightarrow> vl_memory_state \<Rightarrow> vl_memory_state" where
  "release_block os b \<equiv> vl_page_heap_release os (ab_base b) (ab_mapping_size b)"

lemma release_block_ok:
  fixes os :: vl_os
  assumes ok: "heap_ok st" and b: "block_ok st b"
  defines "st' \<equiv> release_block os b st"
  shows "heap_ok st'" "live st' = live st" "intact st st'" "ms_page_size st' = ms_page_size st"
    "block_ok st c \<Longrightarrow> ab_base c \<noteq> ab_base b \<Longrightarrow> block_ok st' c"
    "os_munmap os (ab_base b) (ab_mapping_size b) \<Longrightarrow> ms_mappings st' = remove1 (ab_base b, ab_mapping_size b) (ms_mappings st)"
proof -
  obtain loc where hp: "heap_at st loc" and cnt: "counted st" using ok by (auto simp: heap_ok_def)
  have lay: "layout st" using hp by (simp add: heap_at_def)
  note mk = maps_kept [OF layoutD(3) [OF lay], where os = os and a = "ab_base b" and n = "ab_mapping_size b", folded st'_def]
  have nb: "ab_base b \<notin> set (ms_all_spans st)" "ab_base b \<notin> set (ms_large_allocations st)" using b by (auto simp: block_ok_def)
  have eq: "st' = st\<lparr>ms_mappings := ms_mappings st', ms_stats := ms_stats st'\<rparr>"
    by (simp add: st'_def vl_page_heap_release_def upd_memory_stats_def)
  have "(c, sp_mapping_size (ms_spans st c)) \<in> set (ms_mappings st')" if "c \<in> set (ms_all_spans st)" for c
    using mk(2) span_region [OF lay that] that nb(1) by auto
  moreover have "(l, oh_mapping_size (ms_headers st l)) \<in> set (ms_mappings st')" if "l \<in> set (ms_large_allocations st)" for l
    using mk(2) large_region [OF lay that] that nb(2) by auto
  ultimately have ch: "heap_at st' loc" "live st' = live st" "intact st st'" using mapping_changed [OF hp mk(1) _ _ eq] by blast+
  then show "live st' = live st" "intact st st'" by blast+
  have "counted st'" using cnt ch(2) by (simp add: counted_def st'_def)
  then show "heap_ok st'" using ch(1) by (auto simp: heap_ok_def)
  show "ms_page_size st' = ms_page_size st" by (simp add: st'_def)
  show "block_ok st' c" if "block_ok st c" "ab_base c \<noteq> ab_base b"
    using that mk(2) by (auto simp: block_ok_def st'_def)
  have "ab_base b \<noteq> NULL" "ab_mapping_size b \<noteq> 0"
    using layoutD(3) [OF lay] b by (auto simp: block_ok_def maps_ok_def region_ok_def)
  then show "os_munmap os (ab_base b) (ab_mapping_size b) \<Longrightarrow> ms_mappings st' = remove1 (ab_base b, ab_mapping_size b) (ms_mappings st)"
    by (simp add: st'_def vl_page_heap_release_def upd_memory_stats_def)
qed

lemma release_blocks_ok:
  fixes os :: vl_os
  assumes "heap_ok st" "\<forall>b \<in> set bs. block_ok st b" "distinct (map ab_base bs)"
  defines "st' \<equiv> fold (release_block os) bs st"
  shows "heap_ok st' \<and> live st' = live st \<and> intact st st' \<and> ms_page_size st' = ms_page_size st
    \<and> ((\<forall>a n. os_munmap os a n) \<longrightarrow> mset (ms_mappings st) = mset (map (\<lambda>b. (ab_base b, ab_mapping_size b)) bs) + mset (ms_mappings st'))"
  using assms(1-3) unfolding st'_def
proof (induction bs arbitrary: st)
  case Nil
  then show ?case by (simp add: intact_def)
next
  case (Cons b bs)
  let ?st = "release_block os b st"
  have b: "block_ok st b" "b \<in> set (b # bs)" using Cons.prems(2) by simp_all
  note r = release_block_ok [OF Cons.prems(1) b(1), where os = os]
  have "block_ok ?st c" if "c \<in> set bs" for c
  proof (rule r(5))
    show "block_ok st c" using that Cons.prems(2) by simp
    show "ab_base c \<noteq> ab_base b" using that Cons.prems(3) by (metis distinct.simps(2) imageI list.set_map list.simps(9))
  qed
  then have IH: "heap_ok (fold (release_block os) bs ?st) \<and> live (fold (release_block os) bs ?st) = live ?st
      \<and> intact ?st (fold (release_block os) bs ?st) \<and> ms_page_size (fold (release_block os) bs ?st) = ms_page_size ?st
      \<and> ((\<forall>a n. os_munmap os a n) \<longrightarrow> mset (ms_mappings ?st) = mset (map (\<lambda>b. (ab_base b, ab_mapping_size b)) bs) + mset (ms_mappings (fold (release_block os) bs ?st)))"
    using Cons.IH [of ?st] r(1) Cons.prems(3) by simp
  have "intact st (fold (release_block os) bs ?st)" by (rule intact_trans [OF r(3)]) (use IH r(2) in auto)
  moreover have "mset (ms_mappings st) = add_mset (ab_base b, ab_mapping_size b) (mset (ms_mappings ?st))" if "\<forall>a n. os_munmap os a n"
    using r(6) that b(1) by (simp add: block_ok_def)
  ultimately show ?case using IH r(2,4) by simp
qed

section \<open>Runs of an arena\<close>

inductive arena_reach :: "vl_os \<Rightarrow> vl_memory_state \<Rightarrow> vl_arena_impl \<Rightarrow> vl_memory_state \<Rightarrow> bool" for os st0 where
  arena_start: "vl_arena_init calloc_ok os (Some \<lparr>arena_impl = None\<rparr>) block_size st0 = (VL_OK, Some \<lparr>arena_impl = Some impl\<rparr>, st) \<Longrightarrow>
     arena_reach os st0 impl st"
| arena_alloc: "arena_reach os st0 impl st \<Longrightarrow>
     vl_arena_alloc os (Some \<lparr>arena_impl = Some impl\<rparr>) sz al st = (q, Some \<lparr>arena_impl = Some impl'\<rparr>, st') \<Longrightarrow> arena_reach os st0 impl' st'"
| arena_reset: "arena_reach os st0 impl st \<Longrightarrow>
     vl_arena_reset os (Some \<lparr>arena_impl = Some impl\<rparr>) st = (Some \<lparr>arena_impl = Some impl'\<rparr>, st') \<Longrightarrow> arena_reach os st0 impl' st'"

definition arena_inv :: "vl_os \<Rightarrow> vl_memory_state \<Rightarrow> vl_arena_impl \<Rightarrow> vl_memory_state \<Rightarrow> bool" where
  "arena_inv os st0 impl st \<longleftrightarrow> heap_ok st \<and> arena_ok st impl \<and> live st = live st0 \<and> intact st0 st \<and> ms_page_size st = ms_page_size st0
     \<and> ((\<forall>a n. os_munmap os a n) \<longrightarrow> mset (ms_mappings st) = mset (regions impl) + mset (ms_mappings st0))"

lemma arena_reach_inv:
  assumes ok: "heap_ok st0" and os: "os_ok (ms_page_size st0) os" and reach: "arena_reach os st0 impl st"
  shows "arena_inv os st0 impl st"
  using reach
proof (induction rule: arena_reach.induct)
  case (arena_start calloc_ok block_size impl st)
  have "ms_initialized st0" using ok layoutD(1) by (auto simp: heap_ok_def heap_at_def)
  then have "st = st0" "ar_blocks impl = []"
    using arena_start by (auto simp: vl_arena_init_def initialized_ensure Let_def split: if_splits)
  then show ?case using ok by (simp add: arena_inv_def arena_ok_def intact_def regions_def)
next
  case (arena_alloc impl st sz al q impl' st')
  note inv = arena_alloc.IH [unfolded arena_inv_def]
  have "arena_served st impl sz al (q, impl', st')"
    using alloc_served(1) [OF _ _ _ arena_alloc.hyps(2)] inv os by simp
  then have "q = NULL \<and> impl' = impl \<and> st' = st \<or> q \<noteq> NULL \<and> heap_ok st' \<and> arena_ok st' impl' \<and> live st' = live st \<and> intact st st'
      \<and> ms_page_size st' = ms_page_size st \<and> (\<exists>rs. ms_mappings st' = rs @ ms_mappings st \<and> regions impl' = rs @ regions impl)"
    by (auto simp: arena_served_def arena_gave_def split: if_splits)
  moreover have "intact st0 st'" if "intact st st'" "live st' = live st"
    by (rule intact_trans [of st0 st]) (use inv that in auto)
  ultimately show ?case using inv by (auto simp: arena_inv_def)
next
  case (arena_reset impl st impl' st')
  note inv = arena_reset.IH [unfolded arena_inv_def]
  have "ms_initialized st" using inv layoutD(1) by (auto simp: heap_ok_def heap_at_def)
  then have eq: "impl' = impl\<lparr>ar_blocks := []\<rparr>" "st' = fold (release_block os) (ar_blocks impl) st"
    using arena_reset.hyps(2) by (auto simp: vl_arena_reset_def vl_memory_is_owner_def)
  have r: "heap_ok st' \<and> live st' = live st \<and> intact st st' \<and> ms_page_size st' = ms_page_size st
    \<and> ((\<forall>a n. os_munmap os a n) \<longrightarrow> mset (ms_mappings st) = mset (regions impl) + mset (ms_mappings st'))"
    using release_blocks_ok [where st = st and bs = "ar_blocks impl" and os = os] inv unfolding eq(2) regions_def arena_ok_def by blast
  have "intact st0 st'" by (rule intact_trans [of st0 st]) (use inv r in auto)
  then show ?case using inv r by (simp add: arena_inv_def eq(1) arena_ok_def regions_def)
qed

lemma live_region:
  assumes hp: "heap_at st loc" and u: "u \<in> dom (live st)"
  obtains b n where "(b, n) \<in> set (ms_mappings st)" "extent st u \<subseteq> region_cells (b, n)"
    "b \<in> set (ms_all_spans st) \<union> set (ms_large_allocations st)"
proof -
  have lay: "layout st" using hp by (simp add: heap_at_def)
  show ?thesis
    using hp u
  proof (cases rule: live_cases)
    case (small b)
    then show ?thesis using that [of b] span_region [OF lay small(1)] object_in_region [OF lay small(1,2)] by simp
  next
    case (large l)
    then show ?thesis using that [of l] large_region [OF lay large(1)] by simp
  qed
qed

lemma arena_cells:
  assumes "layout st" "arena_ok st impl" "x \<in> handed_out (ms_page_size st) impl"
  obtains b where "block_ok st b" "x \<in> region_cells (ab_base b, ab_mapping_size b)" "unat (ab_base b) + unat (ms_page_size st) \<le> x"
proof -
  obtain b where b: "block_ok st b" "x \<in> block_cells (ms_page_size st) b" using assms(2,3) by (auto simp: handed_out_def arena_ok_def)
  then show ?thesis using that [of b] block_bounds(4) [OF assms(1) b(1)] by (auto simp: block_cells_def)
qed

lemma arena_not_live:
  assumes ok: "heap_ok st" and ar: "arena_ok st impl" and u: "u \<in> dom (live st)"
  shows "handed_out (ms_page_size st) impl \<inter> extent st u = {}"
proof -
  obtain loc where hp: "heap_at st loc" using ok by (auto simp: heap_ok_def)
  have lay: "layout st" using hp by (simp add: heap_at_def)
  obtain b n where r: "(b, n) \<in> set (ms_mappings st)" "extent st u \<subseteq> region_cells (b, n)"
    "b \<in> set (ms_all_spans st) \<union> set (ms_large_allocations st)" by (rule live_region [OF hp u])
  have "x \<notin> extent st u" if x: "x \<in> handed_out (ms_page_size st) impl" for x
  proof -
    obtain c where c: "block_ok st c" "x \<in> region_cells (ab_base c, ab_mapping_size c)" by (rule arena_cells [OF lay ar x])
    have "(ab_base c, ab_mapping_size c) \<noteq> (b, n)" using c(1) r(3) by (auto simp: block_ok_def)
    then have "region_cells (ab_base c, ab_mapping_size c) \<inter> region_cells (b, n) = {}"
      using c(1) r(1) by (intro maps_ok_disjoint [OF layoutD(3) [OF lay]]) (auto simp: block_ok_def)
    then show ?thesis using c(2) r(2) by blast
  qed
  then show ?thesis by blast
qed

section \<open>Properties\<close>

text \<open>C36: In every run of an arena \<^verbatim>\<open>vl_arena_alloc\<close> returns either \<^verbatim>\<open>NULL\<close> and changes nothing, or bytes that are
  aligned as asked, lie in one mapping, were not handed out by the arena before and belong to no block of the allocator;
  from then on they count as handed out.\<close>

theorem arena_alloc_fresh:
  assumes reach: "heap_reach page st0" "arena_reach os st0 impl st" and os: "os_ok page os"
    and out: "vl_arena_alloc os (Some \<lparr>arena_impl = Some impl\<rparr>) sz al st = (q, arena', st')"
  shows "if q = NULL then arena' = Some \<lparr>arena_impl = Some impl\<rparr> \<and> st' = st
    else \<exists>impl'. arena' = Some \<lparr>arena_impl = Some impl'\<rparr> \<and> sz \<noteq> 0 \<and> unat al dvd unat q
      \<and> cells q sz \<inter> handed_out page impl = {} \<and> handed_out page impl \<union> cells q sz \<subseteq> handed_out page impl'
      \<and> (\<exists>r \<in> set (ms_mappings st'). cells q sz \<subseteq> region_cells r)
      \<and> live st' = live st0 \<and> (\<forall>u \<in> dom (live st'). cells q sz \<inter> extent st' u = {})"
proof -
  have ok0: "heap_ok st0" "ms_page_size st0 = page" using reach_ok [OF reach(1)] by auto
  have inv: "heap_ok st" "arena_ok st impl" "live st = live st0" "ms_page_size st = page"
    using arena_reach_inv [OF ok0(1) _ reach(2)] ok0(2) os by (auto simp: arena_inv_def)
  obtain impl' where s: "arena' = Some \<lparr>arena_impl = Some impl'\<rparr>" "arena_served st impl sz al (q, impl', st')"
    using alloc_served(1) [OF inv(1) _ inv(2) out] os inv(4) by blast
  show ?thesis
  proof (cases "q = NULL")
    case True
    then show ?thesis using s by (simp add: arena_served_def)
  next
    case False
    have g: "arena_gave st' impl q sz al impl'" "heap_ok st'" "live st' = live st" "ms_page_size st' = page"
      using s(2) False inv(4) by (auto simp: arena_served_def)
    have lay: "layout st'" and ar: "arena_ok st' impl'" and sub: "cells q sz \<subseteq> handed_out page impl'"
      using g by (auto simp: heap_ok_def heap_at_def arena_gave_def)
    obtain b where b: "b \<in> set (ar_blocks impl')" "cells q sz \<subseteq> block_cells page b" using g(1,4) by (auto simp: arena_gave_def)
    then have bo: "block_ok st' b" using ar by (simp add: arena_ok_def)
    then have "cells q sz \<subseteq> region_cells (ab_base b, ab_mapping_size b)" using b(2) block_bounds(4) [OF lay bo] g(4) by blast
    then have "\<exists>r \<in> set (ms_mappings st'). cells q sz \<subseteq> region_cells r" using bo by (auto simp: block_ok_def)
    moreover have "cells q sz \<inter> extent st' u = {}" if "u \<in> dom (live st')" for u
      using arena_not_live [OF g(2) ar that] sub g(4) by blast
    moreover have "sz \<noteq> 0" using alloc_served(2) [OF inv(1) _ inv(2) out] os inv(4) False by blast
    ultimately show ?thesis using False s(1) g inv(3) by (auto simp: arena_gave_def)
  qed
qed

definition demo_arena :: vl_arena_impl where
  "demo_arena = \<lparr>ar_block_size = 65536, ar_blocks = []\<rparr>"

lemma demo_arena_start: "arena_reach demo_os demo_one demo_arena demo_one"
  by (rule arena_start [of True _ 0])
    (simp add: vl_arena_init_def initialized_ensure one_run VL_ARENA_DEFAULT_BLOCK_SIZE_def demo_arena_def Let_def)

lemma arena_words: "(69727 :: usize) div 4096 = 17" "(0x20000101F :: usize) AND NOT 31 = 0x200001000"
  by code_simp+

lemma demo_arena_alloc: "fst (vl_arena_alloc demo_os (Some \<lparr>arena_impl = Some demo_arena\<rparr>) 100 32 demo_one) = 0x200001000"
  by (simp add: vl_arena_alloc_def initialized_ensure one_run demo_arena_def vl_arena_new_block_def vl_page_heap_acquire_def
      upd_memory_stats_def demo_os_def arena_place_def arena_take_def vl_arena_block_data_def arena_align_def arena_words area_div Let_def)

theorem arena_alloc_fresh_witness:
  "case vl_arena_alloc demo_os (Some \<lparr>arena_impl = Some demo_arena\<rparr>) 100 32 demo_one of
     (q, arena', st') \<Rightarrow> q = 0x200001000 \<and> live st' 0x100000050 = Some 40000 \<and> cells q 100 \<inter> extent st' 0x100000050 = {}"
proof -
  obtain arena' st' where eq: "vl_arena_alloc demo_os (Some \<lparr>arena_impl = Some demo_arena\<rparr>) 100 32 demo_one = (0x200001000, arena', st')"
    using demo_arena_alloc by (metis prod.collapse)
  have "live st' = live demo_one" "\<forall>u \<in> dom (live st'). cells 0x200001000 100 \<inter> extent st' u = {}"
    using arena_alloc_fresh [OF one_reach(1) demo_arena_start demo_os_ok eq] by auto
  then show ?thesis unfolding eq by (simp add: one_reach(2))
qed

text \<open>C37: However an arena was used, \<^verbatim>\<open>vl_arena_destroy\<close> gives every one of its mappings back and no other: the kernel then has the mappings
  it had before \<^verbatim>\<open>vl_arena_init\<close>, and every block of the allocator is as it was, bytes and header.\<close>

theorem arena_destroy_restores:
  assumes reach: "heap_reach page st0" "arena_reach os st0 impl st" and os: "os_ok page os" "\<forall>a n. os_munmap os a n"
  shows "case vl_arena_destroy os (Some \<lparr>arena_impl = Some impl\<rparr>) st of (arena', st') \<Rightarrow>
      arena' = Some \<lparr>arena_impl = None\<rparr> \<and> mset (ms_mappings st') = mset (ms_mappings st0)
      \<and> live st' = live st0 \<and> (\<forall>u \<in> dom (live st0). same_block st0 st' u)"
proof -
  have ok0: "heap_ok st0" "os_ok (ms_page_size st0) os" using reach_ok [OF reach(1)] os(1) by auto
  let ?st = "fold (release_block os) (ar_blocks impl) st"
  have inv: "heap_ok st" using arena_reach_inv [OF ok0 reach(2)] by (simp add: arena_inv_def)
  then have own: "vl_memory_is_owner st" using layoutD(1) by (auto simp: heap_ok_def heap_at_def vl_memory_is_owner_def)
  then have "vl_arena_reset os (Some \<lparr>arena_impl = Some impl\<rparr>) st = (Some \<lparr>arena_impl = Some (impl\<lparr>ar_blocks := []\<rparr>)\<rparr>, ?st)"
    by (simp add: vl_arena_reset_def)
  then have re: "arena_inv os st0 (impl\<lparr>ar_blocks := []\<rparr>) ?st" and d: "vl_arena_destroy os (Some \<lparr>arena_impl = Some impl\<rparr>) st = (Some \<lparr>arena_impl = None\<rparr>, ?st)"
    using arena_reach_inv [OF ok0 arena_reset [OF reach(2)]] own by (auto simp: vl_arena_destroy_def)
  have "live ?st = live st0" "intact st0 ?st" using re by (simp_all add: arena_inv_def)
  then have "\<forall>u \<in> dom (live st0). same_block st0 ?st u" by (simp add: intact_blocks)
  then show ?thesis using re os(2) unfolding d by (simp add: arena_inv_def regions_def)
qed

theorem arena_destroy_restores_witness:
  "case vl_arena_alloc demo_os (Some \<lparr>arena_impl = Some demo_arena\<rparr>) 100 32 demo_one of (q, arena', st') \<Rightarrow>
     (case vl_arena_destroy demo_os arena' st' of (arena'', st'') \<Rightarrow>
        mset (ms_mappings st'') = {#(0x100000000, 40960)#} \<and> live st'' = [0x100000050 \<mapsto> 40000])"
proof -
  obtain q arena' st' where eq: "vl_arena_alloc demo_os (Some \<lparr>arena_impl = Some demo_arena\<rparr>) 100 32 demo_one = (q, arena', st')"
    by (cases rule: prod_cases3)
  have ok: "heap_ok demo_one" "ms_page_size demo_one = 4096" using reach_ok [OF one_reach(1)] by auto
  have "arena_ok demo_one demo_arena" by (simp add: arena_ok_def demo_arena_def)
  then obtain impl' where im: "arena' = Some \<lparr>arena_impl = Some impl'\<rparr>"
    using alloc_served(1) [OF ok(1) _ _ eq] demo_os_ok ok(2) by auto
  have "\<forall>a n. os_munmap demo_os a n" by (simp add: demo_os_def)
  note d = arena_destroy_restores [OF one_reach(1) arena_alloc [OF demo_arena_start eq [unfolded im]] demo_os_ok this]
  show ?thesis using d unfolding eq im by (simp add: one_run one_reach(2) case_prod_unfold)
qed

end
