(* ===== verification/Object_Pool.thy ===== *)
theory Object_Pool
  imports Heap_Facts
begin

text \<open>
  \<^verbatim>\<open>src/memory/object_pool.c\<close>: a cache of objects of one size on top of \<^verbatim>\<open>vl_malloc\<close> and \<^verbatim>\<open>vl_free\<close>.  What the pool relies on is
  the locale \<open>block_allocator\<close>, interpreted on the allocator of \<^verbatim>\<open>valloc.c\<close>.  The list of items is a HOL list; the C
  library's \<^verbatim>\<open>calloc\<close> for the items is an argument.
\<close>

section \<open>The interface of the allocator\<close>

locale block_allocator =
  fixes alloc :: "usize \<Rightarrow> 's \<Rightarrow> addr \<times> 's"
    and free :: "addr \<Rightarrow> 's \<Rightarrow> 's"
    and blocks :: "'s \<Rightarrow> addr \<rightharpoonup> usize"
    and good :: "'s \<Rightarrow> bool"
  assumes alloc_good: "good s \<Longrightarrow> alloc n s = (u, s') \<Longrightarrow> good s'"
    and alloc_fail: "good s \<Longrightarrow> alloc n s = (NULL, s') \<Longrightarrow> blocks s' = blocks s"
    and alloc_block: "good s \<Longrightarrow> alloc n s = (u, s') \<Longrightarrow> u \<noteq> NULL \<Longrightarrow>
      blocks s u = None \<and> blocks s' = (blocks s)(u \<mapsto> at_least_one n)"
    and free_good: "good s \<Longrightarrow> u \<in> dom (blocks s) \<Longrightarrow> good (free u s)"
    and free_block: "good s \<Longrightarrow> u \<in> dom (blocks s) \<Longrightarrow> blocks (free u s) = (blocks s)(u := None)"
begin

lemma alloc_fresh:
  assumes "good s" "alloc n s = (u, s')" "u \<noteq> NULL" "set us \<subseteq> dom (blocks s)"
  shows "u \<notin> set us" "set us \<subseteq> dom (blocks s')"
  using alloc_block [OF assms(1-3)] assms(4) by auto

lemma free_all:
  assumes "good s" "distinct us" "set us \<subseteq> dom (blocks s)"
  shows "good (fold free us s) \<and> blocks (fold free us s) = (blocks s) |` (- set us)"
  using assms
proof (induction us arbitrary: s)
  case (Cons u us)
  have u: "u \<in> dom (blocks s)" using Cons.prems(3) by simp
  note f = free_good [OF Cons.prems(1) u] free_block [OF Cons.prems(1) u]
  have "set us \<subseteq> dom (blocks (free u s))" using Cons.prems(2,3) f(2) by auto
  then have "good (fold free us (free u s)) \<and> blocks (fold free us (free u s)) = (blocks (free u s)) |` (- set us)"
    using Cons.IH f(1) Cons.prems(2) by simp
  then show ?case using f(2) by (auto simp: restrict_map_def fun_eq_iff)
qed (simp add: restrict_map_def)

end

interpretation vl: block_allocator "vl_malloc os p" "vl_free os p" live "\<lambda>st. heap_ok st \<and> os_ok (ms_page_size st) os" for os p
proof unfold_locales
  fix s s' n u
  assume s: "heap_ok s \<and> os_ok (ms_page_size s) os"
  {
    assume "vl_malloc os p n s = (u, s')"
    note m = malloc_ok [OF _ _ this]
    show "heap_ok s' \<and> os_ok (ms_page_size s') os" using m s by simp
    show "live s u = None \<and> live s' = (live s)(u \<mapsto> at_least_one n)" if "u \<noteq> NULL" using m s that by simp
  }
  show "live s' = live s" if "vl_malloc os p n s = (NULL, s')" using malloc_ok [OF _ _ that] s by simp
  {
    assume "u \<in> dom (live s)"
    then obtain k where "live s u = Some k" by blast
    note f = free_ok [OF _ this, of os p]
    show "heap_ok (vl_free os p u s) \<and> os_ok (ms_page_size (vl_free os p u s)) os" using f s by simp
    show "live (vl_free os p u s) = (live s)(u := None)" using f s by simp
  }
qed

section \<open>Definitions\<close>

record vl_pool_item =
  pi_object :: addr
  pi_active :: bool

record vl_pool_impl =
  pl_object_size :: usize
  pl_items :: "vl_pool_item list"

record vl_pool =
  pool_impl :: "vl_pool_impl option"

definition vl_pool_init ::
  "bool \<Rightarrow> vl_os \<Rightarrow> vl_pool option \<Rightarrow> usize \<Rightarrow> vl_memory_state \<Rightarrow> vl_status \<times> vl_pool option \<times> vl_memory_state" where
  "vl_pool_init calloc_ok os pool object_size st =
     (case pool of
        None \<Rightarrow> (VL_ERROR_INVALID_ARGUMENT, pool, st)
      | Some h \<Rightarrow>
          if pool_impl h \<noteq> None \<or> object_size = 0 then (VL_ERROR_INVALID_ARGUMENT, pool, st)
          else
            (case vl_memory_ensure_initialized os st of
               (status, st1) \<Rightarrow>
                 if status \<noteq> VL_OK then (VL_ERROR_INVALID_STATE, pool, st1)
                 else if \<not> calloc_ok then (VL_ERROR_OUT_OF_MEMORY, pool, st1)
                 else (VL_OK, Some (h\<lparr>pool_impl := Some \<lparr>pl_object_size = object_size, pl_items = []\<rparr>\<rparr>), st1)))"

text \<open>The loop of \<^verbatim>\<open>vl_pool_alloc\<close>: the first item that is not in use.\<close>

fun pool_reuse :: "vl_pool_item list \<Rightarrow> (addr \<times> vl_pool_item list) option" where
  "pool_reuse [] = None"
| "pool_reuse (item # items) =
     (if \<not> pi_active item then Some (pi_object item, item\<lparr>pi_active := True\<rparr> # items)
      else map_option (\<lambda>(ptr, items1). (ptr, item # items1)) (pool_reuse items))"

definition vl_pool_alloc ::
  "bool \<Rightarrow> vl_os \<Rightarrow> nat \<Rightarrow> vl_pool option \<Rightarrow> vl_memory_state \<Rightarrow> addr \<times> vl_pool option \<times> vl_memory_state" where
  "vl_pool_alloc calloc_ok os p pool st =
     (case pool of
        None \<Rightarrow> (NULL, pool, st)
      | Some h \<Rightarrow>
          (case pool_impl h of
             None \<Rightarrow> (NULL, pool, st)
           | Some impl \<Rightarrow>
               (case vl_memory_ensure_initialized os st of
                  (status, st1) \<Rightarrow>
                    if status \<noteq> VL_OK then (NULL, pool, st1)
                    else
                      (case pool_reuse (pl_items impl) of
                         Some (ptr, items) \<Rightarrow> (ptr, Some (h\<lparr>pool_impl := Some (impl\<lparr>pl_items := items\<rparr>)\<rparr>), st1)
                       | None \<Rightarrow>
                           if \<not> calloc_ok then (NULL, pool, st1)
                           else
                             (case vl_malloc os p (pl_object_size impl) st1 of
                                (object, st2) \<Rightarrow>
                                  if object = NULL then (NULL, pool, st2)
                                  else (object,
                                        Some (h\<lparr>pool_impl := Some (impl\<lparr>pl_items := \<lparr>pi_object = object, pi_active = True\<rparr> # pl_items impl\<rparr>)\<rparr>),
                                        st2))))))"

text \<open>The loop of \<^verbatim>\<open>vl_pool_free\<close>; \<^verbatim>\<open>vl_debug_abort\<close> does nothing in the default build.\<close>

fun pool_return :: "addr \<Rightarrow> vl_pool_item list \<Rightarrow> vl_status \<times> vl_pool_item list" where
  "pool_return ptr [] = (VL_ERROR_INVALID_ARGUMENT, [])"
| "pool_return ptr (item # items) =
     (if pi_object item = ptr
      then if \<not> pi_active item then (VL_ERROR_INVALID_STATE, item # items) else (VL_OK, item\<lparr>pi_active := False\<rparr> # items)
      else (case pool_return ptr items of (status, items1) \<Rightarrow> (status, item # items1)))"

definition vl_pool_free :: "vl_pool option \<Rightarrow> addr \<Rightarrow> vl_memory_state \<Rightarrow> vl_status \<times> vl_pool option" where
  "vl_pool_free pool ptr st =
     (case pool of
        None \<Rightarrow> (VL_ERROR_INVALID_ARGUMENT, pool)
      | Some h \<Rightarrow>
          if ptr = NULL then (VL_ERROR_INVALID_ARGUMENT, pool)
          else if \<not> vl_memory_is_owner st then (VL_ERROR_INVALID_STATE, pool)
          else
            (case pool_impl h of
               None \<Rightarrow> (VL_ERROR_INVALID_STATE, pool)
             | Some impl \<Rightarrow>
                 (case pool_return ptr (pl_items impl) of
                    (status, items) \<Rightarrow> (status, Some (h\<lparr>pool_impl := Some (impl\<lparr>pl_items := items\<rparr>)\<rparr>)))))"

definition vl_pool_object_size :: "vl_pool option \<Rightarrow> usize" where
  "vl_pool_object_size pool =
     (case pool of None \<Rightarrow> 0 | Some h \<Rightarrow> (case pool_impl h of None \<Rightarrow> 0 | Some impl \<Rightarrow> pl_object_size impl))"

definition vl_pool_destroy :: "vl_os \<Rightarrow> nat \<Rightarrow> vl_pool option \<Rightarrow> vl_memory_state \<Rightarrow> vl_pool option \<times> vl_memory_state" where
  "vl_pool_destroy os p pool st =
     (case pool of
        None \<Rightarrow> (pool, st)
      | Some h \<Rightarrow>
          if \<not> vl_memory_is_owner st then (pool, st)
          else
            (case pool_impl h of
               None \<Rightarrow> (pool, st)
             | Some impl \<Rightarrow> (Some (h\<lparr>pool_impl := None\<rparr>), fold (\<lambda>item s. vl_free os p (pi_object item) s) (pl_items impl) st)))"

section \<open>The objects in use\<close>

definition pool_objects :: "vl_pool_impl \<Rightarrow> addr list" where
  "pool_objects impl = map pi_object (pl_items impl)"

primrec actives :: "vl_pool_item list \<Rightarrow> addr set" where
  "actives [] = {}"
| "actives (i # items) = (if pi_active i then {pi_object i} else {}) \<union> actives items"

lemma actives_objects: "actives items \<subseteq> pi_object ` set items"
  by (induction items) auto

lemma reuse_spec:
  assumes "pool_reuse items = Some (ptr, items')" "distinct (map pi_object items)"
  shows "map pi_object items' = map pi_object items \<and> ptr \<in> pi_object ` set items \<and> ptr \<notin> actives items \<and> actives items' = insert ptr (actives items)"
  using assms
proof (induction items arbitrary: items')
  case (Cons i items)
  show ?case
  proof (cases "pi_active i")
    case True
    then obtain items1 where r: "pool_reuse items = Some (ptr, items1)" "items' = i # items1" using Cons.prems(1) by auto
    have "ptr \<noteq> pi_object i" using Cons.IH [OF r(1)] Cons.prems(2) by auto
    then show ?thesis using Cons.IH [OF r(1)] Cons.prems(2) r(2) True by auto
  next
    case False
    then show ?thesis using Cons.prems actives_objects [of items] by auto
  qed
qed simp

lemma return_spec:
  assumes "distinct (map pi_object items)" "pool_return ptr items = (status, items')"
  shows "map pi_object items' = map pi_object items \<and> actives items' = actives items - (if status = VL_OK then {ptr} else {})
    \<and> (status = VL_OK \<longleftrightarrow> ptr \<in> actives items)
    \<and> (status = VL_ERROR_INVALID_STATE \<longleftrightarrow> ptr \<in> pi_object ` set items - actives items)
    \<and> (status = VL_ERROR_INVALID_ARGUMENT \<longleftrightarrow> ptr \<notin> pi_object ` set items)"
  using assms
proof (induction items arbitrary: status items')
  case (Cons i items)
  show ?case
  proof (cases "pi_object i = ptr")
    case True
    then have "ptr \<notin> actives items" using Cons.prems(1) actives_objects [of items] by auto
    then show ?thesis using True Cons.prems by (auto split: if_splits)
  next
    case False
    obtain st1 items1 where r: "pool_return ptr items = (st1, items1)" by fastforce
    then have "status = st1" "items' = i # items1" using Cons.prems(2) False by auto
    then show ?thesis using Cons.IH [OF _ r] Cons.prems(1) False by auto
  qed
qed simp

section \<open>Runs of a pool beside other clients\<close>

text \<open>The other clients neither free nor write to what the pool owns.\<close>

inductive pool_reach :: "usize \<Rightarrow> vl_pool_impl \<Rightarrow> vl_memory_state \<Rightarrow> bool" for page where
  pool_start: "heap_reach page st \<Longrightarrow> os_ok page os \<Longrightarrow>
     vl_pool_init calloc_ok os (Some \<lparr>pool_impl = None\<rparr>) n st = (VL_OK, Some \<lparr>pool_impl = Some impl\<rparr>, st') \<Longrightarrow> pool_reach page impl st'"
| pool_alloc: "pool_reach page impl st \<Longrightarrow> os_ok page os \<Longrightarrow>
     vl_pool_alloc calloc_ok os p (Some \<lparr>pool_impl = Some impl\<rparr>) st = (q, Some \<lparr>pool_impl = Some impl'\<rparr>, st') \<Longrightarrow> pool_reach page impl' st'"
| pool_free: "pool_reach page impl st \<Longrightarrow>
     vl_pool_free (Some \<lparr>pool_impl = Some impl\<rparr>) u st = (status, Some \<lparr>pool_impl = Some impl'\<rparr>) \<Longrightarrow> pool_reach page impl' st"
| other_malloc: "pool_reach page impl st \<Longrightarrow> os_ok page os \<Longrightarrow> vl_malloc os p n st = (u, st') \<Longrightarrow> pool_reach page impl st'"
| other_free: "pool_reach page impl st \<Longrightarrow> os_ok page os \<Longrightarrow> u \<in> dom (live st) - set (pool_objects impl) \<Longrightarrow>
     pool_reach page impl (vl_free os p u st)"
| other_calloc: "pool_reach page impl st \<Longrightarrow> os_ok page os \<Longrightarrow> vl_calloc os p m n st = (u, st') \<Longrightarrow> pool_reach page impl st'"
| other_realloc: "pool_reach page impl st \<Longrightarrow> os_ok page os \<Longrightarrow> u \<in> dom (live st) - set (pool_objects impl) \<Longrightarrow>
     vl_realloc os p u n st = (r, st') \<Longrightarrow> pool_reach page impl st'"
| any_write: "pool_reach page impl st \<Longrightarrow> live st u = Some n \<Longrightarrow> unat a \<in> cells u n \<Longrightarrow>
     pool_reach page impl (st\<lparr>ms_mem := (ms_mem st)(a := v)\<rparr>)"

definition pool_inv :: "usize \<Rightarrow> vl_pool_impl \<Rightarrow> vl_memory_state \<Rightarrow> bool" where
  "pool_inv page impl st \<longleftrightarrow> heap_ok st \<and> ms_page_size st = page \<and> pl_object_size impl \<noteq> 0 \<and> distinct (pool_objects impl)
     \<and> (\<forall>u \<in> set (pool_objects impl). live st u = Some (pl_object_size impl))"

text \<open>What \<^verbatim>\<open>vl_pool_alloc\<close> does.\<close>

definition pool_gave :: "vl_pool_impl \<Rightarrow> vl_memory_state \<Rightarrow> addr \<Rightarrow> vl_pool_impl \<Rightarrow> vl_memory_state \<Rightarrow> bool" where
  "pool_gave impl st q impl' st' \<longleftrightarrow> q \<notin> actives (pl_items impl) \<and> actives (pl_items impl') = insert q (actives (pl_items impl))
     \<and> (q \<in> set (pool_objects impl) \<and> st' = st \<and> pool_objects impl' = pool_objects impl
        \<or> live st q = None \<and> live st' = (live st)(q \<mapsto> pl_object_size impl) \<and> pool_objects impl' = q # pool_objects impl)
     \<and> pl_object_size impl' = pl_object_size impl \<and> (\<forall>v \<in> dom (live st). same_block st st' v)"

lemma pool_alloc_ok:
  assumes inv: "pool_inv page impl st" and os: "os_ok page os"
    and out: "vl_pool_alloc calloc_ok os p (Some \<lparr>pool_impl = Some impl\<rparr>) st = (q, pool', st')"
  shows "\<exists>impl'. pool' = Some \<lparr>pool_impl = Some impl'\<rparr> \<and> pool_inv page impl' st'
    \<and> (if q = NULL then impl' = impl \<and> live st' = live st \<and> (\<forall>v \<in> dom (live st). same_block st st' v) else pool_gave impl st q impl' st')"
proof -
  note i = inv [unfolded pool_inv_def]
  have good: "heap_ok st \<and> os_ok (ms_page_size st) os" using i os by simp
  have ini: "vl_memory_ensure_initialized os st = (VL_OK, st)"
    using i layoutD(1) by (auto simp: heap_ok_def heap_at_def intro: initialized_ensure)
  have nn: "u \<noteq> NULL" if "u \<in> set (pool_objects impl)" for u
  proof -
    obtain loc where "heap_at st loc" using i by (auto simp: heap_ok_def)
    moreover have "u \<in> dom (live st)" using i that by auto
    ultimately show ?thesis using extent_inside(2) by fastforce
  qed
  show ?thesis
  proof (cases "pool_reuse (pl_items impl)")
    case (Some r)
    obtain ptr items where r: "r = (ptr, items)" by fastforce
    have s: "map pi_object items = map pi_object (pl_items impl) \<and> ptr \<in> pi_object ` set (pl_items impl)
        \<and> ptr \<notin> actives (pl_items impl) \<and> actives items = insert ptr (actives (pl_items impl))"
      using reuse_spec [of "pl_items impl" ptr items] Some r i by (simp add: pool_objects_def)
    have "q = ptr" "pool' = Some \<lparr>pool_impl = Some (impl\<lparr>pl_items := items\<rparr>)\<rparr>" "st' = st"
      using out Some r ini by (simp_all add: vl_pool_alloc_def)
    moreover have "pool_objects (impl\<lparr>pl_items := items\<rparr>) = pool_objects impl" "ptr \<in> set (pool_objects impl)"
      using s by (simp_all add: pool_objects_def)
    ultimately show ?thesis using s i nn [of ptr] by (simp add: pool_gave_def pool_inv_def same_block_def)
  next
    case None
    obtain u st1 where m: "vl_malloc os p (pl_object_size impl) st = (u, st1)" by fastforce
    have eq: "(q, pool', st') = (if \<not> calloc_ok then (NULL, Some \<lparr>pool_impl = Some impl\<rparr>, st)
        else if u = NULL then (NULL, Some \<lparr>pool_impl = Some impl\<rparr>, st1)
        else (u, Some \<lparr>pool_impl = Some (impl\<lparr>pl_items := \<lparr>pi_object = u, pi_active = True\<rparr> # pl_items impl\<rparr>)\<rparr>, st1))"
      unfolding out [symmetric] vl_pool_alloc_def using None m ini by simp
    note mo = malloc_ok [OF conjunct1 [OF good] conjunct2 [OF good] m]
    have sz: "at_least_one (pl_object_size impl) = pl_object_size impl" using i by (simp add: at_least_one_def)
    have keep: "same_block st st1 v" if "v \<in> dom (live st)" for v
      using mo that unfolding intact_blocks by (cases "u = NULL") auto
    have ok1: "heap_ok st1" "ms_page_size st1 = page" using mo i by auto
    show ?thesis
    proof (cases "calloc_ok \<and> u \<noteq> NULL")
      case True
      have a: "live st u = None" "live st1 = (live st)(u \<mapsto> pl_object_size impl)" using vl.alloc_block [OF good m] True sz by auto
      have "set (pool_objects impl) \<subseteq> dom (live st)" using i by auto
      then have f: "u \<notin> set (pool_objects impl)" using vl.alloc_fresh(1) [OF good m] True by blast
      have "u \<notin> actives (pl_items impl)" using f actives_objects [of "pl_items impl"] by (auto simp: pool_objects_def)
      then show ?thesis using True eq a f i ok1 keep by (auto simp: pool_gave_def pool_inv_def pool_objects_def)
    next
      case False
      then show ?thesis using eq vl.alloc_fail [OF good, of p "pl_object_size impl" st1] m i ok1 keep inv
        by (auto simp: pool_inv_def same_block_def split: if_splits)
    qed
  qed
qed

lemma pool_free_ok:
  assumes inv: "pool_inv page impl st" and u: "u \<noteq> NULL"
    and out: "vl_pool_free (Some \<lparr>pool_impl = Some impl\<rparr>) u st = (status, pool')"
  shows "\<exists>impl'. pool' = Some \<lparr>pool_impl = Some impl'\<rparr> \<and> pool_inv page impl' st \<and> pool_objects impl' = pool_objects impl
    \<and> actives (pl_items impl') = actives (pl_items impl) - (if status = VL_OK then {u} else {})
    \<and> (status = VL_OK \<longleftrightarrow> u \<in> actives (pl_items impl))
    \<and> (status = VL_ERROR_INVALID_STATE \<longleftrightarrow> u \<in> set (pool_objects impl) - actives (pl_items impl))
    \<and> (status = VL_ERROR_INVALID_ARGUMENT \<longleftrightarrow> u \<notin> set (pool_objects impl))"
proof -
  note i = inv [unfolded pool_inv_def]
  have own: "vl_memory_is_owner st" using i layoutD(1) by (auto simp: heap_ok_def heap_at_def vl_memory_is_owner_def)
  obtain s items where r: "pool_return u (pl_items impl) = (s, items)" by fastforce
  then have eq: "status = s" "pool' = Some \<lparr>pool_impl = Some (impl\<lparr>pl_items := items\<rparr>)\<rparr>"
    using out own u by (simp_all add: vl_pool_free_def)
  note rs = return_spec [OF _ r]
  have d: "distinct (map pi_object (pl_items impl))" using i by (simp add: pool_objects_def)
  then have po: "pool_objects (impl\<lparr>pl_items := items\<rparr>) = pool_objects impl" using rs by (simp add: pool_objects_def)
  have so: "set (pool_objects impl) = pi_object ` set (pl_items impl)" by (simp add: pool_objects_def)
  have "pool_inv page (impl\<lparr>pl_items := items\<rparr>) st" using i po by (simp add: pool_inv_def)
  then show ?thesis using rs [OF d] po eq unfolding so by auto
qed

lemma pool_reach_inv: "pool_reach page impl st \<Longrightarrow> pool_inv page impl st"
proof (induction rule: pool_reach.induct)
  case (pool_start st os calloc_ok n impl st')
  have ok: "heap_ok st" "ms_page_size st = page" using reach_ok [OF pool_start(1)] by auto
  then have "vl_memory_ensure_initialized os st = (VL_OK, st)"
    using layoutD(1) by (auto simp: heap_ok_def heap_at_def intro: initialized_ensure)
  then have "st' = st" "impl = \<lparr>pl_object_size = n, pl_items = []\<rparr>" "n \<noteq> 0"
    using pool_start(3) by (auto simp: vl_pool_init_def split: if_splits)
  then show ?case using ok by (simp add: pool_inv_def pool_objects_def)
next
  case (pool_alloc impl st os calloc_ok p q impl' st')
  then show ?case using pool_alloc_ok by fastforce
next
  case (pool_free impl st u status impl')
  show ?case
  proof (cases "u = NULL")
    case True
    then show ?thesis using pool_free by (simp add: vl_pool_free_def)
  next
    case False
    then show ?thesis using pool_free_ok [OF pool_free.IH False pool_free.hyps(2)] by auto
  qed
next
  case (other_malloc impl st os p n u st')
  note i = other_malloc.IH [unfolded pool_inv_def]
  have good: "heap_ok st \<and> os_ok (ms_page_size st) os" using i other_malloc.hyps by simp
  have "live st' v = live st v" if "v \<in> set (pool_objects impl)" for v
    using vl.alloc_fail [OF good] vl.alloc_block [OF good other_malloc.hyps(3)] other_malloc.hyps(3) i that by (cases "u = NULL") auto
  then show ?case using i malloc_ok [OF conjunct1 [OF good] conjunct2 [OF good] other_malloc.hyps(3)] by (simp add: pool_inv_def)
next
  case (other_free impl st os u p)
  note i = other_free.IH [unfolded pool_inv_def]
  obtain k where "live st u = Some k" using other_free.hyps(3) by blast
  then show ?case using free_ok [of st u k os p] i other_free.hyps(3) by (auto simp: pool_inv_def)
next
  case (other_calloc impl st os p m n u st')
  note i = other_calloc.IH [unfolded pool_inv_def]
  have ok: "heap_ok st" "os_ok (ms_page_size st) os" using i other_calloc.hyps by simp_all
  show ?case using i calloc_ok [OF ok other_calloc.hyps(3)] by (cases "u = NULL") (auto simp: pool_inv_def)
next
  case (other_realloc impl st os u p n r st')
  note i = other_realloc.IH [unfolded pool_inv_def]
  obtain k where k: "live st u = Some k" "u \<notin> set (pool_objects impl)" using other_realloc.hyps(3) by blast
  have ok: "heap_ok st" "os_ok (ms_page_size st) os" using i other_realloc.hyps by simp_all
  show ?case
  proof (cases "n = 0")
    case True
    obtain loc where hp: "heap_at st loc" using ok by (auto simp: heap_ok_def)
    have "u \<noteq> NULL" using extent_inside(2) [OF hp] k(1) by fastforce
    then have "st' = vl_free os p u st" using True other_realloc.hyps(4) by (simp add: vl_realloc_def)
    then show ?thesis using free_ok [OF ok(1) k(1), of os p] i k(2) by (auto simp: pool_inv_def)
  next
    case False
    have "live st' v = live st v" if "v \<in> set (pool_objects impl)" for v
      using realloc_ok [OF ok k(1) False other_realloc.hyps(4)] i k(2) that by (cases "r = NULL") (auto simp: reallocated_def)
    then show ?thesis using realloc_ok [OF ok k(1) False other_realloc.hyps(4)] i by (simp add: pool_inv_def)
  qed
next
  case (any_write impl st u n a v)
  note i = any_write.IH [unfolded pool_inv_def]
  obtain loc where hp: "heap_at st loc" using i by (auto simp: heap_ok_def)
  define m where "m = (ms_mem st)(a := v)"
  have out: "m x = ms_mem st x" if "unat x \<notin> extent st u" for x
    using that cells_extent(1) [OF hp any_write.hyps(2)] any_write.hyps(3) by (auto simp: m_def)
  have "u \<in> dom (live st)" using any_write.hyps(2) by auto
  note w = write_ok [OF hp this out]
  then show ?case unfolding m_def [symmetric] using i by (auto simp: pool_inv_def heap_ok_def)
qed

section \<open>Properties\<close>

text \<open>C38: A pool, used beside other clients of the allocator, hands an object out to one user at a time: \<^verbatim>\<open>vl_pool_alloc\<close> returns an
  object of the pool's size that is not in use, and it is in use from then on, or \<^verbatim>\<open>NULL\<close> and nothing changes for anybody;
  \<^verbatim>\<open>vl_pool_free\<close> succeeds exactly for an object in use, takes exactly it out of use, and tells an object that is not in
  use from an address that is not the pool's.\<close>

theorem pool_hands_out_once:
  assumes reach: "pool_reach page impl st" and os: "os_ok page os"
    and alloc: "vl_pool_alloc calloc_ok os p (Some \<lparr>pool_impl = Some impl\<rparr>) st = (q, pool1, st1)"
    and free: "vl_pool_free (Some \<lparr>pool_impl = Some impl\<rparr>) u st = (status, pool2)" "u \<noteq> NULL"
  shows "(if q = NULL then pool1 = Some \<lparr>pool_impl = Some impl\<rparr> \<and> live st1 = live st
      else \<exists>impl1. pool1 = Some \<lparr>pool_impl = Some impl1\<rparr> \<and> q \<notin> actives (pl_items impl)
        \<and> actives (pl_items impl1) = insert q (actives (pl_items impl)) \<and> live st1 q = Some (pl_object_size impl)
        \<and> (q \<in> set (pool_objects impl) \<and> live st1 = live st \<or> live st q = None \<and> live st1 = (live st)(q \<mapsto> pl_object_size impl)))
    \<and> (\<forall>v \<in> dom (live st). same_block st st1 v)
    \<and> (\<exists>impl2. pool2 = Some \<lparr>pool_impl = Some impl2\<rparr>
        \<and> actives (pl_items impl2) = actives (pl_items impl) - (if status = VL_OK then {u} else {})
        \<and> status = (if u \<in> actives (pl_items impl) then VL_OK
            else if u \<in> set (pool_objects impl) then VL_ERROR_INVALID_STATE else VL_ERROR_INVALID_ARGUMENT))"
proof -
  note inv = pool_reach_inv [OF reach]
  obtain impl1 where a: "pool1 = Some \<lparr>pool_impl = Some impl1\<rparr>"
    "if q = NULL then impl1 = impl \<and> live st1 = live st \<and> (\<forall>v \<in> dom (live st). same_block st st1 v) else pool_gave impl st q impl1 st1"
    using pool_alloc_ok [OF inv os alloc] by blast
  have "live st q = Some (pl_object_size impl)" if "q \<in> set (pool_objects impl)" using inv that by (simp add: pool_inv_def)
  then have 1: "if q = NULL then pool1 = Some \<lparr>pool_impl = Some impl\<rparr> \<and> live st1 = live st
      else \<exists>impl1. pool1 = Some \<lparr>pool_impl = Some impl1\<rparr> \<and> q \<notin> actives (pl_items impl)
        \<and> actives (pl_items impl1) = insert q (actives (pl_items impl)) \<and> live st1 q = Some (pl_object_size impl)
        \<and> (q \<in> set (pool_objects impl) \<and> live st1 = live st \<or> live st q = None \<and> live st1 = (live st)(q \<mapsto> pl_object_size impl))"
    using a by (auto simp: pool_gave_def split: if_splits)
  have 2: "\<forall>v \<in> dom (live st). same_block st st1 v" using a(2) by (simp add: pool_gave_def split: if_splits)
  show ?thesis using 1 2 pool_free_ok [OF inv free(2,1)] actives_objects [of "pl_items impl"] by (auto simp: pool_objects_def)
qed

definition demo_pool :: vl_pool_impl where
  "demo_pool = \<lparr>pl_object_size = 40000, pl_items = [\<lparr>pi_object = 0x100000050, pi_active = True\<rparr>]\<rparr>"

lemma demo_pool_reach: "pool_reach 4096 demo_pool demo_one"
proof (rule pool_alloc [OF _ demo_os_ok])
  show "pool_reach 4096 \<lparr>pl_object_size = 40000, pl_items = []\<rparr> demo_start"
    by (rule pool_start [OF start_reach demo_os_ok, of True 40000]) (simp add: vl_pool_init_def initialized_ensure start_sel)
  show "vl_pool_alloc True demo_os 0 (Some \<lparr>pool_impl = Some \<lparr>pl_object_size = 40000, pl_items = []\<rparr>\<rparr>) demo_start
      = (0x100000050, Some \<lparr>pool_impl = Some demo_pool\<rparr>, demo_one)"
    by (simp add: vl_pool_alloc_def initialized_ensure start_sel one_run demo_pool_def)
qed

theorem pool_hands_out_once_witness:
  "case vl_pool_alloc True demo_os 0 (Some \<lparr>pool_impl = Some demo_pool\<rparr>) demo_one of (q, pool1, st1) \<Rightarrow>
     live st1 q = Some 40000 \<and> q \<noteq> 0x100000050 \<and> live st1 0x100000050 = Some 40000
     \<and> fst (vl_pool_free (Some \<lparr>pool_impl = Some demo_pool\<rparr>) 0x100000050 demo_one) = VL_OK"
proof -
  obtain q pool1 st1 where a: "vl_pool_alloc True demo_os 0 (Some \<lparr>pool_impl = Some demo_pool\<rparr>) demo_one = (q, pool1, st1)"
    by (cases rule: prod_cases3)
  obtain status pool2 where f: "vl_pool_free (Some \<lparr>pool_impl = Some demo_pool\<rparr>) 0x100000050 demo_one = (status, pool2)" by fastforce
  have "fst (vl_malloc demo_os 0 40000 demo_one) = 0x200000050"
    by (simp add: large_run one_run large_index area_div demo_os_def Let_def)
  then have q: "q = 0x200000050"
    using a by (auto simp: vl_pool_alloc_def initialized_ensure one_run demo_pool_def split: prod.splits if_splits)
  note h = pool_hands_out_once [OF demo_pool_reach demo_os_ok a f]
  have "actives (pl_items demo_pool) = {0x100000050}" "pool_objects demo_pool = [0x100000050]" "pl_object_size demo_pool = 40000"
    by (simp_all add: demo_pool_def pool_objects_def)
  then show ?thesis using h q unfolding a f by (auto simp: one_reach(2))
qed

lemma frees_intact:
  assumes "heap_ok st \<and> os_ok (ms_page_size st) os" "distinct us" "set us \<subseteq> dom (live st)"
  shows "intact st (fold (vl_free os p) us st)"
  using assms
proof (induction us arbitrary: st)
  case Nil
  then show ?case by (simp add: intact_def)
next
  case (Cons u us)
  let ?st = "vl_free os p u st"
  obtain k where "live st u = Some k" using Cons.prems(3) by auto
  then have f: "heap_ok ?st \<and> os_ok (ms_page_size ?st) os" "intact st ?st" "live ?st = (live st)(u := None)"
    using free_ok [of st u k os p] Cons.prems(1) by auto
  have sub: "set us \<subseteq> dom (live ?st)" using Cons.prems(2,3) f(3) by auto
  have IH: "intact ?st (fold (vl_free os p) us ?st)" using Cons.IH [OF f(1) _ sub] Cons.prems(2) by simp
  have "live (fold (vl_free os p) us ?st) = live ?st |` (- set us)" using vl.free_all [OF f(1) _ sub, of p] Cons.prems(2) by simp
  then have "dom (live (fold (vl_free os p) us ?st)) \<subseteq> dom (live ?st)" by auto
  then have "intact st (fold (vl_free os p) us ?st)" by (intro intact_trans [OF f(2) IH]) blast
  then show ?case by simp
qed

text \<open>C39: \<^verbatim>\<open>vl_pool_destroy\<close> frees every object of the pool, in use or not, and nothing else: the blocks of all other clients stay, with
  their bytes and headers.\<close>

theorem pool_destroy_frees_all:
  assumes reach: "pool_reach page impl st" and os: "os_ok page os"
  shows "case vl_pool_destroy os p (Some \<lparr>pool_impl = Some impl\<rparr>) st of (pool', st') \<Rightarrow>
      pool' = Some \<lparr>pool_impl = None\<rparr> \<and> heap_ok st' \<and> live st' = live st |` (- set (pool_objects impl))
      \<and> (\<forall>v \<in> dom (live st) - set (pool_objects impl). same_block st st' v)"
proof -
  have i: "heap_ok st \<and> os_ok (ms_page_size st) os" "distinct (pool_objects impl)" "set (pool_objects impl) \<subseteq> dom (live st)"
    using pool_reach_inv [OF reach] os by (auto simp: pool_inv_def)
  have own: "vl_memory_is_owner st" using i layoutD(1) by (auto simp: heap_ok_def heap_at_def vl_memory_is_owner_def)
  let ?st = "fold (vl_free os p) (pool_objects impl) st"
  have d: "vl_pool_destroy os p (Some \<lparr>pool_impl = Some impl\<rparr>) st = (Some \<lparr>pool_impl = None\<rparr>, ?st)"
    using own by (simp add: vl_pool_destroy_def pool_objects_def fold_map comp_def)
  have f: "heap_ok ?st" "live ?st = live st |` (- set (pool_objects impl))" using vl.free_all [OF i, of p] by simp_all
  then have "same_block st ?st v" if "v \<in> dom (live st) - set (pool_objects impl)" for v
    using frees_intact [OF i, of p] that unfolding intact_blocks by auto
  then show ?thesis unfolding d using f by simp
qed

theorem pool_destroy_frees_all_witness:
  "live (snd (vl_pool_destroy demo_os 0 (Some \<lparr>pool_impl = Some demo_pool\<rparr>) demo_one)) = Map.empty"
  using pool_destroy_frees_all [OF demo_pool_reach demo_os_ok, of 0]
  by (auto simp: one_reach(2) demo_pool_def pool_objects_def case_prod_unfold restrict_map_def fun_eq_iff)

end
