(* ===== verification/Http_Ends.thy ===== *)
theory Http_Ends
  imports Http_Service
begin

text \<open>
  Every connection comes to an end: the parser's buffer bounds the number of receives of
  \<^verbatim>\<open>vl_http_read_request\<close>, and a response has a bounded length.
\<close>

section \<open>Reading\<close>

text \<open>A kernel that stores the bytes it reports.\<close>

definition honest :: "recv_answer list \<Rightarrow> bool" where
  "honest recvs \<longleftrightarrow> list_all (\<lambda>r. case r of Recv st result bytes shutdown \<Rightarrow> result \<le> int (length bytes)) recvs"

lemma feed_grows:
  assumes inv: "parser_inv p" and nd: "\<not> http_done p" and feed: "vl_http_parser_feed p data = (VL_HTTP_PARSE_NEED_MORE, q)"
  shows "\<exists>old b. hp_buffer p = Some old \<and> hp_buffer q = Some b \<and> length b = length old + length data \<and> hp_capacity q = hp_capacity p"
proof -
  have p: "\<not> hp_complete p" "hp_error p = VL_HTTP_ERROR_NONE" "headers_ok (hp_request p)"
    using nd inv by (simp_all add: http_done_def parser_inv_def parser_ok_def)
  obtain old where old: "hp_buffer p = Some old" "\<not> length data > hp_capacity p - length old"
    using feed p by (auto simp: vl_http_parser_feed_def split: option.splits if_splits)
  let ?b = "old @ data"
  show ?thesis
  proof (cases "hp_header_end p \<noteq> 0 \<or> vl_http_find_header_end ?b = None")
    case True
    then show ?thesis using feed p old by (auto simp: vl_http_parser_feed_def feed_body_def Let_def split: if_splits option.splits)
  next
    case False
    then obtain he where he: "vl_http_find_header_end ?b = Some he" "hp_header_end p = 0" by auto
    obtain st p3 where h: "vl_http_parse_head (p\<lparr>hp_buffer := Some ?b, hp_header_end := he\<rparr>) ?b = (st, p3)" by fastforce
    have k: "hp_capacity p3 = hp_capacity p" "\<exists>b. hp_buffer p3 = Some b \<and> length b = length ?b"
      using parse_head_ok [OF h] p(3) by simp_all
    have "(VL_HTTP_PARSE_NEED_MORE, q) = feed_body p3 ?b"
      using feed p old he h by (simp add: vl_http_parser_feed_def Let_def split: if_splits)
    then have "q = p3" by (simp add: feed_body_def split: if_splits)
    then show ?thesis using k old(1) by auto
  qed
qed

lemma wire_length:
  assumes "response_ok r"
  shows "length (wire r) \<le> 2048"
proof -
  have "length (hexadecimal (length (rs_body r))) \<le> 3"
    using assms by (intro hexadecimal_length) (simp_all add: response_ok_def VL_HTTP_RESPONSE_BODY_def)
  moreover have "length (concat (body_parts r)) \<le> length (hexadecimal (length (rs_body r))) + length (rs_body r) + 9"
    by (simp add: body_parts_def)
  ultimately show ?thesis using head_fits [OF assms] assms by (simp add: wire_def response_ok_def VL_HTTP_RESPONSE_BODY_def)
qed

lemma error_answer:
  assumes "willing sends" "2048 \<le> length sends" "100 \<le> code" "code \<le> 599"
  shows "\<exists>out rest. vl_http_error_response sends code = Some (VL_OK, out, rest)"
proof -
  have ok: "response_ok (error_page code)" using assms by (simp add: error_page_ok)
  then show ?thesis using response_written [OF ok assms(1)] wire_length [OF ok] assms by (simp add: error_response_page) blast
qed

lemma read_ends:
  assumes "parser_inv p" "\<not> http_done p" "honest recvs" "recvs \<noteq> []"
    "\<forall>old. hp_buffer p = Some old \<longrightarrow> hp_capacity p < length old + length recvs" "willing sends" "2048 \<le> length sends"
  shows "\<exists>st q out rest. vl_http_read_request recvs sends p = Some (st, q, out, rest) \<and> (st = VL_OK \<longrightarrow> rest = sends)"
  using assms(1-5)
proof (induction recvs arbitrary: p)
  case (Cons r recvs)
  obtain st result bytes shutdown where r: "r = Recv st result bytes shutdown" by (cases r)
  show ?case
  proof (cases "st \<noteq> VL_OK \<or> result \<le> 0")
    case True
    then show ?thesis by (auto simp: r)
  next
    case good: False
    obtain s q where f: "vl_http_parser_feed p (take (nat result) bytes) = (s, q)" by fastforce
    note fs = feed_status [OF Cons.prems(2) f]
    show ?thesis
    proof (cases s)
      case VL_HTTP_PARSE_COMPLETE
      then show ?thesis using good f by (simp add: r)
    next
      case VL_HTTP_PARSE_ERROR
      then have e: "hp_error q \<noteq> VL_HTTP_ERROR_NONE" using fs by (auto split: if_splits)
      obtain out rest where "vl_http_error_response sends (vl_http_error_code (hp_error q)) = Some (VL_OK, out, rest)"
        using error_answer [OF assms(6,7)] error_code_range [OF e] by blast
      moreover have "vl_http_error_code (hp_error q) \<noteq> 0" using error_code_range [OF e] by auto
      ultimately show ?thesis using VL_HTTP_PARSE_ERROR good f by (simp add: r vl_http_parser_error_def Let_def)
    next
      case VL_HTTP_PARSE_NEED_MORE
      then have nd: "\<not> http_done q" using fs by (auto simp: http_done_def split: if_splits)
      have inv: "parser_inv q" using feed_inv [OF Cons.prems(1), of "take (nat result) bytes"] f by simp
      obtain old b where g: "hp_buffer p = Some old" "hp_buffer q = Some b" "length b = length old + length (take (nat result) bytes)"
          "hp_capacity q = hp_capacity p"
        using feed_grows [OF Cons.prems(1,2)] f VL_HTTP_PARSE_NEED_MORE by blast
      have "1 \<le> length (take (nat result) bytes)" using good Cons.prems(3) by (simp add: r honest_def) linarith
      then have len: "hp_capacity q < length b + length recvs" using Cons.prems(5) g by fastforce
      have "length b \<le> hp_capacity q" using inv g(2) by (simp add: parser_inv_def parser_ok_def)
      then have "recvs \<noteq> []" using len by auto
      then have "\<exists>st q' out rest. vl_http_read_request recvs sends q = Some (st, q', out, rest) \<and> (st = VL_OK \<longrightarrow> rest = sends)"
        using Cons.IH [OF inv nd] Cons.prems(3) len g(2) by (simp add: honest_def)
      then show ?thesis using VL_HTTP_PARSE_NEED_MORE good f by (simp add: r)
    qed
  qed
qed simp

text \<open>The task gives its descriptor back, and the number of connections is what it was before the connection.\<close>

lemma connection_counted:
  assumes "vl_http_spawn_connection calloc_ok True (Some s) fd = (VL_OK, Some s1)"
    "vl_http_connection_task malloc_ok True recvs sends fd s1 so = Some (out, s2, so')"
  shows "s2 = s \<and> \<not> vl_socket_is_tracked fd so'"
proof
  show "s2 = s" using assms by (auto simp: vl_http_spawn_connection_def vl_http_connection_task_def Let_def split: if_splits)
  have "so' = snd (vl_socket_close True fd so)" using assms(2) by (auto simp: vl_http_connection_task_def)
  then show "\<not> vl_socket_is_tracked fd so'"
    by (auto simp: vl_socket_close_def vl_socket_is_tracked_def split: option.splits if_splits)
qed

text \<open>C40: The task of a connection ends.  Whatever the client sends, in pieces of at least one byte, the loop of
  \<^verbatim>\<open>vl_http_read_request\<close> receives at most \<^verbatim>\<open>2 ^ 17\<close> times before the request is complete, rejected, or the
  connection closed; and when the kernel takes at least one byte at a time and the handlers make their responses with the interface,
  \<^verbatim>\<open>vl_http_connection_run\<close> returns after at most 2048 sends.\<close>

theorem http_connection_ends:
  assumes "honest recvs" "2 ^ 17 \<le> length recvs" "willing sends" "2048 \<le> length sends"
    "\<forall>route \<in> set (hs_routes s). \<forall>request bytes response. response_ok response \<longrightarrow> response_ok (re_handler route request bytes response (re_user_data route))"
  shows "\<exists>result. vl_http_connection_run malloc_ok (Some s) recvs sends fd = Some result"
proof -
  let ?p = "vl_http_parser_init malloc_ok (Some (hs_config s))"
  have ok: "parser_ok ?p" by (rule init_ok)
  have inv: "parser_inv ?p" by (rule init_inv)
  have nd: "\<not> http_done ?p" by (simp add: http_done_def vl_http_parser_init_def Let_def)
  have cap: "hp_capacity ?p < length recvs" using ok assms(2) by (simp add: parser_ok_def)
  then have "recvs \<noteq> []" by auto
  then obtain st q out rest where r: "vl_http_read_request recvs sends ?p = Some (st, q, out, rest)" "st = VL_OK \<longrightarrow> rest = sends"
    using read_ends [OF inv nd assms(1) _ _ assms(3)] cap assms(4) by fastforce
  show ?thesis
  proof (cases "fd < 0 \<or> st \<noteq> VL_OK \<or> vl_http_parser_request (Some q) = None")
    case True
    then show ?thesis using r by (auto simp: vl_http_connection_run_def)
  next
    case False
    then obtain request where q: "vl_http_parser_request (Some q) = Some request" by auto
    have rest: "rest = sends" using r(2) False by simp
    show ?thesis
    proof (cases "vl_http_find_route (Some s) (Some (hr_method request)) (Some (hr_path request))")
      case None
      obtain out' rest' where "vl_http_error_response sends 404 = Some (VL_OK, out', rest')"
        using error_answer [OF assms(3), of 404] assms(4) by auto
      then show ?thesis using None False r q rest by (simp add: vl_http_connection_run_def)
    next
      case (Some route)
      then have "route \<in> set (hs_routes s)" by (auto simp: vl_http_find_route_def find_Some_iff)
      let ?resp = "re_handler route request (request_bytes q request) (vl_http_response_init\<lparr>rs_keep_alive := hr_keep_alive request\<rparr>) (re_user_data route)"
      have ok: "response_ok ?resp" using assms(5) \<open>route \<in> set (hs_routes s)\<close> response_ok_make(1,4) by blast
      obtain rest' where "vl_http_response_write sends ?resp = Some (VL_OK, wire ?resp, rest')"
        using response_written [OF ok assms(3)] wire_length [OF ok] assms(4) by auto
      then show ?thesis using Some False r q rest by (simp add: vl_http_connection_run_def Let_def)
    qed
  qed
qed

theorem http_connection_ends_witness:
  "\<exists>result. vl_http_connection_run True (Some (demo_server (\<lambda>req bytes resp u. resp)))
     (replicate (2 ^ 17) (received ''x'')) (replicate 2048 (VL_OK, 1)) 3 = Some result"
  by (rule http_connection_ends) (simp_all add: honest_def willing_def list_all_length demo_server_def)

end
