(* ===== verification/Spec2Isabelle.thy ===== *)
theory Spec2Isabelle
  imports Veloco_Prelude Run_Queue Chase_Lev Timer_Heap Intrusive_Queue Runtime_Core Sync_Base
    Semaphore Task_Mutex Wait_Group Channel Timer
    Worker Worker_Facts Runtime_System Runtime_Steps Scheduler Wakeup Timer_Race Http_Parser Http_Facts Http Http_Server Http_Service
    Memory_Base Valloc Heap_Layout Heap_Lists Heap_Moves Heap_Create Heap_Reuse Heap_Alloc Heap Heap_Runs Heap_Facts Arena Object_Pool Http_Ends Socket
begin

text \<open>
  A verification of veloco, an M:N task runtime in C with an HTTP server and an allocator of its own
  (\<^verbatim>\<open>src/src\<close> and \<^verbatim>\<open>src/include/veloco\<close>).

  \<^bold>\<open>The program.\<close>  A runtime (\<^verbatim>\<open>runtime/\<close>) has a fixed number of processors, each with a worker thread, a local
  work-stealing run queue and a heap of timers.  Tasks are fibers: a worker takes a task from its own queue, the
  global queue or, by stealing, another worker's queue, switches to its fiber, and gets control back when the task
  yields, parks or ends.  Tasks park on synchronization objects (\<^verbatim>\<open>sync/\<close>), timers (\<^verbatim>\<open>time/\<close>), joins and I/O
  (\<^verbatim>\<open>net/\<close>), and whoever completes the event makes them runnable again.  On top is an HTTP/1.1 server (\<^verbatim>\<open>http/\<close>) that
  runs one task per connection.  The allocator (\<^verbatim>\<open>memory/\<close>) serves small requests from spans of equal objects through
  caches per processor and large ones from mappings of their own; arenas and object pools build on it.

  \<^bold>\<open>Conventions.\<close>  \<^verbatim>\<open>size_t\<close> and \<^verbatim>\<open>uint64_t\<close> are 64-bit words where they can wrap; elsewhere an index is a natural
  number, and a lemma says why it cannot wrap.  Pointers to the objects of a component are ids into a store or, in the
  allocator, machine addresses; NULL is \<open>None\<close> or \<open>0\<close>.  Status codes are the datatype \<open>vl_status\<close>.  What the C library,
  the kernel and the clock answer is an argument of the definitions, and the handlers and the bodies of tasks are
  functions.  An operation under a mutex is one function on the state; code that takes a lock several times is split
  into one definition per critical section.  The memory is sequentially consistent.

  \<^bold>\<open>Theories, in the order of the code.\<close>
  \<^item> \<open>Veloco_Prelude\<close>: machine types, status codes, facts on words.
  \<^item> \<open>Run_Queue\<close>, \<open>Chase_Lev\<close> (\<^verbatim>\<open>runtime/run_queue.c\<close>): the work-stealing queue, once as functions, which implement a
    double-ended queue (locale \<open>work_deque\<close>), and once split at its atomic accesses and interleaved with any
    number of thieves: no item is lost or handed out twice.
  \<^item> \<open>Intrusive_Queue\<close>: the locale \<open>intrusive_fifo\<close> of the queues linked through their elements, interpreted on the
    queue of runnable tasks and on the wait queues.
  \<^item> \<open>Runtime_Core\<close> (\<^verbatim>\<open>runtime_internal.h\<close>, \<^verbatim>\<open>scheduler.c\<close>, \<^verbatim>\<open>task.c\<close>, \<^verbatim>\<open>context.c\<close>): the state \<open>vl_runtime_impl\<close>, tasks, wake-up,
    spawn, yield, join, cancellation, statistics.
  \<^item> \<open>Sync_Base\<close>, \<open>Semaphore\<close>, \<open>Task_Mutex\<close>, \<open>Wait_Group\<close>, \<open>Channel\<close> (\<^verbatim>\<open>sync/\<close>): all operations; permits are conserved,
    at most one task holds a mutex, a wait group counts exactly over the whole range of its argument, and a channel
    delivers what was sent, in order, each under arbitrary other activity of the runtime.
  \<^item> \<open>Timer_Heap\<close>, \<open>Timer\<close>, \<open>Timer_Race\<close> (\<^verbatim>\<open>time/\<close>): the binary heap (locale \<open>timer_queue\<close>) and the timers; push, pop, remove, arm, expire
    and cancel do exactly what they should, and rounding of the poll timeout is exact.  A timer that is armed
    again by another task while its first task is being resumed loses a wake-up: \<open>Timer_Race\<close> follows both tasks through the
    sections of their workers.
  \<^item> \<open>Worker\<close>, \<open>Worker_Facts\<close>, \<open>Runtime_System\<close>, \<open>Runtime_Steps\<close>, \<open>Scheduler\<close>, \<open>Wakeup\<close> (\<^verbatim>\<open>runtime/worker.c\<close>): all workers of a runtime as
    one transition system \<open>sys_step\<close>, whose steps are the critical sections, with its invariant; tasks execute
    exclusively and on the processor their fiber belongs to, no runnable task of a run is lost, the counters are exact, a run is
    declared stuck only when its tasks have finished or are parked, and a wake-up of a task that is still on its processor stays
    recorded until its worker queues the task.  A task spawned while a run ends can be lost.
  \<^item> \<open>Http_Parser\<close>, \<open>Http_Facts\<close>, \<open>Http\<close> (\<^verbatim>\<open>http/http_parser.c\<close>): the incremental parser with the functions of the C library it
    uses; pieces do not matter while they fit into the buffer, requests round-trip, limits are kept, and the content lengths that are accepted are
    characterised, a sign included.
  \<^item> \<open>Http_Server\<close>, \<open>Http_Service\<close>, \<open>Http_Ends\<close> (\<^verbatim>\<open>http_router.c\<close>, \<^verbatim>\<open>http_response.c\<close>, \<^verbatim>\<open>http_connection.c\<close>, \<^verbatim>\<open>http_server.c\<close>): routes,
    responses and connections; a handler gets the parsed request and the bytes of its body; a request is answered with exactly the
    response of its handler or the page of the error, and every connection's task ends, its socket closed and the connection
    no longer counted.
  \<^item> \<open>Socket\<close> (\<^verbatim>\<open>net/socket.c\<close>): the registry of descriptors with their generations; at most one request has a descriptor, a
    request on a descriptor that was closed is stale for good, and opening a socket leaks no descriptor.
  \<^item> \<open>Memory_Base\<close>, \<open>Valloc\<close> (\<^verbatim>\<open>memory/\<close>): the state of the allocator on byte memory, with its free lists linked through the
    objects themselves, and all its operations.
  \<^item> \<open>Heap_Layout\<close>, \<open>Heap_Lists\<close>, \<open>Heap_Moves\<close>, \<open>Heap_Create\<close>, \<open>Heap_Reuse\<close>, \<open>Heap_Alloc\<close>, \<open>Heap\<close>, \<open>Heap_Runs\<close>, \<open>Heap_Facts\<close>: its
    verification.  The layout of spans is free of overlap; every object is at one place, and moving it between
    lists is one lemma; creating, draining and returning spans keep the invariant \<open>heap_ok\<close>; and the operations
    implement the map \<open>live\<close> from blocks to sizes without touching the bytes of other blocks.
    One theorem shows an allocation that fails needlessly.
  \<^item> \<open>Arena\<close>, \<open>Object_Pool\<close> (\<^verbatim>\<open>memory/arena.c\<close>, \<^verbatim>\<open>memory/object_pool.c\<close>): arenas hand out fresh, aligned bytes and give all their mappings
    back; pools, written against the locale \<open>block_allocator\<close> that the allocator interprets, hand an object out to one user
    at a time and free everything in the end, beside other users that allocate, resize, free and write blocks.

  \<^bold>\<open>Hypotheses on code outside.\<close>  \<open>os_ok\<close> is the contract of \<^verbatim>\<open>sysconf\<close> and \<^verbatim>\<open>mmap\<close>: a constant page size between 4 KiB and 16 MiB, a
    power of two, and new mappings that are aligned to it, do not wrap and do not overlap others.  \<open>willing\<close> and \<open>honest\<close> say that a
    send takes at least one byte and that a receive stores the bytes it reports.  Each has an instance in the
    witnesses (\<open>demo_os\<close>).

  \<^bold>\<open>Bounds and fuel.\<close>  \<open>Scheduler\<close> looks at runs of at most \<open>2\<^sup>6\<^sup>0\<close> steps, so that the 64-bit positions of the run queues, which only
    grow, do not wrap.  The loops that consume the answers of the kernel have the value \<open>None\<close> when the answers run out, which
    is a task that is still parked; the theorem of \<open>Http_Ends\<close> gives \<open>2\<^sup>1\<^sup>7\<close> receives and 2048 sends as
    enough: the parser's buffer is smaller than \<open>2\<^sup>1\<^sup>7\<close> bytes and a response is at most 2048 bytes.  The refill and drain loops of the allocator count down from
    \<^verbatim>\<open>VL_CACHE_REFILL\<close>, as in the source, and the loops that take and steal tasks count up to the bounds the source gives
    them.  \<open>expire_loop\<close> has as fuel the length of the heap, of which each round pops one; the theorems on expiry of \<open>Timer\<close> show it enough.
    \<open>wake_joiners\<close>, which follows the chain of a task's joiners, has as fuel the number of tasks; \<open>complete_releases_joiners\<close> shows
    that it wakes the whole chain.  The other recursions are structural or have a termination proof.

  \<^bold>\<open>Not modelled.\<close>
  \<^item> The rest of \<^verbatim>\<open>net/\<close>: the epoll and io_uring backends and the I/O worker are driven by the kernel and by liburing; what the
    runtime sees of them, parking a task for I/O and completing it, is modelled in \<open>Runtime_Core\<close> and their answers are arguments
    of the HTTP server.
  \<^item> \<^verbatim>\<open>fiber/\<close>: switching contexts is assembly; what a fiber does between two switches is an argument of \<open>vl_worker_execute\<close>.
  \<^item> \<^verbatim>\<open>vl_runtime_init\<close>, \<^verbatim>\<open>vl_runtime_run\<close> and \<^verbatim>\<open>vl_runtime_shutdown\<close>: creating and joining threads; runs begin and end in \<open>run_begin\<close>
    and \<open>run_end\<close>.
  \<^item> \<^verbatim>\<open>memory/debug_allocator.c\<close>: its hooks are empty in the default build, which is the one modelled.
  \<^item> Weak memory: the orderings of the C11 atomics are taken as sequentially consistent.  Arenas run beside live blocks of
    the allocator, but not interleaved with its operations.  Faults: bytes of a region that was unmapped keep their value in the
    model instead of faulting, and the theorems speak of bytes in mappings only.  Operations of the allocator are atomic, which the
    code ensures by its lock, except in arenas.
\<close>

end
